(* ===== verification/Flash_Storage.thy ===== *)
theory Flash_Storage
  imports Prelude
begin

text \<open>
  The storage layer under the EEPROM emulation and the DCD
  (\<open>services/inc/flash_storage.h\<close>, \<open>flash_storage_impl.h\<close>, \<open>sflash_storage_impl.h\<close>).
  \<open>store_ops\<close> is the interface the two templates expect of their parameter \<open>Store\<close>; the
  three stores of the repository are records of that type: \<open>ram_store\<close> (the mock
  \<open>RAMFlashStorage\<close>, which also simulates a power failure after a number of byte
  writes), \<open>serial_store\<close> (\<open>SerialFlashStore\<close>) and \<open>internal_store\<close>
  (\<open>InternalFlashStore\<close>).  The chip drivers the last two call (\<open>sFLASH_WriteBuffer\<close>,
  \<open>FLASH_ProgramWord\<close>, ...) are not part of the repository: they are record
  arguments.

  The locale \<open>flash_store\<close> is the contract: NOR flash semantics (a write clears bits,
  an erase sets a sector to 0xFF) and what a power failure can leave behind.
\<close>

section \<open>The Store interface of the templates\<close>

record 's store_ops =
  st_write :: "nat \<Rightarrow> u8 list \<Rightarrow> 's \<Rightarrow> int \<times> 's"
  st_read :: "nat \<Rightarrow> nat \<Rightarrow> 's \<Rightarrow> u8 list"
  st_erase_sector :: "nat \<Rightarrow> 's \<Rightarrow> int \<times> 's"

section \<open>RAMFlashStorage\<close>

text \<open>The template parameters \<open>Base\<close>, \<open>Sectors\<close> and \<open>SectorSize\<close>.\<close>

record flash_geometry =
  fl_base :: nat
  fl_sectors :: nat
  fl_sector_size :: nat

record ram_flash =
  rf_memory :: "u8 list"
  rf_write_count :: int
  rf_erase_count :: int

definition FLASH_OK :: int where "FLASH_OK = 0"
definition FLASH_INVALID_RANGE :: int where "FLASH_INVALID_RANGE = 1"
definition INT_MAX :: int where "INT_MAX = 2147483647"

definition flash_bytes :: "flash_geometry \<Rightarrow> nat" where
  "flash_bytes g = fl_sectors g * fl_sector_size g"

text \<open>The constructor fills the memory with whatever \<open>rand()\<close> returns.\<close>

definition ram_flash_init :: "flash_geometry \<Rightarrow> (nat \<Rightarrow> u8) \<Rightarrow> ram_flash" where
  "ram_flash_init g rnd =
     \<lparr>rf_memory = map rnd [0..<flash_bytes g], rf_write_count = INT_MAX, rf_erase_count = 0\<rparr>"

text \<open>The sum is computed in 32-bit unsigned arithmetic, so it wraps.\<close>

definition is_valid_range :: "flash_geometry \<Rightarrow> nat \<Rightarrow> nat \<Rightarrow> bool" where
  "is_valid_range g address len \<longleftrightarrow>
     fl_base g \<le> address \<and> (address + len - fl_base g) mod 2 ^ 32 \<le> flash_bytes g"

primrec fill_erased :: "nat \<Rightarrow> nat \<Rightarrow> u8 list \<Rightarrow> u8 list" where
  "fill_erased start 0 m = m"
| "fill_erased start (Suc n) m = fill_erased (Suc start) n (m[start := 0xFF])"

definition ram_erase_sector :: "flash_geometry \<Rightarrow> nat \<Rightarrow> ram_flash \<Rightarrow> int \<times> ram_flash" where
  "ram_erase_sector g address s =
     (if \<not> is_valid_range g address 0 then (FLASH_INVALID_RANGE, s)
      else if rf_write_count s = 0 then (-1, s)
      else let a = address - fl_base g;
               start = a - a mod fl_sector_size g
           in (0, s\<lparr>rf_memory := fill_erased start (fl_sector_size g) (rf_memory s),
                    rf_write_count := rf_write_count s - 1,
                    rf_erase_count := rf_erase_count s + 1\<rparr>))"

primrec ram_write_loop :: "nat \<Rightarrow> u8 list \<Rightarrow> ram_flash \<Rightarrow> int \<times> ram_flash" where
  "ram_write_loop start [] s = (0, s)"
| "ram_write_loop start (d # ds) s =
     (if rf_write_count s = 0 then (-1, s)
      else ram_write_loop (Suc start) ds
             (s\<lparr>rf_memory := (rf_memory s)[start := rf_memory s ! start AND d],
               rf_write_count := rf_write_count s - 1\<rparr>))"

definition ram_write :: "flash_geometry \<Rightarrow> nat \<Rightarrow> u8 list \<Rightarrow> ram_flash \<Rightarrow> int \<times> ram_flash" where
  "ram_write g offset data s =
     (if \<not> is_valid_range g offset (length data) then (FLASH_INVALID_RANGE, s)
      else ram_write_loop (offset - fl_base g) data s)"

text \<open>On an invalid range the caller's buffer is left as it is (here: no bytes).\<close>

definition ram_read :: "flash_geometry \<Rightarrow> nat \<Rightarrow> nat \<Rightarrow> ram_flash \<Rightarrow> int \<times> u8 list" where
  "ram_read g offset len s =
     (if \<not> is_valid_range g offset len then (FLASH_INVALID_RANGE, [])
      else (0, take len (drop (offset - fl_base g) (rf_memory s))))"

text \<open>A pointer into the memory is the list of bytes from there on; \<open>None\<close> is \<open>nullptr\<close>.\<close>

definition ram_data_at :: "flash_geometry \<Rightarrow> nat \<Rightarrow> ram_flash \<Rightarrow> u8 list option" where
  "ram_data_at g offset s =
     (if \<not> is_valid_range g offset 0 then None
      else Some (drop (offset - fl_base g) (rf_memory s)))"

definition ram_set_write_count :: "int \<Rightarrow> ram_flash \<Rightarrow> ram_flash" where
  "ram_set_write_count n s = s\<lparr>rf_write_count := n\<rparr>"

definition ram_get_erase_count :: "ram_flash \<Rightarrow> int" where
  "ram_get_erase_count s = rf_erase_count s"

definition ram_reset_erase_count :: "ram_flash \<Rightarrow> ram_flash" where
  "ram_reset_erase_count s = s\<lparr>rf_erase_count := 0\<rparr>"

definition discard_writes_after :: "int \<Rightarrow> (ram_flash \<Rightarrow> ram_flash) \<Rightarrow> ram_flash \<Rightarrow> ram_flash" where
  "discard_writes_after n f s = ram_set_write_count INT_MAX (f (ram_set_write_count n s))"

definition ram_store :: "flash_geometry \<Rightarrow> ram_flash store_ops" where
  "ram_store g =
     \<lparr>st_write = ram_write g,
      st_read = (\<lambda>a n s. case ram_data_at g a s of None \<Rightarrow> [] | Some p \<Rightarrow> take n p),
      st_erase_sector = ram_erase_sector g\<rparr>"

section \<open>SerialFlashStore\<close>

record 's sflash_chip =
  sf_write_buffer :: "u8 list \<Rightarrow> nat \<Rightarrow> 's \<Rightarrow> 's"
  sf_read_buffer :: "nat \<Rightarrow> nat \<Rightarrow> 's \<Rightarrow> u8 list"
  sf_erase_memory :: "nat \<Rightarrow> nat \<Rightarrow> 's \<Rightarrow> bool \<times> 's"

definition serial_erase_sector :: "'s sflash_chip \<Rightarrow> nat \<Rightarrow> 's \<Rightarrow> int \<times> 's" where
  "serial_erase_sector c address s =
     (let (ok, s') = sf_erase_memory c address 16384 s in (if ok then 0 else 1, s'))"

primrec serial_verify :: "'s sflash_chip \<Rightarrow> nat \<Rightarrow> u8 list \<Rightarrow> 's \<Rightarrow> int" where
  "serial_verify c addr [] s = 0"
| "serial_verify c addr (d # ds) s =
     (if sf_read_buffer c addr 1 s \<noteq> [d] then -1 else serial_verify c (Suc addr) ds s)"

definition serial_write :: "'s sflash_chip \<Rightarrow> nat \<Rightarrow> u8 list \<Rightarrow> 's \<Rightarrow> int \<times> 's" where
  "serial_write c offset data s =
     (let s' = sf_write_buffer c data offset s in (serial_verify c offset data s', s'))"

definition serial_store :: "'s sflash_chip \<Rightarrow> 's store_ops" where
  "serial_store c =
     \<lparr>st_write = serial_write c, st_read = sf_read_buffer c, st_erase_sector = serial_erase_sector c\<rparr>"

section \<open>InternalFlashStore\<close>

text \<open>
  The program operations return whether the status was \<open>FLASH_COMPLETE\<close>;
  \<open>if_mem\<close> reads the memory-mapped flash.
\<close>

record 's iflash_chip =
  if_program_word :: "nat \<Rightarrow> u8 list \<Rightarrow> 's \<Rightarrow> bool \<times> 's"
  if_program_half_word :: "nat \<Rightarrow> u8 list \<Rightarrow> 's \<Rightarrow> bool \<times> 's"
  if_program_byte :: "nat \<Rightarrow> u8 list \<Rightarrow> 's \<Rightarrow> bool \<times> 's"
  if_erase_memory :: "nat \<Rightarrow> nat \<Rightarrow> 's \<Rightarrow> bool \<times> 's"
  if_mem :: "nat \<Rightarrow> nat \<Rightarrow> 's \<Rightarrow> u8 list"

definition internal_erase_sector :: "'s iflash_chip \<Rightarrow> nat \<Rightarrow> 's \<Rightarrow> int \<times> 's" where
  "internal_erase_sector c address s =
     (let (ok, s') = if_erase_memory c address 1 s in (if ok then 0 else -1, s'))"

text \<open>One attempt and up to \<open>max_tries\<close> more while the status is not \<open>FLASH_COMPLETE\<close>.\<close>

fun program_retry :: "nat \<Rightarrow> ('s \<Rightarrow> bool \<times> 's) \<Rightarrow> 's \<Rightarrow> 's" where
  "program_retry n prog s =
     (let (complete, s') = prog s
      in if complete then s' else case n of 0 \<Rightarrow> s' | Suc m \<Rightarrow> program_retry m prog s')"

declare program_retry.simps [simp del]

function internal_write_loop :: "'s iflash_chip \<Rightarrow> nat \<Rightarrow> u8 list \<Rightarrow> 's \<Rightarrow> 's" where
  "internal_write_loop c destination ds s =
     (if ds = [] then s
      else if destination mod 4 = 0 \<and> 4 \<le> length ds then
        internal_write_loop c (destination + 4) (drop 4 ds)
          (program_retry 10 (if_program_word c destination (take 4 ds)) s)
      else if destination mod 2 = 0 \<and> 2 \<le> length ds then
        internal_write_loop c (destination + 2) (drop 2 ds)
          (program_retry 10 (if_program_half_word c destination (take 2 ds)) s)
      else
        internal_write_loop c (destination + 1) (drop 1 ds)
          (program_retry 10 (if_program_byte c destination (take 1 ds)) s))"
  by pat_completeness auto
termination
  by (relation "measure (\<lambda>(c, destination, ds, s). length ds)") auto

declare internal_write_loop.simps [simp del]

definition internal_write :: "'s iflash_chip \<Rightarrow> nat \<Rightarrow> u8 list \<Rightarrow> 's \<Rightarrow> int \<times> 's" where
  "internal_write c offset data s =
     (let s' = internal_write_loop c offset data s
      in (if if_mem c offset (length data) s' \<noteq> data then -1 else 0, s'))"

definition internal_store :: "'s iflash_chip \<Rightarrow> 's store_ops" where
  "internal_store c =
     \<lparr>st_write = internal_write c, st_read = if_mem c, st_erase_sector = internal_erase_sector c\<rparr>"

section \<open>Views of a flash memory\<close>

text \<open>A view is the memory content by absolute address.\<close>

definition bytes_at :: "(nat \<Rightarrow> u8) \<Rightarrow> nat \<Rightarrow> nat \<Rightarrow> u8 list" where
  "bytes_at v a n = map v [a..<a + n]"

definition and_upd :: "(nat \<Rightarrow> u8) \<Rightarrow> nat \<Rightarrow> u8 list \<Rightarrow> nat \<Rightarrow> u8" where
  "and_upd v a ds x = (if a \<le> x \<and> x < a + length ds then v x AND ds ! (x - a) else v x)"

definition erase_upd :: "(nat \<Rightarrow> u8) \<Rightarrow> nat \<Rightarrow> nat \<Rightarrow> nat \<Rightarrow> u8" where
  "erase_upd v a n x = (if a \<le> x \<and> x < a + n then 0xFF else v x)"

text \<open>Writing these bytes there reads back unchanged: no bit has to go from 0 to 1.\<close>

definition and_fits :: "(nat \<Rightarrow> u8) \<Rightarrow> nat \<Rightarrow> u8 list \<Rightarrow> bool" where
  "and_fits v a ds \<longleftrightarrow> (\<forall>i < length ds. v (a + i) AND ds ! i = ds ! i)"

lemma length_bytes_at [simp]: "length (bytes_at v a n) = n"
  by (simp add: bytes_at_def)

lemma nth_bytes_at [simp]: "i < n \<Longrightarrow> bytes_at v a n ! i = v (a + i)"
  by (simp add: bytes_at_def)

lemma bytes_at_cong: "(\<And>x. a \<le> x \<Longrightarrow> x < a + n \<Longrightarrow> v x = w x) \<Longrightarrow> bytes_at v a n = bytes_at w a n"
  by (auto simp: bytes_at_def)

lemma bytes_at_eq_iff: "bytes_at v a n = ds \<longleftrightarrow> length ds = n \<and> (\<forall>i < n. v (a + i) = ds ! i)"
  by (auto simp: list_eq_iff_nth_eq)

lemma and_upd_Nil [simp]: "and_upd v a [] = v"
  by (rule ext) (auto simp: and_upd_def)

lemma and_upd_outside [simp]: "x < a \<or> a + length ds \<le> x \<Longrightarrow> and_upd v a ds x = v x"
  by (auto simp: and_upd_def)

lemma erase_upd_outside [simp]: "x < a \<or> a + n \<le> x \<Longrightarrow> erase_upd v a n x = v x"
  by (auto simp: erase_upd_def)

lemma erase_upd_inside [simp]: "a \<le> x \<Longrightarrow> x < a + n \<Longrightarrow> erase_upd v a n x = 0xFF"
  by (auto simp: erase_upd_def)

lemma erased_byte: "(0xFF :: u8) = - 1"
  by simp

lemma word_and_FF [simp]: "(0xFF :: u8) AND d = d"
  by (subst erased_byte) simp

lemma and_upd_fits: "and_fits v a ds \<Longrightarrow> bytes_at (and_upd v a ds) a (length ds) = ds"
  by (auto simp: bytes_at_eq_iff and_upd_def and_fits_def)

lemma and_fits_erased: "(\<And>i. i < length ds \<Longrightarrow> v (a + i) = 0xFF) \<Longrightarrow> and_fits v a ds"
  by (auto simp: and_fits_def)

lemma and_upd_append: "and_upd v a (xs @ ys) = and_upd (and_upd v a xs) (a + length xs) ys"
  by (rule ext) (auto simp: and_upd_def nth_append)

section \<open>The contract of a flash store\<close>

text \<open>
  \<open>view\<close> is the content, \<open>dead\<close> says that the power has failed (nothing is written any
  more), \<open>ok\<close> is the store's own invariant, \<open>in_range a n\<close> that the \<open>n\<close> bytes from \<open>a\<close>
  belong to it and \<open>is_sector a n\<close> that they are one erase unit.
\<close>

locale flash_store =
  fixes ops :: "'s store_ops"
    and view :: "'s \<Rightarrow> nat \<Rightarrow> u8"
    and dead :: "'s \<Rightarrow> bool"
    and ok :: "'s \<Rightarrow> bool"
    and in_range :: "nat \<Rightarrow> nat \<Rightarrow> bool"
    and is_sector :: "nat \<Rightarrow> nat \<Rightarrow> bool"
  assumes in_range_mono: "in_range a n \<Longrightarrow> a \<le> b \<Longrightarrow> b + m \<le> a + n \<Longrightarrow> in_range b m"
    and sector_in_range: "is_sector a n \<Longrightarrow> in_range a n"
    and read_view: "ok s \<Longrightarrow> in_range a n \<Longrightarrow> st_read ops a n s = bytes_at (view s) a n"
    and write_ok: "ok s \<Longrightarrow> in_range a (length ds) \<Longrightarrow> ok (snd (st_write ops a ds s))"
    and write_live: "ok s \<Longrightarrow> in_range a (length ds) \<Longrightarrow> \<not> dead (snd (st_write ops a ds s)) \<Longrightarrow>
        \<not> dead s \<and> view (snd (st_write ops a ds s)) = and_upd (view s) a ds"
    and write_result: "ok s \<Longrightarrow> in_range a (length ds) \<Longrightarrow> \<not> dead (snd (st_write ops a ds s)) \<Longrightarrow>
        and_fits (view s) a ds \<Longrightarrow> fst (st_write ops a ds s) = 0"
    and write_torn: "ok s \<Longrightarrow> in_range a (length ds) \<Longrightarrow>
        \<exists>k \<le> length ds. view (snd (st_write ops a ds s)) = and_upd (view s) a (take k ds)"
    and write_dead: "ok s \<Longrightarrow> in_range a (length ds) \<Longrightarrow> dead s \<Longrightarrow>
        dead (snd (st_write ops a ds s)) \<and> view (snd (st_write ops a ds s)) = view s"
    and erase_ok: "ok s \<Longrightarrow> is_sector a n \<Longrightarrow> ok (snd (st_erase_sector ops a s))"
    and erase_live: "ok s \<Longrightarrow> is_sector a n \<Longrightarrow> \<not> dead (snd (st_erase_sector ops a s)) \<Longrightarrow>
        \<not> dead s \<and> view (snd (st_erase_sector ops a s)) = erase_upd (view s) a n
        \<and> fst (st_erase_sector ops a s) = 0"
    and erase_torn: "ok s \<Longrightarrow> is_sector a n \<Longrightarrow>
        view (snd (st_erase_sector ops a s)) \<in> {view s, erase_upd (view s) a n}"
    and erase_dead: "ok s \<Longrightarrow> is_sector a n \<Longrightarrow> dead s \<Longrightarrow>
        dead (snd (st_erase_sector ops a s)) \<and> view (snd (st_erase_sector ops a s)) = view s"
begin

lemma write_outside:
  assumes "ok s" "in_range a (length ds)" "x < a \<or> a + length ds \<le> x"
  shows "view (snd (st_write ops a ds s)) x = view s x"
  using write_torn [OF assms(1,2)] assms(3) by auto

lemma erase_outside:
  assumes "ok s" "is_sector a n" "x < a \<or> a + n \<le> x"
  shows "view (snd (st_erase_sector ops a s)) x = view s x"
  using erase_torn [OF assms(1,2)] assms(3) by auto

end

text \<open>A store that reads back what it has written and reports a difference as a negative result.\<close>

locale verified_store = flash_store ops view dead ok in_range is_sector
    for ops :: "'s store_ops" and view dead ok in_range is_sector +
  assumes write_verified: "ok s \<Longrightarrow> in_range a (length ds) \<Longrightarrow> \<not> dead (snd (st_write ops a ds s)) \<Longrightarrow>
        0 \<le> fst (st_write ops a ds s) \<Longrightarrow> and_fits (view s) a ds"

text \<open>A verifying store that programs an aligned 4-byte word in one step.\<close>

locale word_store = verified_store ops view dead ok in_range is_sector
    for ops :: "'s store_ops" and view dead ok in_range is_sector +
  assumes write_word: "ok s \<Longrightarrow> in_range a 4 \<Longrightarrow> a mod 4 = 0 \<Longrightarrow> length ds = 4 \<Longrightarrow>
        view (snd (st_write ops a ds s)) \<in> {view s, and_upd (view s) a ds}"

section \<open>RAMFlashStorage meets the contract\<close>

definition ram_view :: "flash_geometry \<Rightarrow> ram_flash \<Rightarrow> nat \<Rightarrow> u8" where
  "ram_view g s x =
     (if fl_base g \<le> x \<and> x < fl_base g + flash_bytes g then rf_memory s ! (x - fl_base g) else 0)"

definition ram_dead :: "ram_flash \<Rightarrow> bool" where
  "ram_dead s \<longleftrightarrow> rf_write_count s = 0"

definition ram_ok :: "flash_geometry \<Rightarrow> ram_flash \<Rightarrow> bool" where
  "ram_ok g s \<longleftrightarrow> length (rf_memory s) = flash_bytes g \<and> 0 \<le> rf_write_count s"

definition ram_in_range :: "flash_geometry \<Rightarrow> nat \<Rightarrow> nat \<Rightarrow> bool" where
  "ram_in_range g a n \<longleftrightarrow> fl_base g \<le> a \<and> a + n \<le> fl_base g + flash_bytes g
     \<and> fl_base g + flash_bytes g < 2 ^ 32"

definition ram_is_sector :: "flash_geometry \<Rightarrow> nat \<Rightarrow> nat \<Rightarrow> bool" where
  "ram_is_sector g a n \<longleftrightarrow> ram_in_range g a n \<and> n = fl_sector_size g
     \<and> (a - fl_base g) mod fl_sector_size g = 0"

lemma length_fill_erased [simp]: "length (fill_erased a n m) = length m"
  by (induction n arbitrary: a m) auto

lemma nth_fill_erased:
  "a + n \<le> length m \<Longrightarrow> x < length m \<Longrightarrow>
     fill_erased a n m ! x = (if a \<le> x \<and> x < a + n then 0xFF else m ! x)"
  by (induction n arbitrary: a m) (auto simp: nth_list_update)

lemma ram_write_loop_len [simp]:
  "length (rf_memory (snd (ram_write_loop a ds s))) = length (rf_memory s)"
  by (induction ds arbitrary: a s) auto

lemma ram_write_loop_count:
  "0 \<le> rf_write_count s \<Longrightarrow> rf_write_count (snd (ram_write_loop a ds s))
     = rf_write_count s - int (min (length ds) (nat (rf_write_count s)))"
  by (induction ds arbitrary: a s) auto

lemma ram_write_loop_result:
  "0 \<le> rf_write_count s \<Longrightarrow>
     fst (ram_write_loop a ds s) = (if int (length ds) \<le> rf_write_count s then 0 else -1)"
  by (induction ds arbitrary: a s) auto

lemma ram_write_loop_nth:
  "0 \<le> rf_write_count s \<Longrightarrow> a + length ds \<le> length (rf_memory s) \<Longrightarrow> x < length (rf_memory s) \<Longrightarrow>
     rf_memory (snd (ram_write_loop a ds s)) ! x =
       and_upd ((!) (rf_memory s)) a (take (nat (rf_write_count s)) ds) x"
proof (induction ds arbitrary: a s)
  case Nil
  then show ?case by simp
next
  case (Cons d ds)
  show ?case
  proof (cases "rf_write_count s = 0")
    case True
    then show ?thesis by simp
  next
    case False
    with Cons.prems have c: "nat (rf_write_count s) = Suc (nat (rf_write_count s - 1))" by simp
    let ?s = "s\<lparr>rf_memory := (rf_memory s)[a := rf_memory s ! a AND d],
               rf_write_count := rf_write_count s - 1\<rparr>"
    have "rf_memory (snd (ram_write_loop (Suc a) ds ?s)) ! x =
       and_upd ((!) (rf_memory ?s)) (Suc a) (take (nat (rf_write_count ?s)) ds) x"
      using Cons.prems False by (intro Cons.IH) auto
    then show ?thesis
      using False Cons.prems by (auto simp: c and_upd_def nth_list_update nth_Cons')
  qed
qed

lemma ram_in_range_valid:
  "ram_in_range g a n \<Longrightarrow> is_valid_range g a n \<and> is_valid_range g a 0"
  by (auto simp: ram_in_range_def is_valid_range_def)

lemma ram_write_in_range:
  "ram_in_range g a (length ds) \<Longrightarrow>
     st_write (ram_store g) a ds s = ram_write_loop (a - fl_base g) ds s"
  by (auto simp: ram_store_def ram_write_def dest: ram_in_range_valid)

lemma ram_write_view:
  assumes "ram_ok g s" "ram_in_range g a (length ds)"
  shows "ram_view g (snd (st_write (ram_store g) a ds s)) =
    and_upd (ram_view g s) a (take (nat (rf_write_count s)) ds)"
proof
  fix x
  show "ram_view g (snd (st_write (ram_store g) a ds s)) x =
    and_upd (ram_view g s) a (take (nat (rf_write_count s)) ds) x"
  proof (cases "fl_base g \<le> x \<and> x < fl_base g + flash_bytes g")
    case True
    with assms show ?thesis
      by (auto simp: ram_view_def ram_write_in_range ram_ok_def ram_in_range_def
          ram_write_loop_nth and_upd_def)
  next
    case False
    with assms show ?thesis
      by (auto simp: ram_view_def ram_in_range_def and_upd_def)
  qed
qed

lemma ram_read_view:
  assumes "ram_ok g s" "ram_in_range g a n"
  shows "st_read (ram_store g) a n s = bytes_at (ram_view g s) a n"
  using assms ram_in_range_valid [OF assms(2)]
  by (intro nth_equalityI)
    (auto simp: ram_store_def ram_data_at_def ram_ok_def ram_in_range_def ram_view_def)

lemma ram_erase_view:
  assumes "ram_ok g s" "ram_is_sector g a n"
  shows "fst (st_erase_sector (ram_store g) a s) = (if rf_write_count s = 0 then -1 else 0)"
    and "ram_view g (snd (st_erase_sector (ram_store g) a s)) =
    (if rf_write_count s = 0 then ram_view g s else erase_upd (ram_view g s) a n)"
    and "rf_write_count (snd (st_erase_sector (ram_store g) a s)) =
      (if rf_write_count s = 0 then 0 else rf_write_count s - 1)"
    and "ram_ok g (snd (st_erase_sector (ram_store g) a s))"
proof -
  have r: "is_valid_range g a 0"
    using assms(2) ram_in_range_valid by (auto simp: ram_is_sector_def)
  have e: "st_erase_sector (ram_store g) a s =
    (if rf_write_count s = 0 then (-1, s)
     else (0, s\<lparr>rf_memory := fill_erased (a - fl_base g) n (rf_memory s),
                 rf_write_count := rf_write_count s - 1, rf_erase_count := rf_erase_count s + 1\<rparr>))"
    using r assms(2) by (simp add: ram_store_def ram_erase_sector_def ram_is_sector_def Let_def)
  show "fst (st_erase_sector (ram_store g) a s) = (if rf_write_count s = 0 then -1 else 0)"
    using e by auto
  show "rf_write_count (snd (st_erase_sector (ram_store g) a s)) =
      (if rf_write_count s = 0 then 0 else rf_write_count s - 1)"
    using e by auto
  show "ram_ok g (snd (st_erase_sector (ram_store g) a s))"
    using e assms(1) by (auto simp: ram_ok_def)
  show "ram_view g (snd (st_erase_sector (ram_store g) a s)) =
    (if rf_write_count s = 0 then ram_view g s else erase_upd (ram_view g s) a n)"
  proof (cases "rf_write_count s = 0")
    case True
    with e show ?thesis by simp
  next
    case False
    have "ram_view g (snd (st_erase_sector (ram_store g) a s)) x = erase_upd (ram_view g s) a n x" for x
      using assms False
      by (auto simp: e ram_view_def ram_ok_def ram_is_sector_def ram_in_range_def nth_fill_erased erase_upd_def)
    with False show ?thesis by auto
  qed
qed

lemma ram_write_count:
  assumes "ram_ok g s" "ram_in_range g a (length ds)"
  shows "rf_write_count (snd (st_write (ram_store g) a ds s))
      = rf_write_count s - int (min (length ds) (nat (rf_write_count s)))"
    and "fst (st_write (ram_store g) a ds s) = (if int (length ds) \<le> rf_write_count s then 0 else -1)"
  using assms by (simp_all add: ram_write_in_range ram_write_loop_count ram_write_loop_result ram_ok_def)

interpretation ram: flash_store "ram_store g" "ram_view g" ram_dead "ram_ok g" "ram_in_range g"
    "ram_is_sector g" for g
proof unfold_locales
  fix s a n b m ds
  show "ram_in_range g a n \<Longrightarrow> a \<le> b \<Longrightarrow> b + m \<le> a + n \<Longrightarrow> ram_in_range g b m"
    by (auto simp: ram_in_range_def)
  show "ram_is_sector g a n \<Longrightarrow> ram_in_range g a n"
    by (auto simp: ram_is_sector_def)
  show "ram_ok g s \<Longrightarrow> ram_in_range g a n \<Longrightarrow> st_read (ram_store g) a n s = bytes_at (ram_view g s) a n"
    by (rule ram_read_view)
  show "ram_ok g s \<Longrightarrow> ram_in_range g a (length ds) \<Longrightarrow> ram_ok g (snd (st_write (ram_store g) a ds s))"
    by (auto simp: ram_ok_def ram_write_in_range ram_write_loop_count)
  assume ok: "ram_ok g s"
  show "ram_in_range g a (length ds) \<Longrightarrow> \<not> ram_dead (snd (st_write (ram_store g) a ds s)) \<Longrightarrow>
     \<not> ram_dead s \<and> ram_view g (snd (st_write (ram_store g) a ds s)) = and_upd (ram_view g s) a ds"
    using ok by (auto simp: ram_write_view ram_dead_def ram_write_count ram_ok_def min_def split: if_splits)
  show "ram_in_range g a (length ds) \<Longrightarrow> \<not> ram_dead (snd (st_write (ram_store g) a ds s)) \<Longrightarrow>
     and_fits (ram_view g s) a ds \<Longrightarrow> fst (st_write (ram_store g) a ds s) = 0"
    using ok by (auto simp: ram_write_count ram_dead_def ram_ok_def)
  show "ram_in_range g a (length ds) \<Longrightarrow> \<exists>k \<le> length ds.
     ram_view g (snd (st_write (ram_store g) a ds s)) = and_upd (ram_view g s) a (take k ds)"
    using ok by (intro exI [of _ "min (length ds) (nat (rf_write_count s))"])
      (auto simp: ram_write_view min_def)
  show "ram_in_range g a (length ds) \<Longrightarrow> ram_dead s \<Longrightarrow>
     ram_dead (snd (st_write (ram_store g) a ds s))
     \<and> ram_view g (snd (st_write (ram_store g) a ds s)) = ram_view g s"
    using ok by (simp add: ram_write_view ram_dead_def ram_write_count)
qed (auto simp: ram_erase_view ram_dead_def)

end
