(* ===== verification/Eeprom_Emulation.thy ===== *)
theory Eeprom_Emulation
  imports Flash_Storage
begin

text \<open>
  The EEPROM emulation of \<open>services/inc/eeprom_emulation.h\<close>: one definition per member
  function of \<open>EEPROMEmulation\<close>, over any store (\<open>store_ops\<close>).  \<open>Index\<close> and the lengths
  are 16-bit words, as in the code, because their sums wrap; addresses are natural numbers
  (the pages of a configuration end below \<open>2 ^ 32\<close>).

  A member function that takes a callback is a higher-order function; what the callback
  changes through its captured references is the accumulator.
\<close>

section \<open>Configuration, page header and records\<close>

record eeprom_cfg =
  ec_base1 :: nat
  ec_size1 :: nat
  ec_base2 :: nat
  ec_size2 :: nat

datatype logical_page = NoPage | Page1 | Page2

definition PAGE_ERASED :: u32 where "PAGE_ERASED = 0xFFFFFFFF"
definition PAGE_COPY :: u32 where "PAGE_COPY = 0xFFFFEEEE"
definition PAGE_ACTIVE :: u32 where "PAGE_ACTIVE = 0xFFFF0000"
definition PAGE_INACTIVE :: u32 where "PAGE_INACTIVE = 0xCCCC0000"

definition FLASH_ERASED :: u8 where "FLASH_ERASED = 0xFF"
definition EMPTY_INDEX :: u16 where "EMPTY_INDEX = 0xFFFF"
definition REC_VALID :: u8 where "REC_VALID = 0"

record ee_record =
  er_data :: u8
  er_status :: u8
  er_index :: u16

text \<open>\<open>Record(index, data)\<close>, \<open>sizeof\<close> and the packed layout.\<close>

definition mk_record :: "u16 \<Rightarrow> u8 \<Rightarrow> ee_record" where
  "mk_record index data = \<lparr>er_data = data, er_status = REC_VALID, er_index = index\<rparr>"

definition record_bytes :: "ee_record \<Rightarrow> u8 list" where
  "record_bytes r = [er_data r, er_status r] @ le16 (er_index r)"

definition bytes_record :: "u8 list \<Rightarrow> ee_record" where
  "bytes_record bs = \<lparr>er_data = bs ! 0, er_status = bs ! 1, er_index = of_le16 (drop 2 bs)\<rparr>"

definition rec_empty :: "ee_record \<Rightarrow> bool" where
  "rec_empty r \<longleftrightarrow> er_index r = EMPTY_INDEX \<and> er_status r = FLASH_ERASED \<and> er_data r = FLASH_ERASED"

definition rec_valid :: "ee_record \<Rightarrow> bool" where
  "rec_valid r \<longleftrightarrow> er_index r \<noteq> EMPTY_INDEX \<and> er_status r = REC_VALID"

section \<open>State and page geometry\<close>

record 's eeprom =
  ee_store :: 's
  ee_active :: logical_page
  ee_alternate :: logical_page

definition page_begin :: "eeprom_cfg \<Rightarrow> logical_page \<Rightarrow> nat" where
  "page_begin cfg page = (case page of Page1 \<Rightarrow> ec_base1 cfg | Page2 \<Rightarrow> ec_base2 cfg | NoPage \<Rightarrow> 0)"

definition page_end :: "eeprom_cfg \<Rightarrow> logical_page \<Rightarrow> nat" where
  "page_end cfg page = (case page of
       Page1 \<Rightarrow> ec_base1 cfg + ec_size1 cfg
     | Page2 \<Rightarrow> ec_base2 cfg + ec_size2 cfg
     | NoPage \<Rightarrow> 0)"

definition page_size :: "eeprom_cfg \<Rightarrow> logical_page \<Rightarrow> nat" where
  "page_size cfg page = (case page of Page1 \<Rightarrow> ec_size1 cfg | Page2 \<Rightarrow> ec_size2 cfg | NoPage \<Rightarrow> 0)"

definition smallest_page_size :: "eeprom_cfg \<Rightarrow> nat" where
  "smallest_page_size cfg = (if ec_size1 cfg < ec_size2 cfg then ec_size1 cfg else ec_size2 cfg)"

definition ee_capacity :: "eeprom_cfg \<Rightarrow> nat" where
  "ee_capacity cfg = smallest_page_size cfg div 4 div 2"

definition read_page_status :: "eeprom_cfg \<Rightarrow> 's store_ops \<Rightarrow> logical_page \<Rightarrow> 's \<Rightarrow> u32" where
  "read_page_status cfg ops page s = of_le32 (st_read ops (page_begin cfg page) 4 s)"

definition write_page_status ::
    "eeprom_cfg \<Rightarrow> 's store_ops \<Rightarrow> logical_page \<Rightarrow> u32 \<Rightarrow> 's \<Rightarrow> bool \<times> 's" where
  "write_page_status cfg ops page status s =
     (let (r, s') = st_write ops (page_begin cfg page) (le32 status) s in (r = 0, s'))"

definition update_active_page :: "eeprom_cfg \<Rightarrow> 's store_ops \<Rightarrow> 's eeprom \<Rightarrow> 's eeprom" where
  "update_active_page cfg ops e =
     (let status1 = read_page_status cfg ops Page1 (ee_store e);
          status2 = read_page_status cfg ops Page2 (ee_store e)
      in if status1 = PAGE_ACTIVE then e\<lparr>ee_active := Page1, ee_alternate := Page2\<rparr>
         else if status2 = PAGE_ACTIVE then e\<lparr>ee_active := Page2, ee_alternate := Page1\<rparr>
         else e\<lparr>ee_active := NoPage, ee_alternate := NoPage\<rparr>)"

definition erase_page :: "eeprom_cfg \<Rightarrow> 's store_ops \<Rightarrow> logical_page \<Rightarrow> 's \<Rightarrow> 's" where
  "erase_page cfg ops page s = snd (st_erase_sector ops (page_begin cfg page) s)"

section \<open>Iterating over records\<close>

text \<open>The callback returns whether to stop early and the new accumulator.\<close>

function for_each_record_from ::
    "'s store_ops \<Rightarrow> 's \<Rightarrow> nat \<Rightarrow> nat \<Rightarrow> (nat \<Rightarrow> ee_record \<Rightarrow> 'a \<Rightarrow> bool \<times> 'a) \<Rightarrow> 'a \<Rightarrow> 'a" where
  "for_each_record_from ops s address end_address f acc =
     (if address < end_address then
        let rec = bytes_record (st_read ops address 4 s);
            (stop, acc') = f address rec acc
        in if stop then acc'
           else for_each_record_from ops s (address + 4) end_address f acc'
      else acc)"
  by pat_completeness auto
termination
  by (relation "measure (\<lambda>(ops, s, address, end_address, f, acc). end_address - address)") auto

declare for_each_record_from.simps [simp del]

definition for_each_record ::
    "eeprom_cfg \<Rightarrow> 's store_ops \<Rightarrow> 's \<Rightarrow> logical_page \<Rightarrow> (nat \<Rightarrow> ee_record \<Rightarrow> 'a \<Rightarrow> bool \<times> 'a) \<Rightarrow> 'a \<Rightarrow> 'a" where
  "for_each_record cfg ops s page f acc =
     for_each_record_from ops s (page_begin cfg page + 4) (page_end cfg page) f acc"

definition for_each_valid_record ::
    "eeprom_cfg \<Rightarrow> 's store_ops \<Rightarrow> 's \<Rightarrow> logical_page \<Rightarrow> (nat \<Rightarrow> ee_record \<Rightarrow> 'a \<Rightarrow> 'a) \<Rightarrow> 'a \<Rightarrow> 'a" where
  "for_each_valid_record cfg ops s page f acc =
     for_each_record cfg ops s page
       (\<lambda>address rec acc. if rec_valid rec then (False, f address rec acc) else (True, acc)) acc"

text \<open>
  One pass of \<open>forEachUniqueValidRecord\<close> collects the latest address offset of each
  index of the batch \<open>[firstIndex, lastIndex)\<close> (0 for no record) and notes whether a later
  batch is needed.  \<open>AddressOffset\<close> is 16 bits wide.
\<close>

definition BATCH_SIZE :: u16 where "BATCH_SIZE = 128"

definition batch_note :: "nat \<Rightarrow> u16 \<Rightarrow> u16 \<Rightarrow> nat \<Rightarrow> ee_record \<Rightarrow> nat list \<times> bool \<Rightarrow> nat list \<times> bool" where
  "batch_note base lo hi address rec acc =
     (let (addresses, more) = acc;
          addresses' =
            (if lo \<le> er_index rec \<and> er_index rec < hi then
               let offset = unat (er_index rec - lo);
                   grown = (if length addresses \<le> offset
                            then addresses @ replicate (offset + 1 - length addresses) 0
                            else addresses)
               in grown[offset := (address - base) mod 65536]
             else addresses)
      in (addresses', more \<or> hi \<le> er_index rec))"

definition batch_scan ::
    "eeprom_cfg \<Rightarrow> 's store_ops \<Rightarrow> 's \<Rightarrow> logical_page \<Rightarrow> u16 \<Rightarrow> u16 \<Rightarrow> nat list \<times> bool" where
  "batch_scan cfg ops s page lo hi =
     for_each_valid_record cfg ops s page (batch_note (page_begin cfg page) lo hi) ([], False)"

text \<open>The callback of the second phase may write to the store, so it gets it with its state.\<close>

primrec batch_yield ::
    "'s store_ops \<Rightarrow> nat \<Rightarrow> (nat \<Rightarrow> ee_record \<Rightarrow> 'a \<times> 's \<Rightarrow> 'a \<times> 's) \<Rightarrow> nat list \<Rightarrow> 'a \<times> 's \<Rightarrow> 'a \<times> 's" where
  "batch_yield ops base f [] st = st"
| "batch_yield ops base f (off # offs) st =
     batch_yield ops base f offs
       (if off \<noteq> 0 then f (base + off) (bytes_record (st_read ops (base + off) 4 (snd st))) st else st)"

text \<open>
  The batches. \<open>firstIndex\<close> and \<open>lastIndex\<close> wrap at \<open>2 ^ 16\<close>, so the loop may run
  for ever: \<open>None\<close> is running out of \<open>fuel\<close>.
\<close>

primrec unique_batches ::
    "nat \<Rightarrow> eeprom_cfg \<Rightarrow> 's store_ops \<Rightarrow> logical_page \<Rightarrow> (nat \<Rightarrow> ee_record \<Rightarrow> 'a \<times> 's \<Rightarrow> 'a \<times> 's)
       \<Rightarrow> u16 \<Rightarrow> u16 \<Rightarrow> 'a \<times> 's \<Rightarrow> ('a \<times> 's) option" where
  "unique_batches 0 cfg ops page f lo hi st = None"
| "unique_batches (Suc fuel) cfg ops page f lo hi st =
     (let (addresses, more) = batch_scan cfg ops (snd st) page lo hi;
          st' = batch_yield ops (page_begin cfg page) f addresses st
      in if more
         then unique_batches fuel cfg ops page f (lo + BATCH_SIZE) (hi + BATCH_SIZE) st'
         else Some st')"

definition for_each_unique_valid_record ::
    "nat \<Rightarrow> eeprom_cfg \<Rightarrow> 's store_ops \<Rightarrow> logical_page \<Rightarrow> (nat \<Rightarrow> ee_record \<Rightarrow> 'a \<times> 's \<Rightarrow> 'a \<times> 's)
       \<Rightarrow> 'a \<times> 's \<Rightarrow> ('a \<times> 's) option" where
  "for_each_unique_valid_record fuel cfg ops page f st =
     unique_batches fuel cfg ops page f 0 BATCH_SIZE st"

section \<open>Reading\<close>

definition read_range ::
    "eeprom_cfg \<Rightarrow> 's store_ops \<Rightarrow> 's eeprom \<Rightarrow> u16 \<Rightarrow> u16 \<Rightarrow> u8 list" where
  "read_range cfg ops e index_begin len =
     (let index_end = index_begin + len
      in for_each_valid_record cfg ops (ee_store e) (ee_active e)
           (\<lambda>address rec data.
              if index_begin \<le> er_index rec \<and> er_index rec < index_end
              then data[unat (er_index rec - index_begin) := er_data rec] else data)
           (replicate (unat len) FLASH_ERASED))"

text \<open>The accumulator is \<open>(hasInvalidRecords, existingData, emptyAddress)\<close>.\<close>

definition read_range_and_find_empty ::
    "eeprom_cfg \<Rightarrow> 's store_ops \<Rightarrow> 's \<Rightarrow> logical_page \<Rightarrow> u16 \<Rightarrow> u16 \<Rightarrow> bool \<times> u8 list \<times> nat" where
  "read_range_and_find_empty cfg ops s page index_begin len =
     (let index_end = index_begin + len;
          (invalid, existing, empty) =
            for_each_record cfg ops s page
              (\<lambda>address rec (invalid, existing, empty).
                 if rec_empty rec then (True, (invalid, existing, address))
                 else if rec_valid rec then
                   (False, (invalid,
                     (if index_begin \<le> er_index rec \<and> er_index rec < index_end
                      then existing[unat (er_index rec - index_begin) := er_data rec] else existing),
                     empty))
                 else (True, (True, existing, empty)))
              (False, replicate (unat len) FLASH_ERASED, page_end cfg page)
      in (\<not> invalid, existing, empty))"

section \<open>Writing\<close>

definition write_record :: "'s store_ops \<Rightarrow> nat \<Rightarrow> nat \<Rightarrow> ee_record \<Rightarrow> 's \<Rightarrow> bool \<times> 's" where
  "write_record ops write_address end_address rec s =
     (if end_address < write_address + 4 then (False, s)
      else let (r, s') = st_write ops write_address (record_bytes rec) s in (0 \<le> r, s'))"

text \<open>The loop of \<open>writeRangeChanged\<close> from index \<open>i\<close>, on what is left of the two arrays.\<close>

fun write_changed_loop ::
    "'s store_ops \<Rightarrow> nat \<Rightarrow> u16 \<Rightarrow> u8 list \<Rightarrow> u8 list \<Rightarrow> nat \<Rightarrow> 's \<Rightarrow> bool \<times> 's" where
  "write_changed_loop ops end_address index (x # xs) (d # ds) write_address s =
     (if x \<noteq> d then
        let (success, s') = write_record ops (write_address - 4) end_address (mk_record index d) s
        in if success
           then write_changed_loop ops end_address (index + 1) xs ds (write_address - 4) s'
           else (False, s')
      else write_changed_loop ops end_address (index + 1) xs ds write_address s)"
| "write_changed_loop ops end_address index _ _ write_address s = (True, s)"

definition changed_count :: "u8 list \<Rightarrow> u8 list \<Rightarrow> nat" where
  "changed_count existing data = length (filter (\<lambda>(x, d). x \<noteq> d) (zip existing data))"

definition write_range_changed ::
    "eeprom_cfg \<Rightarrow> 's store_ops \<Rightarrow> logical_page \<Rightarrow> nat \<Rightarrow> u16 \<Rightarrow> u8 list \<Rightarrow> u8 list \<Rightarrow> 's \<Rightarrow> bool \<times> 's" where
  "write_range_changed cfg ops active write_begin index_begin data existing s =
     (let changed = changed_count existing data
      in if 0 < changed then
           let write_address = write_begin + changed * 4;
               end_address = page_end cfg active;
               success = (if write_address < end_address
                          then rec_empty (bytes_record (st_read ops write_address 4 s)) else True)
           in if success
              then write_changed_loop ops end_address index_begin existing data write_address s
              else (False, s)
         else (True, s))"

primrec write_direct_loop ::
    "'s store_ops \<Rightarrow> nat \<Rightarrow> u16 \<Rightarrow> u8 list \<Rightarrow> nat \<Rightarrow> 's \<Rightarrow> bool \<times> 's" where
  "write_direct_loop ops end_address index [] write_address s = (True, s)"
| "write_direct_loop ops end_address index (d # ds) write_address s =
     (if d \<noteq> FLASH_ERASED then
        let (success, s') = write_record ops write_address end_address (mk_record index d) s
        in if success
           then write_direct_loop ops end_address (index + 1) ds (write_address + 4) s'
           else (False, s')
      else write_direct_loop ops end_address (index + 1) ds write_address s)"

text \<open>\<open>verifyPage\<close> reads the page byte by byte.\<close>

function verify_from :: "'s store_ops \<Rightarrow> 's \<Rightarrow> nat \<Rightarrow> nat \<Rightarrow> bool" where
  "verify_from ops s address end_address =
     (if address < end_address then
        if st_read ops address 1 s \<noteq> [FLASH_ERASED] then False
        else verify_from ops s (address + 1) end_address
      else True)"
  by pat_completeness auto
termination
  by (relation "measure (\<lambda>(ops, s, address, end_address). end_address - address)") auto

declare verify_from.simps [simp del]

definition verify_page :: "eeprom_cfg \<Rightarrow> 's store_ops \<Rightarrow> logical_page \<Rightarrow> 's \<Rightarrow> bool" where
  "verify_page cfg ops page s = verify_from ops s (page_begin cfg page) (page_end cfg page)"

text \<open>
  The callback of \<open>copyAllRecordsToPageExcept\<close>: the state is \<open>(success, writeAddress)\<close>.
\<close>

definition copy_record ::
    "'s store_ops \<Rightarrow> nat \<Rightarrow> u16 \<Rightarrow> u16 \<Rightarrow> nat \<Rightarrow> ee_record \<Rightarrow> (bool \<times> nat) \<times> 's \<Rightarrow> (bool \<times> nat) \<times> 's" where
  "copy_record ops end_address except_begin except_end address rec st =
     (let ((success, write_address), s) = st
      in if \<not> (except_begin \<le> er_index rec \<and> er_index rec < except_end) \<and> er_data rec \<noteq> FLASH_ERASED
         then let (success', s') =
                    (if success then write_record ops write_address end_address
                                       (mk_record (er_index rec) (er_data rec)) s
                     else (False, s))
              in ((success', write_address + 4), s')
         else st)"

definition copy_all_records_to_page_except ::
    "nat \<Rightarrow> eeprom_cfg \<Rightarrow> 's store_ops \<Rightarrow> logical_page \<Rightarrow> logical_page \<Rightarrow> nat \<Rightarrow> u16 \<Rightarrow> u16 \<Rightarrow> 's
       \<Rightarrow> ((bool \<times> nat) \<times> 's) option" where
  "copy_all_records_to_page_except fuel cfg ops source destination write_address except_begin except_end s =
     for_each_unique_valid_record fuel cfg ops source
       (copy_record ops (page_end cfg destination) except_begin except_end) ((True, write_address), s)"

text \<open>One iteration of the loop of \<open>swapPagesAndWrite\<close>.\<close>

definition swap_try ::
    "nat \<Rightarrow> eeprom_cfg \<Rightarrow> 's store_ops \<Rightarrow> nat \<Rightarrow> logical_page \<Rightarrow> logical_page \<Rightarrow> u16 \<Rightarrow> u8 list \<Rightarrow> 's
       \<Rightarrow> (bool \<times> 's) option" where
  "swap_try fuel cfg ops tries source destination index_begin data s =
     (let s0 = (if 0 < tries \<or> \<not> verify_page cfg ops destination s
                then erase_page cfg ops destination s else s);
          (ok1, s1) = write_page_status cfg ops destination PAGE_COPY s0;
          write_address = page_begin cfg destination + 4
      in case (if ok1
               then copy_all_records_to_page_except fuel cfg ops source destination write_address
                      index_begin (index_begin + of_nat (length data)) s1
               else Some ((False, write_address), s1)) of
           None \<Rightarrow> None
         | Some ((ok2, write_address2), s2) \<Rightarrow>
             let (ok3, s3) = (if ok2 then write_direct_loop ops (page_end cfg destination)
                                            index_begin data write_address2 s2
                              else (False, s2));
                 (ok4, s4) = (if ok3 then write_page_status cfg ops destination PAGE_ACTIVE s3
                              else (False, s3));
                 (ok5, s5) = (if ok4 then write_page_status cfg ops source PAGE_INACTIVE s4
                              else (False, s4))
             in Some (ok5, s5))"

definition swap_pages_and_write ::
    "nat \<Rightarrow> eeprom_cfg \<Rightarrow> 's store_ops \<Rightarrow> u16 \<Rightarrow> u8 list \<Rightarrow> 's eeprom \<Rightarrow> (bool \<times> 's eeprom) option" where
  "swap_pages_and_write fuel cfg ops index_begin data e =
     (case swap_try fuel cfg ops 0 (ee_active e) (ee_alternate e) index_begin data (ee_store e) of
        None \<Rightarrow> None
      | Some (success, s) \<Rightarrow>
          if success then Some (True, update_active_page cfg ops (e\<lparr>ee_store := s\<rparr>))
          else (case swap_try fuel cfg ops 1 (ee_active e) (ee_alternate e) index_begin data s of
                  None \<Rightarrow> None
                | Some (success', s') \<Rightarrow>
                    if success' then Some (True, update_active_page cfg ops (e\<lparr>ee_store := s'\<rparr>))
                    else Some (False, e\<lparr>ee_store := s'\<rparr>)))"

text \<open>\<open>heap_ok\<close>: whether the allocation of the buffer for the existing data succeeds.\<close>

definition write_range ::
    "nat \<Rightarrow> bool \<Rightarrow> eeprom_cfg \<Rightarrow> 's store_ops \<Rightarrow> u16 \<Rightarrow> u8 list \<Rightarrow> 's eeprom \<Rightarrow> 's eeprom option" where
  "write_range fuel heap_ok cfg ops index_begin data e =
     (let len = of_nat (length data);
          index_end = index_begin + len
      in if ee_capacity cfg < unat index_end then Some e
         else if \<not> heap_ok then Some e
         else
           let (success1, existing, write_begin) =
                 read_range_and_find_empty cfg ops (ee_store e) (ee_active e) index_begin len;
               (success2, s2) =
                 (if success1
                  then write_range_changed cfg ops (ee_active e) write_begin index_begin data existing (ee_store e)
                  else (False, ee_store e))
           in if success2 then Some (e\<lparr>ee_store := s2\<rparr>)
              else map_option snd (swap_pages_and_write fuel cfg ops index_begin data (e\<lparr>ee_store := s2\<rparr>)))"

section \<open>Public interface\<close>

definition ee_get_byte :: "eeprom_cfg \<Rightarrow> 's store_ops \<Rightarrow> 's eeprom \<Rightarrow> u16 \<Rightarrow> u8" where
  "ee_get_byte cfg ops e index = read_range cfg ops e index 1 ! 0"

definition ee_get :: "eeprom_cfg \<Rightarrow> 's store_ops \<Rightarrow> 's eeprom \<Rightarrow> u16 \<Rightarrow> u16 \<Rightarrow> u8 list" where
  "ee_get cfg ops e index len = read_range cfg ops e index len"

definition ee_put_byte ::
    "nat \<Rightarrow> bool \<Rightarrow> eeprom_cfg \<Rightarrow> 's store_ops \<Rightarrow> u16 \<Rightarrow> u8 \<Rightarrow> 's eeprom \<Rightarrow> 's eeprom option" where
  "ee_put_byte fuel heap_ok cfg ops index d e = write_range fuel heap_ok cfg ops index [d] e"

definition ee_put ::
    "nat \<Rightarrow> bool \<Rightarrow> eeprom_cfg \<Rightarrow> 's store_ops \<Rightarrow> u16 \<Rightarrow> u8 list \<Rightarrow> 's eeprom \<Rightarrow> 's eeprom option" where
  "ee_put fuel heap_ok cfg ops index data e = write_range fuel heap_ok cfg ops index data e"

definition ee_clear :: "eeprom_cfg \<Rightarrow> 's store_ops \<Rightarrow> 's eeprom \<Rightarrow> 's eeprom" where
  "ee_clear cfg ops e =
     (let s1 = erase_page cfg ops Page1 (ee_store e);
          s2 = erase_page cfg ops Page2 s1;
          s3 = snd (write_page_status cfg ops Page1 PAGE_ACTIVE s2)
      in update_active_page cfg ops (e\<lparr>ee_store := s3\<rparr>))"

definition ee_init :: "eeprom_cfg \<Rightarrow> 's store_ops \<Rightarrow> 's eeprom \<Rightarrow> 's eeprom" where
  "ee_init cfg ops e =
     (let e' = update_active_page cfg ops e
      in if ee_active e' = NoPage then ee_clear cfg ops e' else e')"

definition pending_erase_page :: "eeprom_cfg \<Rightarrow> 's store_ops \<Rightarrow> 's eeprom \<Rightarrow> logical_page" where
  "pending_erase_page cfg ops e =
     (if read_page_status cfg ops (ee_alternate e) (ee_store e) \<noteq> PAGE_ERASED
      then ee_alternate e else NoPage)"

definition has_pending_erase :: "eeprom_cfg \<Rightarrow> 's store_ops \<Rightarrow> 's eeprom \<Rightarrow> bool" where
  "has_pending_erase cfg ops e \<longleftrightarrow> pending_erase_page cfg ops e \<noteq> NoPage"

definition perform_pending_erase :: "eeprom_cfg \<Rightarrow> 's store_ops \<Rightarrow> 's eeprom \<Rightarrow> 's eeprom" where
  "perform_pending_erase cfg ops e =
     (if has_pending_erase cfg ops e
      then e\<lparr>ee_store := erase_page cfg ops (pending_erase_page cfg ops e) (ee_store e)\<rparr> else e)"

end
