(* ===== verification/Eeprom_Records.thy ===== *)
theory Eeprom_Records
  imports Eeprom_Emulation
begin

text \<open>
  The record lists behind the EEPROM emulation, without the flash: what a sequence of
  records says about each EEPROM cell (\<open>latest\<close>), and that the batched search of
  \<open>forEachUniqueValidRecord\<close> yields the last record of each index, once, by increasing
  index.
\<close>

section \<open>The value of a cell\<close>

definition latest :: "ee_record list \<Rightarrow> u16 \<Rightarrow> u8" where
  "latest rs i = fold (\<lambda>r v. if er_index r = i then er_data r else v) rs FLASH_ERASED"

definition last_rec :: "ee_record list \<Rightarrow> u16 \<Rightarrow> ee_record option" where
  "last_rec rs i = fold (\<lambda>r v. if er_index r = i then Some r else v) rs None"

lemma latest_Nil [simp]: "latest [] i = FLASH_ERASED"
  by (simp add: latest_def)

lemma latest_snoc [simp]:
  "latest (rs @ [r]) i = (if er_index r = i then er_data r else latest rs i)"
  by (simp add: latest_def)

lemma last_rec_Nil [simp]: "last_rec [] i = None"
  by (simp add: last_rec_def)

lemma last_rec_snoc [simp]:
  "last_rec (rs @ [r]) i = (if er_index r = i then Some r else last_rec rs i)"
  by (simp add: last_rec_def)

lemma latest_last_rec:
  "latest rs i = (case last_rec rs i of None \<Rightarrow> FLASH_ERASED | Some r \<Rightarrow> er_data r)"
  by (induction rs rule: rev_induct) auto

lemma last_rec_None: "last_rec rs i = None \<longleftrightarrow> i \<notin> er_index ` set rs"
  by (induction rs rule: rev_induct) auto

lemma last_rec_Some: "last_rec rs i = Some r \<Longrightarrow> r \<in> set rs \<and> er_index r = i"
  by (induction rs rule: rev_induct) (auto split: if_splits)

lemma last_rec_append:
  "last_rec (rs @ ts) i = (case last_rec ts i of None \<Rightarrow> last_rec rs i | Some r \<Rightarrow> Some r)"
  by (induction ts rule: rev_induct) (auto simp flip: append_assoc)

lemma latest_append:
  "latest (rs @ ts) i = (if i \<in> er_index ` set ts then latest ts i else latest rs i)"
proof (cases "last_rec ts i")
  case None
  then show ?thesis
    by (simp add: latest_last_rec last_rec_append last_rec_None [THEN iffD1])
next
  case (Some r)
  then have "i \<in> er_index ` set ts" using last_rec_None [of ts i] by auto
  with Some show ?thesis by (simp add: latest_last_rec last_rec_append)
qed

lemma latest_absent: "i \<notin> er_index ` set rs \<Longrightarrow> latest rs i = FLASH_ERASED"
  using last_rec_None [of rs i] by (auto simp: latest_last_rec)

lemma last_rec_distinct:
  "distinct (map er_index rs) \<Longrightarrow> r \<in> set rs \<Longrightarrow> last_rec rs (er_index r) = Some r"
  by (induction rs rule: rev_induct) force+

lemma latest_distinct:
  "distinct (map er_index rs) \<Longrightarrow> r \<in> set rs \<Longrightarrow> latest rs (er_index r) = er_data r"
  by (simp add: latest_last_rec last_rec_distinct)

section \<open>Walking over records with their addresses\<close>

primrec walk :: "(nat \<Rightarrow> ee_record \<Rightarrow> 'a \<Rightarrow> bool \<times> 'a) \<Rightarrow> nat \<Rightarrow> ee_record list \<Rightarrow> 'a \<Rightarrow> 'a" where
  "walk f a [] acc = acc"
| "walk f a (r # rs) acc =
     (let (stop, acc') = f a r acc in if stop then acc' else walk f (a + 4) rs acc')"

primrec fold_addr :: "(nat \<Rightarrow> ee_record \<Rightarrow> 'a \<Rightarrow> 'a) \<Rightarrow> nat \<Rightarrow> ee_record list \<Rightarrow> 'a \<Rightarrow> 'a" where
  "fold_addr f a [] acc = acc"
| "fold_addr f a (r # rs) acc = fold_addr f (a + 4) rs (f a r acc)"

lemma fold_addr_snoc: "fold_addr f a (rs @ [r]) acc = f (a + 4 * length rs) r (fold_addr f a rs acc)"
  by (induction rs arbitrary: a acc) (auto simp: algebra_simps)

lemma walk_valid:
  "walk (\<lambda>a r acc. if rec_valid r then (False, f a r acc) else (True, acc)) a rs acc
     = fold_addr f a (takeWhile rec_valid rs) acc"
  by (induction rs arbitrary: a acc) auto

lemma rec_empty_not_valid: "rec_empty r \<Longrightarrow> \<not> rec_valid r"
  by (simp add: rec_empty_def rec_valid_def)

section \<open>One batch\<close>

text \<open>Position of the last record with an index, as the offset the code stores.\<close>

definition last_off :: "nat \<Rightarrow> ee_record list \<Rightarrow> u16 \<Rightarrow> nat" where
  "last_off c rs i = fold_addr (\<lambda>a r v. if er_index r = i then a else v) c rs 0"

lemma last_off_Nil [simp]: "last_off c [] i = 0"
  by (simp add: last_off_def)

lemma last_off_snoc [simp]:
  "last_off c (rs @ [r]) i = (if er_index r = i then c + 4 * length rs else last_off c rs i)"
  by (simp add: last_off_def fold_addr_snoc)

lemma last_off_zero: "0 < c \<Longrightarrow> last_off c rs i = 0 \<longleftrightarrow> last_rec rs i = None"
  by (induction rs rule: rev_induct) auto

lemma last_off_rec:
  "0 < c \<Longrightarrow> last_rec rs i = Some r \<Longrightarrow>
     \<exists>k < length rs. last_off c rs i = c + 4 * k \<and> rs ! k = r"
  by (induction rs rule: rev_induct) (force simp: nth_append split: if_splits)+

definition batch_ok :: "nat \<Rightarrow> u16 \<Rightarrow> u16 \<Rightarrow> ee_record list \<Rightarrow> nat list \<times> bool \<Rightarrow> bool" where
  "batch_ok c lo hi rs acc \<longleftrightarrow>
     (snd acc \<longleftrightarrow> (\<exists>r \<in> set rs. hi \<le> er_index r))
     \<and> length (fst acc) \<le> unat (hi - lo)
     \<and> (\<forall>k < length (fst acc). fst acc ! k = last_off c rs (lo + of_nat k))
     \<and> (\<forall>r \<in> set rs. lo \<le> er_index r \<and> er_index r < hi \<longrightarrow> unat (er_index r - lo) < length (fst acc))"

lemma u16_offset_unique:
  fixes lo i :: u16
  assumes "k < 65536"
  shows "lo + of_nat k = i \<longleftrightarrow> k = unat (i - lo)"
proof
  assume "lo + of_nat k = i"
  then have "i - lo = of_nat k" by (simp add: algebra_simps)
  with assms show "k = unat (i - lo)" by (simp add: unat_of_nat_u16)
next
  assume "k = unat (i - lo)"
  then show "lo + of_nat k = i" by simp
qed

lemma in_batch_iff:
  fixes lo hi i :: u16
  assumes "lo \<le> hi"
  shows "lo \<le> i \<and> i < hi \<longleftrightarrow> unat (i - lo) < unat (hi - lo)"
proof
  assume "lo \<le> i \<and> i < hi"
  with assms show "unat (i - lo) < unat (hi - lo)"
    by (auto simp: unat_sub word_le_nat_alt word_less_nat_alt)
next
  assume *: "unat (i - lo) < unat (hi - lo)"
  have d: "unat (hi - lo) = unat hi - unat lo"
    using assms by (simp add: unat_sub word_le_nat_alt)
  have "unat i = unat (lo + (i - lo))" by simp
  also have "\<dots> = unat lo + unat (i - lo)"
    using * d unat_u16_less [of hi] by (intro unat_add_u16) linarith
  finally have "unat i = unat lo + unat (i - lo)" .
  with * d show "lo \<le> i \<and> i < hi"
    unfolding word_le_nat_alt word_less_nat_alt by linarith
qed

lemma batch_note_ok:
  assumes ok: "batch_ok c lo hi rs acc" and c: "c + 4 * length rs < 65536" and le: "lo \<le> hi"
  shows "batch_ok c lo hi (rs @ [r]) (batch_note base lo hi (base + c + 4 * length rs) r acc)"
proof -
  obtain ad more where acc: "acc = (ad, more)" by (cases acc)
  let ?o = "unat (er_index r - lo)"
  have small: "k < 65536" if "k < unat (hi - lo)" for k
    using that unat_u16_less [of "hi - lo"] by simp
  have bound: "length ad \<le> unat (hi - lo)"
    and ad: "\<And>k. k < length ad \<Longrightarrow> ad ! k = last_off c rs (lo + of_nat k)"
    and cover: "\<And>q. q \<in> set rs \<Longrightarrow> lo \<le> er_index q \<Longrightarrow> er_index q < hi \<Longrightarrow> unat (er_index q - lo) < length ad"
    and more: "more \<longleftrightarrow> (\<exists>q \<in> set rs. hi \<le> er_index q)"
    using ok by (auto simp: batch_ok_def acc)
  have idx: "er_index r = lo + of_nat k \<longleftrightarrow> ?o = k" if "k < unat (hi - lo)" for k
    using u16_offset_unique [of k lo "er_index r"] small [OF that] by auto
  show ?thesis
  proof (cases "lo \<le> er_index r \<and> er_index r < hi")
    case False
    then have "\<not> ?o < unat (hi - lo)" by (simp add: in_batch_iff [OF le])
    then show ?thesis
      using False bound ad cover more idx by (auto simp: batch_ok_def batch_note_def acc)
  next
    case True
    then have o: "?o < unat (hi - lo)" by (simp add: in_batch_iff [OF le])
    let ?grown = "if length ad \<le> ?o then ad @ replicate (?o + 1 - length ad) 0 else ad"
    let ?ad = "?grown[?o := (base + c + 4 * length rs - base) mod 65536]"
    have len: "length ?ad = max (length ad) (?o + 1)" by auto
    have old: "last_off c rs (lo + of_nat k) = 0" if "length ad \<le> k" "k < unat (hi - lo)" for k
    proof -
      have "lo + of_nat k \<notin> er_index ` set rs"
      proof
        assume "lo + of_nat k \<in> er_index ` set rs"
        then obtain q where q: "q \<in> set rs" "er_index q = lo + of_nat k" by auto
        then have "unat (er_index q - lo) = k"
          using u16_offset_unique [of k lo "er_index q"] small [OF that(2)] by auto
        with cover [OF q(1)] in_batch_iff [OF le, of "er_index q"] that show False by auto
      qed
      then have "last_rec rs (lo + of_nat k) = None" by (simp add: last_rec_None)
      then show ?thesis by (induction rs rule: rev_induct) (auto split: if_splits)
    qed
    have "?ad ! k = last_off c (rs @ [r]) (lo + of_nat k)" if k: "k < length ?ad" for k
    proof -
      have k': "k < unat (hi - lo)" using k len bound o by auto
      show ?thesis
      proof (cases "k = ?o")
        case True
        then have "er_index r = lo + of_nat k" using idx [OF k'] by simp
        with True show ?thesis using c by (auto simp: nth_append)
      next
        case False
        then have "er_index r \<noteq> lo + of_nat k" using idx [OF k'] by auto
        with False k show ?thesis
          using ad [of k] old [of k] k' by (auto simp: nth_append)
      qed
    qed
    then show ?thesis
      using True o bound more cover len
      by (auto simp: batch_ok_def batch_note_def acc Let_def less_max_iff_disj)
  qed
qed

lemma batch_fold_ok:
  assumes "c + 4 * length rs \<le> 65536" "lo \<le> hi"
  shows "batch_ok c lo hi rs (fold_addr (batch_note base lo hi) (base + c) rs ([], False))"
  using assms(1)
proof (induction rs rule: rev_induct)
  case Nil
  then show ?case by (simp add: batch_ok_def)
next
  case (snoc r rs)
  from snoc.prems have "c + 4 * length rs < 65536" by simp
  with snoc show ?case by (simp add: fold_addr_snoc batch_note_ok assms(2))
qed

section \<open>The records all batches yield\<close>

definition unique_recs :: "ee_record list \<Rightarrow> nat \<Rightarrow> nat \<Rightarrow> ee_record list" where
  "unique_recs rs a b = List.map_filter (\<lambda>k. last_rec rs (of_nat k)) [a..<b]"

lemma map_filter_cong': "(\<And>x. x \<in> set xs \<Longrightarrow> f x = g x) \<Longrightarrow> List.map_filter f xs = List.map_filter g xs"
  by (induction xs) (auto split: option.splits)

lemma map_filter_append: "List.map_filter f (xs @ ys) = List.map_filter f xs @ List.map_filter f ys"
  by (induction xs) (auto split: option.splits)

lemma map_filter_map: "List.map_filter f (map g xs) = List.map_filter (\<lambda>x. f (g x)) xs"
  by (induction xs) (auto split: option.splits)

lemma map_filter_None: "(\<And>x. x \<in> set xs \<Longrightarrow> f x = None) \<Longrightarrow> List.map_filter f xs = []"
  by (induction xs) auto

lemma set_map_filter': "set (List.map_filter f xs) = {y. \<exists>x \<in> set xs. f x = Some y}"
  by (induction xs) (auto split: option.splits)

lemma unique_recs_append:
  "a \<le> b \<Longrightarrow> b \<le> c \<Longrightarrow> unique_recs rs a b @ unique_recs rs b c = unique_recs rs a c"
  using upt_add_eq_append [of a b "c - b"]
  by (simp add: unique_recs_def flip: map_filter_append)

lemma unique_recs_none:
  "(\<And>r. r \<in> set rs \<Longrightarrow> unat (er_index r) < a) \<Longrightarrow> b \<le> 65536 \<Longrightarrow> unique_recs rs a b = []"
  unfolding unique_recs_def
proof (rule map_filter_None)
  fix k assume below: "\<And>r. r \<in> set rs \<Longrightarrow> unat (er_index r) < a" and "b \<le> 65536" "k \<in> set [a..<b]"
  then have "unat (of_nat k :: u16) = k" by (simp add: unat_of_nat_u16)
  with below \<open>k \<in> set [a..<b]\<close> have "of_nat k \<notin> er_index ` set rs" by fastforce
  then show "last_rec rs (of_nat k) = None" by (simp add: last_rec_None)
qed

lemma unique_recs_indices:
  "b \<le> 65536 \<Longrightarrow> map (\<lambda>r. unat (er_index r)) (unique_recs rs a b)
     = filter (\<lambda>k. of_nat k \<in> er_index ` set rs) [a..<b]"
proof -
  assume b: "b \<le> 65536"
  have "map (\<lambda>r. unat (er_index r)) (List.map_filter (\<lambda>k. last_rec rs (of_nat k)) ks)
     = filter (\<lambda>k. of_nat k \<in> er_index ` set rs) ks" if "\<forall>k \<in> set ks. k < 65536" for ks
    using that
  proof (induction ks)
    case Nil
    then show ?case by simp
  next
    case (Cons k ks)
    then show ?case
      using last_rec_None [of rs "of_nat k"] last_rec_Some [of rs "of_nat k"]
      by (auto simp: unat_of_nat_u16 split: option.splits)
  qed
  with b show ?thesis by (simp add: unique_recs_def)
qed

lemma unique_recs_distinct:
  "b \<le> 65536 \<Longrightarrow> distinct (map (\<lambda>r. unat (er_index r)) (unique_recs rs a b))"
  by (simp add: unique_recs_indices)

lemma unique_recs_set:
  assumes "r \<in> set (unique_recs rs a b)"
  shows "r \<in> set rs" "last_rec rs (er_index r) = Some r"
  using assms last_rec_Some by (fastforce simp: unique_recs_def set_map_filter')+

lemma unique_recs_all:
  assumes "last_rec rs i = Some r" "unat i < b"
  shows "r \<in> set (unique_recs rs 0 b)"
  using assms by (auto simp: unique_recs_def set_map_filter' intro!: bexI [of _ "unat i"])

text \<open>What the second phase of a batch reads back, by offset.\<close>

definition rec_at :: "nat \<Rightarrow> ee_record list \<Rightarrow> nat \<Rightarrow> ee_record option" where
  "rec_at c rs off = (if off \<noteq> 0 then Some (rs ! ((off - c) div 4)) else None)"

lemma rec_at_last_off: "0 < c \<Longrightarrow> rec_at c rs (last_off c rs i) = last_rec rs i"
proof (cases "last_rec rs i")
  case None
  moreover assume "0 < c"
  ultimately show ?thesis by (simp add: rec_at_def last_off_zero)
next
  case (Some r)
  moreover assume "0 < c"
  ultimately show ?thesis using last_off_rec [of c rs i r] by (auto simp: rec_at_def)
qed

lemma batch_records:
  assumes ok: "batch_ok c (of_nat a) (of_nat b) rs acc" and ab: "a \<le> b" "b < 65536" and c: "0 < c"
  shows "List.map_filter (rec_at c rs) (fst acc) = unique_recs rs a b"
proof -
  let ?ad = "fst acc"
  have diff: "unat (of_nat b - of_nat a :: u16) = b - a"
    using ab by (simp add: unat_sub word_le_nat_alt unat_of_nat_u16)
  have len: "length ?ad \<le> b - a"
    and ad: "\<And>k. k < length ?ad \<Longrightarrow> ?ad ! k = last_off c rs (of_nat (a + k))"
    and cover: "\<And>q. q \<in> set rs \<Longrightarrow> of_nat a \<le> er_index q \<Longrightarrow> er_index q < of_nat b \<Longrightarrow>
                  unat (er_index q - of_nat a) < length ?ad"
    using ok by (auto simp: batch_ok_def diff)
  have "?ad = map (\<lambda>k. last_off c rs (of_nat k)) [a..<a + length ?ad]"
    by (rule nth_equalityI) (auto simp: ad)
  then have "List.map_filter (rec_at c rs) ?ad
      = List.map_filter (\<lambda>k. rec_at c rs (last_off c rs (of_nat k))) [a..<a + length ?ad]"
    by (metis map_filter_map)
  also have "\<dots> = unique_recs rs a (a + length ?ad)"
    by (simp add: rec_at_last_off c unique_recs_def)
  also have "\<dots> = unique_recs rs a b"
  proof -
    have "unique_recs rs (a + length ?ad) b = []"
      unfolding unique_recs_def
    proof (rule map_filter_None)
      fix k assume k: "k \<in> set [a + length ?ad..<b]"
      have "of_nat k \<notin> er_index ` set rs"
      proof
        assume "of_nat k \<in> er_index ` set rs"
        then obtain q where q: "q \<in> set rs" "er_index q = of_nat k" by auto
        with cover [OF q(1)] k ab have "k - a < length ?ad" "a + length ?ad \<le> k"
          by (auto simp: word_le_nat_alt word_less_nat_alt unat_of_nat_u16 unat_sub)
        then show False by simp
      qed
      then show "last_rec rs (of_nat k) = None" by (simp add: last_rec_None)
    qed
    then show ?thesis
      using len ab unique_recs_append [of a "a + length ?ad" b rs] by simp
  qed
  finally show ?thesis .
qed

end
