(* ===== verification/Eeprom_Pages.thy ===== *)
theory Eeprom_Pages
  imports Eeprom_Records
begin

text \<open>
  Pages of the EEPROM emulation seen as a status word and a list of record slots, and the
  effect of the emulation's flash operations on that picture.  \<open>cell\<close> is the abstract
  content: the value a read of the page gives for each index.
\<close>

section \<open>The layout of a configuration\<close>

definition ee_layout :: "(nat \<Rightarrow> nat \<Rightarrow> bool) \<Rightarrow> eeprom_cfg \<Rightarrow> bool" where
  "ee_layout is_sector cfg \<longleftrightarrow>
     is_sector (ec_base1 cfg) (ec_size1 cfg) \<and> is_sector (ec_base2 cfg) (ec_size2 cfg)
     \<and> ec_base1 cfg mod 4 = 0 \<and> ec_base2 cfg mod 4 = 0
     \<and> ec_size1 cfg mod 4 = 0 \<and> ec_size2 cfg mod 4 = 0
     \<and> 8 \<le> ec_size1 cfg \<and> 8 \<le> ec_size2 cfg
     \<and> ec_size1 cfg \<le> 65536 \<and> ec_size2 cfg \<le> 65536
     \<and> (ec_base1 cfg + ec_size1 cfg \<le> ec_base2 cfg \<or> ec_base2 cfg + ec_size2 cfg \<le> ec_base1 cfg)"

definition nslots :: "eeprom_cfg \<Rightarrow> logical_page \<Rightarrow> nat" where
  "nslots cfg p = (page_size cfg p - 4) div 4"

definition slot_addr :: "eeprom_cfg \<Rightarrow> logical_page \<Rightarrow> nat \<Rightarrow> nat" where
  "slot_addr cfg p k = page_begin cfg p + 4 + 4 * k"

definition slot :: "(nat \<Rightarrow> u8) \<Rightarrow> eeprom_cfg \<Rightarrow> logical_page \<Rightarrow> nat \<Rightarrow> ee_record" where
  "slot v cfg p k = bytes_record (bytes_at v (slot_addr cfg p k) 4)"

definition slots :: "(nat \<Rightarrow> u8) \<Rightarrow> eeprom_cfg \<Rightarrow> logical_page \<Rightarrow> ee_record list" where
  "slots v cfg p = map (slot v cfg p) [0..<nslots cfg p]"

definition status_of :: "(nat \<Rightarrow> u8) \<Rightarrow> eeprom_cfg \<Rightarrow> logical_page \<Rightarrow> u32" where
  "status_of v cfg p = of_le32 (bytes_at v (page_begin cfg p) 4)"

definition cell :: "(nat \<Rightarrow> u8) \<Rightarrow> eeprom_cfg \<Rightarrow> logical_page \<Rightarrow> u16 \<Rightarrow> u8" where
  "cell v cfg p i = latest (takeWhile rec_valid (slots v cfg p)) i"

text \<open>The default constructor \<open>Record()\<close>.\<close>

definition blank_record :: ee_record where
  "blank_record = \<lparr>er_data = FLASH_ERASED, er_status = FLASH_ERASED, er_index = EMPTY_INDEX\<rparr>"

definition other_page :: "logical_page \<Rightarrow> logical_page" where
  "other_page p = (case p of Page1 \<Rightarrow> Page2 | Page2 \<Rightarrow> Page1 | NoPage \<Rightarrow> NoPage)"

lemma length_slots [simp]: "length (slots v cfg p) = nslots cfg p"
  by (simp add: slots_def)

lemma nth_slots [simp]: "k < nslots cfg p \<Longrightarrow> slots v cfg p ! k = slot v cfg p k"
  by (simp add: slots_def)

lemma bytes_record_bytes [simp]: "bytes_record (record_bytes r) = r"
  by (simp add: bytes_record_def record_bytes_def)

lemma record_bytes_record: "length bs = 4 \<Longrightarrow> record_bytes (bytes_record bs) = bs"
proof -
  assume "length bs = 4"
  then obtain a b c d where "bs = [a, b, c, d]"
    by (auto simp: numeral_eq_Suc length_Suc_conv)
  then show ?thesis by (simp add: bytes_record_def record_bytes_def le16_of_le16)
qed

lemma length_record_bytes [simp]: "length (record_bytes r) = 4"
  by (simp add: record_bytes_def)

lemma le16_empty: "le16 0xFFFF = [0xFF, 0xFF]"
  by code_simp

lemma replicate_4: "replicate 4 x = [x, x, x, x]"
  by (simp add: eval_nat_numeral)

lemma blank_bytes: "record_bytes blank_record = replicate 4 0xFF"
  unfolding replicate_4
  by (simp add: record_bytes_def blank_record_def FLASH_ERASED_def EMPTY_INDEX_def le16_empty)

lemma rec_empty_blank: "rec_empty r \<longleftrightarrow> r = blank_record"
  by (cases r) (auto simp: rec_empty_def blank_record_def)

lemma blank_not_valid [simp]: "\<not> rec_valid blank_record"
  by (simp add: rec_valid_def blank_record_def)

lemma slot_blank_iff: "slot v cfg p k = blank_record \<longleftrightarrow> (\<forall>i < 4. v (slot_addr cfg p k + i) = 0xFF)"
proof -
  have "slot v cfg p k = blank_record \<longleftrightarrow>
      record_bytes (slot v cfg p k) = record_bytes blank_record"
    by (metis bytes_record_bytes)
  also have "\<dots> \<longleftrightarrow> bytes_at v (slot_addr cfg p k) 4 = replicate 4 0xFF"
    by (simp add: slot_def record_bytes_record blank_bytes)
  also have "\<dots> \<longleftrightarrow> (\<forall>i < 4. v (slot_addr cfg p k + i) = 0xFF)"
    by (simp add: bytes_at_eq_iff)
  finally show ?thesis .
qed

section \<open>Address arithmetic\<close>

lemma page_end_begin: "page_end cfg p = page_begin cfg p + page_size cfg p"
  by (cases p) (auto simp: page_end_def page_begin_def page_size_def)

lemma layout_page:
  assumes "ee_layout is_sector cfg" "p \<noteq> NoPage"
  shows "is_sector (page_begin cfg p) (page_size cfg p)" "page_begin cfg p mod 4 = 0"
    "page_size cfg p = 4 + 4 * nslots cfg p" "1 \<le> nslots cfg p" "page_size cfg p \<le> 65536"
    "page_end cfg p = slot_addr cfg p (nslots cfg p)" "ee_capacity cfg \<le> nslots cfg p"
    "ee_capacity cfg \<le> 8192"
proof -
  have m: "page_size cfg p mod 4 = 0" "8 \<le> page_size cfg p" "page_size cfg p \<le> 65536"
    using assms by (cases p; auto simp: ee_layout_def page_size_def)+
  show "is_sector (page_begin cfg p) (page_size cfg p)" "page_begin cfg p mod 4 = 0"
    using assms by (cases p; auto simp: ee_layout_def page_size_def page_begin_def)+
  show s: "page_size cfg p = 4 + 4 * nslots cfg p"
    using m unfolding nslots_def by presburger
  show "1 \<le> nslots cfg p" "page_size cfg p \<le> 65536"
    using m s by auto
  show "page_end cfg p = slot_addr cfg p (nslots cfg p)"
    using s by (simp add: page_end_begin slot_addr_def)
  have c: "ee_capacity cfg \<le> page_size cfg p div 4 div 2"
    using assms(2) unfolding ee_capacity_def smallest_page_size_def page_size_def
    by (cases p) (simp_all add: div_le_mono)
  also have "\<dots> \<le> nslots cfg p" using s m by linarith
  finally show "ee_capacity cfg \<le> nslots cfg p" .
  from c m show "ee_capacity cfg \<le> 8192" by linarith
qed

lemma layout_disjoint:
  assumes "ee_layout is_sector cfg" "p \<noteq> NoPage" "q \<noteq> NoPage" "p \<noteq> q"
    and "page_begin cfg p \<le> x" "x < page_end cfg p"
  shows "x < page_begin cfg q \<or> page_end cfg q \<le> x"
  using assms by (cases p; cases q) (auto simp: ee_layout_def page_begin_def page_end_def)

lemma slot_addr_in_page:
  assumes "ee_layout is_sector cfg" "p \<noteq> NoPage" "k < nslots cfg p"
  shows "page_begin cfg p + 4 \<le> slot_addr cfg p k" "slot_addr cfg p k + 4 \<le> page_end cfg p"
  using assms layout_page(6) [OF assms(1,2)] by (auto simp: slot_addr_def)

lemma slots_cong:
  assumes "\<And>x. page_begin cfg p + 4 \<le> x \<Longrightarrow> x < page_end cfg p \<Longrightarrow> v x = w x"
    and "ee_layout is_sector cfg" "p \<noteq> NoPage"
  shows "slots v cfg p = slots w cfg p"
proof (rule nth_equalityI)
  fix k assume "k < length (slots v cfg p)"
  then have k: "k < nslots cfg p" by simp
  have "bytes_at v (slot_addr cfg p k) 4 = bytes_at w (slot_addr cfg p k) 4"
    using slot_addr_in_page [OF assms(2,3) k] by (intro bytes_at_cong assms(1)) auto
  then show "slots v cfg p ! k = slots w cfg p ! k" using k by (simp add: slot_def)
qed simp

lemma status_cong:
  "(\<And>x. page_begin cfg p \<le> x \<Longrightarrow> x < page_begin cfg p + 4 \<Longrightarrow> v x = w x) \<Longrightarrow>
     status_of v cfg p = status_of w cfg p"
  unfolding status_of_def by (rule arg_cong [where f = of_le32], rule bytes_at_cong) auto

section \<open>Writing a record into a blank slot\<close>

lemma slot_write:
  assumes "slot v cfg p k = blank_record"
  shows "slot (and_upd v (slot_addr cfg p k) (record_bytes r)) cfg p k = r"
    and "and_fits v (slot_addr cfg p k) (record_bytes r)"
proof -
  show f: "and_fits v (slot_addr cfg p k) (record_bytes r)"
    using assms by (intro and_fits_erased) (auto simp: slot_blank_iff)
  have "bytes_at (and_upd v (slot_addr cfg p k) (record_bytes r)) (slot_addr cfg p k) 4 = record_bytes r"
    using and_upd_fits [OF f] by simp
  then show "slot (and_upd v (slot_addr cfg p k) (record_bytes r)) cfg p k = r"
    by (simp add: slot_def)
qed

lemma slots_write:
  fixes v :: "nat \<Rightarrow> u8" and r :: ee_record
  assumes lay: "ee_layout is_sector cfg" "p \<noteq> NoPage" and k: "k < nslots cfg p"
    and blank: "slot v cfg p k = blank_record"
  defines "w \<equiv> and_upd v (slot_addr cfg p k) (record_bytes r)"
  shows "slots w cfg p = (slots v cfg p)[k := r]"
    and "q \<noteq> NoPage \<Longrightarrow> q \<noteq> p \<Longrightarrow> slots w cfg q = slots v cfg q"
    and "q \<noteq> NoPage \<Longrightarrow> status_of w cfg q = status_of v cfg q"
proof -
  note in_page = slot_addr_in_page [OF lay k]
  show "slots w cfg p = (slots v cfg p)[k := r]"
  proof (rule nth_equalityI)
    fix j assume "j < length (slots w cfg p)"
    then have j: "j < nslots cfg p" by simp
    show "slots w cfg p ! j = (slots v cfg p)[k := r] ! j"
    proof (cases "j = k")
      case True
      then show ?thesis using j slot_write(1) [OF blank] by (simp add: w_def)
    next
      case False
      then have "slot w cfg p j = slot v cfg p j"
        unfolding slot_def w_def
        by (intro arg_cong [where f = bytes_record] bytes_at_cong and_upd_outside)
          (auto simp: slot_addr_def)
      with False j show ?thesis by simp
    qed
  qed simp
  assume q: "q \<noteq> NoPage"
  have "w x = v x" if "q \<noteq> p" "page_begin cfg q \<le> x" "x < page_end cfg q" for x
    using layout_disjoint [OF lay(1) q lay(2) that] in_page
    by (auto simp: w_def)
  note frame = this
  show "q \<noteq> p \<Longrightarrow> slots w cfg q = slots v cfg q"
    by (rule slots_cong [OF _ lay(1) q]) (auto intro: frame)
  show "status_of w cfg q = status_of v cfg q"
  proof (cases "q = p")
    case True
    then show ?thesis using in_page by (intro status_cong) (auto simp: w_def)
  next
    case False
    have "page_begin cfg q + 4 \<le> page_end cfg q"
      using layout_page(3) [OF lay(1) q] by (simp add: page_end_begin)
    with False show ?thesis by (intro status_cong frame) auto
  qed
qed

end
