(* ===== verification/Eeprom_Reading.thy ===== *)
theory Eeprom_Reading
  imports Eeprom_Pages
begin

text \<open>
  The reading operations of the EEPROM emulation over any flash store: iterating over the
  records of a page is a walk over its slots, a range read gives the latest value of each
  cell, the search for the free slot ends at the first blank one, \<open>verifyPage\<close> decides
  whether a page is blank, and \<open>forEachUniqueValidRecord\<close> ends and hands the last record of
  every index to its callback.
\<close>

section \<open>Range reads on record lists\<close>

definition note_range :: "u16 \<Rightarrow> u16 \<Rightarrow> nat \<Rightarrow> ee_record \<Rightarrow> u8 list \<Rightarrow> u8 list" where
  "note_range lo hi a r data =
     (if lo \<le> er_index r \<and> er_index r < hi
      then data[unat (er_index r - lo) := er_data r] else data)"

lemma note_range_latest:
  fixes lo n :: u16
  assumes "unat lo + unat n < 65536"
  shows "fold_addr (note_range lo (lo + n)) a rs (replicate (unat n) FLASH_ERASED)
    = map (\<lambda>k. latest rs (lo + of_nat k)) [0..<unat n]"
proof (induction rs rule: rev_induct)
  case Nil
  show ?case by (auto simp: list_eq_iff_nth_eq)
next
  case (snoc r rs)
  let ?old = "map (\<lambda>k. latest rs (lo + of_nat k)) [0..<unat n]"
  let ?o = "unat (er_index r - lo)"
  have "lo \<le> lo + n" using assms by (simp add: word_le_nat_alt unat_add_u16)
  note in_batch = in_batch_iff [OF this]
  have old: "note_range lo (lo + n) b r ?old = (if ?o < unat n then ?old[?o := er_data r] else ?old)" for b
    by (simp add: note_range_def in_batch)
  have len: "length (note_range lo (lo + n) b r ?old) = unat n" for b by (simp add: old)
  have off: "er_index r = lo + of_nat k \<longleftrightarrow> ?o = k" if "k < unat n" for k
    using u16_offset_unique [of k lo "er_index r"] that assms by auto
  have "note_range lo (lo + n) b r ?old ! k = latest (rs @ [r]) (lo + of_nat k)" if "k < unat n" for b k
    unfolding old latest_snoc off [OF that] using that by (auto simp: nth_list_update)
  then have "note_range lo (lo + n) b r ?old = map (\<lambda>k. latest (rs @ [r]) (lo + of_nat k)) [0..<unat n]" for b
    by (simp only: list_eq_iff_nth_eq len) (simp del: latest_snoc)
  with snoc show ?case by (simp add: fold_addr_snoc)
qed

definition note_free ::
    "u16 \<Rightarrow> u16 \<Rightarrow> nat \<Rightarrow> ee_record \<Rightarrow> bool \<times> u8 list \<times> nat \<Rightarrow> bool \<times> bool \<times> u8 list \<times> nat" where
  "note_free lo hi address rec = (\<lambda>(invalid, existing, empty).
     if rec_empty rec then (True, (invalid, existing, address))
     else if rec_valid rec then (False, (invalid, note_range lo hi address rec existing, empty))
     else (True, (True, existing, empty)))"

lemma walk_note_free:
  "walk (note_free lo hi) a rs (False, ex, e) =
    (let v = takeWhile rec_valid rs; rest = dropWhile rec_valid rs
     in (rest \<noteq> [] \<and> hd rest \<noteq> blank_record, fold_addr (note_range lo hi) a v ex,
         if rest \<noteq> [] \<and> hd rest = blank_record then a + 4 * length v else e))"
proof (induction rs arbitrary: a ex)
  case Nil
  then show ?case by simp
next
  case (Cons r rs)
  show ?case
  proof (cases "rec_valid r")
    case True
    then have "\<not> rec_empty r" using rec_empty_not_valid by blast
    with True Cons show ?thesis by (simp add: note_free_def Let_def)
  next
    case False
    then show ?thesis by (simp add: note_free_def rec_empty_blank)
  qed
qed

section \<open>Iteration is a walk over the slots\<close>

context flash_store
begin

abbreviation lay :: "eeprom_cfg \<Rightarrow> bool" where "lay \<equiv> ee_layout is_sector"

lemma page_in_range:
  assumes "lay cfg" "p \<noteq> NoPage" "page_begin cfg p \<le> a" "a + n \<le> page_end cfg p"
  shows "in_range a n"
  using assms layout_page(1) [OF assms(1,2)] sector_in_range in_range_mono
  by (metis page_end_begin)

lemma read_slot:
  assumes "ok s" "lay cfg" "p \<noteq> NoPage" "k < nslots cfg p"
  shows "bytes_record (st_read ops (slot_addr cfg p k) 4 s) = slot (view s) cfg p k"
proof -
  note in_page = slot_addr_in_page [OF assms(2-4)]
  have "in_range (slot_addr cfg p k) 4"
    using in_page by (intro page_in_range [OF assms(2,3)]) auto
  then show ?thesis by (simp add: slot_def read_view assms(1))
qed

lemma read_status:
  assumes "ok s" "lay cfg" "p \<noteq> NoPage"
  shows "read_page_status cfg ops p s = status_of (view s) cfg p"
proof -
  have "in_range (page_begin cfg p) 4"
    using layout_page(3) [OF assms(2,3)] by (intro page_in_range [OF assms(2,3)]) (auto simp: page_end_begin)
  then show ?thesis by (simp add: read_page_status_def status_of_def read_view assms(1))
qed

lemma for_each_record_slots:
  assumes "ok s" "lay cfg" "p \<noteq> NoPage"
  shows "for_each_record cfg ops s p f acc = walk f (slot_addr cfg p 0) (slots (view s) cfg p) acc"
proof -
  have "for_each_record_from ops s (slot_addr cfg p k) (page_end cfg p) f acc
      = walk f (slot_addr cfg p k) (drop k (slots (view s) cfg p)) acc" if "k \<le> nslots cfg p" for k
    using that
  proof (induction "nslots cfg p - k" arbitrary: k acc)
    case 0
    then have "k = nslots cfg p" by simp
    then show ?case
      by (subst for_each_record_from.simps) (simp add: layout_page(6) [OF assms(2,3)])
  next
    case (Suc m)
    then have k: "k < nslots cfg p" by simp
    have "slot_addr cfg p k < page_end cfg p"
      using slot_addr_in_page [OF assms(2,3) k] by simp
    moreover have "drop k (slots (view s) cfg p) = slot (view s) cfg p k # drop (Suc k) (slots (view s) cfg p)"
      using k by (simp add: Cons_nth_drop_Suc [symmetric])
    moreover have "slot_addr cfg p k + 4 = slot_addr cfg p (Suc k)"
      by (simp add: slot_addr_def)
    ultimately show ?case
      using Suc k by (subst for_each_record_from.simps)
        (simp add: read_slot [OF assms k] Let_def split: prod.splits)
  qed
  from this [of 0] show ?thesis
    by (simp add: for_each_record_def slot_addr_def)
qed

lemma for_each_valid_slots:
  assumes "ok s" "lay cfg" "p \<noteq> NoPage"
  shows "for_each_valid_record cfg ops s p f acc
    = fold_addr f (slot_addr cfg p 0) (takeWhile rec_valid (slots (view s) cfg p)) acc"
  by (simp add: for_each_valid_record_def for_each_record_slots [OF assms] walk_valid)

lemma read_range_cells:
  assumes "ok (ee_store e)" "lay cfg" "ee_active e \<noteq> NoPage" "unat lo + unat n < 65536"
  shows "read_range cfg ops e lo n
    = map (\<lambda>k. cell (view (ee_store e)) cfg (ee_active e) (lo + of_nat k)) [0..<unat n]"
proof -
  have "read_range cfg ops e lo n = fold_addr (note_range lo (lo + n))
      (slot_addr cfg (ee_active e) 0) (takeWhile rec_valid (slots (view (ee_store e)) cfg (ee_active e)))
      (replicate (unat n) FLASH_ERASED)"
    by (simp add: read_range_def note_range_def [abs_def] for_each_valid_slots [OF assms(1-3)])
  then show ?thesis by (simp add: note_range_latest [OF assms(4)] cell_def)
qed

lemma find_empty_slots:
  assumes "ok s" "lay cfg" "p \<noteq> NoPage" "unat lo + unat n < 65536"
  defines "rs \<equiv> takeWhile rec_valid (slots (view s) cfg p)"
    and "rest \<equiv> dropWhile rec_valid (slots (view s) cfg p)"
  shows "read_range_and_find_empty cfg ops s p lo n =
    (rest = [] \<or> hd rest = blank_record,
     map (\<lambda>k. cell (view s) cfg p (lo + of_nat k)) [0..<unat n],
     if rest = [] \<or> hd rest = blank_record then slot_addr cfg p (length rs) else page_end cfg p)"
proof -
  have "length (rs @ rest) = nslots cfg p" by (simp add: rs_def rest_def)
  then have full: "rest = [] \<Longrightarrow> page_end cfg p = slot_addr cfg p (length rs)"
    using layout_page(6) [OF assms(2,3)] by simp
  have cb: "(\<lambda>address rec (invalid, existing, empty).
                 if rec_empty rec then (True, (invalid, existing, address))
                 else if rec_valid rec then
                   (False, (invalid,
                     (if lo \<le> er_index rec \<and> er_index rec < lo + n
                      then existing[unat (er_index rec - lo) := er_data rec] else existing),
                     empty))
                 else (True, (True, existing, empty)))
      = note_free lo (lo + n)"
    by (intro ext) (auto simp: note_free_def note_range_def)
  have "read_range_and_find_empty cfg ops s p lo n =
    (let (invalid, existing, empty) = walk (note_free lo (lo + n)) (slot_addr cfg p 0)
       (slots (view s) cfg p) (False, replicate (unat n) FLASH_ERASED, page_end cfg p)
     in (\<not> invalid, existing, empty))"
    unfolding read_range_and_find_empty_def Let_def for_each_record_slots [OF assms(1-3)] cb ..
  then show ?thesis
    using full by (simp add: walk_note_free note_range_latest [OF assms(4)] cell_def Let_def
        rs_def rest_def slot_addr_def)
qed

section \<open>Blank pages\<close>

definition page_blank :: "'s \<Rightarrow> eeprom_cfg \<Rightarrow> logical_page \<Rightarrow> bool" where
  "page_blank s cfg p \<longleftrightarrow> (\<forall>x. page_begin cfg p \<le> x \<longrightarrow> x < page_end cfg p \<longrightarrow> view s x = 0xFF)"

lemma verify_page_blank:
  assumes "ok s" "lay cfg" "p \<noteq> NoPage"
  shows "verify_page cfg ops p s \<longleftrightarrow> page_blank s cfg p"
proof -
  have "verify_from ops s a (page_end cfg p) \<longleftrightarrow> (\<forall>x. a \<le> x \<longrightarrow> x < page_end cfg p \<longrightarrow> view s x = 0xFF)"
    if "page_begin cfg p \<le> a" for a
    using that
  proof (induction "page_end cfg p - a" arbitrary: a)
    case 0
    then show ?case by (subst verify_from.simps) simp
  next
    case (Suc m)
    then have "in_range a 1" by (intro page_in_range [OF assms(2,3)]) auto
    then have r: "st_read ops a 1 s = [view s a]" by (simp add: read_view assms(1) bytes_at_def)
    have "verify_from ops s a (page_end cfg p) \<longleftrightarrow> view s a = 0xFF \<and> verify_from ops s (Suc a) (page_end cfg p)"
      using Suc(2) by (subst verify_from.simps) (auto simp: r [simplified] FLASH_ERASED_def)
    also have "\<dots> \<longleftrightarrow> view s a = 0xFF \<and> (\<forall>x. Suc a \<le> x \<longrightarrow> x < page_end cfg p \<longrightarrow> view s x = 0xFF)"
      using Suc by auto
    also have "\<dots> \<longleftrightarrow> (\<forall>x. a \<le> x \<longrightarrow> x < page_end cfg p \<longrightarrow> view s x = 0xFF)"
      using Suc(2) by (metis Suc_leD Suc_leI le_less zero_less_Suc zero_less_diff)
    finally show ?case .
  qed
  from this [of "page_begin cfg p"] show ?thesis
    by (simp add: verify_page_def page_blank_def)
qed

lemma page_blank_slots:
  assumes "page_blank s cfg p" "lay cfg" "p \<noteq> NoPage"
  shows "slots (view s) cfg p = replicate (nslots cfg p) blank_record"
    and "status_of (view s) cfg p = PAGE_ERASED"
proof -
  have "slot (view s) cfg p k = blank_record" if k: "k < nslots cfg p" for k
    using slot_addr_in_page [OF assms(2,3) k] assms(1) by (auto simp: slot_blank_iff page_blank_def)
  then show "slots (view s) cfg p = replicate (nslots cfg p) blank_record"
    by (intro nth_equalityI) auto
  have "page_begin cfg p + 4 \<le> page_end cfg p"
    using layout_page(3) [OF assms(2,3)] by (simp add: page_end_begin)
  then have "bytes_at (view s) (page_begin cfg p) 4 = replicate 4 0xFF"
    using assms(1) by (auto simp: bytes_at_eq_iff page_blank_def)
  moreover have "le32 PAGE_ERASED = replicate 4 0xFF"
    unfolding replicate_4 PAGE_ERASED_def by code_simp
  ultimately show "status_of (view s) cfg p = PAGE_ERASED"
    unfolding status_of_def by (metis of_le32_le32)
qed

section \<open>The batched iteration\<close>

definition tracks :: "('a \<times> 's \<Rightarrow> bool) \<Rightarrow> eeprom_cfg \<Rightarrow> logical_page \<Rightarrow> ee_record list \<Rightarrow>
    (ee_record \<Rightarrow> 'a \<times> 's \<Rightarrow> 'a \<times> 's) \<Rightarrow> bool" where
  "tracks P cfg p rs g \<longleftrightarrow>
     (\<forall>st. P st \<longrightarrow> ok (snd st) \<and> takeWhile rec_valid (slots (view (snd st)) cfg p) = rs
            \<and> (\<forall>r \<in> set rs. P (g r st)))"

lemma tracksD:
  assumes "tracks P cfg p rs g" "P st"
  shows "ok (snd st)" "takeWhile rec_valid (slots (view (snd st)) cfg p) = rs"
    "r \<in> set rs \<Longrightarrow> P (g r st)"
  using assms unfolding tracks_def by blast+

lemma tracks_fold:
  "tracks P cfg p rs g \<Longrightarrow> P st \<Longrightarrow> set qs \<subseteq> set rs \<Longrightarrow> P (fold g qs st)"
  by (induction qs arbitrary: st) (simp_all add: tracksD(3))

lemma valid_prefix_nth:
  "takeWhile rec_valid (slots v cfg p) = rs \<Longrightarrow> k < length rs \<Longrightarrow> k < nslots cfg p \<and> slot v cfg p k = rs ! k"
  by (metis length_slots length_takeWhile_le nth_slots order_less_le_trans takeWhile_nth)

lemma batch_yield_fold:
  assumes "lay cfg" "p \<noteq> NoPage" "tracks P cfg p rs g"
    and "\<And>off. off \<in> set offs \<Longrightarrow> off \<noteq> 0 \<Longrightarrow> \<exists>k < length rs. off = 4 + 4 * k"
  shows "P st \<Longrightarrow> batch_yield ops (page_begin cfg p) (\<lambda>a. g) offs st
    = fold g (List.map_filter (rec_at 4 rs) offs) st"
  using assms(4)
proof (induction offs arbitrary: st)
  case (Cons off offs)
  have st: "ok (snd st)" "takeWhile rec_valid (slots (view (snd st)) cfg p) = rs"
    using tracksD [OF assms(3) Cons.prems(1)] by auto
  show ?case
  proof (cases "off = 0")
    case False
    then obtain k where k: "k < length rs" "off = 4 + 4 * k" using Cons.prems(2) [of off] by auto
    note nth = valid_prefix_nth [OF st(2) k(1)]
    have "bytes_record (st_read ops (page_begin cfg p + off) 4 (snd st)) = rs ! k"
      using read_slot [OF st(1) assms(1,2), of k] nth by (simp add: slot_addr_def k ac_simps)
    moreover have "P (g (rs ! k) st)" using tracksD(3) [OF assms(3) Cons.prems(1)] k(1) by simp
    ultimately show ?thesis using Cons k False by (simp add: rec_at_def)
  qed (use Cons in \<open>simp add: rec_at_def\<close>)
qed simp

lemma batch_scan_ok:
  assumes "ok s" "lay cfg" "p \<noteq> NoPage" "takeWhile rec_valid (slots (view s) cfg p) = rs" "lo \<le> hi"
  shows "batch_ok 4 lo hi rs (batch_scan cfg ops s p lo hi)"
proof -
  have "length rs \<le> nslots cfg p" using assms(4) length_takeWhile_le by (metis length_slots)
  then have "4 + 4 * length rs \<le> 65536" using layout_page(3,5) [OF assms(2,3)] by linarith
  from batch_fold_ok [OF this assms(5), of "page_begin cfg p"] show ?thesis
    by (simp add: batch_scan_def for_each_valid_slots [OF assms(1-3)] assms(4) slot_addr_def)
qed

lemma batch_offsets:
  assumes "batch_ok 4 lo hi rs acc" "off \<in> set (fst acc)" "off \<noteq> 0"
  shows "\<exists>k < length rs. off = 4 + 4 * k"
proof -
  obtain i where "off = last_off 4 rs i" using assms(1,2) by (auto simp: batch_ok_def in_set_conv_nth)
  moreover from this assms(3) obtain r where "last_rec rs i = Some r"
    using last_off_zero [of 4 rs i] by auto
  ultimately show ?thesis using last_off_rec [of 4 rs i r] by auto
qed

lemma unique_batches_fold:
  assumes lay: "lay cfg" "p \<noteq> NoPage" and tr: "tracks P cfg p rs g"
    and small: "\<forall>r \<in> set rs. unat (er_index r) < 8192"
  shows "P st \<Longrightarrow> n \<le> 63 \<Longrightarrow> 64 \<le> fuel + n \<Longrightarrow>
    unique_batches fuel cfg ops p (\<lambda>a. g) (of_nat (128 * n)) (of_nat (128 * n + 128)) st
      = Some (fold g (unique_recs rs (128 * n) 8192) st)"
proof (induction fuel arbitrary: n st)
  case (Suc fuel)
  let ?a = "128 * n" and ?b = "128 * n + 128"
  obtain ad more where scan: "batch_scan cfg ops (snd st) p (of_nat ?a) (of_nat ?b) = (ad, more)"
    by (metis surj_pair)
  have st: "ok (snd st)" "takeWhile rec_valid (slots (view (snd st)) cfg p) = rs"
    using tracksD [OF tr Suc.prems(1)] by auto
  have u: "unat (of_nat ?a :: u16) = ?a" "unat (of_nat ?b :: u16) = ?b"
    using Suc.prems(2) by (auto intro!: unat_of_nat_u16 simp del: of_nat_mult of_nat_add)
  then have le: "(of_nat ?a :: u16) \<le> of_nat ?b" by (simp only: word_le_nat_alt)
  have bo: "batch_ok 4 (of_nat ?a) (of_nat ?b) rs (ad, more)"
    using batch_scan_ok [OF st(1) lay st(2) le] by (simp only: scan)
  have more: "more \<longleftrightarrow> (\<exists>r \<in> set rs. ?b \<le> unat (er_index r))"
    using bo u by (simp only: batch_ok_def word_le_nat_alt snd_conv)
  have recs: "List.map_filter (rec_at 4 rs) ad = unique_recs rs ?a ?b"
    using batch_records [OF bo] Suc.prems(2) by simp
  have yield: "batch_yield ops (page_begin cfg p) (\<lambda>a. g) ad st = fold g (unique_recs rs ?a ?b) st"
    using batch_yield_fold [OF lay tr _ Suc.prems(1), of ad] batch_offsets [OF bo] by (simp add: recs)
  have P': "P (fold g (unique_recs rs ?a ?b) st)"
    using unique_recs_set(1) by (intro tracks_fold [OF tr Suc.prems(1)]) blast
  have "unique_recs rs ?a 8192 = unique_recs rs ?a ?b @ unique_recs rs ?b 8192"
    using Suc.prems(2) by (intro unique_recs_append [symmetric]) auto
  then have split: "fold g (unique_recs rs ?a 8192) st
      = fold g (unique_recs rs ?b 8192) (fold g (unique_recs rs ?a ?b) st)"
    by simp
  show ?case
  proof (cases more)
    case True
    with more small have "?b < 8192" by fastforce
    then have n: "Suc n \<le> 63" by simp
    have next_idx: "of_nat ?a + BATCH_SIZE = of_nat (128 * Suc n)" "of_nat ?b + BATCH_SIZE = of_nat (128 * Suc n + 128)"
      by (simp_all add: BATCH_SIZE_def)
    have sn: "128 * Suc n = ?b" by simp
    show ?thesis
      using Suc.IH [OF P' n] Suc.prems(3) True
      unfolding unique_batches.simps scan Let_def prod.case yield next_idx if_True sn split by simp
  next
    case False
    then have "unique_recs rs ?b 8192 = []"
      using more by (intro unique_recs_none) (auto simp: not_le)
    then show ?thesis
      using False unfolding unique_batches.simps scan Let_def prod.case yield split by simp
  qed
qed simp

lemma for_each_unique_fold:
  assumes "lay cfg" "p \<noteq> NoPage" "tracks P cfg p rs g" "\<forall>r \<in> set rs. unat (er_index r) < ee_capacity cfg"
    and "P st" "64 \<le> fuel"
  shows "for_each_unique_valid_record fuel cfg ops p (\<lambda>a. g) st
    = Some (fold g (unique_recs rs 0 8192) st)"
proof -
  have "\<forall>r \<in> set rs. unat (er_index r) < 8192"
    using assms(4) layout_page(8) [OF assms(1,2)] by fastforce
  from unique_batches_fold [OF assms(1-3) this assms(5), of 0 fuel] assms(6) show ?thesis
    by (simp add: for_each_unique_valid_record_def BATCH_SIZE_def)
qed

end

end
