(* ===== verification/Eeprom_Writing.thy ===== *)
theory Eeprom_Writing
  imports Eeprom_Reading
begin

text \<open>
  The writing loops of the EEPROM emulation over any flash store.  \<open>write_down\<close> is the loop
  of \<open>writeRangeChanged\<close> on the records it writes, from the last free slot down to the first;
  \<open>write_up\<close> is what \<open>copyAllRecordsToPageExcept\<close> and \<open>writeRangeDirect\<close> do one after the
  other.  Each is shown to stay within its slots, to do nothing on a dead store, and to
  write its records when the store is live.
\<close>

section \<open>Changes confined to some slots\<close>

definition same_but ::
    "eeprom_cfg \<Rightarrow> logical_page \<Rightarrow> nat \<Rightarrow> nat \<Rightarrow> (nat \<Rightarrow> u8) \<Rightarrow> (nat \<Rightarrow> u8) \<Rightarrow> bool" where
  "same_but cfg p k m v w \<longleftrightarrow>
     (\<forall>x. x < slot_addr cfg p k \<or> slot_addr cfg p (k + m) \<le> x \<longrightarrow> w x = v x)"

lemma same_but_refl [simp]: "same_but cfg p k m v v"
  by (simp add: same_but_def)

lemma same_but_trans:
  "same_but cfg p k m u v \<Longrightarrow> same_but cfg p k m v w \<Longrightarrow> same_but cfg p k m u w"
  by (simp add: same_but_def)

lemma same_but_mono:
  "same_but cfg p k m v w \<Longrightarrow> k' \<le> k \<Longrightarrow> k + m \<le> k' + m' \<Longrightarrow> same_but cfg p k' m' v w"
  by (auto simp: same_but_def slot_addr_def)

lemma same_but_slot:
  "same_but cfg p k m v w \<Longrightarrow> j < k \<or> k + m \<le> j \<Longrightarrow> slot w cfg p j = slot v cfg p j"
  unfolding slot_def same_but_def
  by (intro arg_cong [where f = bytes_record] bytes_at_cong) (auto simp: slot_addr_def)

lemma same_but_status:
  assumes "same_but cfg p k m v w" "ee_layout is_sector cfg" "p \<noteq> NoPage" "q \<noteq> NoPage" "k + m \<le> nslots cfg p"
  shows "status_of w cfg q = status_of v cfg q"
proof (rule status_cong)
  fix x assume x: "page_begin cfg q \<le> x" "x < page_begin cfg q + 4"
  have "page_begin cfg q + 4 \<le> page_end cfg q"
    using layout_page(3) [OF assms(2,4)] by (simp add: page_end_begin)
  moreover have "slot_addr cfg p (k + m) \<le> page_end cfg p"
    using layout_page(6) [OF assms(2,3)] assms(5) by (simp add: slot_addr_def)
  ultimately have "x < slot_addr cfg p k \<or> slot_addr cfg p (k + m) \<le> x"
    using x layout_disjoint [OF assms(2,4,3), of x] by (cases "p = q") (auto simp: slot_addr_def)
  with assms(1) show "w x = v x" unfolding same_but_def by blast
qed

lemma same_but_other:
  assumes "same_but cfg p k m v w" "ee_layout is_sector cfg" "p \<noteq> NoPage" "q \<noteq> NoPage" "q \<noteq> p"
    "k + m \<le> nslots cfg p"
  shows "slots w cfg q = slots v cfg q"
proof (rule slots_cong [OF _ assms(2,4)])
  fix x assume x: "page_begin cfg q + 4 \<le> x" "x < page_end cfg q"
  have "slot_addr cfg p (k + m) \<le> page_end cfg p"
    using layout_page(6) [OF assms(2,3)] assms(6) by (simp add: slot_addr_def)
  then have "x < slot_addr cfg p k \<or> slot_addr cfg p (k + m) \<le> x"
    using x layout_disjoint [OF assms(2,4,3) assms(5), of x] by (auto simp: slot_addr_def)
  with assms(1) show "w x = v x" unfolding same_but_def by blast
qed

section \<open>The loops on the records they write\<close>

primrec write_down :: "'s store_ops \<Rightarrow> nat \<Rightarrow> ee_record list \<Rightarrow> nat \<Rightarrow> 's \<Rightarrow> bool \<times> 's" where
  "write_down ops e [] a s = (True, s)"
| "write_down ops e (r # rs) a s =
     (let (b, s') = write_record ops (a - 4) e r s
      in if b then write_down ops e rs (a - 4) s' else (False, s'))"

fun changed_recs :: "u16 \<Rightarrow> u8 list \<Rightarrow> u8 list \<Rightarrow> ee_record list" where
  "changed_recs i (x # xs) (d # ds) =
     (if x \<noteq> d then mk_record i d # changed_recs (i + 1) xs ds else changed_recs (i + 1) xs ds)"
| "changed_recs i _ _ = []"

lemma write_changed_down:
  "write_changed_loop ops e i xs ds a s = write_down ops e (changed_recs i xs ds) a s"
  by (induction i xs ds arbitrary: a s rule: changed_recs.induct) (auto split: prod.splits)

lemma length_changed_recs: "length (changed_recs i xs ds) = changed_count xs ds"
  by (induction i xs ds rule: changed_recs.induct) (auto simp: changed_count_def)

definition write_up ::
    "'s store_ops \<Rightarrow> nat \<Rightarrow> ee_record \<Rightarrow> (bool \<times> nat) \<times> 's \<Rightarrow> (bool \<times> nat) \<times> 's" where
  "write_up ops e r st =
     (let ((b, a), s) = st; (b', s') = (if b then write_record ops a e r s else (False, s))
      in ((b', a + 4), s'))"

primrec direct_recs :: "u16 \<Rightarrow> u8 list \<Rightarrow> ee_record list" where
  "direct_recs i [] = []"
| "direct_recs i (d # ds) =
     (if d \<noteq> FLASH_ERASED then mk_record i d # direct_recs (i + 1) ds else direct_recs (i + 1) ds)"

definition copied :: "u16 \<Rightarrow> u16 \<Rightarrow> ee_record list \<Rightarrow> ee_record list" where
  "copied lo hi rs = map (\<lambda>r. mk_record (er_index r) (er_data r))
     (filter (\<lambda>r. \<not> (lo \<le> er_index r \<and> er_index r < hi) \<and> er_data r \<noteq> FLASH_ERASED) rs)"

lemma write_up_Pair:
  "write_up ops e r ((b, a), s) =
     (if b then let (b', s') = write_record ops a e r s in ((b', a + 4), s') else ((False, a + 4), s))"
  by (auto simp: write_up_def split: prod.splits)

lemma write_up_failed: "\<exists>a'. fold (write_up ops e) rs ((False, a), s) = ((False, a'), s)"
  by (induction rs arbitrary: a) (auto simp: write_up_Pair)

lemma write_direct_up:
  "write_direct_loop ops e i ds a s =
     (let ((b, a'), s') = fold (write_up ops e) (direct_recs i ds) ((True, a), s) in (b, s'))"
proof (induction ds arbitrary: i a s)
  case (Cons d ds)
  show ?case
  proof (cases "d = FLASH_ERASED")
    case False
    obtain b s' where w: "write_record ops a e (mk_record i d) s = (b, s')" by fastforce
    show ?thesis
      using False w Cons write_up_failed [of ops e "direct_recs (i + 1) ds" "a + 4" s']
      by (cases b) (auto simp: write_up_Pair)
  qed (use Cons in simp)
qed simp

lemma copy_fold_up:
  "fold (copy_record ops e lo hi a) rs st = fold (write_up ops e) (copied lo hi rs) st"
  by (induction rs arbitrary: st)
    (auto simp: copied_def copy_record_def write_up_def split: prod.splits)

section \<open>One record\<close>

context flash_store
begin

definition verifies :: bool where
  "verifies \<longleftrightarrow> (\<forall>s a ds. ok s \<longrightarrow> in_range a (length ds) \<longrightarrow> \<not> dead (snd (st_write ops a ds s)) \<longrightarrow>
     0 \<le> fst (st_write ops a ds s) \<longrightarrow> and_fits (view s) a ds)"

lemma slot_in_range:
  "lay cfg \<Longrightarrow> p \<noteq> NoPage \<Longrightarrow> k < nslots cfg p \<Longrightarrow> in_range (slot_addr cfg p k) 4"
  using slot_addr_in_page [of is_sector cfg p k] by (intro page_in_range) auto

lemma write_record_full:
  "lay cfg \<Longrightarrow> p \<noteq> NoPage \<Longrightarrow> nslots cfg p \<le> k \<Longrightarrow>
     write_record ops (slot_addr cfg p k) (page_end cfg p) r s = (False, s)"
  using layout_page(6) [of is_sector cfg p] by (simp add: write_record_def slot_addr_def)

lemma write_record_slot:
  assumes "ok s" "lay cfg" "p \<noteq> NoPage" "k < nslots cfg p"
    and "write_record ops (slot_addr cfg p k) (page_end cfg p) r s = (b, s')"
  shows "ok s'" "same_but cfg p k 1 (view s) (view s')"
    and "dead s \<Longrightarrow> dead s' \<and> view s' = view s"
    and "\<not> dead s' \<Longrightarrow> \<not> dead s"
    and "\<not> dead s' \<Longrightarrow> slot (view s) cfg p k = blank_record \<Longrightarrow> b"
    and "\<not> dead s' \<Longrightarrow> b \<Longrightarrow> slot (view s) cfg p k = blank_record \<or> verifies \<Longrightarrow> slot (view s') cfg p k = r"
proof -
  let ?a = "slot_addr cfg p k" and ?ds = "record_bytes r"
  have rng: "in_range ?a (length ?ds)" using slot_in_range [OF assms(2-4)] by simp
  have "?a + 4 \<le> page_end cfg p" using slot_addr_in_page [OF assms(2-4)] by simp
  then have w: "b = (0 \<le> fst (st_write ops ?a ?ds s))" "s' = snd (st_write ops ?a ?ds s)"
    using assms(5) by (auto simp: write_record_def split: prod.splits)
  show "ok s'" using write_ok [OF assms(1) rng] w by simp
  show "same_but cfg p k 1 (view s) (view s')"
    using write_outside [OF assms(1) rng] by (auto simp: same_but_def w slot_addr_def)
  show "dead s \<Longrightarrow> dead s' \<and> view s' = view s" using write_dead [OF assms(1) rng] w by simp
  show "\<not> dead s' \<Longrightarrow> \<not> dead s" using write_live [OF assms(1) rng] w by simp
  have fits: "slot (view s) cfg p k = blank_record \<Longrightarrow> and_fits (view s) ?a ?ds"
    by (rule slot_write(2))
  show "\<not> dead s' \<Longrightarrow> slot (view s) cfg p k = blank_record \<Longrightarrow> b"
    using write_result [OF assms(1) rng] fits w by simp
  assume "\<not> dead s'" b "slot (view s) cfg p k = blank_record \<or> verifies"
  then have "and_fits (view s) ?a ?ds" "view s' = and_upd (view s) ?a ?ds"
    using fits write_live [OF assms(1) rng] w assms(1) rng by (auto simp: verifies_def)
  then show "slot (view s') cfg p k = r"
    using and_upd_fits [of "view s" ?a ?ds] by (simp add: slot_def)
qed

section \<open>Writing downwards\<close>

lemma write_down_full:
  assumes "lay cfg" "p \<noteq> NoPage" "rs \<noteq> []" "nslots cfg p < k + length rs"
  shows "write_down ops (page_end cfg p) rs (slot_addr cfg p (k + length rs)) s = (False, s)"
proof -
  obtain r rs' where rs: "rs = r # rs'" using assms(3) by (cases rs) auto
  have "slot_addr cfg p (k + length rs) - 4 = slot_addr cfg p (k + length rs')"
    by (simp add: slot_addr_def rs)
  then show ?thesis
    using write_record_full [OF assms(1,2), of "k + length rs'"] assms(4) by (simp add: rs)
qed

lemma write_down_slots:
  assumes "lay cfg" "p \<noteq> NoPage"
  shows "ok s \<Longrightarrow> k + length rs \<le> nslots cfg p \<Longrightarrow>
    write_down ops (page_end cfg p) rs (slot_addr cfg p (k + length rs)) s = (b, s') \<Longrightarrow>
    ok s' \<and> same_but cfg p k (length rs) (view s) (view s')
    \<and> (dead s \<longrightarrow> dead s' \<and> view s' = view s)
    \<and> (\<not> dead s' \<longrightarrow> (\<forall>j < length rs. slot (view s) cfg p (k + j) = blank_record) \<longrightarrow> b)
    \<and> (\<not> dead s' \<longrightarrow> b \<longrightarrow> verifies \<or> (\<forall>j < length rs. slot (view s) cfg p (k + j) = blank_record) \<longrightarrow>
         (\<forall>j < length rs. slot (view s') cfg p (k + j) = rev rs ! j))"
proof (induction rs arbitrary: s)
  case (Cons r rs)
  let ?e = "page_end cfg p" and ?n = "length rs"
  obtain b1 s1 where w1: "write_record ops (slot_addr cfg p (k + ?n)) ?e r s = (b1, s1)" by fastforce
  have kn: "k + ?n < nslots cfg p" using Cons.prems by simp
  note one = write_record_slot [OF Cons.prems(1) assms kn w1]
  have a: "slot_addr cfg p (k + length (r # rs)) - 4 = slot_addr cfg p (k + ?n)"
    by (simp add: slot_addr_def)
  have sb1: "same_but cfg p k (Suc ?n) (view s) (view s1)"
    using one(2) by (rule same_but_mono) auto
  show ?case
  proof (cases b1)
    case False
    with Cons.prems w1 a have res: "b = False" "s' = s1" by auto
    then have "\<not> dead s' \<Longrightarrow> slot (view s) cfg p (k + ?n) \<noteq> blank_record" using one(5) False by auto
    with res one sb1 show ?thesis by auto
  next
    case True
    with Cons.prems w1 a have w: "write_down ops ?e rs (slot_addr cfg p (k + ?n)) s1 = (b, s')" by simp
    have kn': "k + ?n \<le> nslots cfg p" using kn by simp
    note ih = Cons.IH [OF one(1) kn' w]
    have sb: "same_but cfg p k (Suc ?n) (view s) (view s')"
      using sb1 ih by (meson same_but_trans same_but_mono le_refl add_le_mono le_SucI)
    have old: "slot (view s1) cfg p (k + j) = slot (view s) cfg p (k + j)" if "j < ?n" for j
      using that by (intro same_but_slot [OF one(2)]) simp
    have last: "slot (view s') cfg p (k + ?n) = slot (view s1) cfg p (k + ?n)"
      using ih by (intro same_but_slot [of cfg p k ?n]) auto
    have alive: "\<not> dead s' \<Longrightarrow> \<not> dead s1" using ih by auto
    have "(\<forall>j < Suc ?n. slot (view s') cfg p (k + j) = rev (r # rs) ! j)"
      if *: "\<not> dead s'" b "verifies \<or> (\<forall>j < Suc ?n. slot (view s) cfg p (k + j) = blank_record)"
    proof (intro allI impI)
      fix j assume "j < Suc ?n"
      then consider "j < ?n" | "j = ?n" by linarith
      then show "slot (view s') cfg p (k + j) = rev (r # rs) ! j"
      proof cases
        case 1
        then show ?thesis using ih * old by (auto simp: nth_append)
      next
        case 2
        then show ?thesis using one(6) [OF alive [OF *(1)] True] *(3) last by (auto simp: nth_append)
      qed
    qed
    with sb ih one(3) old show ?thesis by auto
  qed
qed simp

section \<open>Writing upwards\<close>

lemma write_up_slots:
  assumes "lay cfg" "p \<noteq> NoPage"
  shows "ok s \<Longrightarrow> k + length rs \<le> nslots cfg p \<Longrightarrow>
    fold (write_up ops (page_end cfg p)) rs ((b0, slot_addr cfg p k), s) = ((b, a'), s') \<Longrightarrow>
    ok s' \<and> same_but cfg p k (length rs) (view s) (view s') \<and> a' = slot_addr cfg p (k + length rs)
    \<and> (dead s \<longrightarrow> dead s' \<and> view s' = view s)
    \<and> (\<not> dead s' \<longrightarrow> b0 \<longrightarrow> (\<forall>j < length rs. slot (view s) cfg p (k + j) = blank_record) \<longrightarrow>
         b \<and> (\<forall>j < length rs. slot (view s') cfg p (k + j) = rs ! j))"
proof (induction rs arbitrary: s k b0)
  case (Cons r rs)
  let ?e = "page_end cfg p" and ?n = "length rs"
  have k: "k < nslots cfg p" using Cons.prems by simp
  obtain b1 s1 where w1: "(if b0 then write_record ops (slot_addr cfg p k) ?e r s else (False, s)) = (b1, s1)"
    by fastforce
  have one: "ok s1 \<and> same_but cfg p k 1 (view s) (view s1) \<and> (dead s \<longrightarrow> dead s1 \<and> view s1 = view s)
     \<and> (\<not> dead s1 \<longrightarrow> b0 \<longrightarrow> slot (view s) cfg p k = blank_record \<longrightarrow> b1 \<and> slot (view s1) cfg p k = r)"
  proof (cases b0)
    case True
    then have "write_record ops (slot_addr cfg p k) ?e r s = (b1, s1)" using w1 by simp
    from write_record_slot [OF Cons.prems(1) assms k this] show ?thesis by blast
  qed (use w1 Cons.prems(1) in auto)
  have a: "slot_addr cfg p k + 4 = slot_addr cfg p (Suc k)" by (simp add: slot_addr_def)
  have w: "fold (write_up ops ?e) rs ((b1, slot_addr cfg p (Suc k)), s1) = ((b, a'), s')"
    using Cons.prems(3) w1 by (cases b0) (auto simp: write_up_Pair a)
  have kn: "Suc k + ?n \<le> nslots cfg p" using Cons.prems by simp
  note ih = Cons.IH [OF _ kn w]
  have sb: "same_but cfg p k (Suc ?n) (view s) (view s')"
    using one ih same_but_mono [of cfg p k 1 "view s" "view s1" k "Suc ?n"]
      same_but_mono [of cfg p "Suc k" ?n "view s1" "view s'" k "Suc ?n"]
    by (auto intro: same_but_trans)
  have old: "slot (view s1) cfg p (Suc k + j) = slot (view s) cfg p (Suc k + j)" for j
    using one by (intro same_but_slot [of cfg p k 1]) auto
  have first: "slot (view s') cfg p k = slot (view s1) cfg p k"
    using ih one by (intro same_but_slot [of cfg p "Suc k" ?n]) auto
  have "b \<and> (\<forall>j < Suc ?n. slot (view s') cfg p (k + j) = (r # rs) ! j)"
    if *: "\<not> dead s'" b0 "\<forall>j < Suc ?n. slot (view s) cfg p (k + j) = blank_record"
  proof -
    have alive: "\<not> dead s1" using ih one *(1) by auto
    have blank: "slot (view s) cfg p k = blank_record" using *(3) [rule_format, of 0] by simp
    have rest: "\<forall>j < ?n. slot (view s1) cfg p (Suc k + j) = blank_record"
      using old *(3) by (metis add_Suc_shift Suc_mono)
    have b1: "b1" "slot (view s') cfg p k = r" using one alive blank *(2) first by auto
    have "b \<and> (\<forall>j < ?n. slot (view s') cfg p (Suc k + j) = rs ! j)"
      using ih one *(1) b1(1) rest by auto
    with b1(2) show ?thesis by (auto simp: less_Suc_eq_0_disj)
  qed
  moreover have "a' = slot_addr cfg p (k + length (r # rs))" "ok s'" "dead s \<longrightarrow> dead s' \<and> view s' = view s"
    using ih one by auto
  ultimately show ?case using sb by simp
qed auto

section \<open>Page status\<close>

definition only_status :: "eeprom_cfg \<Rightarrow> logical_page \<Rightarrow> (nat \<Rightarrow> u8) \<Rightarrow> (nat \<Rightarrow> u8) \<Rightarrow> bool" where
  "only_status cfg p v w \<longleftrightarrow> (\<forall>x. x < page_begin cfg p \<or> page_begin cfg p + 4 \<le> x \<longrightarrow> w x = v x)"

lemma only_status_frame:
  assumes "only_status cfg p v w" "lay cfg" "p \<noteq> NoPage" "q \<noteq> NoPage"
  shows "slots w cfg q = slots v cfg q" "q \<noteq> p \<Longrightarrow> status_of w cfg q = status_of v cfg q"
proof -
  have e: "page_begin cfg p + 4 \<le> page_end cfg p" "page_begin cfg q + 4 \<le> page_end cfg q"
    using layout_page(3) [OF assms(2)] assms(3,4) by (simp_all add: page_end_begin)
  show "slots w cfg q = slots v cfg q"
  proof (rule slots_cong [OF _ assms(2,4)])
    fix x assume "page_begin cfg q + 4 \<le> x" "x < page_end cfg q"
    then have "x < page_begin cfg p \<or> page_begin cfg p + 4 \<le> x"
      using e layout_disjoint [OF assms(2,4,3), of x] by (cases "p = q") auto
    then show "w x = v x" using assms(1) unfolding only_status_def by blast
  qed
  assume "q \<noteq> p"
  show "status_of w cfg q = status_of v cfg q"
  proof (rule status_cong)
    fix x assume "page_begin cfg q \<le> x" "x < page_begin cfg q + 4"
    then have "x < page_begin cfg p \<or> page_begin cfg p + 4 \<le> x"
      using e layout_disjoint [OF assms(2,4,3) \<open>q \<noteq> p\<close>, of x] by auto
    then show "w x = v x" using assms(1) unfolding only_status_def by blast
  qed
qed

lemma status_and:
  "status_of (and_upd v (page_begin cfg p) (le32 w)) cfg p = status_of v cfg p AND w"
proof -
  let ?b = "page_begin cfg p"
  have v: "bytes_at v ?b 4 = [v ?b, v (?b + 1), v (?b + 2), v (?b + 3)]"
    by (simp add: bytes_at_def eval_nat_numeral)
  have u: "bytes_at (and_upd v ?b (le32 w)) ?b 4 =
     [v ?b AND ucast w, v (?b + 1) AND ucast (drop_bit 8 w), v (?b + 2) AND ucast (drop_bit 16 w),
      v (?b + 3) AND ucast (drop_bit 24 w)]"
    by (simp add: bytes_at_def eval_nat_numeral and_upd_def le32_def)
  show ?thesis
    unfolding status_of_def v u
  proof (rule bit_word_eqI)
    fix n assume "n < LENGTH(32)"
    then consider "n < 8" | "8 \<le> n" "n < 16" | "16 \<le> n" "n < 24" | "24 \<le> n" "n < 32" by fastforce
    then show "bit (of_le32 [v ?b AND ucast w, v (?b + 1) AND ucast (drop_bit 8 w),
        v (?b + 2) AND ucast (drop_bit 16 w), v (?b + 3) AND ucast (drop_bit 24 w)]) n
      = bit (of_le32 [v ?b, v (?b + 1), v (?b + 2), v (?b + 3)] AND w) n"
      by cases (auto simp: of_le32_def bit_simps)
  qed
qed

lemma status_fits:
  assumes "status_of v cfg p AND w = w"
  shows "and_fits v (page_begin cfg p) (le32 w)"
proof -
  let ?b = "page_begin cfg p"
  have "le32 (status_of v cfg p AND w) = le32 w" using assms by simp
  moreover have "le32 (status_of u cfg p) = bytes_at u ?b 4" for u
    unfolding status_of_def by (simp add: bytes_at_def eval_nat_numeral le32_of_le32)
  ultimately have "bytes_at (and_upd v ?b (le32 w)) ?b 4 = le32 w"
    by (metis status_and)
  then show ?thesis by (auto simp: bytes_at_eq_iff and_fits_def and_upd_def)
qed

lemma write_status:
  assumes "ok s" "lay cfg" "p \<noteq> NoPage" "write_page_status cfg ops p w s = (b, s')"
  shows "ok s'" "only_status cfg p (view s) (view s')"
    and "dead s \<Longrightarrow> dead s' \<and> view s' = view s"
    and "\<not> dead s' \<Longrightarrow> \<not> dead s \<and> status_of (view s') cfg p = status_of (view s) cfg p AND w"
    and "\<not> dead s' \<Longrightarrow> status_of (view s) cfg p AND w = w \<Longrightarrow> b"
proof -
  let ?a = "page_begin cfg p"
  have rng: "in_range ?a (length (le32 w))"
    using layout_page(3) [OF assms(2,3)] by (intro page_in_range [OF assms(2,3)]) (auto simp: page_end_begin)
  have w: "b = (fst (st_write ops ?a (le32 w) s) = 0)" "s' = snd (st_write ops ?a (le32 w) s)"
    using assms(4) by (auto simp: write_page_status_def split: prod.splits)
  show "ok s'" using write_ok [OF assms(1) rng] w by simp
  show "only_status cfg p (view s) (view s')"
    using write_outside [OF assms(1) rng] by (auto simp: only_status_def w)
  show "dead s \<Longrightarrow> dead s' \<and> view s' = view s" using write_dead [OF assms(1) rng] w by simp
  show "\<not> dead s' \<Longrightarrow> \<not> dead s \<and> status_of (view s') cfg p = status_of (view s) cfg p AND w"
    using write_live [OF assms(1) rng] w by (auto simp: status_and)
  show "\<not> dead s' \<Longrightarrow> status_of (view s) cfg p AND w = w \<Longrightarrow> b"
    using write_result [OF assms(1) rng] status_fits w by simp
qed

lemma page_status_and:
  "PAGE_ERASED AND PAGE_COPY = PAGE_COPY" "PAGE_COPY AND PAGE_ACTIVE = PAGE_ACTIVE"
  "PAGE_ACTIVE AND PAGE_INACTIVE = PAGE_INACTIVE" "PAGE_ERASED AND PAGE_ACTIVE = PAGE_ACTIVE"
  by (simp_all add: PAGE_ERASED_def PAGE_COPY_def PAGE_ACTIVE_def PAGE_INACTIVE_def)

lemma page_status_distinct [simp]:
  "PAGE_COPY \<noteq> PAGE_ACTIVE" "PAGE_INACTIVE \<noteq> PAGE_ACTIVE" "PAGE_ERASED \<noteq> PAGE_ACTIVE"
  "PAGE_ACTIVE \<noteq> PAGE_COPY" "PAGE_ACTIVE \<noteq> PAGE_INACTIVE" "PAGE_ACTIVE \<noteq> PAGE_ERASED"
  by (simp_all add: PAGE_ERASED_def PAGE_COPY_def PAGE_ACTIVE_def PAGE_INACTIVE_def)

section \<open>Erasing\<close>

lemma erase_page_facts:
  assumes "ok s" "lay cfg" "p \<noteq> NoPage"
  defines "s' \<equiv> erase_page cfg ops p s"
  shows "ok s'" "dead s \<Longrightarrow> dead s' \<and> view s' = view s" "\<not> dead s' \<Longrightarrow> \<not> dead s \<and> page_blank s' cfg p"
    and "view s' = view s \<or> page_blank s' cfg p"
    and "q \<noteq> NoPage \<Longrightarrow> q \<noteq> p \<Longrightarrow> slots (view s') cfg q = slots (view s) cfg q
          \<and> status_of (view s') cfg q = status_of (view s) cfg q"
proof -
  note sec = layout_page(1) [OF assms(2,3)]
  have blank: "view s' = erase_upd (view s) (page_begin cfg p) (page_size cfg p) \<Longrightarrow> page_blank s' cfg p"
    by (auto simp: page_blank_def page_end_begin)
  show "ok s'" using erase_ok [OF assms(1) sec] by (simp add: s'_def erase_page_def)
  show "dead s \<Longrightarrow> dead s' \<and> view s' = view s"
    using erase_dead [OF assms(1) sec] by (simp add: s'_def erase_page_def)
  show "\<not> dead s' \<Longrightarrow> \<not> dead s \<and> page_blank s' cfg p"
    using erase_live [OF assms(1) sec] blank by (auto simp: s'_def erase_page_def)
  show "view s' = view s \<or> page_blank s' cfg p"
    using erase_torn [OF assms(1) sec] blank by (auto simp: s'_def erase_page_def)
  assume q: "q \<noteq> NoPage" "q \<noteq> p"
  have frame: "view s' x = view s x" if "page_begin cfg q \<le> x" "x < page_end cfg q" for x
    using erase_outside [OF assms(1) sec, of x] layout_disjoint [OF assms(2) q(1) assms(3) q(2) that]
    by (auto simp: s'_def erase_page_def page_end_begin)
  have "page_begin cfg q + 4 \<le> page_end cfg q"
    using layout_page(3) [OF assms(2) q(1)] by (simp add: page_end_begin)
  then show "slots (view s') cfg q = slots (view s) cfg q
          \<and> status_of (view s') cfg q = status_of (view s) cfg q"
    using frame by (auto intro!: slots_cong [OF _ assms(2) q(1)] status_cong)
qed

end

section \<open>Power failures at word granularity\<close>

context word_store
begin

lemma verifies_holds: verifies
  using write_verified by (auto simp: verifies_def)

lemma write_record_atomic:
  assumes "ok s" "lay cfg" "p \<noteq> NoPage" "k < nslots cfg p" "slot (view s) cfg p k = blank_record"
    and "write_record ops (slot_addr cfg p k) (page_end cfg p) r s = (b, s')"
  shows "slot (view s') cfg p k \<in> {blank_record, r}"
proof -
  let ?a = "slot_addr cfg p k"
  have "?a + 4 \<le> page_end cfg p" using slot_addr_in_page [OF assms(2-4)] by simp
  then have w: "s' = snd (st_write ops ?a (record_bytes r) s)"
    using assms(6) by (auto simp: write_record_def split: prod.splits)
  have "?a mod 4 = 0" using layout_page(2) [OF assms(2,3)] by (simp add: slot_addr_def mod_add_eq)
  then have "view s' \<in> {view s, and_upd (view s) ?a (record_bytes r)}"
    using write_word [OF assms(1) slot_in_range [OF assms(2-4)], of "record_bytes r"] w by simp
  then show ?thesis using slot_write(1) [OF assms(5)] assms(5) by auto
qed

lemma write_down_torn:
  assumes "lay cfg" "p \<noteq> NoPage"
  shows "ok s \<Longrightarrow> k + length rs \<le> nslots cfg p \<Longrightarrow> rs \<noteq> [] \<Longrightarrow> slot (view s) cfg p k = blank_record \<Longrightarrow>
    write_down ops (page_end cfg p) rs (slot_addr cfg p (k + length rs)) s = (b, s') \<Longrightarrow>
    slot (view s') cfg p k = blank_record \<or> (\<forall>j < length rs. slot (view s') cfg p (k + j) = rev rs ! j)"
proof (induction rs arbitrary: s)
  case (Cons r rs)
  let ?e = "page_end cfg p" and ?n = "length rs"
  obtain b1 s1 where w1: "write_record ops (slot_addr cfg p (k + ?n)) ?e r s = (b1, s1)" by fastforce
  have kn: "k + ?n < nslots cfg p" and kn': "k + ?n \<le> nslots cfg p" using Cons.prems by auto
  note one = write_record_slot [OF Cons.prems(1) assms kn w1]
  have a: "slot_addr cfg p (k + length (r # rs)) - 4 = slot_addr cfg p (k + ?n)"
    by (simp add: slot_addr_def)
  show ?case
  proof (cases "rs = []")
    case True
    have "s' = s1" using Cons.prems(5) w1 True a by (auto split: if_splits)
    then show ?thesis
      using write_record_atomic [OF Cons.prems(1) assms _ Cons.prems(4), of r b1 s1] kn w1 True by auto
  next
    case False
    have first: "slot (view s1) cfg p k = blank_record"
      using False same_but_slot [OF one(2), of k] Cons.prems(4) by simp
    show ?thesis
    proof (cases b1)
      case b1: True
      then have w: "write_down ops ?e rs (slot_addr cfg p (k + ?n)) s1 = (b, s')"
        using Cons.prems(5) w1 a by simp
      note sl = write_down_slots [OF assms one(1) kn' w]
      from Cons.IH [OF one(1) kn' False first w] show ?thesis
      proof (elim disjE)
        assume all: "\<forall>j < ?n. slot (view s') cfg p (k + j) = rev rs ! j"
        show ?thesis
        proof (cases "slot (view s') cfg p k = blank_record")
          case unwritten: False
          then have "\<not> dead s1" using sl first by auto
          then have "slot (view s1) cfg p (k + ?n) = r" using one(6) b1 verifies_holds by blast
          moreover have "slot (view s') cfg p (k + ?n) = slot (view s1) cfg p (k + ?n)"
            using sl by (intro same_but_slot [of cfg p k ?n]) auto
          ultimately show ?thesis using all by (auto simp: nth_append less_Suc_eq)
        qed simp
      qed simp
    next
      case False
      then show ?thesis using Cons.prems(5) w1 a first by auto
    qed
  qed
qed simp

lemma write_status_atomic:
  assumes "ok s" "lay cfg" "p \<noteq> NoPage" "write_page_status cfg ops p w s = (b, s')"
  shows "status_of (view s') cfg p \<in> {status_of (view s) cfg p, status_of (view s) cfg p AND w}"
proof -
  let ?a = "page_begin cfg p"
  have rng: "in_range ?a 4"
    using layout_page(3) [OF assms(2,3)] by (intro page_in_range [OF assms(2,3)]) (auto simp: page_end_begin)
  have "s' = snd (st_write ops ?a (le32 w) s)"
    using assms(4) by (auto simp: write_page_status_def split: prod.splits)
  then have "view s' \<in> {view s, and_upd (view s) ?a (le32 w)}"
    using write_word [OF assms(1) rng layout_page(2) [OF assms(2,3)], of "le32 w"] by simp
  then show ?thesis by (auto simp: status_and)
qed

end

end
