(* ===== verification/Eeprom_Swap.thy ===== *)
theory Eeprom_Swap
  imports Eeprom_Writing
begin

text \<open>
  \<open>swapPagesAndWrite\<close>: the records it puts on the other page, that they fit, and what one
  iteration of its loop leaves behind, when it runs to its end and when the power fails.
\<close>

lemma mk_record_sel [simp]:
  "er_index (mk_record i d) = i" "er_data (mk_record i d) = d" "er_status (mk_record i d) = REC_VALID"
  by (simp_all add: mk_record_def)

section \<open>The records of a range\<close>

definition upd_range :: "(u16 \<Rightarrow> u8) \<Rightarrow> u16 \<Rightarrow> u8 list \<Rightarrow> u16 \<Rightarrow> u8" where
  "upd_range f lo ds i =
     (if unat lo \<le> unat i \<and> unat i < unat lo + length ds then ds ! (unat i - unat lo) else f i)"

lemma in_range_iff:
  fixes lo i :: u16
  assumes "unat lo + n < 65536"
  shows "lo \<le> i \<and> i < lo + of_nat n \<longleftrightarrow> unat lo \<le> unat i \<and> unat i < unat lo + n"
  using assms by (simp add: word_le_nat_alt word_less_nat_alt unat_add_of_nat_u16)

lemma changed_recs_bounds:
  assumes "unat lo + length ds \<le> 65535" "r \<in> set (changed_recs lo xs ds)"
  shows "unat lo \<le> unat (er_index r) \<and> unat (er_index r) < unat lo + length ds \<and> rec_valid r"
  using assms
proof (induction lo xs ds rule: changed_recs.induct)
  case (1 i x xs d ds)
  have i: "unat (i + 1) = Suc (unat i)" using 1(3) unat_add_u16 [of i 1] by simp
  have "i \<noteq> EMPTY_INDEX" using 1(3) by (auto simp: EMPTY_INDEX_def)
  with 1 i show ?case by (auto simp: mk_record_def rec_valid_def split: if_splits)
qed auto

lemma changed_recs_latest:
  "unat lo + length ds \<le> 65535 \<Longrightarrow> length xs = length ds \<Longrightarrow>
     distinct (map er_index (changed_recs lo xs ds))
     \<and> (\<forall>k < length ds. case last_rec (rev (changed_recs lo xs ds)) (lo + of_nat k) of
          None \<Rightarrow> xs ! k = ds ! k | Some r \<Rightarrow> er_data r = ds ! k)"
proof (induction lo xs ds rule: changed_recs.induct)
  case (1 i x xs d ds)
  have i: "unat (i + 1) = Suc (unat i)" using 1(3) unat_add_u16 [of i 1] by simp
  have next_i: "r \<in> set (changed_recs (i + 1) xs ds) \<Longrightarrow> er_index r \<noteq> i" for r
    using changed_recs_bounds [of "i + 1" ds r xs] 1(3) i by auto
  then have none: "last_rec (rev (changed_recs (i + 1) xs ds)) i = None"
    by (auto simp: last_rec_None)
  have ih: "distinct (map er_index (changed_recs (i + 1) xs ds))"
    "\<forall>k < length ds. case last_rec (rev (changed_recs (i + 1) xs ds)) (i + 1 + of_nat k) of
          None \<Rightarrow> xs ! k = ds ! k | Some r \<Rightarrow> er_data r = ds ! k"
    using 1 i by auto
  have "case last_rec (rev (changed_recs i (x # xs) (d # ds))) (i + of_nat k) of
          None \<Rightarrow> (x # xs) ! k = (d # ds) ! k | Some r \<Rightarrow> er_data r = (d # ds) ! k"
    if k: "k < Suc (length ds)" for k
  proof (cases k)
    case 0
    then show ?thesis using none by (auto simp: mk_record_def)
  next
    case (Suc j)
    have "i + of_nat k \<noteq> i"
    proof
      assume "i + of_nat k = i"
      then have "unat (i + of_nat k) = unat i" by simp
      then show False using unat_add_of_nat_u16 [of i k] 1(3) k Suc by simp
    qed
    then show ?thesis
      using ih(2) [rule_format, of j] k Suc
      by (auto simp: mk_record_def algebra_simps split: option.splits)
  qed
  with ih(1) next_i show ?case by (auto simp: mk_record_def)
qed auto

lemma latest_write:
  assumes "unat lo + length ds \<le> 65535" "length xs = length ds"
    and "\<And>k. k < length ds \<Longrightarrow> xs ! k = latest rs (lo + of_nat k)"
  shows "latest (rs @ rev (changed_recs lo xs ds)) i = upd_range (latest rs) lo ds i"
proof (cases "unat lo \<le> unat i \<and> unat i < unat lo + length ds")
  case True
  let ?k = "unat i - unat lo"
  have "unat (lo + of_nat ?k) = unat i"
    using True assms(1) by (subst unat_add_of_nat_u16) auto
  then have i: "lo + of_nat ?k = i" by (simp only: word_unat_eq_iff)
  have k: "?k < length ds" using True by auto
  have "case last_rec (rev (changed_recs lo xs ds)) i of
      None \<Rightarrow> latest rs i = ds ! ?k | Some r \<Rightarrow> er_data r = ds ! ?k"
    using changed_recs_latest [OF assms(1,2), THEN conjunct2, rule_format, OF k] assms(3) [OF k]
    unfolding i by (auto split: option.splits)
  then show ?thesis
    using True by (auto simp: upd_range_def latest_last_rec last_rec_append split: option.splits)
next
  case False
  then have "i \<notin> er_index ` set (rev (changed_recs lo xs ds))"
    using changed_recs_bounds [OF assms(1)] by auto
  with False show ?thesis by (auto simp: latest_append upd_range_def)
qed

lemma direct_changed: "direct_recs lo ds = changed_recs lo (replicate (length ds) FLASH_ERASED) ds"
  by (induction ds arbitrary: lo) auto

lemma latest_rev_distinct:
  assumes "distinct (map er_index rs)"
  shows "latest (rev rs) i = latest rs i"
proof (cases "i \<in> er_index ` set rs")
  case True
  then obtain r where "r \<in> set rs" "i = er_index r" by auto
  with assms show ?thesis using latest_distinct [of rs r] latest_distinct [of "rev rs" r]
    by (simp flip: rev_map)
qed (simp add: latest_absent)

lemma direct_recs_facts:
  assumes "unat lo + length ds \<le> 65535"
  shows "distinct (map er_index (direct_recs lo ds))"
    and "latest (direct_recs lo ds) i = upd_range (\<lambda>i. FLASH_ERASED) lo ds i"
    and "r \<in> set (direct_recs lo ds) \<Longrightarrow>
       unat lo \<le> unat (er_index r) \<and> unat (er_index r) < unat lo + length ds \<and> rec_valid r"
proof -
  let ?ex = "replicate (length ds) FLASH_ERASED"
  show d: "distinct (map er_index (direct_recs lo ds))"
    using changed_recs_latest [OF assms, of ?ex] by (simp add: direct_changed)
  have "latest ([] @ rev (changed_recs lo ?ex ds)) i = upd_range (latest []) lo ds i"
    by (rule latest_write [OF assms]) auto
  then show "latest (direct_recs lo ds) i = upd_range (\<lambda>i. FLASH_ERASED) lo ds i"
    using latest_rev_distinct [OF d] by (simp add: direct_changed upd_range_def)
  show "r \<in> set (direct_recs lo ds) \<Longrightarrow>
       unat lo \<le> unat (er_index r) \<and> unat (er_index r) < unat lo + length ds \<and> rec_valid r"
    using changed_recs_bounds [OF assms] by (simp add: direct_changed)
qed

section \<open>The records of the new page\<close>

definition swapped :: "u16 \<Rightarrow> u8 list \<Rightarrow> ee_record list \<Rightarrow> ee_record list" where
  "swapped lo ds rs = copied lo (lo + of_nat (length ds)) (unique_recs rs 0 8192) @ direct_recs lo ds"

lemma copied_set:
  assumes "r \<in> set (copied lo hi rs)"
  shows "\<exists>q \<in> set rs. er_index r = er_index q \<and> er_data r = er_data q \<and> \<not> (lo \<le> er_index q \<and> er_index q < hi)
    \<and> er_status r = REC_VALID \<and> er_data q \<noteq> FLASH_ERASED"
  using assms by (auto simp: copied_def mk_record_def)

lemma map_index_copied:
  "map er_index (copied lo hi rs) = map er_index
     (filter (\<lambda>r. \<not> (lo \<le> er_index r \<and> er_index r < hi) \<and> er_data r \<noteq> FLASH_ERASED) rs)"
  by (simp add: copied_def mk_record_def)

lemma unique_index_distinct: "b \<le> 65536 \<Longrightarrow> distinct (map er_index (unique_recs rs a b))"
  using unique_recs_distinct [of b rs a] by (auto simp: distinct_map inj_on_def)

lemma latest_copied:
  assumes "\<forall>r \<in> set rs. unat (er_index r) < 8192"
  shows "latest (copied lo hi (unique_recs rs 0 8192)) i
    = (if lo \<le> i \<and> i < hi then FLASH_ERASED else latest rs i)"
proof -
  let ?c = "copied lo hi (unique_recs rs 0 8192)"
  have d: "distinct (map er_index ?c)"
    using unique_index_distinct [of 8192 rs 0] by (simp add: map_index_copied distinct_map_filter)
  show ?thesis
  proof (cases "i \<in> er_index ` set ?c")
    case True
    then obtain r where r: "r \<in> set ?c" "i = er_index r" by auto
    then obtain q where q: "q \<in> set (unique_recs rs 0 8192)" "er_index q = i" "er_data r = er_data q"
      "\<not> (lo \<le> i \<and> i < hi)" using copied_set by fastforce
    have "latest rs i = er_data q" using unique_recs_set(2) [OF q(1)] q(2) by (simp add: latest_last_rec)
    then show ?thesis using latest_distinct [OF d r(1)] r q by auto
  next
    case False
    have "latest rs i = FLASH_ERASED" if out: "\<not> (lo \<le> i \<and> i < hi)"
    proof (cases "last_rec rs i")
      case (Some r)
      note r = last_rec_Some [OF Some]
      with assms have "r \<in> set (unique_recs rs 0 8192)" by (intro unique_recs_all [OF Some]) auto
      moreover have "mk_record (er_index r) (er_data r) \<in> set ?c" if "er_data r \<noteq> FLASH_ERASED"
        using that out r calculation by (auto simp: copied_def)
      ultimately have "er_data r = FLASH_ERASED"
        using False r by (metis imageI mk_record_sel(1))
      with Some show ?thesis by (simp add: latest_last_rec)
    qed (simp add: latest_last_rec)
    with False show ?thesis by (simp add: latest_absent)
  qed
qed

lemma swapped_set:
  assumes small: "\<forall>r \<in> set rs. unat (er_index r) < cap"
    and fits: "unat lo + length ds \<le> cap" and cap: "cap \<le> 8192"
    and r: "r \<in> set (swapped lo ds rs)"
  shows "unat (er_index r) < cap" "rec_valid r"
proof -
  have "unat (er_index r) < cap \<and> er_status r = REC_VALID"
    using r fits cap small direct_recs_facts(3) [of lo ds r] unique_recs_set(1) [of _ rs 0 8192]
    by (fastforce simp: swapped_def rec_valid_def dest!: copied_set)
  moreover from this cap have "er_index r \<noteq> EMPTY_INDEX" by (auto simp: EMPTY_INDEX_def)
  ultimately show "unat (er_index r) < cap" "rec_valid r" by (simp_all add: rec_valid_def)
qed

lemma swapped_length:
  assumes small: "\<forall>r \<in> set rs. unat (er_index r) < cap"
    and fits: "unat lo + length ds \<le> cap" and cap: "cap \<le> 8192"
  shows "length (swapped lo ds rs) \<le> cap"
proof -
  let ?c = "copied lo (lo + of_nat (length ds)) (unique_recs rs 0 8192)" and ?d = "direct_recs lo ds"
  have rng: "unat lo + length ds < 65536" using fits cap by simp
  have "distinct (map er_index ?c)"
    using unique_index_distinct [of 8192 rs 0] by (simp add: map_index_copied distinct_map_filter)
  moreover have "distinct (map er_index ?d)" using direct_recs_facts(1) rng by simp
  moreover have "er_index r \<noteq> er_index q" if "r \<in> set ?c" "q \<in> set ?d" for r q
    using copied_set [OF that(1)] direct_recs_facts(3) [OF _ that(2)] rng in_range_iff [OF rng, of "er_index q"]
    by auto
  ultimately have "distinct (map er_index (swapped lo ds rs))"
    by (auto simp: swapped_def)
  then have "distinct (map (\<lambda>r. unat (er_index r)) (swapped lo ds rs))"
    by (auto simp: distinct_map inj_on_def simp flip: word_unat_eq_iff)
  then have "length (swapped lo ds rs) = card ((\<lambda>r. unat (er_index r)) ` set (swapped lo ds rs))"
    by (metis distinct_card length_map list.set_map)
  also have "\<dots> \<le> card {..<cap}" by (intro card_mono) (use swapped_set [OF small fits cap] in auto)
  finally show ?thesis by simp
qed

lemma latest_swapped:
  assumes small: "\<forall>r \<in> set rs. unat (er_index r) < cap"
    and fits: "unat lo + length ds \<le> cap" and cap: "cap \<le> 8192"
  shows "latest (swapped lo ds rs) i = upd_range (latest rs) lo ds i"
proof -
  have rng: "unat lo + length ds < 65536" using fits cap by simp
  have c: "latest (copied lo (lo + of_nat (length ds)) (unique_recs rs 0 8192)) i
      = (if unat lo \<le> unat i \<and> unat i < unat lo + length ds then FLASH_ERASED else latest rs i)"
    using small cap by (subst latest_copied) (auto simp: in_range_iff [OF rng] intro: less_le_trans)
  have d: "latest (direct_recs lo ds) i = upd_range (\<lambda>i. FLASH_ERASED) lo ds i"
    using rng by (intro direct_recs_facts(2)) simp
  show ?thesis
  proof (cases "unat lo \<le> unat i \<and> unat i < unat lo + length ds")
    case True
    then show ?thesis
      using c d by (auto simp: swapped_def latest_append upd_range_def latest_absent)
  next
    case False
    then have "i \<notin> er_index ` set (direct_recs lo ds)"
      using direct_recs_facts(3) [of lo ds] rng by auto
    with False c show ?thesis by (auto simp: swapped_def latest_append upd_range_def)
  qed
qed

section \<open>One iteration of the swap\<close>

definition page_recs :: "(nat \<Rightarrow> u8) \<Rightarrow> eeprom_cfg \<Rightarrow> logical_page \<Rightarrow> ee_record list" where
  "page_recs v cfg p = takeWhile rec_valid (slots v cfg p)"

lemma cell_page_recs: "cell v cfg p = latest (page_recs v cfg p)"
  by (rule ext) (simp add: cell_def page_recs_def)

definition recs_small :: "eeprom_cfg \<Rightarrow> ee_record list \<Rightarrow> bool" where
  "recs_small cfg rs \<longleftrightarrow> (\<forall>r \<in> set rs. unat (er_index r) < ee_capacity cfg)"

definition page_holds :: "(nat \<Rightarrow> u8) \<Rightarrow> eeprom_cfg \<Rightarrow> logical_page \<Rightarrow> ee_record list \<Rightarrow> bool" where
  "page_holds v cfg p rs \<longleftrightarrow> slots v cfg p = rs @ replicate (nslots cfg p - length rs) blank_record"

lemma page_holds_recs: "page_holds v cfg p rs \<Longrightarrow> \<forall>r \<in> set rs. rec_valid r \<Longrightarrow> page_recs v cfg p = rs"
  by (cases "nslots cfg p - length rs") (auto simp: page_holds_def page_recs_def takeWhile_append2)

context flash_store
begin

lemma copy_tracks:
  assumes "lay cfg" "p \<noteq> NoPage" "q \<noteq> NoPage" "p \<noteq> q"
  shows "tracks (\<lambda>((b, a), t). ok t \<and> (\<exists>k. a = slot_addr cfg q k) \<and> slots (view t) cfg p = sl) cfg p
    (takeWhile rec_valid sl) (copy_record ops (page_end cfg q) lo hi 0)"
  unfolding tracks_def
proof (intro allI impI conjI ballI)
  fix st :: "(bool \<times> nat) \<times> 's" and r :: ee_record
  assume P: "(\<lambda>((b, a), t). ok t \<and> (\<exists>k. a = slot_addr cfg q k) \<and> slots (view t) cfg p = sl) st"
  then show "ok (snd st)" "takeWhile rec_valid (slots (view (snd st)) cfg p) = takeWhile rec_valid sl"
    by (auto split: prod.splits)
  obtain b t k where st: "st = ((b, slot_addr cfg q k), t)" and ok: "ok t" and sl: "slots (view t) cfg p = sl"
    using P by (auto split: prod.splits)
  have nxt: "slot_addr cfg q k + 4 = slot_addr cfg q (Suc k)" by (simp add: slot_addr_def)
  let ?w = "write_record ops (slot_addr cfg q k) (page_end cfg q) (mk_record (er_index r) (er_data r)) t"
  have "ok (snd ?w) \<and> slots (view (snd ?w)) cfg p = sl"
  proof (cases "k < nslots cfg q")
    case True
    obtain b' t' where w: "?w = (b', t')" by fastforce
    note one = write_record_slot [OF ok assms(1,3) True w]
    have "slots (view t') cfg p = slots (view t) cfg p"
      by (rule same_but_other [OF one(2) assms(1,3,2,4)]) (use True in simp)
    with one(1) w sl show ?thesis by simp
  next
    case False
    then show ?thesis using write_record_full [OF assms(1,3)] ok sl by simp
  qed
  then show "(\<lambda>((b, a), t). ok t \<and> (\<exists>k. a = slot_addr cfg q k) \<and> slots (view t) cfg p = sl)
      (copy_record ops (page_end cfg q) lo hi 0 r st)"
    using ok sl by (auto simp: st copy_record_def nxt split: prod.splits)
qed

text \<open>The copy is one pass over the last records.\<close>

lemma copy_reference:
  assumes "ok s" "lay cfg" "p \<noteq> NoPage" "q \<noteq> NoPage" "p \<noteq> q"
    and small: "recs_small cfg (page_recs (view s) cfg p)" and fuel: "64 \<le> fuel"
  shows "copy_all_records_to_page_except fuel cfg ops p q (slot_addr cfg q 0) lo hi s
    = Some (fold (write_up ops (page_end cfg q))
        (copied lo hi (unique_recs (page_recs (view s) cfg p) 0 8192)) ((True, slot_addr cfg q 0), s))"
proof -
  have g: "copy_record ops e lo hi = (\<lambda>a. copy_record ops e lo hi 0)" for e
    by (intro ext) (simp add: copy_record_def)
  have P: "(\<lambda>((b, a), t). ok t \<and> (\<exists>k. a = slot_addr cfg q k) \<and> slots (view t) cfg p = slots (view s) cfg p)
      ((True, slot_addr cfg q 0), s)" using assms(1) by auto
  have "\<forall>r \<in> set (takeWhile rec_valid (slots (view s) cfg p)). unat (er_index r) < ee_capacity cfg"
    using small by (simp add: page_recs_def recs_small_def)
  note for_each_unique_fold [OF assms(2,3) copy_tracks [OF assms(2-5)] this P fuel]
  then show ?thesis
    unfolding copy_all_records_to_page_except_def
    by (subst g) (simp add: copy_fold_up page_recs_def)
qed

lemma swap_stages:
  fixes lo :: u16 and ds :: "u8 list"
  assumes "ok s" "lay cfg" "p \<noteq> NoPage" "q \<noteq> NoPage" "p \<noteq> q"
    and small: "recs_small cfg (page_recs (view s) cfg p)" and fuel: "64 \<le> fuel"
  defines "L \<equiv> swapped lo ds (page_recs (view s) cfg p)"
  obtains s0 b1 s1 b3 a3 s3 b4 s4 b5 s5 where
    "swap_try fuel cfg ops tries p q lo ds s = Some (b5, s5)"
    "s0 = (if 0 < tries \<or> \<not> verify_page cfg ops q s then erase_page cfg ops q s else s)"
    "write_page_status cfg ops q PAGE_COPY s0 = (b1, s1)"
    "fold (write_up ops (page_end cfg q)) L ((b1, slot_addr cfg q 0), s1) = ((b3, a3), s3)"
    "(if b3 then write_page_status cfg ops q PAGE_ACTIVE s3 else (False, s3)) = (b4, s4)"
    "(if b4 then write_page_status cfg ops p PAGE_INACTIVE s4 else (False, s4)) = (b5, s5)"
    "ok s0" "ok s1" "slots (view s1) cfg p = slots (view s) cfg p"
proof -
  define s0 where "s0 = (if 0 < tries \<or> \<not> verify_page cfg ops q s then erase_page cfg ops q s else s)"
  obtain b1 s1 where w1: "write_page_status cfg ops q PAGE_COPY s0 = (b1, s1)" by fastforce
  let ?e = "page_end cfg q" and ?hi = "lo + of_nat (length ds)" and ?rs = "page_recs (view s) cfg p"
  let ?C = "copied lo ?hi (unique_recs ?rs 0 8192)" and ?D = "direct_recs lo ds"
  have ok0: "ok s0" "slots (view s0) cfg p = slots (view s) cfg p"
    using erase_page_facts [OF assms(1,2,4)] assms(1,3,5) by (auto simp: s0_def)
  have ok1: "ok s1" "slots (view s1) cfg p = slots (view s) cfg p"
    using write_status [OF ok0(1) assms(2,4) w1] only_status_frame(1) [OF _ assms(2,4,3)] ok0 by auto
  have wa: "page_begin cfg q + 4 = slot_addr cfg q 0" by (simp add: slot_addr_def)
  have copy: "copy_all_records_to_page_except fuel cfg ops p q (slot_addr cfg q 0) lo ?hi s1
      = Some (fold (write_up ops ?e) ?C ((True, slot_addr cfg q 0), s1))"
    using copy_reference [OF ok1(1) assms(2-5) _ fuel] small ok1(2) by (simp add: page_recs_def)
  obtain b2 a2 s2 where C: "fold (write_up ops ?e) ?C ((b1, slot_addr cfg q 0), s1) = ((b2, a2), s2)"
    by (metis surj_pair)
  obtain b3 a3 s3 where D: "fold (write_up ops ?e) ?D ((b2, a2), s2) = ((b3, a3), s3)" by (metis surj_pair)
  have step2: "\<exists>a2'. (if b1 then copy_all_records_to_page_except fuel cfg ops p q (slot_addr cfg q 0) lo ?hi s1
      else Some ((False, slot_addr cfg q 0), s1)) = Some ((b2, a2'), s2) \<and> (b2 \<longrightarrow> a2' = a2)"
    using C copy write_up_failed [of ops ?e ?C "slot_addr cfg q 0" s1] by (cases b1) auto
  have step3: "(if b2 then write_direct_loop ops ?e lo ds a2 s2 else (False, s2)) = (b3, s3)"
    using D write_up_failed [of ops ?e ?D a2 s2] by (cases b2) (auto simp: write_direct_up)
  obtain b4 s4 where w4: "(if b3 then write_page_status cfg ops q PAGE_ACTIVE s3 else (False, s3)) = (b4, s4)"
    by fastforce
  obtain b5 s5 where w5: "(if b4 then write_page_status cfg ops p PAGE_INACTIVE s4 else (False, s4)) = (b5, s5)"
    by fastforce
  have "swap_try fuel cfg ops tries p q lo ds s = Some (b5, s5)"
    using step2 step3 w4 w5 unfolding swap_try_def s0_def [symmetric] Let_def w1 prod.case wa
    by (cases b2) (auto split: prod.splits)
  moreover have "fold (write_up ops ?e) L ((b1, slot_addr cfg q 0), s1) = ((b3, a3), s3)"
    using C D by (simp add: L_def swapped_def)
  ultimately show thesis using that w1 w4 w5 ok0(1) ok1 s0_def by blast
qed

lemma swap_prep:
  assumes "ok s" "lay cfg" "q \<noteq> NoPage"
    and "s0 = (if 0 < tries \<or> \<not> verify_page cfg ops q s then erase_page cfg ops q s else s)"
  shows "dead s \<Longrightarrow> dead s0 \<and> view s0 = view s" "\<not> dead s0 \<Longrightarrow> \<not> dead s \<and> page_blank s0 cfg q"
    "view s0 = view s \<or> page_blank s0 cfg q"
    "p \<noteq> NoPage \<Longrightarrow> p \<noteq> q \<Longrightarrow> status_of (view s0) cfg p = status_of (view s) cfg p"
  using erase_page_facts [OF assms(1-3)] verify_page_blank [OF assms(1-3)] assms(4) by auto

lemma swapped_fits:
  assumes "lay cfg" "q \<noteq> NoPage" "recs_small cfg rs" "unat lo + length ds \<le> ee_capacity cfg"
  shows "length (swapped lo ds rs) \<le> nslots cfg q"
  using swapped_length [OF assms(3) [unfolded recs_small_def] assms(4) layout_page(8) [OF assms(1,2)]]
    layout_page(7) [OF assms(1,2)] by simp

lemma write_status_if:
  assumes "ok s" "lay cfg" "p \<noteq> NoPage"
    and "(if b then write_page_status cfg ops p w s else (False, s)) = (b', s')"
  shows "ok s'" "only_status cfg p (view s) (view s')" "dead s \<Longrightarrow> dead s' \<and> view s' = view s"
proof -
  have "ok s' \<and> only_status cfg p (view s) (view s') \<and> (dead s \<longrightarrow> dead s' \<and> view s' = view s)"
  proof (cases b)
    case True
    then have "write_page_status cfg ops p w s = (b', s')" using assms(4) by simp
    from write_status [OF assms(1-3) this] show ?thesis by blast
  next
    case False
    then show ?thesis using assms(1,4) by (simp add: only_status_def)
  qed
  then show "ok s'" "only_status cfg p (view s) (view s')" "dead s \<Longrightarrow> dead s' \<and> view s' = view s"
    by blast+
qed

text \<open>What holds of every run, whether the power stays or not.\<close>

lemma swap_try_any:
  assumes "ok s" "lay cfg" "p \<noteq> NoPage" "q \<noteq> NoPage" "p \<noteq> q"
    and "recs_small cfg (page_recs (view s) cfg p)" and "unat lo + length ds \<le> ee_capacity cfg" "64 \<le> fuel"
  shows "\<exists>b s'. swap_try fuel cfg ops tries p q lo ds s = Some (b, s') \<and> ok s'
    \<and> slots (view s') cfg p = slots (view s) cfg p
    \<and> (dead s \<longrightarrow> dead s' \<and> view s' = view s)
    \<and> (\<not> dead s' \<longrightarrow> status_of (view s) cfg p = PAGE_ACTIVE \<longrightarrow>
         \<not> dead s \<and> b \<and> status_of (view s') cfg p = PAGE_INACTIVE \<and> status_of (view s') cfg q = PAGE_ACTIVE
         \<and> page_holds (view s') cfg q (swapped lo ds (page_recs (view s) cfg p)))"
proof -
  let ?L = "swapped lo ds (page_recs (view s) cfg p)" and ?e = "page_end cfg q"
  have fits: "0 + length ?L \<le> nslots cfg q" using swapped_fits [OF assms(2,4,6,7)] by simp
  obtain s0 b1 s1 b3 a3 s3 b4 s4 b5 s5 where run: "swap_try fuel cfg ops tries p q lo ds s = Some (b5, s5)"
    and w0: "s0 = (if 0 < tries \<or> \<not> verify_page cfg ops q s then erase_page cfg ops q s else s)"
    and w1: "write_page_status cfg ops q PAGE_COPY s0 = (b1, s1)"
    and w3: "fold (write_up ops ?e) ?L ((b1, slot_addr cfg q 0), s1) = ((b3, a3), s3)"
    and w4: "(if b3 then write_page_status cfg ops q PAGE_ACTIVE s3 else (False, s3)) = (b4, s4)"
    and w5: "(if b4 then write_page_status cfg ops p PAGE_INACTIVE s4 else (False, s4)) = (b5, s5)"
    and ok: "ok s0" "ok s1" "slots (view s1) cfg p = slots (view s) cfg p"
    by (rule swap_stages [OF assms(1-6,8)])
  note prep = swap_prep [OF assms(1,2,4) w0]
  note st1 = write_status [OF ok(1) assms(2,4) w1]
  note up = write_up_slots [OF assms(2,4) ok(2) fits w3]
  have sb: "same_but cfg q 0 (length ?L) (view s1) (view s3)" and ok3: "ok s3" using up by blast+
  have st3: "status_of (view s3) cfg x = status_of (view s1) cfg x" if "x \<noteq> NoPage" for x
    using fits by (intro same_but_status [OF sb assms(2,4) that]) simp
  have p3: "slots (view s3) cfg p = slots (view s1) cfg p"
    using fits by (intro same_but_other [OF sb assms(2,4,3,5)]) simp
  note four = write_status_if [OF ok3 assms(2,4) w4]
  note five = write_status_if [OF four(1) assms(2,3) w5]
  note f4 = only_status_frame [OF four(2) assms(2,4)]
  note f5 = only_status_frame [OF five(2) assms(2,3)]
  have same: "slots (view s5) cfg p = slots (view s) cfg p"
    using f4(1) [OF assms(3)] f5(1) [OF assms(3)] p3 ok(3) by simp
  have dead: "dead s \<longrightarrow> dead s5 \<and> view s5 = view s"
    using prep(1) st1(3) up four(3) five(3) by metis
  have "\<not> dead s \<and> b5 \<and> status_of (view s5) cfg p = PAGE_INACTIVE \<and> status_of (view s5) cfg q = PAGE_ACTIVE
         \<and> page_holds (view s5) cfg q ?L"
    if live: "\<not> dead s5" and act: "status_of (view s) cfg p = PAGE_ACTIVE"
  proof -
    have l4: "\<not> dead s4" using five(3) live by auto
    have l3: "\<not> dead s3" using four(3) l4 by auto
    have l1: "\<not> dead s1" using up l3 by auto
    have l0: "\<not> dead s0" using st1(3) l1 by auto
    note blank = page_blank_slots [OF prep(2) [OF l0, THEN conjunct2] assms(2,4)]
    have s1q: "status_of (view s1) cfg q = PAGE_COPY" "b1"
      using st1(4,5) [OF l1] blank(2) page_status_and(1) by auto
    have blank1: "slots (view s1) cfg q = replicate (nslots cfg q) blank_record"
      using only_status_frame(1) [OF st1(2) assms(2,4,4)] blank(1) by simp
    then have blank_slot: "slot (view s1) cfg q j = blank_record" if "j < nslots cfg q" for j
      using that by (metis nth_replicate nth_slots)
    have b3: "b3" and L: "\<forall>j < length ?L. slot (view s3) cfg q (0 + j) = ?L ! j"
      using up l3 s1q(2) blank_slot fits by auto
    have rest: "slot (view s3) cfg q j = blank_record" if "length ?L \<le> j" "j < nslots cfg q" for j
      using same_but_slot [OF sb, of j] blank_slot that by simp
    have holds3: "page_holds (view s3) cfg q ?L"
      unfolding page_holds_def using fits L rest by (intro nth_equalityI) (auto simp: nth_append)
    have w4': "write_page_status cfg ops q PAGE_ACTIVE s3 = (b4, s4)" using w4 b3 by simp
    note st4 = write_status [OF ok3 assms(2,4) w4']
    have s4q: "status_of (view s4) cfg q = PAGE_ACTIVE" "b4"
      using st4(4,5) [OF l4] st3 [OF assms(4)] s1q(1) page_status_and(2) by auto
    have w5': "write_page_status cfg ops p PAGE_INACTIVE s4 = (b5, s5)" using w5 s4q by simp
    note st5 = write_status [OF st4(1) assms(2,3) w5']
    have "status_of (view s4) cfg p = PAGE_ACTIVE"
      using f4(2) [OF assms(3,5)] st3 [OF assms(3)] only_status_frame(2) [OF st1(2) assms(2,4,3,5)]
        prep(4) [OF assms(3,5)] act by simp
    then have "status_of (view s5) cfg p = PAGE_INACTIVE" "b5"
      using st5(4,5) [OF live] page_status_and(3) by auto
    moreover have "status_of (view s5) cfg q = PAGE_ACTIVE" "slots (view s5) cfg q = slots (view s3) cfg q"
      using f5 [OF assms(4)] f4(1) [OF assms(4)] s4q assms(5) by auto
    ultimately show ?thesis
      using holds3 prep(2) [OF l0] by (simp add: page_holds_def)
  qed
  with run same dead five(1) show ?thesis by auto
qed

end

section \<open>The swap when the power fails\<close>

context word_store
begin

lemma swap_try_torn:
  assumes "ok s" "lay cfg" "p \<noteq> NoPage" "q \<noteq> NoPage" "p \<noteq> q"
    and "recs_small cfg (page_recs (view s) cfg p)" and "unat lo + length ds \<le> ee_capacity cfg" "64 \<le> fuel"
    and act: "status_of (view s) cfg p = PAGE_ACTIVE"
    and res: "swap_try fuel cfg ops tries p q lo ds s = Some (b, s')"
  shows "status_of (view s') cfg p = PAGE_ACTIVE
        \<and> (status_of (view s') cfg q = PAGE_ACTIVE \<longrightarrow> status_of (view s) cfg q = PAGE_ACTIVE)
      \<or> status_of (view s') cfg q = PAGE_ACTIVE \<and> status_of (view s') cfg p \<in> {PAGE_ACTIVE, PAGE_INACTIVE}
        \<and> page_holds (view s') cfg q (swapped lo ds (page_recs (view s) cfg p))"
proof -
  let ?L = "swapped lo ds (page_recs (view s) cfg p)" and ?e = "page_end cfg q"
  have fits: "0 + length ?L \<le> nslots cfg q" using swapped_fits [OF assms(2,4,6,7)] by simp
  obtain s0 b1 s1 b3 a3 s3 b4 s4 b5 s5 where run: "swap_try fuel cfg ops tries p q lo ds s = Some (b5, s5)"
    and w0: "s0 = (if 0 < tries \<or> \<not> verify_page cfg ops q s then erase_page cfg ops q s else s)"
    and w1: "write_page_status cfg ops q PAGE_COPY s0 = (b1, s1)"
    and w3: "fold (write_up ops ?e) ?L ((b1, slot_addr cfg q 0), s1) = ((b3, a3), s3)"
    and w4: "(if b3 then write_page_status cfg ops q PAGE_ACTIVE s3 else (False, s3)) = (b4, s4)"
    and w5: "(if b4 then write_page_status cfg ops p PAGE_INACTIVE s4 else (False, s4)) = (b5, s5)"
    and ok: "ok s0" "ok s1" "slots (view s1) cfg p = slots (view s) cfg p"
    by (rule swap_stages [OF assms(1-6,8)])
  have s': "s' = s5" using run res by simp
  note prep = swap_prep [OF assms(1,2,4) w0]
  note st1 = write_status [OF ok(1) assms(2,4) w1]
  note up = write_up_slots [OF assms(2,4) ok(2) fits w3]
  have sb: "same_but cfg q 0 (length ?L) (view s1) (view s3)" and ok3: "ok s3" using up by blast+
  have st3: "status_of (view s3) cfg x = status_of (view s1) cfg x" if "x \<noteq> NoPage" for x
    using fits by (intro same_but_status [OF sb assms(2,4) that]) simp
  have p3: "status_of (view s3) cfg p = PAGE_ACTIVE"
    using st3 [OF assms(3)] only_status_frame(2) [OF st1(2) assms(2,4,3,5)] prep(4) [OF assms(3,5)] act by simp
  have "status_of (view s1) cfg q = status_of (view s) cfg q \<or> status_of (view s1) cfg q \<in> {PAGE_ERASED, PAGE_COPY}"
  proof (cases "dead s0")
    case True
    then show ?thesis using st1(3) prep(3) page_blank_slots(2) [OF _ assms(2,4)] by auto
  next
    case False
    then have "status_of (view s0) cfg q = PAGE_ERASED"
      using prep(2) page_blank_slots(2) [OF _ assms(2,4)] by auto
    then show ?thesis using write_status_atomic [OF ok(1) assms(2,4) w1] page_status_and(1) by auto
  qed
  then have q3: "status_of (view s3) cfg q = PAGE_ACTIVE \<longrightarrow> status_of (view s) cfg q = PAGE_ACTIVE"
    using st3 [OF assms(4)] by auto
  show ?thesis
  proof (cases "dead s3 \<or> \<not> b3")
    case True
    then have "view s5 = view s3"
      using w4 w5 write_status(3) [OF ok3 assms(2,4), of PAGE_ACTIVE b4 s4]
        write_status(1) [OF ok3 assms(2,4), of PAGE_ACTIVE b4 s4]
        write_status(3) [OF _ assms(2,3), of s4 PAGE_INACTIVE b5 s5]
      by (auto split: if_splits)
    then show ?thesis using p3 q3 s' by simp
  next
    case False
    then have l3: "\<not> dead s3" and b3: b3 by auto
    have l1: "\<not> dead s1" using up l3 by auto
    have l0: "\<not> dead s0" using st1(3) l1 by auto
    note blank = page_blank_slots [OF prep(2) [OF l0, THEN conjunct2] assms(2,4)]
    have s1q: "status_of (view s1) cfg q = PAGE_COPY" "b1"
      using st1(4,5) [OF l1] blank(2) page_status_and(1) by auto
    have "slots (view s1) cfg q = replicate (nslots cfg q) blank_record"
      using only_status_frame(1) [OF st1(2) assms(2,4,4)] blank(1) by simp
    then have blank_slot: "slot (view s1) cfg q j = blank_record" if "j < nslots cfg q" for j
      using that by (metis nth_replicate nth_slots)
    have L: "\<forall>j < length ?L. slot (view s3) cfg q (0 + j) = ?L ! j"
      using up l3 s1q(2) blank_slot fits by auto
    have rest: "slot (view s3) cfg q j = blank_record" if "length ?L \<le> j" "j < nslots cfg q" for j
      using same_but_slot [OF sb, of j] blank_slot that by simp
    have holds3: "page_holds (view s3) cfg q ?L"
      unfolding page_holds_def using fits L rest by (intro nth_equalityI) (auto simp: nth_append)
    have w4': "write_page_status cfg ops q PAGE_ACTIVE s3 = (b4, s4)" using w4 b3 by simp
    note st4 = write_status [OF ok3 assms(2,4) w4']
    have q4: "status_of (view s4) cfg q \<in> {PAGE_COPY, PAGE_ACTIVE}"
      using write_status_atomic [OF ok3 assms(2,4) w4'] st3 [OF assms(4)] s1q(1) page_status_and(2) by auto
    have p4: "status_of (view s4) cfg p = PAGE_ACTIVE"
      using only_status_frame(2) [OF st4(2) assms(2,4,3,5)] p3 by simp
    have holds4: "page_holds (view s4) cfg q ?L"
      using holds3 only_status_frame(1) [OF st4(2) assms(2,4,4)] by (simp add: page_holds_def)
    show ?thesis
    proof (cases "b4 \<and> \<not> dead s4")
      case False
      have "view s5 = view s4"
        using False w5 write_status(3) [OF st4(1) assms(2,3), of PAGE_INACTIVE b5 s5] by (auto split: if_splits)
      then show ?thesis using p4 q4 holds4 s' by auto
    next
      case True
      then have "status_of (view s4) cfg q = PAGE_ACTIVE"
        using st4(4) st3 [OF assms(4)] s1q(1) page_status_and(2) by auto
      moreover have w5': "write_page_status cfg ops p PAGE_INACTIVE s4 = (b5, s5)" using w5 True by simp
      note st5 = write_status [OF st4(1) assms(2,3) w5']
      ultimately show ?thesis
        using write_status_atomic [OF st4(1) assms(2,3) w5'] p4 page_status_and(3) holds4 s'
          only_status_frame [OF st5(2) assms(2,3,4)] assms(5)
        by (auto simp: page_holds_def)
    qed
  qed
qed

end

end
