(* ===== verification/Eeprom_Correct.thy ===== *)
theory Eeprom_Correct
  imports Eeprom_Swap
begin

text \<open>
  The EEPROM emulation implements a map from indexes to bytes: \<open>ee_content\<close> is the map a flash
  content stands for, \<open>get\<close> reads it and \<open>put\<close> updates a range of it, whether the records are
  appended or the pages swapped.  On a store that programs aligned words in one step a power
  failure at any point of a \<open>put\<close> leaves the old or the new map.
\<close>

definition active_of :: "(nat \<Rightarrow> u8) \<Rightarrow> eeprom_cfg \<Rightarrow> logical_page" where
  "active_of v cfg =
     (if status_of v cfg Page1 = PAGE_ACTIVE then Page1
      else if status_of v cfg Page2 = PAGE_ACTIVE then Page2 else NoPage)"

definition ee_content :: "(nat \<Rightarrow> u8) \<Rightarrow> eeprom_cfg \<Rightarrow> u16 \<Rightarrow> u8" where
  "ee_content v cfg = latest (page_recs v cfg (active_of v cfg))"

lemma other_page_simps [simp]:
  "other_page p = NoPage \<longleftrightarrow> p = NoPage" "p \<noteq> NoPage \<Longrightarrow> other_page p \<noteq> p" "p \<noteq> NoPage \<Longrightarrow> p \<noteq> other_page p"
  by (cases p; simp add: other_page_def)+

lemma active_of_eq:
  "p \<noteq> NoPage \<Longrightarrow> active_of v cfg = p \<longleftrightarrow>
     status_of v cfg p = PAGE_ACTIVE \<and> (p = Page2 \<longrightarrow> status_of v cfg Page1 \<noteq> PAGE_ACTIVE)"
  by (cases p) (auto simp: active_of_def)

text \<open>The two outcomes of a swap, by the page statuses.\<close>

lemma active_of_old:
  assumes "active_of v cfg = p" "p \<noteq> NoPage" "status_of w cfg p = PAGE_ACTIVE"
    and "status_of w cfg (other_page p) = PAGE_ACTIVE \<longrightarrow> status_of v cfg (other_page p) = PAGE_ACTIVE"
  shows "active_of w cfg = p"
  using assms by (cases p) (auto simp: active_of_def other_page_def split: if_splits)

lemma active_of_new:
  assumes "p \<noteq> NoPage" "status_of w cfg (other_page p) = PAGE_ACTIVE"
  shows "status_of w cfg p = PAGE_INACTIVE \<Longrightarrow> active_of w cfg = other_page p"
    and "active_of w cfg = p \<and> status_of w cfg p = PAGE_ACTIVE \<or> active_of w cfg = other_page p"
  using assms by (cases p; auto simp: active_of_def other_page_def)+

section \<open>Slots after an append\<close>

lemma slots_append:
  assumes "same_but cfg p k (length xs) v w" "\<forall>j < length xs. slot w cfg p (k + j) = xs ! j"
    "k + length xs \<le> nslots cfg p"
  shows "slots w cfg p = take k (slots v cfg p) @ xs @ drop (k + length xs) (slots v cfg p)"
proof (rule nth_equalityI)
  fix j assume "j < length (slots w cfg p)"
  then have j: "j < nslots cfg p" by simp
  consider "j < k" | "k \<le> j" "j < k + length xs" | "k + length xs \<le> j" by linarith
  then show "slots w cfg p ! j = (take k (slots v cfg p) @ xs @ drop (k + length xs) (slots v cfg p)) ! j"
  proof cases
    case 2
    then show ?thesis using j assms(2) [rule_format, of "j - k"] assms(3) by (auto simp: nth_append)
  qed (use j assms(3) same_but_slot [OF assms(1), of j] in \<open>auto simp: nth_append\<close>)
qed (use assms(3) in simp)

lemma page_recs_prefix:
  "page_recs v cfg p = rs \<Longrightarrow> take (length rs) (slots v cfg p) = rs \<and> length rs \<le> nslots cfg p
     \<and> (\<forall>r \<in> set rs. rec_valid r)"
  unfolding page_recs_def
  by (metis length_slots length_takeWhile_le set_takeWhileD takeWhile_eq_take)

lemma page_recs_extend:
  assumes "page_recs v cfg p = rs" "same_but cfg p (length rs) (length xs) v w"
    "\<forall>j < length xs. slot w cfg p (length rs + j) = xs ! j" "length rs + length xs \<le> nslots cfg p"
    "\<forall>r \<in> set xs. rec_valid r"
    "length rs + length xs < nslots cfg p \<Longrightarrow> slot v cfg p (length rs + length xs) = blank_record"
  shows "page_recs w cfg p = rs @ xs"
    and "page_holds v cfg p rs \<Longrightarrow> page_holds w cfg p (rs @ xs)"
proof -
  note pre = page_recs_prefix [OF assms(1)]
  note sl = slots_append [OF assms(2-4)]
  show "page_recs w cfg p = rs @ xs"
  proof (cases "length rs + length xs < nslots cfg p")
    case True
    then have "drop (length rs + length xs) (slots v cfg p) = blank_record #
        drop (Suc (length rs + length xs)) (slots v cfg p)"
      using assms(6) by (metis Cons_nth_drop_Suc length_slots nth_slots)
    then show ?thesis using sl pre assms(5) unfolding page_recs_def by (simp add: takeWhile_append2)
  next
    case False
    then show ?thesis using sl pre assms(5) unfolding page_recs_def
      by (simp add: takeWhile_append2)
  qed
  assume "page_holds v cfg p rs"
  then show "page_holds w cfg p (rs @ xs)"
    using sl pre by (simp add: page_holds_def)
qed

lemma page_recs_keep:
  assumes "page_recs v cfg p = rs" "same_but cfg p (length rs) n v w" "length rs < nslots cfg p"
    "slot w cfg p (length rs) = blank_record"
  shows "page_recs w cfg p = rs"
proof -
  note pre = page_recs_prefix [OF assms(1)]
  let ?k = "length rs"
  have "take ?k (slots w cfg p) = take ?k (slots v cfg p)"
  proof (rule nth_equalityI)
    fix i assume "i < length (take ?k (slots w cfg p))"
    then have i: "i < ?k" "i < nslots cfg p" by auto
    then show "take ?k (slots w cfg p) ! i = take ?k (slots v cfg p) ! i"
      using same_but_slot [OF assms(2), of i] by simp
  qed simp
  then have "slots w cfg p = rs @ blank_record # drop (Suc ?k) (slots w cfg p)"
    using pre assms(3,4) by (metis append_take_drop_id Cons_nth_drop_Suc length_slots nth_slots)
  then show ?thesis using pre unfolding page_recs_def by (metis blank_not_valid takeWhile_append_stop)
qed

lemma page_recs_stop:
  assumes "page_recs v cfg p = rs" "dropWhile rec_valid (slots v cfg p) = rest"
  shows "rest = [] \<longleftrightarrow> length rs = nslots cfg p"
    and "length rs < nslots cfg p \<Longrightarrow> hd rest = slot v cfg p (length rs)"
proof -
  have app: "slots v cfg p = rs @ rest"
    using assms takeWhile_dropWhile_id unfolding page_recs_def by metis
  then have len: "nslots cfg p = length rs + length rest" by (metis length_append length_slots)
  then show "rest = [] \<longleftrightarrow> length rs = nslots cfg p" by simp
  assume "length rs < nslots cfg p"
  then show "hd rest = slot v cfg p (length rs)"
    using app len by (metis hd_conv_nth length_greater_0_conv less_add_same_cancel1 nth_append_length_plus
        add.right_neutral nth_slots)
qed

section \<open>The invariant\<close>

text \<open>
  \<open>clean\<close> asks that nothing follows the records of the active page.  It is lost when the power
  fails between the records of a \<open>put\<close>; a store that verifies its writes does not need it.
\<close>

definition ee_ok ::
    "('s \<Rightarrow> nat \<Rightarrow> u8) \<Rightarrow> ('s \<Rightarrow> bool) \<Rightarrow> bool \<Rightarrow> eeprom_cfg \<Rightarrow> 's eeprom \<Rightarrow> bool" where
  "ee_ok view ok clean cfg e \<longleftrightarrow>
     ok (ee_store e) \<and> ee_active e = active_of (view (ee_store e)) cfg \<and> ee_active e \<noteq> NoPage
     \<and> ee_alternate e = other_page (ee_active e)
     \<and> recs_small cfg (page_recs (view (ee_store e)) cfg (ee_active e))
     \<and> (clean \<longrightarrow> page_holds (view (ee_store e)) cfg (ee_active e)
                     (page_recs (view (ee_store e)) cfg (ee_active e)))"

text \<open>The flash content of a device that will come up with the map \<open>m\<close>.\<close>

definition recovers :: "eeprom_cfg \<Rightarrow> (nat \<Rightarrow> u8) \<Rightarrow> (u16 \<Rightarrow> u8) \<Rightarrow> bool" where
  "recovers cfg v m \<longleftrightarrow> active_of v cfg \<noteq> NoPage
     \<and> recs_small cfg (page_recs v cfg (active_of v cfg)) \<and> ee_content v cfg = m"

context flash_store
begin

abbreviation ee_inv :: "bool \<Rightarrow> eeprom_cfg \<Rightarrow> 's eeprom \<Rightarrow> bool" where "ee_inv \<equiv> ee_ok view ok"

lemmas ee_inv_def = ee_ok_def [of view ok]

lemma update_active:
  assumes "ok (ee_store e)" "lay cfg"
  shows "update_active_page cfg ops e = e\<lparr>ee_active := active_of (view (ee_store e)) cfg,
    ee_alternate := other_page (active_of (view (ee_store e)) cfg)\<rparr>"
  using assms by (simp add: update_active_page_def read_status active_of_def other_page_def)

lemma update_active_store [simp]: "ee_store (update_active_page cfg ops e) = ee_store e"
  by (simp add: update_active_page_def Let_def)

lemma update_active_idem:
  "update_active_page cfg ops (update_active_page cfg ops e) = update_active_page cfg ops e"
  by (simp add: update_active_page_def Let_def)

lemma write_down_failed:
  assumes "lay cfg" "p \<noteq> NoPage"
  shows "ok s \<Longrightarrow> k + length rs \<le> nslots cfg p \<Longrightarrow> rs \<noteq> [] \<Longrightarrow> slot (view s) cfg p k = blank_record \<Longrightarrow>
    write_down ops (page_end cfg p) rs (slot_addr cfg p (k + length rs)) s = (False, s') \<Longrightarrow> \<not> dead s' \<Longrightarrow>
    slot (view s') cfg p k = blank_record"
proof (induction rs arbitrary: s)
  case (Cons r rs)
  obtain b1 s1 where w1: "write_record ops (slot_addr cfg p (k + length rs)) (page_end cfg p) r s = (b1, s1)"
    by fastforce
  have kn: "k + length rs < nslots cfg p" using Cons.prems by simp
  note one = write_record_slot [OF Cons.prems(1) assms kn w1]
  have a: "slot_addr cfg p (k + length (r # rs)) - 4 = slot_addr cfg p (k + length rs)"
    by (simp add: slot_addr_def)
  have step: "if b1 then write_down ops (page_end cfg p) rs (slot_addr cfg p (k + length rs)) s1 = (False, s')
      else s' = s1"
    using Cons.prems(5) w1 a by (auto split: if_splits)
  show ?case
  proof (cases "rs = []")
    case True
    then have "\<not> b1" "s' = s1" using step by (auto split: if_splits)
    then show ?thesis using one(5) Cons.prems True by simp
  next
    case False
    then have first: "slot (view s1) cfg p k = blank_record"
      using same_but_slot [OF one(2), of k] Cons.prems(4) by simp
    then show ?thesis
      using step Cons.IH [OF one(1) _ False first] kn Cons.prems(6) by (cases b1) auto
  qed
qed simp

section \<open>Reading\<close>

lemma get_content:
  assumes "ee_inv clean cfg e" "lay cfg" "unat i + unat n < 65536"
  shows "ee_get cfg ops e i n
    = map (\<lambda>k. ee_content (view (ee_store e)) cfg (i + of_nat k)) [0..<unat n]"
proof -
  have "ok (ee_store e)" "ee_active e = active_of (view (ee_store e)) cfg" "ee_active e \<noteq> NoPage"
    using assms(1) unfolding ee_inv_def by blast+
  with read_range_cells [of e cfg i n] assms(2,3) show ?thesis
    by (simp add: ee_get_def ee_content_def cell_page_recs)
qed

section \<open>The swap\<close>

lemma swap_pages_any:
  assumes "ok (ee_store e)" "lay cfg" "ee_active e = p" "p \<noteq> NoPage" "ee_alternate e = other_page p"
    and "recs_small cfg (page_recs (view (ee_store e)) cfg p)"
    and "status_of (view (ee_store e)) cfg p = PAGE_ACTIVE"
    and "unat lo + length ds \<le> ee_capacity cfg" "64 \<le> fuel"
  obtains b e' b0 s where "swap_pages_and_write fuel cfg ops lo ds e = Some (b, e')"
    "swap_try fuel cfg ops 0 p (other_page p) lo ds (ee_store e) = Some (b0, s)"
    "ok (ee_store e')" "view (ee_store e') = view s"
    "dead (ee_store e) \<longrightarrow> dead (ee_store e')"
    "\<not> dead (ee_store e') \<longrightarrow> \<not> dead (ee_store e) \<and> ee_store e' = s \<and> \<not> dead s \<and> e' = update_active_page cfg ops e'"
proof -
  let ?q = "other_page p" and ?st = "ee_store e"
  have q: "?q \<noteq> NoPage" "p \<noteq> ?q" using assms(4) by simp_all
  obtain b0 s where t0: "swap_try fuel cfg ops 0 p ?q lo ds ?st = Some (b0, s)" "ok s"
    "slots (view s) cfg p = slots (view ?st) cfg p" "dead ?st \<longrightarrow> dead s \<and> view s = view ?st"
    "\<not> dead s \<longrightarrow> \<not> dead ?st \<and> b0"
    using swap_try_any [OF assms(1,2,4) q assms(6,8,9), of 0] assms(7) by auto
  show thesis
  proof (cases b0)
    case True
    let ?e = "update_active_page cfg ops (e\<lparr>ee_store := s\<rparr>)"
    show ?thesis
      by (rule that [of True ?e b0 s])
        (use t0 True assms(3,5) in \<open>simp_all add: swap_pages_and_write_def update_active_idem\<close>)
  next
    case False
    then have dead: "dead s" using t0(5) by auto
    have rs: "page_recs (view s) cfg p = page_recs (view ?st) cfg p" using t0(3) by (simp add: page_recs_def)
    obtain b1 s1 where t1: "swap_try fuel cfg ops 1 p ?q lo ds s = Some (b1, s1)" "ok s1" "dead s1" "view s1 = view s"
      using swap_try_any [OF t0(2) assms(2,4) q _ assms(8,9), of 1] assms(6) rs dead by auto
    show ?thesis
    proof (cases b1)
      case True
      let ?e = "update_active_page cfg ops (e\<lparr>ee_store := s1\<rparr>)"
      show ?thesis
        by (rule that [of True ?e b0 s])
          (use t0 t1 True False assms(3,5) in \<open>simp_all add: swap_pages_and_write_def\<close>)
    next
      case b1: False
      show ?thesis
        by (rule that [of False "e\<lparr>ee_store := s1\<rparr>" b0 s])
          (use t0 t1 b1 False assms(3,5) in \<open>simp_all add: swap_pages_and_write_def\<close>)
    qed
  qed
qed

section \<open>Appending the changed records\<close>

definition put_phase1 ::
    "eeprom_cfg \<Rightarrow> u16 \<Rightarrow> u8 list \<Rightarrow> 's eeprom \<Rightarrow> bool \<times> 's" where
  "put_phase1 cfg lo ds e =
     (let (success, existing, write_begin) =
            read_range_and_find_empty cfg ops (ee_store e) (ee_active e) lo (of_nat (length ds))
      in if success
         then write_range_changed cfg ops (ee_active e) write_begin lo ds existing (ee_store e)
         else (False, ee_store e))"

lemma write_range_phases:
  assumes "unat lo + length ds \<le> ee_capacity cfg" "ee_capacity cfg \<le> 8192"
  shows "write_range fuel True cfg ops lo ds e =
    (let (b, s) = put_phase1 cfg lo ds e
     in if b then Some (e\<lparr>ee_store := s\<rparr>)
        else map_option snd (swap_pages_and_write fuel cfg ops lo ds (e\<lparr>ee_store := s\<rparr>)))"
proof -
  have "unat (lo + of_nat (length ds)) = unat lo + length ds"
    using assms by (intro unat_add_of_nat_u16) simp
  then show ?thesis
    using assms(1) by (auto simp: write_range_def put_phase1_def Let_def split: prod.splits)
qed

lemma phase1_cases:
  assumes inv: "ee_inv clean cfg e" and lay: "lay cfg" and fits: "unat lo + length ds \<le> ee_capacity cfg"
  defines "p \<equiv> ee_active e" and "rs \<equiv> page_recs (view (ee_store e)) cfg (ee_active e)"
  defines "ch \<equiv> changed_recs lo (map (\<lambda>k. latest rs (lo + of_nat k)) [0..<length ds]) ds"
  obtains (stay) b where "put_phase1 cfg lo ds e = (b, ee_store e)" "b \<longrightarrow> ch = []"
  | (append) "ch \<noteq> []" "length rs + length ch \<le> nslots cfg p" "slot (view (ee_store e)) cfg p (length rs) = blank_record"
      "length rs + length ch < nslots cfg p \<Longrightarrow>
         slot (view (ee_store e)) cfg p (length rs + length ch) = blank_record"
      "put_phase1 cfg lo ds e =
         write_down ops (page_end cfg p) ch (slot_addr cfg p (length rs + length ch)) (ee_store e)"
proof -
  let ?st = "ee_store e" and ?k = "length rs" and ?n = "length ch"
  let ?ex = "map (\<lambda>k. latest rs (lo + of_nat k)) [0..<length ds]"
  let ?rest = "dropWhile rec_valid (slots (view ?st) cfg p)"
  have ok: "ok ?st" and p: "p \<noteq> NoPage" using inv by (auto simp: ee_inv_def p_def)
  have cap: "unat lo + length ds < 65536" using fits layout_page(8) [OF lay p] by simp
  then have u: "unat (of_nat (length ds) :: u16) = length ds" by (intro unat_of_nat_u16) simp
  have rs: "page_recs (view ?st) cfg p = rs" by (simp add: rs_def p_def)
  note stop = page_recs_stop [OF rs refl]
  define good where "good \<longleftrightarrow> ?rest = [] \<or> hd ?rest = blank_record"
  have find: "read_range_and_find_empty cfg ops ?st p lo (of_nat (length ds)) =
    (good, ?ex, if good then slot_addr cfg p ?k else page_end cfg p)"
    using find_empty_slots [OF ok lay p, of lo "of_nat (length ds)"] cap u rs
    unfolding page_recs_def [symmetric] good_def by (simp add: cell_page_recs del: dropWhile_eq_Nil_conv)
  have cnt: "changed_count ?ex ds = ?n" by (simp add: ch_def length_changed_recs)
  have addr: "slot_addr cfg p ?k + ?n * 4 = slot_addr cfg p (?k + ?n)" by (simp add: slot_addr_def)
  show thesis
  proof (cases good)
    case False
    then show thesis using stay [of False] find by (simp add: put_phase1_def p_def [symmetric])
  next
    case True
    then have ph: "put_phase1 cfg lo ds e = write_range_changed cfg ops p (slot_addr cfg p ?k) lo ds ?ex ?st"
      using find by (simp add: put_phase1_def p_def [symmetric])
    show thesis
    proof (cases "?n = 0")
      case True
      then show thesis using stay [of True] ph cnt by (simp add: write_range_changed_def)
    next
      case n: False
      show thesis
      proof (cases "nslots cfg p < ?k + ?n")
        case True
        have "\<not> slot_addr cfg p (?k + ?n) < page_end cfg p"
          using True layout_page(6) [OF lay p] by (simp add: slot_addr_def)
        then have "put_phase1 cfg lo ds e = (False, ?st)"
          using ph n cnt addr write_down_full [OF lay p _ True, of ?st]
          by (simp add: write_range_changed_def write_changed_down ch_def [symmetric])
        then show thesis using stay [of False] by simp
      next
        case fit: False
        have blank: "slot (view ?st) cfg p ?k = blank_record" using True stop fit n unfolding good_def by auto
        have "(slot_addr cfg p (?k + ?n) < page_end cfg p \<longrightarrow>
            rec_empty (bytes_record (st_read ops (slot_addr cfg p (?k + ?n)) 4 ?st)))
          \<longleftrightarrow> (?k + ?n < nslots cfg p \<longrightarrow> slot (view ?st) cfg p (?k + ?n) = blank_record)"
          using layout_page(6) [OF lay p] read_slot [OF ok lay p, of "?k + ?n"]
          by (auto simp: slot_addr_def rec_empty_blank)
        then have "put_phase1 cfg lo ds e =
           (if ?k + ?n < nslots cfg p \<longrightarrow> slot (view ?st) cfg p (?k + ?n) = blank_record
            then write_down ops (page_end cfg p) ch (slot_addr cfg p (?k + ?n)) ?st else (False, ?st))"
          using ph n cnt addr
          by (auto simp: write_range_changed_def write_changed_down ch_def [symmetric] Let_def)
        then show thesis
          using stay [of False] append n fit blank by (auto split: if_splits)
      qed
    qed
  qed
qed

text \<open>The content after a complete append.\<close>

lemma append_content:
  assumes lay: "lay cfg" and p: "p \<noteq> NoPage" and fits: "unat lo + length ds \<le> ee_capacity cfg"
    and small: "recs_small cfg rs"
  defines "ch \<equiv> changed_recs lo (map (\<lambda>k. latest rs (lo + of_nat k)) [0..<length ds]) ds"
  shows "latest (rs @ rev ch) = upd_range (latest rs) lo ds" "recs_small cfg (rs @ rev ch)"
    "\<forall>r \<in> set (rev ch). rec_valid r"
proof -
  have cap: "unat lo + length ds \<le> 65535" using fits layout_page(8) [OF lay p] by simp
  show "latest (rs @ rev ch) = upd_range (latest rs) lo ds"
    unfolding ch_def by (rule ext, rule latest_write [OF cap]) auto
  show "recs_small cfg (rs @ rev ch)" "\<forall>r \<in> set (rev ch). rec_valid r"
    using changed_recs_bounds [OF cap] small fits by (fastforce simp: recs_small_def ch_def)+
qed

definition phase1_old :: "eeprom_cfg \<Rightarrow> bool \<Rightarrow> 's eeprom \<Rightarrow> 's \<Rightarrow> bool" where
  "phase1_old cfg clean e s \<longleftrightarrow>
     page_recs (view s) cfg (ee_active e) = page_recs (view (ee_store e)) cfg (ee_active e)
     \<and> (clean \<longrightarrow> page_holds (view s) cfg (ee_active e) (page_recs (view s) cfg (ee_active e)))"

definition phase1_new :: "eeprom_cfg \<Rightarrow> u16 \<Rightarrow> u8 list \<Rightarrow> bool \<Rightarrow> 's eeprom \<Rightarrow> 's \<Rightarrow> bool" where
  "phase1_new cfg lo ds clean e s \<longleftrightarrow>
     latest (page_recs (view s) cfg (ee_active e))
       = upd_range (latest (page_recs (view (ee_store e)) cfg (ee_active e))) lo ds
     \<and> recs_small cfg (page_recs (view s) cfg (ee_active e))
     \<and> (clean \<longrightarrow> page_holds (view s) cfg (ee_active e) (page_recs (view s) cfg (ee_active e)))"

lemma phase1_frame:
  assumes inv: "ee_inv clean cfg e" and lay: "lay cfg" and fits: "unat lo + length ds \<le> ee_capacity cfg"
    and run: "put_phase1 cfg lo ds e = (b, s)"
  shows "ok s" "dead (ee_store e) \<Longrightarrow> dead s \<and> view s = view (ee_store e)"
    "q \<noteq> NoPage \<Longrightarrow> status_of (view s) cfg q = status_of (view (ee_store e)) cfg q"
proof -
  let ?p = "ee_active e" and ?st = "ee_store e"
  have ok: "ok ?st" and p: "?p \<noteq> NoPage" using inv unfolding ee_inv_def by blast+
  have "ok s \<and> (dead ?st \<longrightarrow> dead s \<and> view s = view ?st)
     \<and> (q \<noteq> NoPage \<longrightarrow> status_of (view s) cfg q = status_of (view ?st) cfg q)"
  proof (cases rule: phase1_cases [OF inv lay fits, case_names stay append])
    case stay
    then show ?thesis using run ok by auto
  next
    case append
    let ?k = "length (page_recs (view ?st) cfg ?p)"
    note w = write_down_slots [OF lay p ok append(2) append(5) [symmetric, unfolded run]]
    then have "q \<noteq> NoPage \<Longrightarrow> status_of (view s) cfg q = status_of (view ?st) cfg q"
      using same_but_status [OF _ lay p _ append(2)] by blast
    with w show ?thesis by blast
  qed
  then show "ok s" "dead (ee_store e) \<Longrightarrow> dead s \<and> view s = view (ee_store e)"
    "q \<noteq> NoPage \<Longrightarrow> status_of (view s) cfg q = status_of (view (ee_store e)) cfg q"
    by blast+
qed

lemma phase1_live:
  assumes inv: "ee_inv clean cfg e" and lay: "lay cfg" and fits: "unat lo + length ds \<le> ee_capacity cfg"
    and run: "put_phase1 cfg lo ds e = (b, s)" and live: "\<not> dead s" and safe: "verifies \<or> clean"
  shows "if b then phase1_new cfg lo ds clean e s else phase1_old cfg clean e s"
proof -
  let ?p = "ee_active e" and ?st = "ee_store e"
  let ?rs = "page_recs (view ?st) cfg ?p"
  let ?ch = "changed_recs lo (map (\<lambda>k. latest ?rs (lo + of_nat k)) [0..<length ds]) ds"
  have ok: "ok ?st" and p: "?p \<noteq> NoPage" and small: "recs_small cfg ?rs"
    and clean: "clean \<longrightarrow> page_holds (view ?st) cfg ?p ?rs"
    using inv unfolding ee_inv_def by blast+
  note content = append_content [OF lay p fits small]
  show ?thesis
  proof (cases rule: phase1_cases [OF inv lay fits, case_names stay append])
    case (stay b')
    then show ?thesis
      using run clean content(1) small by (cases b) (auto simp: phase1_old_def phase1_new_def)
  next
    case append
    let ?k = "length ?rs" and ?n = "length ?ch"
    have w: "write_down ops (page_end cfg ?p) ?ch (slot_addr cfg ?p (?k + ?n)) ?st = (b, s)"
      using append(5) run by simp
    note sl = write_down_slots [OF lay p ok append(2) w]
    then have sb: "same_but cfg ?p ?k ?n (view ?st) (view s)" by blast
    have blank: "\<forall>j < ?n. slot (view ?st) cfg ?p (?k + j) = blank_record" if clean
    proof (intro allI impI)
      fix j assume "j < ?n"
      then have j: "?k + j < nslots cfg ?p" using append(2) by simp
      have "slots (view ?st) cfg ?p = ?rs @ replicate (nslots cfg ?p - ?k) blank_record"
        using clean that by (simp add: page_holds_def)
      then have "slots (view ?st) cfg ?p ! (?k + j) = (?rs @ replicate (nslots cfg ?p - ?k) blank_record) ! (?k + j)"
        by simp
      then show "slot (view ?st) cfg ?p (?k + j) = blank_record" using j by (simp add: nth_append)
    qed
    show ?thesis
    proof (cases b)
      case True
      then have all: "\<forall>j < length (rev ?ch). slot (view s) cfg ?p (?k + j) = rev ?ch ! j"
        using sl live safe blank by auto
      have "page_recs (view s) cfg ?p = ?rs @ rev ?ch"
        "clean \<longrightarrow> page_holds (view s) cfg ?p (?rs @ rev ?ch)"
        using page_recs_extend [OF refl _ all _ content(3)] sb append clean by auto
      then show ?thesis using True content by (simp add: phase1_new_def)
    next
      case False
      then have nc: "\<not> clean" using sl live blank by auto
      have "?k < nslots cfg ?p" using append(1,2) by (cases ?ch) auto
      then have "page_recs (view s) cfg ?p = ?rs"
        using write_down_failed [OF lay p ok append(2,1,3)] w False live
        by (intro page_recs_keep [OF refl sb]) auto
      then show ?thesis using False nc by (simp add: phase1_old_def)
    qed
  qed
qed

end

section \<open>put updates the map, and a power failure leaves the old or the new map\<close>

context word_store
begin

lemma phase1_torn:
  assumes inv: "ee_inv clean cfg e" and lay: "lay cfg" and fits: "unat lo + length ds \<le> ee_capacity cfg"
    and run: "put_phase1 cfg lo ds e = (b, s)"
  shows "phase1_old cfg False e s \<or> phase1_new cfg lo ds False e s"
proof -
  let ?p = "ee_active e" and ?st = "ee_store e"
  let ?rs = "page_recs (view ?st) cfg ?p"
  let ?ch = "changed_recs lo (map (\<lambda>k. latest ?rs (lo + of_nat k)) [0..<length ds]) ds"
  have ok: "ok ?st" and p: "?p \<noteq> NoPage" and small: "recs_small cfg ?rs"
    using inv unfolding ee_inv_def by blast+
  note content = append_content [OF lay p fits small]
  show ?thesis
  proof (cases rule: phase1_cases [OF inv lay fits, case_names stay append])
    case (stay b')
    then show ?thesis using run by (simp add: phase1_old_def)
  next
    case append
    let ?k = "length ?rs" and ?n = "length ?ch"
    have w: "write_down ops (page_end cfg ?p) ?ch (slot_addr cfg ?p (?k + ?n)) ?st = (b, s)"
      using append(5) run by simp
    have sb: "same_but cfg ?p ?k ?n (view ?st) (view s)"
      using write_down_slots [OF lay p ok append(2) w] by blast
    from write_down_torn [OF lay p ok append(2,1,3) w] show ?thesis
    proof
      assume blank: "slot (view s) cfg ?p ?k = blank_record"
      have "?k < nslots cfg ?p" using append(1,2) by (cases ?ch) auto
      then show ?thesis using page_recs_keep [OF refl sb _ blank] by (simp add: phase1_old_def)
    next
      assume "\<forall>j < ?n. slot (view s) cfg ?p (?k + j) = rev ?ch ! j"
      then have all: "\<forall>j < length (rev ?ch). slot (view s) cfg ?p (?k + j) = rev ?ch ! j" by simp
      have "page_recs (view s) cfg ?p = ?rs @ rev ?ch"
        using page_recs_extend(1) [OF refl _ all _ content(3)] sb append by auto
      then show ?thesis using content by (simp add: phase1_new_def)
    qed
  qed
qed

text \<open>The page a complete swap has written.\<close>

lemma swapped_content:
  assumes lay: "lay cfg" and p: "p \<noteq> NoPage" and fits: "unat lo + length ds \<le> ee_capacity cfg"
    and small: "recs_small cfg rs" and holds: "page_holds v cfg q (swapped lo ds rs)"
  shows "page_recs v cfg q = swapped lo ds rs" "latest (swapped lo ds rs) = upd_range (latest rs) lo ds"
    "recs_small cfg (swapped lo ds rs)"
proof -
  note cap = layout_page(8) [OF lay p]
  note small' = small [unfolded recs_small_def]
  show "page_recs v cfg q = swapped lo ds rs"
    by (rule page_holds_recs [OF holds]) (simp add: swapped_set(2) [OF small' fits cap])
  show "latest (swapped lo ds rs) = upd_range (latest rs) lo ds"
    by (rule ext, rule latest_swapped [OF small' fits cap])
  show "recs_small cfg (swapped lo ds rs)"
    using swapped_set(1) [OF small' fits cap] by (simp add: recs_small_def)
qed

lemma swap_torn_content:
  assumes "ok s" "lay cfg" "active_of (view s) cfg = p" "p \<noteq> NoPage"
    and small: "recs_small cfg (page_recs (view s) cfg p)"
    and fits: "unat lo + length ds \<le> ee_capacity cfg" and fuel: "64 \<le> fuel"
    and res: "swap_try fuel cfg ops tries p (other_page p) lo ds s = Some (b, s')"
  shows "recovers cfg (view s') (latest (page_recs (view s) cfg p))
    \<or> recovers cfg (view s') (upd_range (latest (page_recs (view s) cfg p)) lo ds)"
proof -
  let ?q = "other_page p" and ?rs = "page_recs (view s) cfg p"
  have q: "?q \<noteq> NoPage" "p \<noteq> ?q" using assms(4) by simp_all
  have act: "status_of (view s) cfg p = PAGE_ACTIVE" using active_of_eq [OF assms(4)] assms(3) by blast
  have rs': "page_recs (view s') cfg p = ?rs"
    using swap_try_any [OF assms(1,2,4) q small fits fuel, of tries] res by (auto simp: page_recs_def)
  have old: "recovers cfg (view s') (latest ?rs)" if "active_of (view s') cfg = p"
    using that rs' small assms(4) by (simp add: recovers_def ee_content_def)
  from swap_try_torn [OF assms(1,2,4) q small fits fuel act res] show ?thesis
  proof
    assume "status_of (view s') cfg p = PAGE_ACTIVE
      \<and> (status_of (view s') cfg ?q = PAGE_ACTIVE \<longrightarrow> status_of (view s) cfg ?q = PAGE_ACTIVE)"
    then have "active_of (view s') cfg = p" using active_of_old [OF assms(3,4)] by blast
    with old show ?thesis by simp
  next
    assume *: "status_of (view s') cfg ?q = PAGE_ACTIVE
      \<and> status_of (view s') cfg p \<in> {PAGE_ACTIVE, PAGE_INACTIVE} \<and> page_holds (view s') cfg ?q (swapped lo ds ?rs)"
    then consider "active_of (view s') cfg = p" | "active_of (view s') cfg = ?q"
      using active_of_new(2) [OF assms(4)] by blast
    then show ?thesis
    proof cases
      case 2
      have "page_holds (view s') cfg ?q (swapped lo ds ?rs)" using * by blast
      from swapped_content [OF assms(2,4) fits small this] 2 show ?thesis
        using q(1) by (simp add: recovers_def ee_content_def)
    qed (use old in simp)
  qed
qed

theorem put_updates:
  assumes inv: "ee_inv clean cfg e" and lay: "lay cfg" and fits: "unat lo + length ds \<le> ee_capacity cfg"
    and fuel: "64 \<le> fuel"
  obtains e' where "ee_put fuel True cfg ops lo ds e = Some e'" "ok (ee_store e')"
    "\<not> dead (ee_store e') \<longrightarrow> \<not> dead (ee_store e) \<and> ee_inv clean cfg e'
         \<and> ee_content (view (ee_store e')) cfg = upd_range (ee_content (view (ee_store e)) cfg) lo ds"
    "recovers cfg (view (ee_store e')) (ee_content (view (ee_store e)) cfg)
      \<or> recovers cfg (view (ee_store e')) (upd_range (ee_content (view (ee_store e)) cfg) lo ds)"
proof -
  let ?p = "ee_active e" and ?st = "ee_store e" and ?q = "other_page (ee_active e)"
  let ?rs = "page_recs (view ?st) cfg ?p"
  have act: "?p = active_of (view ?st) cfg" and p: "?p \<noteq> NoPage" and alt: "ee_alternate e = ?q"
    and small: "recs_small cfg ?rs"
    using inv unfolding ee_inv_def by blast+
  have old: "ee_content (view ?st) cfg = latest ?rs" by (simp add: ee_content_def act [symmetric])
  have stp: "status_of (view ?st) cfg ?p = PAGE_ACTIVE" using act p active_of_eq [OF p] by metis
  obtain b s where run: "put_phase1 cfg lo ds e = (b, s)" by fastforce
  note frame = phase1_frame [OF inv lay fits run]
  have act1: "active_of (view s) cfg = ?p" using act frame(3) by (simp add: active_of_def)
  have cap: "ee_capacity cfg \<le> 8192" by (rule layout_page(8) [OF lay p])
  note put = write_range_phases [OF fits cap, of fuel e, unfolded run Let_def prod.case]
  have live1: "if b then phase1_new cfg lo ds clean e s else phase1_old cfg clean e s" if "\<not> dead s"
    by (rule phase1_live [OF inv lay fits run that]) (simp add: verifies_holds)
  note torn1 = phase1_torn [OF inv lay fits run]
  have rec1: "recovers cfg (view s) (latest ?rs) \<or> recovers cfg (view s) (upd_range (latest ?rs) lo ds)"
    using torn1 p small by (auto simp: recovers_def ee_content_def act1 phase1_old_def phase1_new_def)
  show thesis
  proof (cases b)
    case True
    let ?e = "e\<lparr>ee_store := s\<rparr>"
    have live: "ee_inv clean cfg ?e \<and> ee_content (view s) cfg = upd_range (latest ?rs) lo ds" if "\<not> dead s"
      using live1 [OF that] True act1 frame(1) p alt
      by (auto simp: ee_inv_def ee_content_def phase1_new_def)
    show thesis
      by (rule that [of ?e]) (use put True frame(1,2) live rec1 old in \<open>auto simp: ee_put_def\<close>)
  next
    case False
    let ?e = "e\<lparr>ee_store := s\<rparr>"
    have small1: "recs_small cfg (page_recs (view s) cfg ?p)"
      using torn1 small by (auto simp: phase1_old_def phase1_new_def)
    have pre: "ok (ee_store ?e)" "ee_active ?e = ?p" "ee_alternate ?e = ?q"
      "recs_small cfg (page_recs (view (ee_store ?e)) cfg ?p)"
      "status_of (view (ee_store ?e)) cfg ?p = PAGE_ACTIVE"
      using frame(1,3) alt small1 stp p by simp_all
    have q: "?q \<noteq> NoPage" "?p \<noteq> ?q" using p by simp_all
    obtain b2 e2 b0 s2 where sw: "swap_pages_and_write fuel cfg ops lo ds ?e = Some (b2, e2)"
      "swap_try fuel cfg ops 0 ?p ?q lo ds (ee_store ?e) = Some (b0, s2)"
      "ok (ee_store e2)" "view (ee_store e2) = view s2"
      "dead (ee_store ?e) \<longrightarrow> dead (ee_store e2)"
      "\<not> dead (ee_store e2) \<longrightarrow> \<not> dead (ee_store ?e) \<and> ee_store e2 = s2 \<and> \<not> dead s2 \<and> e2 = update_active_page cfg ops e2"
      by (rule swap_pages_any [OF pre(1) lay pre(2) p pre(3-5) fits fuel])
    have any: "ok s2 \<and> (dead s \<longrightarrow> view s2 = view s)
      \<and> (\<not> dead s2 \<longrightarrow> status_of (view s2) cfg ?p = PAGE_INACTIVE \<and> status_of (view s2) cfg ?q = PAGE_ACTIVE
         \<and> page_holds (view s2) cfg ?q (swapped lo ds (page_recs (view s) cfg ?p)))"
      using swap_try_any [OF pre(1) lay p q pre(4) fits fuel, of 0] sw(2) pre(5) by auto
    have result: "ee_put fuel True cfg ops lo ds e = Some e2"
      using put False sw(1) by (simp add: ee_put_def)
    have live: "\<not> dead ?st \<and> ee_inv clean cfg e2 \<and> ee_content (view (ee_store e2)) cfg = upd_range (latest ?rs) lo ds"
      if l: "\<not> dead (ee_store e2)"
    proof -
      have l1: "\<not> dead s" "\<not> dead s2" and e2: "ee_store e2 = s2" and upd: "e2 = update_active_page cfg ops e2"
        using sw(6) l by simp_all
      have rs1: "page_recs (view s) cfg ?p = ?rs" using live1 [OF l1(1)] False by (simp add: phase1_old_def)
      have post: "status_of (view s2) cfg ?p = PAGE_INACTIVE" "status_of (view s2) cfg ?q = PAGE_ACTIVE"
        "page_holds (view s2) cfg ?q (swapped lo ds ?rs)"
        using any l1(2) rs1 by auto
      have a2: "active_of (view s2) cfg = ?q" by (rule active_of_new(1) [OF p post(2,1)])
      note content = swapped_content [OF lay p fits small post(3)]
      have "ee_active e2 = ?q" "ee_alternate e2 = other_page ?q"
        using update_active [of e2] sw(3) lay upd a2 e2 by (metis eeprom.select_convs(2,3) eeprom.surjective eeprom.update_convs(2,3))+
      then have "ee_inv clean cfg e2"
        using any content post(3) q(1) a2 e2 by (simp add: ee_inv_def)
      then show ?thesis
        using content a2 e2 frame(2) l1(1) by (auto simp: ee_content_def)
    qed
    have torn: "recovers cfg (view (ee_store e2)) (latest ?rs) \<or> recovers cfg (view (ee_store e2)) (upd_range (latest ?rs) lo ds)"
    proof (cases "dead s")
      case True
      then have "view (ee_store e2) = view s" using any sw(4) by simp
      then show ?thesis using rec1 by (simp add: recovers_def)
    next
      case l: False
      then have rs1: "page_recs (view s) cfg ?p = ?rs" using live1 [OF l] False by (simp add: phase1_old_def)
      then show ?thesis
        using swap_torn_content [OF _ lay act1 p small1 fits fuel sw(2) [simplified]] frame(1) sw(4)
        by (simp add: recovers_def)
    qed
    show thesis by (rule that [of e2]) (use result sw(3) live torn old in auto)
  qed
qed

end

end
