(* ===== verification/Flash_Chips.thy ===== *)
theory Flash_Chips
  imports Flash_Storage
begin

text \<open>
  The two hardware stores meet the contract of \<open>Flash_Storage\<close> when the chip driver does what
  its data sheet says.  \<open>internal_chip\<close> states that for the STM32 flash programming functions
  (a programming operation clears bits, at once for the width it programs),
  \<open>serial_chip\<close> for the serial flash driver (a buffer is programmed byte by byte).  The code's
  retries and its verification of what it wrote are proved here.  A simulated chip over
  \<open>ram_flash\<close> meets both sets of laws.
\<close>

section \<open>The internal flash\<close>

definition prog_op :: "'s iflash_chip \<Rightarrow> nat \<Rightarrow> u8 list \<Rightarrow> 's \<Rightarrow> bool \<times> 's" where
  "prog_op c a ds =
     (if length ds = 4 then if_program_word c a ds
      else if length ds = 2 then if_program_half_word c a ds
      else if_program_byte c a ds)"

definition prog_aligned :: "nat \<Rightarrow> u8 list \<Rightarrow> bool" where
  "prog_aligned a ds \<longleftrightarrow> length ds = 4 \<and> a mod 4 = 0 \<or> length ds = 2 \<and> a mod 2 = 0 \<or> length ds = 1"

locale internal_chip =
  fixes c :: "'s iflash_chip"
    and view :: "'s \<Rightarrow> nat \<Rightarrow> u8"
    and dead :: "'s \<Rightarrow> bool"
    and ok :: "'s \<Rightarrow> bool"
    and in_range :: "nat \<Rightarrow> nat \<Rightarrow> bool"
    and is_sector :: "nat \<Rightarrow> nat \<Rightarrow> bool"
  assumes chip_range_mono: "in_range a n \<Longrightarrow> a \<le> b \<Longrightarrow> b + m \<le> a + n \<Longrightarrow> in_range b m"
    and chip_sector_in_range: "is_sector a n \<Longrightarrow> in_range a n"
    and chip_mem: "ok s \<Longrightarrow> in_range a n \<Longrightarrow> if_mem c a n s = bytes_at (view s) a n"
    and prog_ok: "ok s \<Longrightarrow> in_range a (length ds) \<Longrightarrow> prog_aligned a ds \<Longrightarrow> ok (snd (prog_op c a ds s))"
    and prog_live: "ok s \<Longrightarrow> in_range a (length ds) \<Longrightarrow> prog_aligned a ds \<Longrightarrow>
        \<not> dead (snd (prog_op c a ds s)) \<Longrightarrow>
        \<not> dead s \<and> fst (prog_op c a ds s) \<and> view (snd (prog_op c a ds s)) = and_upd (view s) a ds"
    and prog_atomic: "ok s \<Longrightarrow> in_range a (length ds) \<Longrightarrow> prog_aligned a ds \<Longrightarrow>
        view (snd (prog_op c a ds s)) \<in> {view s, and_upd (view s) a ds}"
    and prog_dead: "ok s \<Longrightarrow> in_range a (length ds) \<Longrightarrow> prog_aligned a ds \<Longrightarrow> dead s \<Longrightarrow>
        dead (snd (prog_op c a ds s)) \<and> view (snd (prog_op c a ds s)) = view s"
    and chip_erase_ok: "ok s \<Longrightarrow> is_sector a n \<Longrightarrow> ok (snd (if_erase_memory c a 1 s))"
    and chip_erase_live: "ok s \<Longrightarrow> is_sector a n \<Longrightarrow> \<not> dead (snd (if_erase_memory c a 1 s)) \<Longrightarrow>
        \<not> dead s \<and> fst (if_erase_memory c a 1 s)
        \<and> view (snd (if_erase_memory c a 1 s)) = erase_upd (view s) a n"
    and chip_erase_atomic: "ok s \<Longrightarrow> is_sector a n \<Longrightarrow>
        view (snd (if_erase_memory c a 1 s)) \<in> {view s, erase_upd (view s) a n}"
    and chip_erase_dead: "ok s \<Longrightarrow> is_sector a n \<Longrightarrow> dead s \<Longrightarrow>
        dead (snd (if_erase_memory c a 1 s)) \<and> view (snd (if_erase_memory c a 1 s)) = view s"
begin

lemma retry_ok:
  "ok s \<Longrightarrow> in_range a (length ds) \<Longrightarrow> prog_aligned a ds \<Longrightarrow> ok (program_retry n (prog_op c a ds) s)"
  by (induction n arbitrary: s; subst program_retry.simps)
    (use prog_ok in \<open>fastforce split: prod.splits\<close>)+

lemma retry_dead:
  "ok s \<Longrightarrow> in_range a (length ds) \<Longrightarrow> prog_aligned a ds \<Longrightarrow> dead s \<Longrightarrow>
     dead (program_retry n (prog_op c a ds) s) \<and> view (program_retry n (prog_op c a ds) s) = view s"
proof (induction n arbitrary: s)
  case 0
  then show ?case using prog_dead [of s a ds] by (subst (1 2) program_retry.simps) (auto split: prod.splits)
next
  case (Suc n)
  then show ?case using prog_dead [of s a ds] prog_ok [of s a ds]
    by (subst (1 2) program_retry.simps) (auto split: prod.splits)
qed

lemma retry_live:
  assumes "ok s" "in_range a (length ds)" "prog_aligned a ds" "\<not> dead (program_retry n (prog_op c a ds) s)"
  shows "\<not> dead s \<and> view (program_retry n (prog_op c a ds) s) = and_upd (view s) a ds"
proof -
  obtain b s' where p: "prog_op c a ds s = (b, s')" by (cases "prog_op c a ds s")
  have ok': "ok s'" using prog_ok [OF assms(1-3)] p by simp
  show ?thesis
  proof (cases "dead s'")
    case False
    then have "\<not> dead s \<and> b \<and> view s' = and_upd (view s) a ds"
      using prog_live [OF assms(1-3)] p by simp
    then show ?thesis by (subst program_retry.simps) (simp add: p)
  next
    case True
    then have "dead (program_retry n (prog_op c a ds) s)"
      using retry_dead [OF ok' assms(2,3) True]
      by (subst program_retry.simps) (auto simp: p split: nat.splits)
    with assms(4) show ?thesis by simp
  qed
qed

lemma retry_atomic:
  assumes "ok s" "in_range a (length ds)" "prog_aligned a ds"
  shows "view (program_retry n (prog_op c a ds) s) \<in> {view s, and_upd (view s) a ds}"
proof -
  obtain b s' where p: "prog_op c a ds s = (b, s')" by (cases "prog_op c a ds s")
  have ok': "ok s'" and at: "view s' \<in> {view s, and_upd (view s) a ds}"
    using prog_ok [OF assms] prog_atomic [OF assms] p by auto
  show ?thesis
  proof (cases "dead s'")
    case False
    then have b using prog_live [OF assms] p by simp
    then show ?thesis using at by (subst program_retry.simps) (simp add: p)
  next
    case True
    then show ?thesis
      using at retry_dead [OF ok' assms(2,3) True]
      by (subst program_retry.simps) (auto simp: p split: nat.splits)
  qed
qed

text \<open>The loop of \<open>InternalFlashStore::write\<close> as a list of aligned programming steps.\<close>

definition chunk :: "nat \<Rightarrow> u8 list \<Rightarrow> nat" where
  "chunk a ds = (if a mod 4 = 0 \<and> 4 \<le> length ds then 4 else if a mod 2 = 0 \<and> 2 \<le> length ds then 2 else 1)"

lemma chunk_bounds: "ds \<noteq> [] \<Longrightarrow> 0 < chunk a ds \<and> chunk a ds \<le> length ds"
  by (cases ds) (auto simp: chunk_def)

lemma chunk_aligned: "ds \<noteq> [] \<Longrightarrow> prog_aligned a (take (chunk a ds) ds)"
  by (cases ds) (auto simp: chunk_def prog_aligned_def)

lemma write_loop_step:
  "ds \<noteq> [] \<Longrightarrow> internal_write_loop c a ds s =
     internal_write_loop c (a + chunk a ds) (drop (chunk a ds) ds)
       (program_retry 10 (prog_op c a (take (chunk a ds) ds)) s)"
  by (subst internal_write_loop.simps, cases ds) (auto simp: chunk_def prog_op_def)

lemma write_loop_Nil [simp]: "internal_write_loop c a [] s = s"
  by (subst internal_write_loop.simps) simp

lemma write_loop_ok:
  "ok s \<Longrightarrow> in_range a (length ds) \<Longrightarrow> ok (internal_write_loop c a ds s)"
proof (induction ds arbitrary: a s rule: length_induct)
  case (1 ds)
  show ?case
  proof (cases "ds = []")
    case False
    let ?k = "chunk a ds"
    note b = chunk_bounds [OF False, of a]
    have len: "length (drop ?k ds) < length ds" using b False by simp
    have "in_range a (length (take ?k ds))" "in_range (a + ?k) (length (drop ?k ds))"
      using b by (auto intro!: chip_range_mono [OF 1(3)])
    with 1 b show ?thesis
      by (simp add: write_loop_step [OF False] retry_ok chunk_aligned False)
  qed (simp add: 1)
qed

lemma write_loop_dead:
  "ok s \<Longrightarrow> in_range a (length ds) \<Longrightarrow> dead s \<Longrightarrow>
     dead (internal_write_loop c a ds s) \<and> view (internal_write_loop c a ds s) = view s"
proof (induction ds arbitrary: a s rule: length_induct)
  case (1 ds)
  show ?case
  proof (cases "ds = []")
    case False
    let ?k = "chunk a ds" and ?s = "program_retry 10 (prog_op c a (take (chunk a ds) ds)) s"
    note b = chunk_bounds [OF False, of a]
    have len: "length (drop ?k ds) < length ds" using b False by simp
    have r: "in_range a (length (take ?k ds))" "in_range (a + ?k) (length (drop ?k ds))"
      using b by (auto intro!: chip_range_mono [OF 1(3)])
    have s: "dead ?s" "view ?s = view s" "ok ?s"
      using retry_dead [OF 1(2) r(1) chunk_aligned [OF False] 1(4)]
        retry_ok [OF 1(2) r(1) chunk_aligned [OF False]] by auto
    show ?thesis
      using 1(1) [rule_format, OF len, of ?s "a + ?k"] b r(2) s by (simp add: write_loop_step [OF False])
  qed (use 1 in simp)
qed

lemma write_loop_torn:
  "ok s \<Longrightarrow> in_range a (length ds) \<Longrightarrow>
     (\<exists>k \<le> length ds. view (internal_write_loop c a ds s) = and_upd (view s) a (take k ds)
        \<and> (\<not> dead (internal_write_loop c a ds s) \<longrightarrow> k = length ds \<and> \<not> dead s))"
proof (induction ds arbitrary: a s rule: length_induct)
  case (1 ds)
  show ?case
  proof (cases "ds = []")
    case False
    let ?k = "chunk a ds" and ?ds = "take (chunk a ds) ds"
    let ?s = "program_retry 10 (prog_op c a ?ds) s"
    have len: "length (drop ?k ds) < length ds" using chunk_bounds [OF False, of a] False by simp
    note b = chunk_bounds [OF False, of a] and al = chunk_aligned [OF False, of a]
    have r: "in_range a (length ?ds)" "in_range (a + ?k) (length (drop ?k ds))"
      using b by (auto intro!: chip_range_mono [OF 1(3)])
    have ok: "ok ?s" by (rule retry_ok [OF 1(2) r(1) al])
    have at: "view ?s \<in> {view s, and_upd (view s) a ?ds}" by (rule retry_atomic [OF 1(2) r(1) al])
    note loop = write_loop_step [OF False, of a s]
    show ?thesis
    proof (cases "dead ?s")
      case True
      have "dead (internal_write_loop c a ds s) \<and> view (internal_write_loop c a ds s) = view ?s"
        using write_loop_dead [OF ok r(2) True] by (simp add: loop)
      moreover have "view ?s = and_upd (view s) a (take 0 ds) \<or> view ?s = and_upd (view s) a (take ?k ds)"
        using at by auto
      ultimately show ?thesis using b by auto
    next
      case alive: False
      have v: "\<not> dead s" "view ?s = and_upd (view s) a ?ds"
        using retry_live [OF 1(2) r(1) al alive] by auto
      obtain j where j: "j \<le> length (drop ?k ds)"
        "view (internal_write_loop c a ds s) = and_upd (view ?s) (a + ?k) (take j (drop ?k ds))"
        "\<not> dead (internal_write_loop c a ds s) \<longrightarrow> j = length (drop ?k ds)"
        using 1(1) [rule_format, OF len, of ?s "a + ?k"] b r(2) ok by (auto simp: loop)
      have "and_upd (view ?s) (a + ?k) (take j (drop ?k ds)) = and_upd (view s) a (take (?k + j) ds)"
        using b by (simp add: v take_add and_upd_append)
      with j v b show ?thesis by (intro exI [of _ "?k + j"]) auto
    qed
  qed (use 1 in auto)
qed

lemma write_loop_word:
  assumes "ok s" "in_range a 4" "a mod 4 = 0" "length ds = 4"
  shows "view (internal_write_loop c a ds s) \<in> {view s, and_upd (view s) a ds}"
proof -
  have "ds \<noteq> []" "chunk a ds = 4" using assms(3,4) by (auto simp: chunk_def)
  then have "internal_write_loop c a ds s = program_retry 10 (prog_op c a ds) s"
    using assms(4) by (simp add: write_loop_step)
  then show ?thesis
    using assms retry_atomic [of s a ds] by (simp add: prog_aligned_def)
qed

lemma internal_ops [simp]:
  "snd (st_write (internal_store c) a ds s) = internal_write_loop c a ds s"
  "fst (st_write (internal_store c) a ds s) =
     (if if_mem c a (length ds) (internal_write_loop c a ds s) \<noteq> ds then -1 else 0)"
  "st_read (internal_store c) = if_mem c"
  "fst (st_erase_sector (internal_store c) a s) = (if fst (if_erase_memory c a 1 s) then 0 else -1)"
  "snd (st_erase_sector (internal_store c) a s) = snd (if_erase_memory c a 1 s)"
  by (auto simp: internal_store_def internal_write_def internal_erase_sector_def Let_def
      split: prod.splits)

lemma internal_result:
  assumes "ok s" "in_range a (length ds)" "\<not> dead (internal_write_loop c a ds s)"
  shows "if_mem c a (length ds) (internal_write_loop c a ds s) = ds \<longleftrightarrow> and_fits (view s) a ds"
proof -
  have "view (internal_write_loop c a ds s) = and_upd (view s) a ds"
    using write_loop_torn [OF assms(1,2)] assms(3) by auto
  then show ?thesis
    using chip_mem [OF write_loop_ok [OF assms(1,2)] assms(2)]
    by (auto simp: bytes_at_eq_iff and_upd_def and_fits_def)
qed

end

sublocale internal_chip \<subseteq> word_store "internal_store c" view dead ok in_range is_sector
proof unfold_locales
  fix s a n and ds :: "u8 list"
  show "ok s \<Longrightarrow> is_sector a n \<Longrightarrow> ok (snd (st_erase_sector (internal_store c) a s))"
    using chip_erase_ok by simp
  show "ok s \<Longrightarrow> in_range a 4 \<Longrightarrow> a mod 4 = 0 \<Longrightarrow> length ds = 4 \<Longrightarrow>
      view (snd (st_write (internal_store c) a ds s)) \<in> {view s, and_upd (view s) a ds}"
    using write_loop_word by simp
  assume *: "ok s" "in_range a (length ds)"
  show "ok (snd (st_write (internal_store c) a ds s))" by (simp add: write_loop_ok *)
  show "\<exists>k \<le> length ds. view (snd (st_write (internal_store c) a ds s)) = and_upd (view s) a (take k ds)"
    using write_loop_torn [OF *] by auto
  show "dead s \<Longrightarrow> dead (snd (st_write (internal_store c) a ds s))
      \<and> view (snd (st_write (internal_store c) a ds s)) = view s"
    using write_loop_dead [OF *] by simp
  assume live: "\<not> dead (snd (st_write (internal_store c) a ds s))"
  then show "\<not> dead s \<and> view (snd (st_write (internal_store c) a ds s)) = and_upd (view s) a ds"
    using write_loop_torn [OF *] by auto
  show "and_fits (view s) a ds \<Longrightarrow> fst (st_write (internal_store c) a ds s) = 0"
    "0 \<le> fst (st_write (internal_store c) a ds s) \<Longrightarrow> and_fits (view s) a ds"
    using internal_result [OF *] live by (auto split: if_splits)
qed (auto simp: chip_mem
    dest: chip_sector_in_range chip_erase_live chip_erase_atomic chip_erase_dead
    intro: chip_range_mono)

context internal_chip
begin

lemma is_word_store: "word_store (internal_store c) view dead ok in_range is_sector"
  by (rule word_store_axioms)

lemma is_flash_store: "flash_store (internal_store c) view dead ok in_range is_sector"
  by (rule flash_store_axioms)

end

section \<open>The serial flash\<close>

locale serial_chip =
  fixes c :: "'s sflash_chip"
    and view :: "'s \<Rightarrow> nat \<Rightarrow> u8"
    and dead :: "'s \<Rightarrow> bool"
    and ok :: "'s \<Rightarrow> bool"
    and in_range :: "nat \<Rightarrow> nat \<Rightarrow> bool"
    and is_sector :: "nat \<Rightarrow> nat \<Rightarrow> bool"
  assumes chip_range_mono: "in_range a n \<Longrightarrow> a \<le> b \<Longrightarrow> b + m \<le> a + n \<Longrightarrow> in_range b m"
    and chip_sector_in_range: "is_sector a n \<Longrightarrow> in_range a n"
    and chip_read: "ok s \<Longrightarrow> in_range a n \<Longrightarrow> sf_read_buffer c a n s = bytes_at (view s) a n"
    and buffer_ok: "ok s \<Longrightarrow> in_range a (length ds) \<Longrightarrow> ok (sf_write_buffer c ds a s)"
    and buffer_torn: "ok s \<Longrightarrow> in_range a (length ds) \<Longrightarrow>
        \<exists>k \<le> length ds. view (sf_write_buffer c ds a s) = and_upd (view s) a (take k ds)"
    and buffer_live: "ok s \<Longrightarrow> in_range a (length ds) \<Longrightarrow> \<not> dead (sf_write_buffer c ds a s) \<Longrightarrow>
        \<not> dead s \<and> view (sf_write_buffer c ds a s) = and_upd (view s) a ds"
    and buffer_dead: "ok s \<Longrightarrow> in_range a (length ds) \<Longrightarrow> dead s \<Longrightarrow>
        dead (sf_write_buffer c ds a s) \<and> view (sf_write_buffer c ds a s) = view s"
    and chip_erase_ok: "ok s \<Longrightarrow> is_sector a n \<Longrightarrow> ok (snd (sf_erase_memory c a 16384 s))"
    and chip_erase_live: "ok s \<Longrightarrow> is_sector a n \<Longrightarrow> \<not> dead (snd (sf_erase_memory c a 16384 s)) \<Longrightarrow>
        \<not> dead s \<and> fst (sf_erase_memory c a 16384 s)
        \<and> view (snd (sf_erase_memory c a 16384 s)) = erase_upd (view s) a n"
    and chip_erase_atomic: "ok s \<Longrightarrow> is_sector a n \<Longrightarrow>
        view (snd (sf_erase_memory c a 16384 s)) \<in> {view s, erase_upd (view s) a n}"
    and chip_erase_dead: "ok s \<Longrightarrow> is_sector a n \<Longrightarrow> dead s \<Longrightarrow>
        dead (snd (sf_erase_memory c a 16384 s)) \<and> view (snd (sf_erase_memory c a 16384 s)) = view s"
begin

lemma verify_reads:
  "ok s \<Longrightarrow> in_range a (length ds) \<Longrightarrow>
     serial_verify c a ds s = (if bytes_at (view s) a (length ds) = ds then 0 else -1)"
proof (induction ds arbitrary: a)
  case (Cons d ds)
  have r: "in_range a 1" "in_range (Suc a) (length ds)"
    by (rule chip_range_mono [OF Cons.prems(2)], auto)+
  have "bytes_at (view s) a (length (d # ds)) = view s a # bytes_at (view s) (Suc a) (length ds)"
    by (simp add: bytes_at_def upt_conv_Cons del: upt_Suc)
  moreover have "bytes_at (view s) a 1 = [view s a]" by (simp add: bytes_at_def)
  ultimately show ?case using r Cons by (simp add: chip_read)
qed (simp add: bytes_at_def)

lemma serial_ops [simp]:
  "snd (st_write (serial_store c) a ds s) = sf_write_buffer c ds a s"
  "fst (st_write (serial_store c) a ds s) = serial_verify c a ds (sf_write_buffer c ds a s)"
  "st_read (serial_store c) = sf_read_buffer c"
  "fst (st_erase_sector (serial_store c) a s) = (if fst (sf_erase_memory c a 16384 s) then 0 else 1)"
  "snd (st_erase_sector (serial_store c) a s) = snd (sf_erase_memory c a 16384 s)"
  by (auto simp: serial_store_def serial_write_def serial_erase_sector_def Let_def
      split: prod.splits)

lemma serial_result:
  assumes "ok s" "in_range a (length ds)" "\<not> dead (sf_write_buffer c ds a s)"
  shows "serial_verify c a ds (sf_write_buffer c ds a s) = (if and_fits (view s) a ds then 0 else -1)"
  using assms buffer_live [OF assms]
  by (auto simp: verify_reads buffer_ok bytes_at_eq_iff and_upd_def and_fits_def)

end

sublocale serial_chip \<subseteq> verified_store "serial_store c" view dead ok in_range is_sector
proof unfold_locales
  fix s a n and ds :: "u8 list"
  show "ok s \<Longrightarrow> is_sector a n \<Longrightarrow> ok (snd (st_erase_sector (serial_store c) a s))"
    using chip_erase_ok by simp
  assume *: "ok s" "in_range a (length ds)"
  show "\<exists>k \<le> length ds. view (snd (st_write (serial_store c) a ds s)) = and_upd (view s) a (take k ds)"
    using buffer_torn [OF *] by auto
  show "dead s \<Longrightarrow> dead (snd (st_write (serial_store c) a ds s))
      \<and> view (snd (st_write (serial_store c) a ds s)) = view s"
    using buffer_dead [OF *] by simp
  assume live: "\<not> dead (snd (st_write (serial_store c) a ds s))"
  then show "\<not> dead s \<and> view (snd (st_write (serial_store c) a ds s)) = and_upd (view s) a ds"
    using buffer_live [OF *] by simp
  show "and_fits (view s) a ds \<Longrightarrow> fst (st_write (serial_store c) a ds s) = 0"
    "0 \<le> fst (st_write (serial_store c) a ds s) \<Longrightarrow> and_fits (view s) a ds"
    using serial_result [OF *] live by (auto split: if_splits)
qed (auto simp: chip_read buffer_ok
    dest: chip_sector_in_range chip_erase_live chip_erase_atomic chip_erase_dead
    intro: chip_range_mono)

section \<open>A simulated chip\<close>

text \<open>The write count is the number of programming operations before the power fails.\<close>

definition sim_prog :: "flash_geometry \<Rightarrow> nat \<Rightarrow> u8 list \<Rightarrow> ram_flash \<Rightarrow> bool \<times> ram_flash" where
  "sim_prog g a ds s =
     (if rf_write_count s = 0 then (False, s)
      else (True, (snd (ram_write_loop (a - fl_base g) ds (s\<lparr>rf_write_count := int (length ds)\<rparr>)))
                    \<lparr>rf_write_count := rf_write_count s - 1\<rparr>))"

definition sim_erase :: "flash_geometry \<Rightarrow> nat \<Rightarrow> nat \<Rightarrow> ram_flash \<Rightarrow> bool \<times> ram_flash" where
  "sim_erase g a n s = (let (r, s') = ram_erase_sector g a s in (r = 0, s'))"

definition sim_internal :: "flash_geometry \<Rightarrow> ram_flash iflash_chip" where
  "sim_internal g =
     \<lparr>if_program_word = sim_prog g, if_program_half_word = sim_prog g, if_program_byte = sim_prog g,
      if_erase_memory = sim_erase g, if_mem = st_read (ram_store g)\<rparr>"

definition sim_serial :: "flash_geometry \<Rightarrow> ram_flash sflash_chip" where
  "sim_serial g =
     \<lparr>sf_write_buffer = (\<lambda>ds a s. snd (ram_write g a ds s)), sf_read_buffer = st_read (ram_store g),
      sf_erase_memory = sim_erase g\<rparr>"

lemma sim_prog_view:
  assumes "ram_ok g s" "ram_in_range g a (length ds)" "rf_write_count s \<noteq> 0"
  shows "ram_view g (snd (sim_prog g a ds s)) = and_upd (ram_view g s) a ds"
proof -
  let ?s = "s\<lparr>rf_write_count := int (length ds)\<rparr>"
  have v: "ram_view g (t\<lparr>rf_write_count := n\<rparr>) = ram_view g t" for t n
    by (rule ext) (simp add: ram_view_def)
  have "ram_ok g ?s" using assms(1) by (simp add: ram_ok_def)
  from ram_write_view [OF this assms(2)] show ?thesis
    using assms(3) by (simp add: sim_prog_def v ram_write_in_range [OF assms(2)])
qed

lemma sim_prog_ok: "ram_ok g s \<Longrightarrow> ram_ok g (snd (sim_prog g a ds s))"
  by (auto simp: sim_prog_def ram_ok_def)

lemma sim_erase_ops [simp]:
  "fst (sim_erase g a n s) \<longleftrightarrow> fst (st_erase_sector (ram_store g) a s) = 0"
  "snd (sim_erase g a n s) = snd (st_erase_sector (ram_store g) a s)"
  by (auto simp: sim_erase_def ram_store_def split: prod.splits)

interpretation sim_internal: internal_chip "sim_internal g" "ram_view g" ram_dead "ram_ok g"
    "ram_in_range g" "ram_is_sector g" for g
proof unfold_locales
  fix s a n and ds :: "u8 list"
  have op: "prog_op (sim_internal g) a ds s = sim_prog g a ds s"
    by (simp add: prog_op_def sim_internal_def)
  have er: "if_erase_memory (sim_internal g) = sim_erase g" by (simp add: sim_internal_def)
  show "ram_ok g s \<Longrightarrow> ram_in_range g a n \<Longrightarrow> if_mem (sim_internal g) a n s = bytes_at (ram_view g s) a n"
    by (simp add: sim_internal_def ram_read_view)
  show "ram_ok g s \<Longrightarrow> ram_is_sector g a n \<Longrightarrow> ram_ok g (snd (if_erase_memory (sim_internal g) a 1 s))"
    "ram_ok g s \<Longrightarrow> ram_is_sector g a n \<Longrightarrow> \<not> ram_dead (snd (if_erase_memory (sim_internal g) a 1 s)) \<Longrightarrow>
        \<not> ram_dead s \<and> fst (if_erase_memory (sim_internal g) a 1 s)
        \<and> ram_view g (snd (if_erase_memory (sim_internal g) a 1 s)) = erase_upd (ram_view g s) a n"
    "ram_ok g s \<Longrightarrow> ram_is_sector g a n \<Longrightarrow>
        ram_view g (snd (if_erase_memory (sim_internal g) a 1 s)) \<in> {ram_view g s, erase_upd (ram_view g s) a n}"
    "ram_ok g s \<Longrightarrow> ram_is_sector g a n \<Longrightarrow> ram_dead s \<Longrightarrow>
        ram_dead (snd (if_erase_memory (sim_internal g) a 1 s))
        \<and> ram_view g (snd (if_erase_memory (sim_internal g) a 1 s)) = ram_view g s"
    by (auto simp: er ram.erase_ok ram_dead_def ram_erase_view)
  assume *: "ram_ok g s" "ram_in_range g a (length ds)"
  show "ram_ok g (snd (prog_op (sim_internal g) a ds s))" by (simp add: op sim_prog_ok *)
  show "\<not> ram_dead (snd (prog_op (sim_internal g) a ds s)) \<Longrightarrow>
      \<not> ram_dead s \<and> fst (prog_op (sim_internal g) a ds s)
      \<and> ram_view g (snd (prog_op (sim_internal g) a ds s)) = and_upd (ram_view g s) a ds"
    "ram_view g (snd (prog_op (sim_internal g) a ds s)) \<in> {ram_view g s, and_upd (ram_view g s) a ds}"
    "ram_dead s \<Longrightarrow> ram_dead (snd (prog_op (sim_internal g) a ds s))
      \<and> ram_view g (snd (prog_op (sim_internal g) a ds s)) = ram_view g s"
    using sim_prog_view [OF *] by (auto simp: op sim_prog_def ram_dead_def)
qed (auto simp: ram.sector_in_range intro: ram.in_range_mono)

interpretation sim_serial: serial_chip "sim_serial g" "ram_view g" ram_dead "ram_ok g"
    "ram_in_range g" "ram_is_sector g" for g
proof unfold_locales
  fix s a n and ds :: "u8 list"
  have wr: "sf_write_buffer (sim_serial g) ds a s = snd (st_write (ram_store g) a ds s)"
    by (simp add: sim_serial_def ram_store_def)
  have er: "sf_erase_memory (sim_serial g) = sim_erase g" by (simp add: sim_serial_def)
  show "ram_ok g s \<Longrightarrow> ram_in_range g a n \<Longrightarrow> sf_read_buffer (sim_serial g) a n s = bytes_at (ram_view g s) a n"
    by (simp add: sim_serial_def ram_read_view)
  show "ram_ok g s \<Longrightarrow> ram_is_sector g a n \<Longrightarrow> ram_ok g (snd (sf_erase_memory (sim_serial g) a 16384 s))"
    "ram_ok g s \<Longrightarrow> ram_is_sector g a n \<Longrightarrow> \<not> ram_dead (snd (sf_erase_memory (sim_serial g) a 16384 s)) \<Longrightarrow>
        \<not> ram_dead s \<and> fst (sf_erase_memory (sim_serial g) a 16384 s)
        \<and> ram_view g (snd (sf_erase_memory (sim_serial g) a 16384 s)) = erase_upd (ram_view g s) a n"
    "ram_ok g s \<Longrightarrow> ram_is_sector g a n \<Longrightarrow>
        ram_view g (snd (sf_erase_memory (sim_serial g) a 16384 s)) \<in> {ram_view g s, erase_upd (ram_view g s) a n}"
    "ram_ok g s \<Longrightarrow> ram_is_sector g a n \<Longrightarrow> ram_dead s \<Longrightarrow>
        ram_dead (snd (sf_erase_memory (sim_serial g) a 16384 s))
        \<and> ram_view g (snd (sf_erase_memory (sim_serial g) a 16384 s)) = ram_view g s"
    by (auto simp: er ram.erase_ok ram_dead_def ram_erase_view)
  assume *: "ram_ok g s" "ram_in_range g a (length ds)"
  show "ram_ok g (sf_write_buffer (sim_serial g) ds a s)"
    "\<exists>k \<le> length ds. ram_view g (sf_write_buffer (sim_serial g) ds a s) = and_upd (ram_view g s) a (take k ds)"
    "\<not> ram_dead (sf_write_buffer (sim_serial g) ds a s) \<Longrightarrow>
      \<not> ram_dead s \<and> ram_view g (sf_write_buffer (sim_serial g) ds a s) = and_upd (ram_view g s) a ds"
    "ram_dead s \<Longrightarrow> ram_dead (sf_write_buffer (sim_serial g) ds a s)
      \<and> ram_view g (sf_write_buffer (sim_serial g) ds a s) = ram_view g s"
    using ram.write_ok [OF *] ram.write_torn [OF *] ram.write_live [OF *] ram.write_dead [OF *]
    by (auto simp: wr)
qed (auto simp: ram.sector_in_range intro: ram.in_range_mono)

end
