(* ===== verification/Eeprom_Service.thy ===== *)
theory Eeprom_Service
  imports Eeprom_Correct Flash_Chips
begin

text \<open>
  Starting up, formatting and the deferred erase of the EEPROM emulation, and runs of several
  \<open>put\<close>s.  \<open>ee_init\<close> finds the map that a flash content stands for, \<open>ee_clear\<close> gives the empty
  map from any content, \<open>perform_pending_erase\<close> keeps the map.
\<close>

context flash_store
begin

lemma init_recovers:
  assumes "ok (ee_store e)" "lay cfg" "recovers cfg (view (ee_store e)) m"
  shows "ee_inv False cfg (ee_init cfg ops e)" "ee_store (ee_init cfg ops e) = ee_store e"
proof -
  let ?p = "active_of (view (ee_store e)) cfg"
  have p: "?p \<noteq> NoPage" and small: "recs_small cfg (page_recs (view (ee_store e)) cfg ?p)"
    using assms(3) by (auto simp: recovers_def)
  have init: "ee_init cfg ops e = e\<lparr>ee_active := ?p, ee_alternate := other_page ?p\<rparr>"
    using p by (simp add: ee_init_def Let_def update_active [OF assms(1,2)])
  show "ee_inv False cfg (ee_init cfg ops e)" "ee_store (ee_init cfg ops e) = ee_store e"
    using p small assms(1) by (simp_all add: init ee_inv_def)
qed

lemma page_recs_blank:
  "slots v cfg p = replicate (nslots cfg p) blank_record \<Longrightarrow> page_recs v cfg p = [] \<and> page_holds v cfg p []"
  by (cases "nslots cfg p") (auto simp: page_recs_def page_holds_def)

lemma clear_empty:
  assumes "ok (ee_store e)" "lay cfg"
  defines "e' \<equiv> ee_clear cfg ops e"
  shows "ok (ee_store e')"
    and "\<not> dead (ee_store e') \<Longrightarrow> ee_inv True cfg e' \<and> ee_content (view (ee_store e')) cfg = (\<lambda>i. FLASH_ERASED)"
proof -
  let ?s1 = "erase_page cfg ops Page1 (ee_store e)" and ?s2 = "erase_page cfg ops Page2 (erase_page cfg ops Page1 (ee_store e))"
  obtain b s3 where w: "write_page_status cfg ops Page1 PAGE_ACTIVE ?s2 = (b, s3)" by fastforce
  note e1 = erase_page_facts [OF assms(1,2), of Page1, simplified]
  note e2 = erase_page_facts [OF e1(1) assms(2), of Page2, simplified]
  note st = write_status [OF e2(1) assms(2) _ w, simplified]
  have e': "e' = update_active_page cfg ops (e\<lparr>ee_store := s3\<rparr>)"
    by (simp add: e'_def ee_clear_def w)
  show "ok (ee_store e')" using st(1) by (simp add: e')
  assume "\<not> dead (ee_store e')"
  then have l3: "\<not> dead s3" by (simp add: e')
  then have l2: "\<not> dead ?s2" using st(3) by blast
  then have l1: "\<not> dead ?s1" using e2(2) by blast
  note blank1 = page_blank_slots [OF _ assms(2), of _ Page1, simplified]
  have p1: "slots (view ?s2) cfg Page1 = replicate (nslots cfg Page1) blank_record"
    "status_of (view ?s2) cfg Page1 = PAGE_ERASED"
    using e1(3) l1 blank1 [of ?s1] e2(5) [of Page1] by auto
  have st3: "status_of (view s3) cfg Page1 = PAGE_ACTIVE"
    using st(4) l3 p1(2) page_status_and(4) by auto
  have sl3: "slots (view s3) cfg Page1 = replicate (nslots cfg Page1) blank_record"
    using only_status_frame(1) [OF st(2) assms(2), of Page1] p1(1) by simp
  have act: "active_of (view s3) cfg = Page1" using st3 by (simp add: active_of_def)
  have upd: "e' = e\<lparr>ee_store := s3, ee_active := Page1, ee_alternate := Page2\<rparr>"
    using update_active [of "e\<lparr>ee_store := s3\<rparr>"] st(1) assms(2) act by (simp add: e' other_page_def)
  show "ee_inv True cfg e' \<and> ee_content (view (ee_store e')) cfg = (\<lambda>i. FLASH_ERASED)"
    using page_recs_blank [OF sl3] st(1) act
    by (auto simp: upd ee_inv_def ee_content_def other_page_def recs_small_def)
qed

lemma pending_page: "ee_inv clean cfg e \<Longrightarrow> pending_erase_page cfg ops e \<in> {NoPage, ee_alternate e}"
  by (simp add: pending_erase_page_def)

lemma pending_erase_keeps:
  assumes inv: "ee_inv clean cfg e" and lay: "lay cfg"
  defines "e' \<equiv> perform_pending_erase cfg ops e"
  shows "ee_inv clean cfg e'" "ee_content (view (ee_store e')) cfg = ee_content (view (ee_store e)) cfg"
    "\<not> dead (ee_store e') \<Longrightarrow> \<not> has_pending_erase cfg ops e'"
proof -
  let ?p = "ee_active e" and ?q = "ee_alternate e"
  have ok: "ok (ee_store e)" and act: "?p = active_of (view (ee_store e)) cfg" and p: "?p \<noteq> NoPage"
    and q: "?q = other_page ?p" and small: "recs_small cfg (page_recs (view (ee_store e)) cfg ?p)"
    and clean: "clean \<longrightarrow> page_holds (view (ee_store e)) cfg ?p (page_recs (view (ee_store e)) cfg ?p)"
    using inv unfolding ee_inv_def by blast+
  have q': "?q \<noteq> NoPage" "?p \<noteq> ?q" using p by (simp_all add: q)
  have st_act: "status_of (view (ee_store e)) cfg ?p = PAGE_ACTIVE" using act active_of_eq [OF p] by metis
  show "ee_inv clean cfg e'" "ee_content (view (ee_store e')) cfg = ee_content (view (ee_store e)) cfg"
    "\<not> dead (ee_store e') \<Longrightarrow> \<not> has_pending_erase cfg ops e'"
  proof (atomize (full), cases "read_page_status cfg ops ?q (ee_store e) = PAGE_ERASED")
    case True
    then have "e' = e" "\<not> has_pending_erase cfg ops e"
      by (simp_all add: e'_def perform_pending_erase_def has_pending_erase_def pending_erase_page_def)
    then show "ee_inv clean cfg e' \<and> ee_content (view (ee_store e')) cfg = ee_content (view (ee_store e)) cfg
      \<and> (\<not> dead (ee_store e') \<longrightarrow> \<not> has_pending_erase cfg ops e')"
      using inv by simp
  next
    case False
    let ?s = "erase_page cfg ops ?q (ee_store e)"
    have e': "e' = e\<lparr>ee_store := ?s\<rparr>"
      using False q' by (simp add: e'_def perform_pending_erase_def has_pending_erase_def pending_erase_page_def)
    note er = erase_page_facts [OF ok lay q'(1)]
    have same: "slots (view ?s) cfg ?p = slots (view (ee_store e)) cfg ?p"
      "status_of (view ?s) cfg ?p = PAGE_ACTIVE"
      using er(5) [OF p q'(2)] st_act by auto
    have "status_of (view ?s) cfg ?q = PAGE_ACTIVE \<longrightarrow> status_of (view (ee_store e)) cfg ?q = PAGE_ACTIVE"
      using er(4) page_blank_slots(2) [OF _ lay q'(1)] by auto
    then have act': "active_of (view ?s) cfg = ?p"
      using active_of_old [OF act [symmetric] p same(2)] by (simp add: q)
    have recs: "page_recs (view ?s) cfg ?p = page_recs (view (ee_store e)) cfg ?p"
      using same(1) by (simp add: page_recs_def)
    have "\<not> has_pending_erase cfg ops e'" if "\<not> dead ?s"
    proof -
      have "status_of (view ?s) cfg ?q = PAGE_ERASED"
        using er(3) that page_blank_slots(2) [OF _ lay q'(1)] by auto
      then show ?thesis
        using read_status [OF er(1) lay q'(1)] by (simp add: e' has_pending_erase_def pending_erase_page_def)
    qed
    moreover have "ee_inv clean cfg e'"
      using small clean er(1) p act' recs same(1) by (simp add: e' ee_inv_def page_holds_def q)
    moreover have "ee_content (view ?s) cfg = ee_content (view (ee_store e)) cfg"
      by (simp add: ee_content_def act' recs act [symmetric])
    ultimately show "ee_inv clean cfg e' \<and> ee_content (view (ee_store e')) cfg = ee_content (view (ee_store e)) cfg
      \<and> (\<not> dead (ee_store e') \<longrightarrow> \<not> has_pending_erase cfg ops e')"
      by (simp add: e')
  qed
qed

end

section \<open>Runs of puts\<close>

text \<open>A device that executes a list of \<open>put\<close>s until it is done or the power fails.\<close>

primrec ee_run ::
    "nat \<Rightarrow> eeprom_cfg \<Rightarrow> 's store_ops \<Rightarrow> ('s \<Rightarrow> bool) \<Rightarrow> (u16 \<times> u8 list) list \<Rightarrow> 's eeprom \<Rightarrow> 's eeprom option" where
  "ee_run fuel cfg ops dead [] e = Some e"
| "ee_run fuel cfg ops dead (w # ws) e =
     (case ee_put fuel True cfg ops (fst w) (snd w) e of
        None \<Rightarrow> None
      | Some e' \<Rightarrow> if dead (ee_store e') then Some e' else ee_run fuel cfg ops dead ws e')"

definition upd_all :: "(u16 \<Rightarrow> u8) \<Rightarrow> (u16 \<times> u8 list) list \<Rightarrow> u16 \<Rightarrow> u8" where
  "upd_all m ws = fold (\<lambda>w m. upd_range m (fst w) (snd w)) ws m"

definition writes_fit :: "eeprom_cfg \<Rightarrow> (u16 \<times> u8 list) list \<Rightarrow> bool" where
  "writes_fit cfg ws \<longleftrightarrow> (\<forall>w \<in> set ws. unat (fst w) + length (snd w) \<le> ee_capacity cfg)"

context word_store
begin

lemma run_atomic:
  assumes "lay cfg" "64 \<le> fuel"
  shows "ee_inv clean cfg e \<Longrightarrow> writes_fit cfg ws \<Longrightarrow>
    \<exists>e'. ee_run fuel cfg ops dead ws e = Some e' \<and> ok (ee_store e')
      \<and> (\<not> dead (ee_store e') \<longrightarrow> ee_inv clean cfg e'
           \<and> ee_content (view (ee_store e')) cfg = upd_all (ee_content (view (ee_store e)) cfg) ws)
      \<and> (\<exists>k \<le> length ws. recovers cfg (view (ee_store e')) (upd_all (ee_content (view (ee_store e)) cfg) (take k ws)))"
proof (induction ws arbitrary: e)
  case Nil
  then have "recovers cfg (view (ee_store e)) (ee_content (view (ee_store e)) cfg)"
    unfolding ee_inv_def recovers_def by metis
  moreover have "ok (ee_store e)" using Nil(1) unfolding ee_inv_def by blast
  ultimately show ?case using Nil(1) by (simp add: upd_all_def)
next
  case (Cons w ws)
  let ?m = "ee_content (view (ee_store e)) cfg"
  have fits: "unat (fst w) + length (snd w) \<le> ee_capacity cfg" "writes_fit cfg ws"
    using Cons.prems(2) by (simp_all add: writes_fit_def)
  obtain e1 where e1: "ee_put fuel True cfg ops (fst w) (snd w) e = Some e1" "ok (ee_store e1)"
    "\<not> dead (ee_store e1) \<longrightarrow> \<not> dead (ee_store e) \<and> ee_inv clean cfg e1
         \<and> ee_content (view (ee_store e1)) cfg = upd_range ?m (fst w) (snd w)"
    "recovers cfg (view (ee_store e1)) ?m
      \<or> recovers cfg (view (ee_store e1)) (upd_range ?m (fst w) (snd w))"
    by (rule put_updates [OF Cons.prems(1) assms(1) fits(1) assms(2)])
  have step: "upd_all ?m (w # vs) = upd_all (upd_range ?m (fst w) (snd w)) vs" for vs
    by (simp add: upd_all_def)
  show ?case
  proof (cases "dead (ee_store e1)")
    case True
    have "\<exists>k \<le> length (w # ws). recovers cfg (view (ee_store e1)) (upd_all ?m (take k (w # ws)))"
      using e1(4)
    proof
      assume "recovers cfg (view (ee_store e1)) ?m"
      then show ?thesis by (intro exI [of _ 0]) (simp add: upd_all_def)
    next
      assume "recovers cfg (view (ee_store e1)) (upd_range ?m (fst w) (snd w))"
      then show ?thesis by (intro exI [of _ 1]) (simp add: upd_all_def)
    qed
    with True e1(1,2) show ?thesis by simp
  next
    case False
    note live = e1(3) [rule_format, OF False]
    from Cons.IH [of e1] live fits(2) obtain e' k where e':
      "ee_run fuel cfg ops dead ws e1 = Some e'" "ok (ee_store e')"
      "\<not> dead (ee_store e') \<longrightarrow> ee_inv clean cfg e' \<and> ee_content (view (ee_store e')) cfg = upd_all ?m (w # ws)"
      "k \<le> length ws" "recovers cfg (view (ee_store e')) (upd_all ?m (w # take k ws))"
      unfolding step by metis
    then show ?thesis
      using False e1(1) by (intro exI [of _ e'] conjI exI [of _ "Suc k"]) auto
  qed
qed

end

end
