(* ===== verification/Eeprom_Properties.thy ===== *)
theory Eeprom_Properties
  imports Eeprom_Service "HOL-Library.Code_Target_Nat"
begin

text \<open>
  What the EEPROM emulation guarantees on the internal flash of the STM32
  (\<open>internal_store\<close>), for any chip driver that keeps the laws of \<open>internal_chip\<close>, and where it
  does not keep its promise: a range that wraps at \<open>2 ^ 16\<close>, and a record with one of the last
  128 indexes.
\<close>

section \<open>A record near the top of the index space\<close>

lemma batch_note_more:
  "snd (fold_addr (batch_note base lo hi) a rs acc) \<longleftrightarrow> snd acc \<or> (\<exists>r \<in> set rs. hi \<le> er_index r)"
  by (induction rs arbitrary: a acc) (auto simp: batch_note_def Let_def split: prod.splits)

lemma batch_note_wrapped:
  fixes lo hi :: u16
  assumes "\<not> lo \<le> hi"
  shows "fst (fold_addr (batch_note base lo hi) a rs acc) = fst acc"
proof (induction rs arbitrary: a acc)
  case (Cons r rs)
  have "\<not> (lo \<le> er_index r \<and> er_index r < hi)" using assms by auto
  then have "batch_note base lo hi a r acc = (fst acc, snd acc \<or> hi \<le> er_index r)"
    unfolding batch_note_def by (cases acc) (simp only: if_False Let_def prod.case fst_conv snd_conv)
  then show ?case by (simp add: Cons)
qed simp

lemma batch_limit:
  assumes "65408 \<le> unat (i :: u16)"
  shows "of_nat (128 * n) \<le> i"
proof -
  have "unat (of_nat (128 * n) :: u16) = 128 * n mod 65536" by (simp only: unat_of_nat) simp
  also have "\<dots> = 128 * (n mod 512)" using mult_mod_right [of 128 n 512] by simp
  also have "n mod 512 < 512" by simp
  then have "128 * (n mod 512) \<le> 65408" by linarith
  finally show ?thesis using assms by (simp only: word_le_nat_alt)
qed

context flash_store
begin

lemma unique_batches_diverge:
  assumes lay: "lay cfg" "p \<noteq> NoPage" and tr: "tracks P cfg p rs g"
    and top: "r \<in> set rs" "65408 \<le> unat (er_index r)"
  shows "P st \<Longrightarrow>
    unique_batches fuel cfg ops p (\<lambda>a. g) (of_nat (128 * n)) (of_nat (128 * (n + 1))) st = None"
proof (induction fuel arbitrary: n st)
  case (Suc fuel)
  let ?lo = "of_nat (128 * n) :: u16" and ?hi = "of_nat (128 * (n + 1)) :: u16"
  note st = tracksD(1,2) [OF tr Suc.prems]
  obtain ad more where scan: "batch_scan cfg ops (snd st) p ?lo ?hi = (ad, more)" by (metis surj_pair)
  have fold: "batch_scan cfg ops (snd st) p ?lo ?hi
      = fold_addr (batch_note (page_begin cfg p) ?lo ?hi) (slot_addr cfg p 0) rs ([], False)"
    by (simp only: batch_scan_def for_each_valid_slots [OF st(1) lay] st(2))
  have "snd (batch_scan cfg ops (snd st) p ?lo ?hi)"
    unfolding fold batch_note_more using top batch_limit [of "er_index r" "n + 1"] by blast
  then have more: more by (simp only: scan snd_conv)
  have "P (batch_yield ops (page_begin cfg p) (\<lambda>a. g) ad st)"
  proof (cases "?lo \<le> ?hi")
    case True
    have bo: "batch_ok 4 ?lo ?hi rs (ad, more)"
      using batch_scan_ok [OF st(1) lay st(2) True] by (simp only: scan)
    have "set (List.map_filter (rec_at 4 rs) ad) \<subseteq> set rs"
    proof
      fix q assume "q \<in> set (List.map_filter (rec_at 4 rs) ad)"
      then obtain off where off: "off \<in> set ad" "rec_at 4 rs off = Some q" by (auto simp: set_map_filter')
      then obtain k where "k < length rs" "off = 4 + 4 * k"
        using batch_offsets [OF bo, of off] by (auto simp: rec_at_def split: if_splits)
      then show "q \<in> set rs" using off(2) by (auto simp: rec_at_def)
    qed
    then show ?thesis
      using batch_yield_fold [OF lay tr _ Suc.prems, of ad] batch_offsets [OF bo] tracks_fold [OF tr Suc.prems]
      by simp
  next
    case False
    then have "ad = []" using batch_note_wrapped [OF False] fold scan by (metis fst_conv)
    then show ?thesis using Suc.prems by simp
  qed
  moreover have "?lo + BATCH_SIZE = of_nat (128 * (n + 1))" "?hi + BATCH_SIZE = of_nat (128 * (n + 1 + 1))"
    by (simp_all add: BATCH_SIZE_def)
  ultimately show ?case
    using Suc.IH more by (simp only: unique_batches.simps scan Let_def prod.case if_True)
qed simp

lemma copy_diverges:
  assumes "ok s" "lay cfg" "p \<noteq> NoPage" "q \<noteq> NoPage" "p \<noteq> q"
    and "r \<in> set (page_recs (view s) cfg p)" "65408 \<le> unat (er_index r)"
  shows "copy_all_records_to_page_except fuel cfg ops p q (slot_addr cfg q 0) lo hi s = None"
proof -
  have g: "copy_record ops e lo hi = (\<lambda>a. copy_record ops e lo hi 0)" for e
    by (intro ext) (simp add: copy_record_def)
  have P: "(\<lambda>((b, a), t). ok t \<and> (\<exists>k. a = slot_addr cfg q k) \<and> slots (view t) cfg p = slots (view s) cfg p)
      ((True, slot_addr cfg q 0), s)" using assms(1) by auto
  have "unique_batches fuel cfg ops p (\<lambda>a. copy_record ops (page_end cfg q) lo hi 0)
      (of_nat (128 * 0)) (of_nat (128 * (0 + 1))) ((True, slot_addr cfg q 0), s) = None"
    using assms(6,7) unique_batches_diverge [OF assms(2,3) copy_tracks [OF assms(2-5)] _ _ P]
    by (simp only: page_recs_def)
  then show ?thesis
    unfolding copy_all_records_to_page_except_def for_each_unique_valid_record_def
    by (subst g) (simp add: BATCH_SIZE_def)
qed

end

section \<open>A concrete device\<close>

definition demo_geometry :: flash_geometry where
  "demo_geometry = \<lparr>fl_base = 0, fl_sectors = 2, fl_sector_size = 16\<rparr>"

definition demo_cfg :: eeprom_cfg where
  "demo_cfg = \<lparr>ec_base1 = 0, ec_size1 = 16, ec_base2 = 16, ec_size2 = 16\<rparr>"

definition demo_flash :: "int \<Rightarrow> ram_flash" where
  "demo_flash n = \<lparr>rf_memory = replicate 32 0, rf_write_count = n, rf_erase_count = 0\<rparr>"

definition demo_ops :: "ram_flash store_ops" where
  "demo_ops = internal_store (sim_internal demo_geometry)"

definition demo_boot :: "ram_flash \<Rightarrow> ram_flash eeprom" where
  "demo_boot s = \<lparr>ee_store = s, ee_active = NoPage, ee_alternate = NoPage\<rparr>"

definition demo_ee :: "ram_flash eeprom" where
  "demo_ee = ee_clear demo_cfg demo_ops (demo_boot (demo_flash 100))"

lemma demo_layout: "ee_layout (ram_is_sector demo_geometry) demo_cfg"
  by (simp add: ee_layout_def ram_is_sector_def ram_in_range_def demo_geometry_def demo_cfg_def flash_bytes_def)

lemma demo_flash_ok: "0 \<le> n \<Longrightarrow> ram_ok demo_geometry (demo_flash n)"
  by (simp add: ram_ok_def demo_flash_def demo_geometry_def flash_bytes_def)

lemma demo_live: "\<not> ram_dead (ee_store demo_ee)"
  by code_simp

lemma demo_ee_ok: "ee_ok (ram_view demo_geometry) (ram_ok demo_geometry) True demo_cfg demo_ee"
  using sim_internal.clear_empty(2) [of demo_geometry "demo_boot (demo_flash 100)" demo_cfg]
    demo_layout demo_flash_ok [of 100] demo_live
  by (simp add: demo_ee_def demo_ops_def demo_boot_def)

lemmas demo_chip = sim_internal.internal_chip_axioms [of demo_geometry]

lemma demo_ee_value:
  "demo_ee = \<lparr>ee_store = \<lparr>rf_memory = [0, 0] @ replicate 30 255, rf_write_count = 97, rf_erase_count = 2\<rparr>,
     ee_active = Page1, ee_alternate = Page2\<rparr>"
  by code_simp

lemma demo_content: "ee_content (ram_view demo_geometry (ee_store demo_ee)) demo_cfg = (\<lambda>i. FLASH_ERASED)"
  using sim_internal.clear_empty(2) [of demo_geometry "demo_boot (demo_flash 100)" demo_cfg]
    demo_layout demo_flash_ok [of 100] demo_live
  by (simp add: demo_ee_def demo_ops_def demo_boot_def)

section \<open>The map\<close>



text \<open>
  C2: While the power stays, a sequence of \<open>put\<close>s gives the map with all of them applied, in
  order, whether its records are appended to the active page or force swaps of the pages, and
  the next \<open>put\<close> finds the invariant it needs.
\<close>

theorem eeprom_puts_update:
  assumes chip: "internal_chip c view dead ok in_range is_sector" and lay: "ee_layout is_sector cfg"
    and inv: "ee_ok view ok clean cfg e" and fits: "writes_fit cfg ws" and fuel: "64 \<le> fuel"
  shows "\<exists>e'. ee_run fuel cfg (internal_store c) dead ws e = Some e'
      \<and> (\<not> dead (ee_store e') \<longrightarrow> ee_ok view ok clean cfg e'
          \<and> ee_content (view (ee_store e')) cfg = upd_all (ee_content (view (ee_store e)) cfg) ws)"
  using word_store.run_atomic [OF internal_chip.is_word_store [OF chip] lay fuel inv fits] by blast

theorem eeprom_puts_update_witness:
  "\<exists>e'. ee_run 64 demo_cfg demo_ops ram_dead [(0, [7, 8]), (1, [9])] demo_ee = Some e'
     \<and> (\<not> ram_dead (ee_store e') \<longrightarrow>
          ee_content (ram_view demo_geometry (ee_store e')) demo_cfg
            = upd_range (upd_range (\<lambda>i. FLASH_ERASED) 0 [7, 8]) 1 [9])"
  using eeprom_puts_update [OF demo_chip demo_layout demo_ee_ok, of "[(0, [7, 8]), (1, [9])]" 64]
  by (auto simp: writes_fit_def ee_capacity_def smallest_page_size_def demo_cfg_def demo_ops_def
      demo_content [unfolded demo_cfg_def] upd_all_def)

text \<open>
  C3: \<open>get\<close> of any range that does not wrap returns the map's values, 0xFF for a cell that was
  never written, including cells beyond the capacity.
\<close>

theorem eeprom_get_reads:
  assumes chip: "internal_chip c view dead ok in_range is_sector" and lay: "ee_layout is_sector cfg"
    and inv: "ee_ok view ok clean cfg e" and nowrap: "unat i + unat n < 65536"
  shows "ee_get cfg (internal_store c) e i n
    = map (\<lambda>k. ee_content (view (ee_store e)) cfg (i + of_nat k)) [0..<unat n]"
  by (rule flash_store.get_content [OF internal_chip.is_flash_store [OF chip] inv lay nowrap])

theorem eeprom_get_reads_witness: "ee_get demo_cfg demo_ops demo_ee 0 3 = [FLASH_ERASED, FLASH_ERASED, FLASH_ERASED]"
  using eeprom_get_reads [OF demo_chip demo_layout demo_ee_ok, of 0 3]
  by (simp add: demo_ops_def demo_content upt_conv_Cons)

text \<open>
  \<open>clear\<close> formats whatever the flash held: page 1 becomes the active page and every cell
  reads 0xFF.
\<close>

theorem eeprom_clear_formats:
  assumes chip: "internal_chip c view dead ok in_range is_sector" and lay: "ee_layout is_sector cfg"
    and "ok (ee_store e)" and live: "\<not> dead (ee_store (ee_clear cfg (internal_store c) e))"
  shows "ee_ok view ok True cfg (ee_clear cfg (internal_store c) e)
    \<and> ee_content (view (ee_store (ee_clear cfg (internal_store c) e))) cfg = (\<lambda>i. FLASH_ERASED)"
  by (rule flash_store.clear_empty(2) [OF internal_chip.is_flash_store [OF chip] assms(3) lay live])

theorem eeprom_clear_formats_witness:
  "ee_content (ram_view demo_geometry (ee_store demo_ee)) demo_cfg 1 = FLASH_ERASED"
  using eeprom_clear_formats [OF demo_chip demo_layout, of "demo_boot (demo_flash 100)"]
    demo_flash_ok [of 100] demo_live
  by (simp add: demo_ee_def demo_ops_def demo_boot_def)

text \<open>
  The deferred erase of the old page changes no cell, at whatever moment the power fails, and
  when it completes nothing is pending any more.
\<close>

theorem eeprom_pending_erase:
  assumes chip: "internal_chip c view dead ok in_range is_sector" and lay: "ee_layout is_sector cfg"
    and inv: "ee_ok view ok clean cfg e"
  shows "ee_ok view ok clean cfg (perform_pending_erase cfg (internal_store c) e)
    \<and> ee_content (view (ee_store (perform_pending_erase cfg (internal_store c) e))) cfg
        = ee_content (view (ee_store e)) cfg
    \<and> (dead (ee_store (perform_pending_erase cfg (internal_store c) e))
        \<or> \<not> has_pending_erase cfg (internal_store c) (perform_pending_erase cfg (internal_store c) e))"
  using flash_store.pending_erase_keeps [OF internal_chip.is_flash_store [OF chip] inv lay] by blast

theorem eeprom_pending_erase_witness:
  "ee_content (ram_view demo_geometry (ee_store (perform_pending_erase demo_cfg demo_ops demo_ee))) demo_cfg
     = (\<lambda>i. FLASH_ERASED)"
  using eeprom_pending_erase [OF demo_chip demo_layout demo_ee_ok]
  by (simp add: demo_ops_def demo_content)

text \<open>
  C4: The batched copy of \<open>swapPagesAndWrite\<close> is one pass over the last record of each index, in
  increasing index order, of the records outside the range and not 0xFF, and 64 batches are
  enough for every configuration.
\<close>

theorem eeprom_copy_reference:
  assumes chip: "internal_chip c view dead ok in_range is_sector" and lay: "ee_layout is_sector cfg"
    and "ok s" "p \<noteq> NoPage" "q \<noteq> NoPage" "p \<noteq> q"
    and small: "recs_small cfg (page_recs (view s) cfg p)" and fuel: "64 \<le> fuel"
  shows "copy_all_records_to_page_except fuel cfg (internal_store c) p q (slot_addr cfg q 0) lo hi s
    = Some (fold (write_up (internal_store c) (page_end cfg q))
        (copied lo hi (unique_recs (page_recs (view s) cfg p) 0 8192)) ((True, slot_addr cfg q 0), s))"
  by (rule flash_store.copy_reference [OF internal_chip.is_flash_store [OF chip] assms(3) lay assms(4-8)])

theorem eeprom_copy_reference_witness:
  "copy_all_records_to_page_except 64 demo_cfg demo_ops Page1 Page2 (slot_addr demo_cfg Page2 0) 0 1 (ee_store demo_ee)
    \<noteq> None"
proof -
  have "ram_ok demo_geometry (ee_store demo_ee)"
    "recs_small demo_cfg (page_recs (ram_view demo_geometry (ee_store demo_ee)) demo_cfg (ee_active demo_ee))"
    using demo_ee_ok unfolding ee_ok_def by blast+
  moreover have "ee_active demo_ee = Page1" by (simp add: demo_ee_value)
  ultimately show ?thesis
    using eeprom_copy_reference [OF demo_chip demo_layout, of "ee_store demo_ee" Page1 Page2 64 0 1]
    by (simp add: demo_ops_def)
qed

text \<open>
  \<open>put\<close> ignores a range that ends beyond the capacity, as long as \<open>index + length\<close> does not
  wrap at 16 bits.
\<close>

theorem eeprom_put_out_of_range:
  assumes "ee_capacity cfg < unat i + length ds" "unat i + length ds < 65536"
  shows "ee_put fuel heap cfg ops i ds e = Some e"
proof -
  have "unat (i + of_nat (length ds)) = unat i + length ds"
    using assms(2) by (rule unat_add_of_nat_u16)
  with assms(1) show ?thesis by (simp add: ee_put_def write_range_def Let_def)
qed

theorem eeprom_put_out_of_range_witness: "ee_put 0 True demo_cfg demo_ops 1 [5, 6] demo_ee = Some demo_ee"
  by (rule eeprom_put_out_of_range)
    (simp_all add: ee_capacity_def smallest_page_size_def demo_cfg_def)

text \<open>
  The range check of \<open>writeRange\<close> is defeated by the 16-bit sum: writing two bytes at index
  0xFFFF, far beyond the capacity of two, changes cell 0.
\<close>

theorem eeprom_put_wraps:
  "map_option (\<lambda>e. ee_get demo_cfg demo_ops e 0 2) (ee_put 64 True demo_cfg demo_ops 0xFFFF [1, 2] demo_ee)
     = Some [2, FLASH_ERASED]
   \<and> ee_get demo_cfg demo_ops demo_ee 0 2 = [FLASH_ERASED, FLASH_ERASED]
   \<and> ee_capacity demo_cfg = 2"
  unfolding demo_ee_value by code_simp

text \<open>
  When the source page holds a record with one of the indexes 0xFF80 to 0xFFFE, the batched
  copy never ends: the batch limit wraps at 16 bits before it passes the index.
\<close>

theorem eeprom_copy_diverges:
  assumes chip: "internal_chip c view dead ok in_range is_sector" and lay: "ee_layout is_sector cfg"
    and "ok s" "p \<noteq> NoPage" "q \<noteq> NoPage" "p \<noteq> q"
    and "r \<in> set (page_recs (view s) cfg p)" "65408 \<le> unat (er_index r)"
  shows "copy_all_records_to_page_except fuel cfg (internal_store c) p q (slot_addr cfg q 0) lo hi s = None"
  by (rule flash_store.copy_diverges [OF internal_chip.is_flash_store [OF chip] assms(3) lay assms(4-8)])

text \<open>The state of the demo device after \<open>put(0xFFFE, [1, 0xFF])\<close>, which the range check lets pass.\<close>

definition demo_bricked :: ram_flash where
  "demo_bricked = \<lparr>rf_memory = [0, 0, 255, 255, 1, 0, 254, 255] @ replicate 24 255,
     rf_write_count = 96, rf_erase_count = 2\<rparr>"

lemma demo_bricked_put:
  "map_option ee_store (ee_put 64 True demo_cfg demo_ops 0xFFFE [1, 255] demo_ee) = Some demo_bricked"
  unfolding demo_ee_value by code_simp

lemma demo_bricked_recs:
  "page_recs (ram_view demo_geometry demo_bricked) demo_cfg Page1 = [mk_record 0xFFFE 1]"
  by code_simp

theorem eeprom_copy_diverges_witness:
  "\<forall>fuel. copy_all_records_to_page_except fuel demo_cfg demo_ops Page1 Page2 (slot_addr demo_cfg Page2 0) 0 1 demo_bricked = None"
proof -
  have "ram_ok demo_geometry demo_bricked"
    by (simp add: ram_ok_def demo_bricked_def demo_geometry_def flash_bytes_def)
  then show ?thesis
    using eeprom_copy_diverges [OF demo_chip demo_layout, of demo_bricked Page1 Page2 "mk_record 0xFFFE 1" _ 0 1]
    by (simp add: demo_ops_def demo_bricked_recs)
qed

text \<open>
  On a store that writes byte by byte (\<open>RAMFlashStorage\<close>) a power failure inside the first
  index of a record (its low byte written, its high byte still 0xFF) leaves a record that counts as
  valid, and a two-byte \<open>put\<close> is seen with its first byte and without its second.
\<close>

theorem eeprom_torn_byte:
  "map_option (\<lambda>e. ee_get demo_cfg (ram_store demo_geometry) e 0 2)
     (ee_put 64 True demo_cfg (ram_store demo_geometry) 0 [7, 8]
        (demo_ee\<lparr>ee_store := ram_set_write_count 7 (ee_store demo_ee)\<rparr>))
     = Some [7, FLASH_ERASED]"
  unfolding demo_ee_value by code_simp

end
