(* ===== verification/Dcd.thy ===== *)
theory Dcd
  imports Flash_Storage
begin

text \<open>
  The device configuration data store of \<open>services/inc/dcd.h\<close>: rewritable storage over two
  flash sectors, one definition per member function of \<open>DCD\<close>, over any store.  A pointer into
  the memory-mapped flash is an address, read when the code dereferences it.  The CRC function
  and the indeterminate value of an uninitialised local \<open>Footer\<close> belong to the configuration.
\<close>

section \<open>Headers and footers\<close>

record dcd_header =
  dh_watermark :: u32
  dh_seal :: u32

definition WATERMARK :: u32 where "WATERMARK = 0x1E1C279A"
definition SEAL_INIT :: u32 where "SEAL_INIT = 0xFFFFFFFF"
definition SEAL_CLEARED :: u32 where "SEAL_CLEARED = 0"
definition SEAL_VALID :: u32 where "SEAL_VALID = 0xEDA15E00"
definition SEAL_INVALID_V2 :: u32 where "SEAL_INVALID_V2 = 0x69A00C00"

definition header_bytes :: "dcd_header \<Rightarrow> u8 list" where
  "header_bytes h = le32 (dh_watermark h) @ le32 (dh_seal h)"

definition bytes_header :: "u8 list \<Rightarrow> dcd_header" where
  "bytes_header bs = \<lparr>dh_watermark = of_le32 (take 4 bs), dh_seal = of_le32 (drop 4 bs)\<rparr>"

definition is_header :: "dcd_header \<Rightarrow> bool" where
  "is_header h \<longleftrightarrow> dh_watermark h = WATERMARK"

definition header_valid :: "dcd_header \<Rightarrow> bool" where
  "header_valid h \<longleftrightarrow> is_header h \<and> (dh_seal h = SEAL_VALID \<or> dh_seal h = SEAL_INVALID_V2)"

definition header_initialize :: dcd_header where
  "header_initialize = \<lparr>dh_watermark = WATERMARK, dh_seal = SEAL_INIT\<rparr>"

definition header_make_valid :: dcd_header where
  "header_make_valid = \<lparr>dh_watermark = WATERMARK, dh_seal = SEAL_VALID\<rparr>"

definition header_make_invalid :: dcd_header where
  "header_make_invalid = \<lparr>dh_watermark = WATERMARK, dh_seal = SEAL_INVALID_V2\<rparr>"

text \<open>
  The packed footer: 16 reserved bytes, the flags (a byte whose low two bits are the counter and
  three more), a pad byte, the version flags, the size, the watermark and the CRC.
\<close>

record dcd_footer =
  df_reserved :: "u8 list"
  df_flags :: u8
  df_reserved2 :: "u8 list"
  df_pad :: u8
  df_version :: u8
  df_mysize :: u16
  df_watermark :: u32
  df_crc :: u32

definition footer_bytes :: "dcd_footer \<Rightarrow> u8 list" where
  "footer_bytes f = df_reserved f @ [df_flags f] @ df_reserved2 f @ [df_pad f, df_version f]
     @ le16 (df_mysize f) @ le32 (df_watermark f) @ le32 (df_crc f)"

definition bytes_footer :: "u8 list \<Rightarrow> dcd_footer" where
  "bytes_footer bs =
     \<lparr>df_reserved = take 16 bs, df_flags = bs ! 16, df_reserved2 = take 3 (drop 17 bs),
      df_pad = bs ! 20, df_version = bs ! 21, df_mysize = of_le16 (drop 22 bs),
      df_watermark = of_le32 (drop 24 bs), df_crc = of_le32 (drop 28 bs)\<rparr>"

definition footer_valid :: "dcd_footer \<Rightarrow> bool" where
  "footer_valid f \<longleftrightarrow> df_watermark f = WATERMARK"

definition footer_counter :: "dcd_footer \<Rightarrow> u8" where
  "footer_counter f = df_flags f AND 3"

definition footer_set_counter :: "u8 \<Rightarrow> dcd_footer \<Rightarrow> dcd_footer" where
  "footer_set_counter c f = f\<lparr>df_flags := (df_flags f AND 0xFC) OR (c AND 3)\<rparr>"

text \<open>\<open>sizeof(this)\<close> is the size of a pointer.\<close>

definition footer_initialize :: "dcd_footer \<Rightarrow> dcd_footer" where
  "footer_initialize f = f\<lparr>df_watermark := WATERMARK, df_mysize := 4\<rparr>"

definition footer_make_valid_v2 :: "u32 \<Rightarrow> u8 \<Rightarrow> dcd_footer" where
  "footer_make_valid_v2 crc c =
     \<lparr>df_reserved = replicate 16 0, df_flags = c AND 3, df_reserved2 = replicate 3 0, df_pad = 0,
      df_version = 0, df_mysize = 32, df_watermark = WATERMARK, df_crc = crc\<rparr>"

section \<open>Sectors\<close>

record dcd_cfg =
  dc_size :: nat
  dc_addr1 :: nat
  dc_addr2 :: nat
  dc_crc :: "u8 list \<Rightarrow> u32"
  dc_uninit :: dcd_footer

datatype dcd_sector = Sector_0 | Sector_1 | Sector_Unknown

definition DCD_SUCCESS :: int where "DCD_SUCCESS = 0"
definition DCD_INVALID_OFFSET :: int where "DCD_INVALID_OFFSET = 1"
definition DCD_INVALID_LENGTH :: int where "DCD_INVALID_LENGTH = 2"

definition footer_offset :: "dcd_cfg \<Rightarrow> nat" where
  "footer_offset cfg = dc_size cfg - 32"

definition dcd_length :: "dcd_cfg \<Rightarrow> nat" where
  "dcd_length cfg = dc_size cfg - 8 - 32"

definition address_of :: "dcd_cfg \<Rightarrow> dcd_sector \<Rightarrow> nat" where
  "address_of cfg sec = (if sec \<noteq> Sector_1 then dc_addr1 cfg else dc_addr2 cfg)"

definition alternate_sector :: "dcd_sector \<Rightarrow> dcd_sector" where
  "alternate_sector sec = (if sec = Sector_0 then Sector_1 else Sector_0)"

definition requires_erase :: "dcd_cfg \<Rightarrow> 's store_ops \<Rightarrow> nat \<Rightarrow> 's \<Rightarrow> bool" where
  "requires_erase cfg ops offset s = list_ex (\<lambda>b. b \<noteq> 0xFF) (st_read ops offset (dc_size cfg) s)"

definition dcd_erase_sector :: "dcd_cfg \<Rightarrow> 's store_ops \<Rightarrow> dcd_sector \<Rightarrow> 's \<Rightarrow> int \<times> 's" where
  "dcd_erase_sector cfg ops sec s =
     (let offset = address_of cfg sec
      in if requires_erase cfg ops offset s then st_erase_sector ops offset s else (0, s))"

definition sector_header :: "dcd_cfg \<Rightarrow> 's store_ops \<Rightarrow> dcd_sector \<Rightarrow> 's \<Rightarrow> dcd_header" where
  "sector_header cfg ops sec s = bytes_header (st_read ops (address_of cfg sec) 8 s)"

definition sector_footer :: "dcd_cfg \<Rightarrow> 's store_ops \<Rightarrow> dcd_sector \<Rightarrow> 's \<Rightarrow> dcd_footer" where
  "sector_footer cfg ops sec s = bytes_footer (st_read ops (address_of cfg sec + footer_offset cfg) 32 s)"

definition write_header :: "dcd_cfg \<Rightarrow> 's store_ops \<Rightarrow> dcd_sector \<Rightarrow> dcd_header \<Rightarrow> 's \<Rightarrow> int \<times> 's" where
  "write_header cfg ops sec h s = st_write ops (address_of cfg sec) (header_bytes h) s"

definition write_footer :: "dcd_cfg \<Rightarrow> 's store_ops \<Rightarrow> dcd_sector \<Rightarrow> dcd_footer \<Rightarrow> 's \<Rightarrow> int \<times> 's" where
  "write_footer cfg ops sec f s = st_write ops (address_of cfg sec + footer_offset cfg) (footer_bytes f) s"

definition compute_sector_crc :: "dcd_cfg \<Rightarrow> 's store_ops \<Rightarrow> dcd_sector \<Rightarrow> 's \<Rightarrow> u32" where
  "compute_sector_crc cfg ops sec s =
     dc_crc cfg (st_read ops (address_of cfg sec + 8) (dc_size cfg - 8 - 4) s)"

definition crc_valid_against :: "dcd_cfg \<Rightarrow> 's store_ops \<Rightarrow> dcd_sector \<Rightarrow> u32 \<Rightarrow> 's \<Rightarrow> bool" where
  "crc_valid_against cfg ops sec expected s =
     (if footer_valid (sector_footer cfg ops sec s)
      then compute_sector_crc cfg ops sec s = expected else False)"

definition crc_valid :: "dcd_cfg \<Rightarrow> 's store_ops \<Rightarrow> dcd_sector \<Rightarrow> 's \<Rightarrow> bool" where
  "crc_valid cfg ops sec s = crc_valid_against cfg ops sec (df_crc (sector_footer cfg ops sec s)) s"

definition sector_valid :: "dcd_cfg \<Rightarrow> 's store_ops \<Rightarrow> dcd_sector \<Rightarrow> bool \<Rightarrow> 's \<Rightarrow> bool" where
  "sector_valid cfg ops sec check_crc s =
     (let valid = header_valid (sector_header cfg ops sec s)
      in if valid \<and> check_crc then crc_valid cfg ops sec s else valid)"

section \<open>Choosing the current sector\<close>

definition find_valid_sector :: "dcd_cfg \<Rightarrow> 's store_ops \<Rightarrow> 's \<Rightarrow> dcd_sector" where
  "find_valid_sector cfg ops s =
     (if header_valid (sector_header cfg ops Sector_0 s) then Sector_0
      else if header_valid (sector_header cfg ops Sector_1 s) then Sector_1
      else Sector_Unknown)"

definition sector_by_count :: "u8 \<Rightarrow> u8 \<Rightarrow> dcd_sector \<Rightarrow> dcd_sector \<Rightarrow> dcd_sector" where
  "sector_by_count count0 count1 sector0 sector1 =
     (if (count0 + 1) AND 3 = count1 then sector1
      else if (count1 + 1) AND 3 = count0 then sector0
      else sector0)"

definition evaluate_sectors ::
    "dcd_cfg \<Rightarrow> 's store_ops \<Rightarrow> dcd_sector \<Rightarrow> dcd_sector \<Rightarrow> u32 \<Rightarrow> u8 \<Rightarrow> u8 \<Rightarrow> 's \<Rightarrow> dcd_sector" where
  "evaluate_sectors cfg ops primary secondary secondary_seal primary_counter secondary_counter s =
     (if secondary_seal = SEAL_VALID then
        let crc_primary = crc_valid cfg ops primary s;
            crc_secondary = crc_valid cfg ops secondary s
        in if crc_primary \<noteq> crc_secondary then if crc_primary then primary else secondary
           else if crc_primary
           then sector_by_count primary_counter secondary_counter primary secondary
           else Sector_1
      else if secondary_seal = SEAL_INVALID_V2 then
        if crc_valid cfg ops primary s then primary else secondary
      else primary)"

definition current_sector :: "dcd_cfg \<Rightarrow> 's store_ops \<Rightarrow> 's \<Rightarrow> dcd_sector" where
  "current_sector cfg ops s =
     (let primary = find_valid_sector cfg ops s
      in if primary = Sector_Unknown then Sector_Unknown
         else let secondary = alternate_sector primary
              in evaluate_sectors cfg ops primary secondary
                   (dh_seal (sector_header cfg ops secondary s))
                   (footer_counter (sector_footer cfg ops primary s))
                   (footer_counter (sector_footer cfg ops secondary s)) s)"

definition is_initialized :: "dcd_cfg \<Rightarrow> 's store_ops \<Rightarrow> 's \<Rightarrow> bool" where
  "is_initialized cfg ops s \<longleftrightarrow>
     sector_valid cfg ops Sector_1 False s \<or> sector_valid cfg ops Sector_0 False s"

section \<open>Writing\<close>

text \<open>\<open>if (error) return error;\<close>\<close>

definition then_ok :: "int \<times> 's \<Rightarrow> ('s \<Rightarrow> int \<times> 's) \<Rightarrow> int \<times> 's" where
  "then_ok r f = (if fst r \<noteq> 0 then r else f (snd r))"

definition dcd_erase :: "dcd_cfg \<Rightarrow> 's store_ops \<Rightarrow> 's \<Rightarrow> int \<times> 's" where
  "dcd_erase cfg ops s =
     then_ok (dcd_erase_sector cfg ops Sector_0 s) (dcd_erase_sector cfg ops Sector_1)"

text \<open>The footer is written without its CRC.\<close>

definition write_v2_footer ::
    "dcd_cfg \<Rightarrow> 's store_ops \<Rightarrow> dcd_sector \<Rightarrow> dcd_footer option \<Rightarrow> u8 \<Rightarrow> 's \<Rightarrow> int \<times> 's" where
  "write_v2_footer cfg ops sec existing_footer counter s =
     (let footer = (case existing_footer of Some f \<Rightarrow> f | None \<Rightarrow> footer_initialize (dc_uninit cfg))
      in st_write ops (address_of cfg sec + footer_offset cfg)
           (take 28 (footer_bytes (footer_set_counter counter footer))) s)"

definition next_counter :: "dcd_footer option \<Rightarrow> u8" where
  "next_counter existing =
     (case existing of
        Some f \<Rightarrow> if footer_valid f then (footer_counter f + 1) AND 3 else 0
      | None \<Rightarrow> 0)"

text \<open>\<open>existing\<close> is the address of the sector to copy from, \<open>None\<close> for \<open>nullptr\<close>.\<close>

definition write_sector ::
    "dcd_cfg \<Rightarrow> 's store_ops \<Rightarrow> nat \<Rightarrow> u8 list \<Rightarrow> nat option \<Rightarrow> dcd_sector \<Rightarrow> 's \<Rightarrow> int \<times> 's" where
  "write_sector cfg ops offset data existing new_sector s0 =
     then_ok (dcd_erase_sector cfg ops new_sector s0) (\<lambda>s1.
       let destination = address_of cfg new_sector;
           w1 = (if existing \<noteq> None then 8 + offset else 8);
           w2 = w1 + length data
       in then_ok (case existing of
                     Some a \<Rightarrow> st_write ops (destination + 8) (st_read ops (a + 8) offset s1) s1
                   | None \<Rightarrow> (0, s1)) (\<lambda>s2.
          then_ok (if data \<noteq> [] then st_write ops (destination + w1) data s2 else (0, s2)) (\<lambda>s3.
          then_ok (case existing of
                     Some a \<Rightarrow> st_write ops (destination + w2)
                                (st_read ops (a + w2) (dc_size cfg - w2 - 32) s3) s3
                   | None \<Rightarrow> (0, s3)) (\<lambda>s4.
          let footer = map_option (\<lambda>a. bytes_footer (st_read ops (a + footer_offset cfg) 32 s4)) existing;
              counter = next_counter footer
          in then_ok (write_v2_footer cfg ops new_sector
                        (case footer of Some f \<Rightarrow> if footer_valid f then Some f else None | None \<Rightarrow> None)
                        counter s4) (\<lambda>s5.
             then_ok (st_write ops (destination + (dc_size cfg - 4))
                        (le32 (compute_sector_crc cfg ops new_sector s5)) s5)
               (write_header cfg ops new_sector header_make_valid))))))"

definition dcd_initialize :: "dcd_cfg \<Rightarrow> 's store_ops \<Rightarrow> dcd_sector \<Rightarrow> 's \<Rightarrow> int \<times> 's" where
  "dcd_initialize cfg ops sec s = write_sector cfg ops 0 [] None sec s"

definition current_valid_sector :: "dcd_cfg \<Rightarrow> 's store_ops \<Rightarrow> 's \<Rightarrow> dcd_sector \<times> 's" where
  "current_valid_sector cfg ops s =
     (let current = current_sector cfg ops s
      in if current = Sector_Unknown then (Sector_1, snd (dcd_initialize cfg ops Sector_1 s))
         else (current, s))"

text \<open>The result of \<open>read\<close> is a pointer: here the address, with the state it points into.\<close>

definition dcd_read :: "dcd_cfg \<Rightarrow> 's store_ops \<Rightarrow> nat \<Rightarrow> 's \<Rightarrow> nat \<times> 's" where
  "dcd_read cfg ops offset s =
     (let (current, s') = current_valid_sector cfg ops s
      in (address_of cfg current + 8 + offset, s'))"

text \<open>\<open>offset + length\<close> is a 32-bit sum.\<close>

definition dcd_write :: "dcd_cfg \<Rightarrow> 's store_ops \<Rightarrow> nat \<Rightarrow> u8 list \<Rightarrow> 's \<Rightarrow> int \<times> 's" where
  "dcd_write cfg ops offset data s =
     (if dcd_length cfg \<le> offset then (DCD_INVALID_OFFSET, s)
      else if dcd_length cfg < (offset + length data) mod 2 ^ 32 then (DCD_INVALID_LENGTH, s)
      else if data = [] then (DCD_SUCCESS, s)
      else
        let (current, s1) = current_valid_sector cfg ops s;
            new_sector = alternate_sector current
        in then_ok (write_sector cfg ops offset data (Some (address_of cfg current)) new_sector s1)
             (write_header cfg ops current header_make_invalid))"

section \<open>Migration of the old format\<close>

definition OLD_FORMAT_OFFSET :: nat where "OLD_FORMAT_OFFSET = 7548"

definition is_current_old :: "'s store_ops \<Rightarrow> nat \<Rightarrow> 's \<Rightarrow> bool" where
  "is_current_old ops sector s \<longleftrightarrow> st_read ops (sector + 8) 1 s = [0] \<and> st_read ops (sector + 9) 1 s = [1]"

definition initialize_from_sector :: "dcd_cfg \<Rightarrow> 's store_ops \<Rightarrow> nat \<Rightarrow> dcd_sector \<Rightarrow> 's \<Rightarrow> 's" where
  "initialize_from_sector cfg ops old_sector new_sector s =
     snd (write_sector cfg ops 0
            (st_read ops (old_sector + OLD_FORMAT_OFFSET) (dc_size cfg - OLD_FORMAT_OFFSET) s)
            None new_sector s)"

definition dcd_migrate :: "dcd_cfg \<Rightarrow> 's store_ops \<Rightarrow> 's \<Rightarrow> 's" where
  "dcd_migrate cfg ops s =
     (if \<not> is_initialized cfg ops s then
        if is_current_old ops (dc_addr1 cfg) s
        then initialize_from_sector cfg ops (dc_addr1 cfg) Sector_1 s
        else if is_current_old ops (dc_addr2 cfg) s
        then initialize_from_sector cfg ops (dc_addr2 cfg) Sector_0 s
        else s
      else s)"

end
