(* ===== verification/Dcd_Views.thy ===== *)
theory Dcd_Views
  imports Dcd
begin

text \<open>
  The DCD on flash contents: which sector is current and what the store holds, as functions of the
  memory, and how the choice of the current sector reacts to the changes that a write makes to
  one sector at a time.
\<close>

section \<open>Contents\<close>

definition view_ops :: "(nat \<Rightarrow> u8) store_ops" where
  "view_ops = \<lparr>st_write = (\<lambda>a ds v. (0, and_upd v a ds)), st_read = (\<lambda>a n v. bytes_at v a n),
     st_erase_sector = (\<lambda>a v. (0, v))\<rparr>"

lemma view_read [simp]: "st_read view_ops a n v = bytes_at v a n"
  by (simp add: view_ops_def)

definition dcd_layout :: "(nat \<Rightarrow> nat \<Rightarrow> bool) \<Rightarrow> dcd_cfg \<Rightarrow> bool" where
  "dcd_layout is_sector cfg \<longleftrightarrow>
     is_sector (dc_addr1 cfg) (dc_size cfg) \<and> is_sector (dc_addr2 cfg) (dc_size cfg) \<and> 40 < dc_size cfg
     \<and> (dc_addr1 cfg + dc_size cfg \<le> dc_addr2 cfg \<or> dc_addr2 cfg + dc_size cfg \<le> dc_addr1 cfg)
     \<and> dc_size cfg \<le> 2 ^ 32
     \<and> length (df_reserved (dc_uninit cfg)) = 16 \<and> length (df_reserved2 (dc_uninit cfg)) = 3"

abbreviation head_of :: "dcd_cfg \<Rightarrow> dcd_sector \<Rightarrow> (nat \<Rightarrow> u8) \<Rightarrow> dcd_header" where
  "head_of cfg c v \<equiv> sector_header cfg view_ops c v"

abbreviation foot_of :: "dcd_cfg \<Rightarrow> dcd_sector \<Rightarrow> (nat \<Rightarrow> u8) \<Rightarrow> dcd_footer" where
  "foot_of cfg c v \<equiv> sector_footer cfg view_ops c v"

definition sector_data :: "dcd_cfg \<Rightarrow> dcd_sector \<Rightarrow> (nat \<Rightarrow> u8) \<Rightarrow> u8 list" where
  "sector_data cfg c v = bytes_at v (address_of cfg c + 8) (dcd_length cfg)"

text \<open>What the store holds: 0xFF everywhere when there is no valid sector.\<close>

definition dcd_content :: "dcd_cfg \<Rightarrow> (nat \<Rightarrow> u8) \<Rightarrow> u8 list" where
  "dcd_content cfg v =
     (if current_sector cfg view_ops v = Sector_Unknown then replicate (dcd_length cfg) 0xFF
      else sector_data cfg (current_sector cfg view_ops v) v)"

definition good_seal :: "dcd_header \<Rightarrow> bool" where
  "good_seal h \<longleftrightarrow> dh_seal h = SEAL_VALID \<or> dh_seal h = SEAL_INVALID_V2"

text \<open>No sector has one of the two seals without the watermark.\<close>

definition dcd_sane :: "dcd_cfg \<Rightarrow> (nat \<Rightarrow> u8) \<Rightarrow> bool" where
  "dcd_sane cfg v \<longleftrightarrow> (good_seal (head_of cfg Sector_0 v) \<longrightarrow> is_header (head_of cfg Sector_0 v))
     \<and> (good_seal (head_of cfg Sector_1 v) \<longrightarrow> is_header (head_of cfg Sector_1 v))"

definition real_sector :: "dcd_sector \<Rightarrow> bool" where
  "real_sector c \<longleftrightarrow> c \<noteq> Sector_Unknown"

lemma header_valid_good: "header_valid h \<longleftrightarrow> is_header h \<and> good_seal h"
  by (simp add: header_valid_def good_seal_def)

lemma alternate_simps [simp]:
  "alternate_sector Sector_0 = Sector_1" "alternate_sector Sector_1 = Sector_0"
  "alternate_sector c \<noteq> Sector_Unknown"
  "c \<noteq> Sector_Unknown \<Longrightarrow> alternate_sector (alternate_sector c) = c"
  "c \<noteq> Sector_Unknown \<Longrightarrow> alternate_sector c \<noteq> c" "c \<noteq> Sector_Unknown \<Longrightarrow> c \<noteq> alternate_sector c"
  by (cases c; simp add: alternate_sector_def)+

lemma layout_facts:
  assumes "dcd_layout is_sector cfg"
  shows "is_sector (address_of cfg c) (dc_size cfg)" "40 < dc_size cfg"
    "c \<noteq> Sector_Unknown \<Longrightarrow> d \<noteq> Sector_Unknown \<Longrightarrow> c \<noteq> d \<Longrightarrow>
       address_of cfg c + dc_size cfg \<le> address_of cfg d \<or> address_of cfg d + dc_size cfg \<le> address_of cfg c"
  using assms by (auto simp: dcd_layout_def address_of_def) (cases c; cases d; auto)+

section \<open>Sectors that a change does not touch\<close>

definition same_sector :: "dcd_cfg \<Rightarrow> dcd_sector \<Rightarrow> (nat \<Rightarrow> u8) \<Rightarrow> (nat \<Rightarrow> u8) \<Rightarrow> bool" where
  "same_sector cfg c v w \<longleftrightarrow>
     (\<forall>x. address_of cfg c \<le> x \<longrightarrow> x < address_of cfg c + dc_size cfg \<longrightarrow> w x = v x)"

definition same_body :: "dcd_cfg \<Rightarrow> dcd_sector \<Rightarrow> (nat \<Rightarrow> u8) \<Rightarrow> (nat \<Rightarrow> u8) \<Rightarrow> bool" where
  "same_body cfg c v w \<longleftrightarrow>
     (\<forall>x. address_of cfg c + 8 \<le> x \<longrightarrow> x < address_of cfg c + dc_size cfg \<longrightarrow> w x = v x)"

lemma same_sector_body: "same_sector cfg c v w \<Longrightarrow> same_body cfg c v w"
  by (auto simp: same_sector_def same_body_def)

lemma bytes_at_body:
  "same_body cfg c v w \<Longrightarrow> address_of cfg c + 8 \<le> a \<Longrightarrow> a + n \<le> address_of cfg c + dc_size cfg \<Longrightarrow>
     bytes_at w a n = bytes_at v a n"
  by (rule bytes_at_cong) (auto simp: same_body_def)

lemma same_head: "same_sector cfg c v w \<Longrightarrow> 40 < dc_size cfg \<Longrightarrow> head_of cfg c w = head_of cfg c v"
  unfolding sector_header_def view_read
  by (rule arg_cong [where f = bytes_header], rule bytes_at_cong) (auto simp: same_sector_def)

lemma same_body_facts:
  assumes "same_body cfg c v w" "40 < dc_size cfg"
  shows "foot_of cfg c w = foot_of cfg c v" "crc_valid cfg view_ops c w = crc_valid cfg view_ops c v"
    "sector_data cfg c w = sector_data cfg c v"
proof -
  show f: "foot_of cfg c w = foot_of cfg c v"
    unfolding sector_footer_def view_read
    using assms(2) by (subst bytes_at_body [OF assms(1)]) (auto simp: footer_offset_def)
  have c: "compute_sector_crc cfg view_ops c w = compute_sector_crc cfg view_ops c v"
    unfolding compute_sector_crc_def view_read
    using assms(2) by (subst bytes_at_body [OF assms(1)]) auto
  show "crc_valid cfg view_ops c w = crc_valid cfg view_ops c v"
    by (simp add: crc_valid_def crc_valid_against_def f c)
  show "sector_data cfg c w = sector_data cfg c v"
    unfolding sector_data_def using assms(2) by (subst bytes_at_body [OF assms(1)]) (auto simp: dcd_length_def)
qed

section \<open>The choice of the current sector\<close>

lemma current_eq:
  "current_sector cfg view_ops v =
    (if header_valid (head_of cfg Sector_0 v)
     then evaluate_sectors cfg view_ops Sector_0 Sector_1 (dh_seal (head_of cfg Sector_1 v))
            (footer_counter (foot_of cfg Sector_0 v)) (footer_counter (foot_of cfg Sector_1 v)) v
     else if header_valid (head_of cfg Sector_1 v)
     then evaluate_sectors cfg view_ops Sector_1 Sector_0 (dh_seal (head_of cfg Sector_0 v))
            (footer_counter (foot_of cfg Sector_1 v)) (footer_counter (foot_of cfg Sector_0 v)) v
     else Sector_Unknown)"
  by (simp add: current_sector_def find_valid_sector_def)

lemma evaluate_range:
  assumes "evaluate_sectors cfg ops p q seal cp cq s = c" "p = Sector_1 \<or> q = Sector_1"
  shows "c = p \<or> c = q \<and> (seal = SEAL_VALID \<or> seal = SEAL_INVALID_V2)"
  using assms by (auto simp: evaluate_sectors_def sector_by_count_def Let_def split: if_splits)

lemma current_none: "current_sector cfg view_ops v = Sector_Unknown \<longleftrightarrow>
    \<not> header_valid (head_of cfg Sector_0 v) \<and> \<not> header_valid (head_of cfg Sector_1 v)"
  using evaluate_range unfolding current_eq by (metis dcd_sector.distinct(3,5))

lemma current_valid:
  assumes "dcd_sane cfg v" "current_sector cfg view_ops v = c" "c \<noteq> Sector_Unknown"
  shows "header_valid (head_of cfg c v)"
proof (cases "header_valid (head_of cfg Sector_0 v)")
  case True
  then have "c = Sector_0 \<or> c = Sector_1 \<and> good_seal (head_of cfg Sector_1 v)"
    using assms(2) evaluate_range [of cfg view_ops Sector_0 Sector_1 _ _ _ v c]
    by (auto simp: current_eq good_seal_def)
  with True assms(1) show ?thesis by (auto simp: header_valid_good dcd_sane_def)
next
  case False
  then have h1: "header_valid (head_of cfg Sector_1 v)"
    using assms(2,3) by (auto simp: current_eq split: if_splits)
  then have "c = Sector_1 \<or> c = Sector_0 \<and> good_seal (head_of cfg Sector_0 v)"
    using False assms(2) evaluate_range [of cfg view_ops Sector_1 Sector_0 _ _ _ v c]
    by (auto simp: current_eq good_seal_def)
  with False h1 assms(1) show ?thesis by (auto simp: header_valid_good dcd_sane_def)
qed

text \<open>Only one sector carries a good seal.\<close>

lemma current_only:
  assumes "c \<noteq> Sector_Unknown" "header_valid (head_of cfg c v)" "\<not> good_seal (head_of cfg (alternate_sector c) v)"
  shows "current_sector cfg view_ops v = c"
  using assms
  by (cases c) (simp_all add: current_eq evaluate_sectors_def header_valid_good good_seal_def)

lemma counter_small: "footer_counter f \<in> {0, 1, 2, 3}"
proof -
  have "df_flags f AND 3 = take_bit 2 (df_flags f)" by (simp add: take_bit_eq_mask mask_eq_exp_minus_1)
  then have "unat (df_flags f AND 3) < 4"
    by (metis take_bit_nat_less_exp unsigned_take_bit_eq numeral_Bit0 power2_eq_square mult_2 one_add_one
        numeral_plus_numeral semiring_norm(2) mult_numeral_1 numeral_times_numeral semiring_norm(11,13))
  then have "unat (footer_counter f) \<in> {0, 1, 2, 3}" by (auto simp: footer_counter_def)
  moreover have "footer_counter f = of_nat (unat (footer_counter f))" by simp
  ultimately show ?thesis by (auto simp del: word_unat_eq_iff of_nat_unat)
qed

lemma count_next:
  assumes "cb = (footer_counter f + 1) AND 3"
  shows "sector_by_count (footer_counter f) cb p q = q" "sector_by_count cb (footer_counter f) p q = p"
  using counter_small [of f] by (auto simp: sector_by_count_def assms)

text \<open>The sector just written wins over the other one, whatever seal that one has.\<close>

lemma current_new:
  assumes "c \<noteq> Sector_Unknown" "is_header (head_of cfg c v)" "dh_seal (head_of cfg c v) = SEAL_VALID"
    and "crc_valid cfg view_ops c v"
    and "let d = alternate_sector c in
      (good_seal (head_of cfg d v) \<longrightarrow> is_header (head_of cfg d v))
      \<and> (footer_valid (foot_of cfg d v) \<longrightarrow>
           footer_counter (foot_of cfg c v) = (footer_counter (foot_of cfg d v) + 1) AND 3)"
  shows "current_sector cfg view_ops v = c"
proof -
  have crc_foot: "crc_valid cfg view_ops d v \<Longrightarrow> footer_valid (foot_of cfg d v)" for d
    by (simp add: crc_valid_def crc_valid_against_def split: if_splits)
  have seals: "SEAL_VALID \<noteq> SEAL_INVALID_V2" by (simp add: SEAL_VALID_def SEAL_INVALID_V2_def)
  let ?d = "alternate_sector c"
  have hc: "header_valid (head_of cfg c v)" using assms(2,3) by (simp add: header_valid_def)
  have win: "evaluate_sectors cfg view_ops ?d c SEAL_VALID (footer_counter (foot_of cfg ?d v)) (footer_counter (foot_of cfg c v)) v = c"
    using assms(4,5) crc_foot [of ?d] count_next [of _ "foot_of cfg ?d v"]
    by (auto simp: evaluate_sectors_def Let_def)
  have keep: "evaluate_sectors cfg view_ops c ?d seal (footer_counter (foot_of cfg c v)) (footer_counter (foot_of cfg ?d v)) v = c" for seal
    using assms(4,5) crc_foot [of ?d] count_next [of _ "foot_of cfg ?d v"]
    by (auto simp: evaluate_sectors_def Let_def)
  show ?thesis
  proof (cases c)
    case Sector_0
    then show ?thesis using hc keep by (simp add: current_eq)
  next
    case Sector_1
    then show ?thesis using hc keep win assms(3) by (simp add: current_eq)
  qed (use assms(1) in simp)
qed

section \<open>The sector that a complete write leaves\<close>

lemma bytes_at_append: "bytes_at v a (m + n) = bytes_at v a m @ bytes_at v (a + m) n"
  by (rule nth_equalityI) (auto simp: nth_append)

definition erased :: "dcd_cfg \<Rightarrow> dcd_sector \<Rightarrow> (nat \<Rightarrow> u8) \<Rightarrow> nat \<Rightarrow> u8" where
  "erased cfg c v = erase_upd v (address_of cfg c) (dc_size cfg)"

lemma no_erase: "\<not> requires_erase cfg view_ops (address_of cfg c) v \<Longrightarrow> erased cfg c v = v"
  by (rule ext) (auto simp: erased_def erase_upd_def requires_erase_def list_ex_iff bytes_at_def)


definition body_of :: "dcd_cfg \<Rightarrow> nat \<Rightarrow> u8 list \<Rightarrow> dcd_sector option \<Rightarrow> (nat \<Rightarrow> u8) \<Rightarrow> u8 list" where
  "body_of cfg offset data ex v = (case ex of
       None \<Rightarrow> data
     | Some d \<Rightarrow> take offset (sector_data cfg d v) @ data @ drop (offset + length data) (sector_data cfg d v))"

definition old_footer :: "dcd_cfg \<Rightarrow> dcd_sector option \<Rightarrow> (nat \<Rightarrow> u8) \<Rightarrow> dcd_footer option" where
  "old_footer cfg ex v = map_option (\<lambda>d. foot_of cfg d v) ex"

definition new_footer :: "dcd_cfg \<Rightarrow> dcd_footer option \<Rightarrow> dcd_footer" where
  "new_footer cfg old = footer_set_counter (next_counter old)
     (case old of Some f \<Rightarrow> if footer_valid f then f else footer_initialize (dc_uninit cfg)
      | None \<Rightarrow> footer_initialize (dc_uninit cfg))"

definition with_body :: "dcd_cfg \<Rightarrow> dcd_sector \<Rightarrow> u8 list \<Rightarrow> (nat \<Rightarrow> u8) \<Rightarrow> nat \<Rightarrow> u8" where
  "with_body cfg c body v = and_upd (erased cfg c v) (address_of cfg c + 8) body"

definition with_footer :: "dcd_cfg \<Rightarrow> dcd_sector \<Rightarrow> dcd_footer \<Rightarrow> (nat \<Rightarrow> u8) \<Rightarrow> nat \<Rightarrow> u8" where
  "with_footer cfg c f v = and_upd v (address_of cfg c + footer_offset cfg) (take 28 (footer_bytes f))"

definition with_crc :: "dcd_cfg \<Rightarrow> dcd_sector \<Rightarrow> (nat \<Rightarrow> u8) \<Rightarrow> nat \<Rightarrow> u8" where
  "with_crc cfg c v = and_upd v (address_of cfg c + (dc_size cfg - 4)) (le32 (compute_sector_crc cfg view_ops c v))"

definition built :: "dcd_cfg \<Rightarrow> nat \<Rightarrow> u8 list \<Rightarrow> dcd_sector option \<Rightarrow> dcd_sector \<Rightarrow> (nat \<Rightarrow> u8) \<Rightarrow> nat \<Rightarrow> u8" where
  "built cfg offset data ex c v =
     with_crc cfg c (with_footer cfg c (new_footer cfg (old_footer cfg ex v))
       (with_body cfg c (body_of cfg offset data ex v) v))"

definition in_body :: "dcd_cfg \<Rightarrow> dcd_sector \<Rightarrow> (nat \<Rightarrow> u8) \<Rightarrow> (nat \<Rightarrow> u8) \<Rightarrow> bool" where
  "in_body cfg c v w \<longleftrightarrow>
     (\<forall>x. x < address_of cfg c + 8 \<or> address_of cfg c + dc_size cfg \<le> x \<longrightarrow> w x = erased cfg c v x)"

lemma in_body_upd:
  "in_body cfg c v u \<Longrightarrow> address_of cfg c + 8 \<le> a \<Longrightarrow> a + length ds \<le> address_of cfg c + dc_size cfg \<Longrightarrow>
     in_body cfg c v (and_upd u a ds)"
  by (auto simp: in_body_def)

lemma in_body_other:
  assumes "in_body cfg c v w" "dcd_layout is_sector cfg" "c \<noteq> Sector_Unknown" "d \<noteq> Sector_Unknown" "c \<noteq> d"
  shows "same_sector cfg d v w"
  unfolding same_sector_def
proof (intro allI impI)
  fix x assume x: "address_of cfg d \<le> x" "x < address_of cfg d + dc_size cfg"
  then have out: "x < address_of cfg c \<or> address_of cfg c + dc_size cfg \<le> x"
    using layout_facts(3) [OF assms(2-5)] by linarith
  then have "w x = erased cfg c v x" using assms(1) by (auto simp: in_body_def)
  with out show "w x = v x" by (simp add: erased_def)
qed

lemma in_body_head:
  assumes "in_body cfg c v w" "40 < dc_size cfg"
  shows "bytes_at w (address_of cfg c) 8 = replicate 8 0xFF"
  using assms by (auto simp: bytes_at_eq_iff in_body_def erased_def)

lemma footer_bytes_length:
  "length (df_reserved f) = 16 \<Longrightarrow> length (df_reserved2 f) = 3 \<Longrightarrow> length (footer_bytes f) = 32"
  by (simp add: footer_bytes_def)

lemma footer_round:
  assumes "length (df_reserved f) = 16" "length (df_reserved2 f) = 3"
  shows "bytes_footer (take 28 (footer_bytes f) @ le32 c) = f\<lparr>df_crc := c\<rparr>"
proof -
  have "take 28 (footer_bytes f) = df_reserved f @ [df_flags f] @ df_reserved2 f @ [df_pad f, df_version f]
     @ le16 (df_mysize f) @ le32 (df_watermark f)"
    using assms by (simp add: footer_bytes_def)
  moreover obtain a b where "le16 (df_mysize f) = [a, b]" "of_le16 [a, b] = df_mysize f"
    by (metis le16_def of_le16_le16)
  moreover obtain w x y z where "le32 (df_watermark f) = [w, x, y, z]" "of_le32 [w, x, y, z] = df_watermark f"
    by (metis le32_def of_le32_le32)
  moreover have "of_le16 (a # b # w # x # y # z # le32 c) = of_le16 [a, b]"
    "of_le32 (w # x # y # z # le32 c) = of_le32 [w, x, y, z]"
    for a b w x y z by (simp_all add: of_le16_def of_le32_def)
  ultimately show ?thesis
    using assms by (cases f) (simp add: bytes_footer_def nth_append)
qed

lemma foot_lengths:
  assumes "dcd_layout is_sector cfg"
  shows "length (df_reserved (new_footer cfg (old_footer cfg ex v))) = 16"
    "length (df_reserved2 (new_footer cfg (old_footer cfg ex v))) = 3"
  using assms by (auto simp: new_footer_def old_footer_def footer_set_counter_def footer_initialize_def
      sector_footer_def bytes_footer_def dcd_layout_def split: option.splits)

lemma body_length:
  assumes "offset + length data \<le> dcd_length cfg"
  shows "length (body_of cfg offset data ex v) \<le> dcd_length cfg"
    "ex \<noteq> None \<Longrightarrow> length (body_of cfg offset data ex v) = dcd_length cfg"
  using assms by (auto simp: body_of_def sector_data_def split: option.splits)

lemma built_stages:
  fixes v :: "nat \<Rightarrow> u8" and ex :: "dcd_sector option" and c :: dcd_sector
  assumes "dcd_layout is_sector cfg" "offset + length data \<le> dcd_length cfg"
  defines "body \<equiv> body_of cfg offset data ex v" and "f \<equiv> new_footer cfg (old_footer cfg ex v)"
  defines "u3 \<equiv> with_body cfg c body v"
  defines "u4 \<equiv> with_footer cfg c f u3"
  shows "in_body cfg c v u3" "in_body cfg c v u4" "in_body cfg c v (built cfg offset data ex c v)"
    "and_fits u3 (address_of cfg c + footer_offset cfg) (take 28 (footer_bytes f))"
    "and_fits u4 (address_of cfg c + (dc_size cfg - 4)) (le32 (compute_sector_crc cfg view_ops c u4))"
    "foot_of cfg c (built cfg offset data ex c v) = f\<lparr>df_crc := compute_sector_crc cfg view_ops c u4\<rparr>"
    "compute_sector_crc cfg view_ops c (built cfg offset data ex c v) = compute_sector_crc cfg view_ops c u4"
    "length body = dcd_length cfg \<Longrightarrow> sector_data cfg c (built cfg offset data ex c v) = body"
proof -
  obtain L where L: "dc_size cfg = L + 40" using layout_facts(2) [OF assms(1)] by (metis less_imp_add_positive add.commute)
  let ?B = "address_of cfg c" and ?k = "compute_sector_crc cfg view_ops c u4"
  have body: "length body \<le> L" using body_length(1) [OF assms(2), of ex v] by (simp add: body_def dcd_length_def L)
  have e: "in_body cfg c v (erased cfg c v)" by (simp add: in_body_def)
  have fb: "length (take 28 (footer_bytes f)) = 28"
    using footer_bytes_length foot_lengths [OF assms(1), of ex v] by (simp add: f_def)
  have FF3: "u3 x = 0xFF" if "?B + 8 + L \<le> x" "x < ?B + L + 40" for x
    using that body by (auto simp: u3_def with_body_def erased_def L)
  show 3: "in_body cfg c v u3"
    unfolding u3_def with_body_def by (rule in_body_upd [OF e]) (use body in \<open>simp_all add: L\<close>)
  show 4: "in_body cfg c v u4"
    unfolding u4_def with_footer_def by (rule in_body_upd [OF 3]) (simp_all add: L footer_offset_def)
  have b: "built cfg offset data ex c v = and_upd u4 (?B + (36 + L)) (le32 ?k)"
    by (simp add: built_def with_crc_def u4_def u3_def f_def body_def L)
  show "in_body cfg c v (built cfg offset data ex c v)"
    unfolding b by (rule in_body_upd [OF 4]) (simp_all add: L)
  show fits3: "and_fits u3 (?B + footer_offset cfg) (take 28 (footer_bytes f))"
    by (rule and_fits_erased) (simp add: FF3 footer_offset_def L)
  have FF4: "u4 x = 0xFF" if "?B + 36 + L \<le> x" "x < ?B + L + 40" for x
    using that fb FF3 [of x] by (simp add: u4_def with_footer_def footer_offset_def L)
  show fits4: "and_fits u4 (?B + (dc_size cfg - 4)) (le32 ?k)"
    by (rule and_fits_erased) (simp add: FF4 L)
  have same: "built cfg offset data ex c v x = u4 x" if "x < ?B + L + 36" for x
    using that by (simp add: b)
  have crc_bytes: "bytes_at (built cfg offset data ex c v) (?B + (36 + L)) 4 = le32 ?k"
    using and_upd_fits [OF fits4] by (simp add: b L)
  have "bytes_at u4 (?B + (8 + L)) 28 = take 28 (footer_bytes f)"
    using and_upd_fits [OF fits3] fb by (simp add: u4_def with_footer_def footer_offset_def L)
  then have "bytes_at (built cfg offset data ex c v) (?B + (8 + L)) 28 = take 28 (footer_bytes f)"
    using bytes_at_cong [of "?B + (8 + L)" 28 "built cfg offset data ex c v" u4] same by simp
  moreover have "bytes_at w (?B + (8 + L)) 32 = bytes_at w (?B + (8 + L)) 28 @ bytes_at w (?B + (36 + L)) 4"
    for w using bytes_at_append [of w "?B + (8 + L)" 28 4] by (simp add: ac_simps)
  ultimately show "foot_of cfg c (built cfg offset data ex c v) = f\<lparr>df_crc := ?k\<rparr>"
    using crc_bytes footer_round [of f ?k] foot_lengths [OF assms(1), of ex v]
    by (simp add: sector_footer_def footer_offset_def L f_def add.assoc [symmetric])
  show "compute_sector_crc cfg view_ops c (built cfg offset data ex c v) = ?k"
    using bytes_at_cong [of "?B + 8" "28 + L" "built cfg offset data ex c v" u4] same
    by (simp add: compute_sector_crc_def L)
  assume len: "length body = dcd_length cfg"
  have "sector_data cfg c (built cfg offset data ex c v) = bytes_at u3 (?B + 8) L"
    unfolding sector_data_def dcd_length_def
    using same by (auto simp: bytes_at_eq_iff L u4_def with_footer_def footer_offset_def)
  also have "\<dots> = body"
  proof -
    have "and_fits (erased cfg c v) (?B + 8) body"
      using body by (intro and_fits_erased) (simp add: erased_def L)
    from and_upd_fits [OF this] show ?thesis using len by (simp add: u3_def with_body_def dcd_length_def L)
  qed
  finally show "sector_data cfg c (built cfg offset data ex c v) = body" .
qed

section \<open>A header written byte by byte\<close>

lemma header_valid_bytes: "header_bytes header_make_valid = [0x9A, 0x27, 0x1C, 0x1E, 0x00, 0x5E, 0xA1, 0xED]"
  by code_simp

lemma header_invalid_bytes: "header_bytes header_make_invalid = [0x9A, 0x27, 0x1C, 0x1E, 0x00, 0x0C, 0xA0, 0x69]"
  by code_simp

lemma partial_header:
  assumes "k < 8"
  shows "\<not> good_seal (bytes_header (take k (header_bytes header_make_valid) @ replicate (8 - k) 0xFF))"
proof -
  have "list_all (\<lambda>k. \<not> good_seal (bytes_header (take k (header_bytes header_make_valid) @ replicate (8 - k) 0xFF))) [0..<8]"
    by code_simp
  then show ?thesis using assms by (simp add: list_all_iff del: upt_Suc)
qed

lemma full_header: "bytes_header (header_bytes header_make_valid) = header_make_valid"
  by code_simp

lemma make_valid_simps [simp]:
  "is_header header_make_valid" "dh_seal header_make_valid = SEAL_VALID" "good_seal header_make_valid"
  by (simp_all add: is_header_def header_make_valid_def good_seal_def)

lemma head_over_blank:
  assumes "bytes_at v (address_of cfg c) 8 = replicate 8 0xFF" "k \<le> 8"
  shows "head_of cfg c (and_upd v (address_of cfg c) (take k (header_bytes header_make_valid)))
    = bytes_header (take k (header_bytes header_make_valid) @ replicate (8 - k) 0xFF)"
proof -
  have b: "v (address_of cfg c + i) = 0xFF" if "i < 8" for i
    using assms(1) that by (auto simp: bytes_at_eq_iff)
  have l: "length (header_bytes h) = 8" for h by (simp add: header_bytes_def)
  have "bytes_at (and_upd v (address_of cfg c) (take k (header_bytes header_make_valid))) (address_of cfg c) 8
    = take k (header_bytes header_make_valid) @ replicate (8 - k) 0xFF"
    using assms(2) b l by (intro nth_equalityI) (auto simp: and_upd_def nth_append)
  then show ?thesis by (simp add: sector_header_def)
qed

lemma header_write_other:
  assumes "dcd_layout is_sector cfg" "c \<noteq> Sector_Unknown" "d \<noteq> Sector_Unknown" "c \<noteq> d" "length ds \<le> 8"
  shows "same_sector cfg d v (and_upd v (address_of cfg c) ds)" "same_body cfg c v (and_upd v (address_of cfg c) ds)"
  using layout_facts(2,3) [OF assms(1)] assms(2-5)
  by (fastforce simp: same_sector_def same_body_def intro!: and_upd_outside)+

text \<open>Clearing seal bits keeps the watermark.\<close>

lemma invalidate_keeps_watermark:
  assumes "is_header (head_of cfg c v)"
  shows "is_header (head_of cfg c (and_upd v (address_of cfg c) (take k (header_bytes header_make_invalid))))"
proof -
  let ?a = "address_of cfg c"
  have t: "take 4 (bytes_at w ?a 8) = bytes_at w ?a 4" for w
    using bytes_at_append [of w ?a 4 4] by simp
  have w: "bytes_at v ?a 4 = [0x9A, 0x27, 0x1C, 0x1E]"
  proof -
    have b4: "bytes_at v ?a 4 = [v ?a, v (?a + 1), v (?a + 2), v (?a + 3)]"
      by (simp add: bytes_at_def eval_nat_numeral)
    have "of_le32 (bytes_at v ?a 4) = WATERMARK"
      using assms t by (simp add: is_header_def sector_header_def bytes_header_def)
    then have "le32 WATERMARK = bytes_at v ?a 4"
      unfolding b4 by (metis le32_of_le32)
    moreover have "le32 WATERMARK = [0x9A, 0x27, 0x1C, 0x1E]" by code_simp
    ultimately show ?thesis by simp
  qed
  have "bytes_at (and_upd v ?a (take k (header_bytes header_make_invalid))) ?a 4 = bytes_at v ?a 4"
  proof (rule nth_equalityI)
    fix i assume "i < length (bytes_at (and_upd v ?a (take k (header_bytes header_make_invalid))) ?a 4)"
    then have i: "i < 4" by simp
    then have "i = 0 \<or> i = 1 \<or> i = 2 \<or> i = 3" by linarith
    then have "v (?a + i) = header_bytes header_make_invalid ! i"
      using w i by (auto simp: bytes_at_eq_iff header_invalid_bytes)
    then show "bytes_at (and_upd v ?a (take k (header_bytes header_make_invalid))) ?a 4 ! i = bytes_at v ?a 4 ! i"
      using i by (simp add: and_upd_def)
  qed simp
  with assms t show ?thesis by (simp add: is_header_def sector_header_def bytes_header_def)
qed

lemma header_bytes_of:
  assumes "length bs = 8"
  shows "header_bytes (bytes_header bs) = bs"
proof -
  obtain a b c d e f g h where bs: "bs = [a, b, c, d, e, f, g, h]"
    using assms by (auto simp: numeral_eq_Suc length_Suc_conv)
  show ?thesis by (simp add: bs header_bytes_def bytes_header_def le32_of_le32)
qed

lemma invalidate_fits:
  assumes "header_valid (head_of cfg c v)"
  shows "and_fits v (address_of cfg c) (header_bytes header_make_invalid)"
proof -
  let ?bs = "bytes_at v (address_of cfg c) 8"
  have "head_of cfg c v = header_make_valid \<or> head_of cfg c v = header_make_invalid"
    using assms by (cases "head_of cfg c v")
      (auto simp: header_valid_def is_header_def header_make_valid_def header_make_invalid_def)
  then have "?bs = header_bytes header_make_valid \<or> ?bs = header_bytes header_make_invalid"
    using header_bytes_of [of ?bs] by (auto simp: sector_header_def)
  moreover have "list_all (\<lambda>i. header_bytes h ! i AND header_bytes header_make_invalid ! i = header_bytes header_make_invalid ! i) [0..<8]"
    if "h = header_make_valid \<or> h = header_make_invalid" for h
    using that by (elim disjE; simp only:) code_simp+
  ultimately have "list_all (\<lambda>i. ?bs ! i AND header_bytes header_make_invalid ! i = header_bytes header_make_invalid ! i) [0..<8]"
    by metis
  then show ?thesis
    by (simp add: and_fits_def list_all_iff header_invalid_bytes del: upt_Suc)
qed

section \<open>What the content becomes\<close>

definition dcd_updated :: "u8 list \<Rightarrow> nat \<Rightarrow> u8 list \<Rightarrow> u8 list" where
  "dcd_updated old offset data = take offset old @ data @ drop (offset + length data) old"

lemma content_keep:
  assumes lay: "dcd_layout is_sector cfg" and c: "c \<noteq> Sector_Unknown"
    and sane: "dcd_sane cfg v" and cur: "current_sector cfg view_ops v \<noteq> c"
    and same: "same_sector cfg (alternate_sector c) v w" and bad: "\<not> good_seal (head_of cfg c w)"
  shows "dcd_sane cfg w" "dcd_content cfg w = dcd_content cfg v"
    "current_sector cfg view_ops w = current_sector cfg view_ops v"
proof -
  let ?d = "alternate_sector c"
  note sz = layout_facts(2) [OF lay]
  have hd: "head_of cfg ?d w = head_of cfg ?d v" by (rule same_head [OF same sz])
  show "dcd_sane cfg w" using sane hd bad c by (cases c) (auto simp: dcd_sane_def)
  show cur': "current_sector cfg view_ops w = current_sector cfg view_ops v"
  proof (cases "current_sector cfg view_ops v = Sector_Unknown")
    case True
    then have "\<not> header_valid (head_of cfg ?d v)" using c by (cases c) (auto simp: current_none)
    then have "current_sector cfg view_ops w = Sector_Unknown"
      using hd bad c by (cases c) (auto simp: current_none header_valid_good)
    with True show ?thesis by simp
  next
    case False
    then have d: "current_sector cfg view_ops v = ?d" using cur c by (cases c; cases "current_sector cfg view_ops v") auto
    then have "header_valid (head_of cfg ?d v)" using current_valid [OF sane d] by simp
    then have "current_sector cfg view_ops w = ?d"
      using hd bad c by (intro current_only) simp_all
    with d show ?thesis by simp
  qed
  show "dcd_content cfg w = dcd_content cfg v"
  proof (cases "current_sector cfg view_ops v = Sector_Unknown")
    case False
    then have "current_sector cfg view_ops v = ?d" using cur c by (cases c; cases "current_sector cfg view_ops v") auto
    then show ?thesis
      using cur' same_body_facts(3) [OF same_sector_body [OF same] sz] by (simp add: dcd_content_def)
  qed (simp add: dcd_content_def cur')
qed

lemma new_footer_facts:
  "df_watermark (new_footer cfg old) = WATERMARK"
  "footer_counter ((new_footer cfg old)\<lparr>df_crc := k\<rparr>) = next_counter old"
proof -
  have a: "((x AND 0xFC) OR (y AND 3)) AND 3 = y AND (3 :: u8)" for x y
    by (simp add: bit.conj_disj_distrib2 and.assoc)
  have n: "next_counter old AND 3 = next_counter old"
    by (auto simp: next_counter_def and.assoc split: option.splits)
  have "((x AND 0xFC) OR next_counter old) AND 3 = next_counter old" for x
    using a [of x "next_counter old"] n by simp
  with n show "footer_counter ((new_footer cfg old)\<lparr>df_crc := k\<rparr>) = next_counter old"
    by (simp add: footer_counter_def new_footer_def footer_set_counter_def)
  show "df_watermark (new_footer cfg old) = WATERMARK"
    by (auto simp: new_footer_def footer_set_counter_def footer_initialize_def footer_valid_def split: option.splits)
qed

end
