(* ===== verification/Dcd_Correct.thy ===== *)
theory Dcd_Correct
  imports Dcd_Views
begin

text \<open>
  Writing to the DCD over any flash store, with a power failure after any byte: \<open>outcome P v\<close> says
  that an operation has either left exactly the content \<open>v\<close>, on a live store and with result 0,
  or has died in a content that satisfies \<open>P\<close>, after which nothing changes any more.
\<close>

text \<open>
  A sequence of writes, and what each does to the content: nothing when the code rejects the range.
\<close>

primrec dcd_run :: "dcd_cfg \<Rightarrow> 's store_ops \<Rightarrow> (nat \<times> u8 list) list \<Rightarrow> 's \<Rightarrow> 's" where
  "dcd_run cfg ops [] s = s"
| "dcd_run cfg ops (w # ws) s = dcd_run cfg ops ws (snd (dcd_write cfg ops (fst w) (snd w) s))"

definition dcd_effect :: "dcd_cfg \<Rightarrow> nat \<times> u8 list \<Rightarrow> u8 list \<Rightarrow> u8 list" where
  "dcd_effect cfg w m =
     (if fst w < dcd_length cfg \<and> fst w + length (snd w) \<le> dcd_length cfg
      then dcd_updated m (fst w) (snd w) else m)"

text \<open>A memory that holds the content \<open>m\<close>.\<close>

definition holds_old :: "dcd_cfg \<Rightarrow> u8 list \<Rightarrow> (nat \<Rightarrow> u8) \<Rightarrow> bool" where
  "holds_old cfg m v \<longleftrightarrow> dcd_sane cfg v \<and> dcd_content cfg v = m"

context flash_store
begin

abbreviation dlay :: "dcd_cfg \<Rightarrow> bool" where "dlay \<equiv> dcd_layout is_sector"

definition live_at :: "(nat \<Rightarrow> u8) \<Rightarrow> 's \<Rightarrow> bool" where
  "live_at v s \<longleftrightarrow> ok s \<and> \<not> dead s \<and> view s = v"

definition frozen :: "((nat \<Rightarrow> u8) \<Rightarrow> bool) \<Rightarrow> 's \<Rightarrow> bool" where
  "frozen P s \<longleftrightarrow> ok s \<and> dead s \<and> P (view s)"

definition outcome :: "((nat \<Rightarrow> u8) \<Rightarrow> bool) \<Rightarrow> (nat \<Rightarrow> u8) \<Rightarrow> int \<times> 's \<Rightarrow> bool" where
  "outcome P v r \<longleftrightarrow> live_at v (snd r) \<and> fst r = 0 \<or> frozen P (snd r)"

lemma outcome_write:
  assumes "live_at u s" "in_range a (length ds)" "and_fits u a ds"
    "\<And>k. k \<le> length ds \<Longrightarrow> P (and_upd u a (take k ds))"
  shows "outcome P (and_upd u a ds) (st_write ops a ds s)"
proof (cases "dead (snd (st_write ops a ds s))")
  case True
  then show ?thesis
    using assms write_torn [of s a ds] write_ok [of s a ds]
    by (auto simp: outcome_def live_at_def frozen_def)
next
  case False
  then show ?thesis
    using assms write_live [of s a ds] write_ok [of s a ds] write_result [of s a ds]
    by (auto simp: outcome_def live_at_def)
qed

lemma frozen_write: "frozen P s \<Longrightarrow> in_range a (length ds) \<Longrightarrow> frozen P (snd (st_write ops a ds s))"
  using write_dead [of s a ds] write_ok [of s a ds] by (auto simp: frozen_def)

lemma outcome_then:
  assumes "outcome P v r" "\<And>s. live_at v s \<Longrightarrow> outcome P w (f s)" "\<And>s. frozen P s \<Longrightarrow> frozen P (snd (f s))"
  shows "outcome P w (then_ok r f)"
  using assms by (auto simp: outcome_def then_ok_def)

lemma frozen_then:
  "frozen P (snd r) \<Longrightarrow> (\<And>s. frozen P s \<Longrightarrow> frozen P (snd (f s))) \<Longrightarrow> frozen P (snd (then_ok r f))"
  by (simp add: then_ok_def)

lemma outcome_skip: "live_at v s \<Longrightarrow> outcome P v (0, s)"
  by (simp add: outcome_def)

section \<open>Reading\<close>

lemma sector_range:
  "dlay cfg \<Longrightarrow> address_of cfg c \<le> a \<Longrightarrow> a + n \<le> address_of cfg c + dc_size cfg \<Longrightarrow> in_range a n"
  using layout_facts(1) [of is_sector cfg c] sector_in_range in_range_mono by blast

lemma read_sector:
  "ok s \<Longrightarrow> dlay cfg \<Longrightarrow> address_of cfg c \<le> a \<Longrightarrow> a + n \<le> address_of cfg c + dc_size cfg \<Longrightarrow>
     st_read ops a n s = bytes_at (view s) a n"
  using sector_range read_view by blast

lemma read_views:
  assumes "ok s" "dlay cfg"
  shows "sector_header cfg ops c s = head_of cfg c (view s)"
    and "sector_footer cfg ops c s = foot_of cfg c (view s)"
    and "compute_sector_crc cfg ops c s = compute_sector_crc cfg view_ops c (view s)"
    and "crc_valid cfg ops c s = crc_valid cfg view_ops c (view s)"
    and "requires_erase cfg ops (address_of cfg c) s = requires_erase cfg view_ops (address_of cfg c) (view s)"
    and "current_sector cfg ops s = current_sector cfg view_ops (view s)"
proof -
  note sz = layout_facts(2) [OF assms(2)]
  show h: "sector_header cfg ops c s = head_of cfg c (view s)" for c
    using sz read_sector [OF assms, of c "address_of cfg c" 8] by (simp add: sector_header_def)
  show f: "sector_footer cfg ops c s = foot_of cfg c (view s)" for c
    using sz read_sector [OF assms, of c "address_of cfg c + footer_offset cfg" 32]
    by (simp add: sector_footer_def footer_offset_def)
  show k: "compute_sector_crc cfg ops c s = compute_sector_crc cfg view_ops c (view s)" for c
    using sz read_sector [OF assms, of c "address_of cfg c + 8" "dc_size cfg - 8 - 4"]
    by (simp add: compute_sector_crc_def)
  show v: "crc_valid cfg ops c s = crc_valid cfg view_ops c (view s)" for c
    by (simp add: crc_valid_def crc_valid_against_def f k)
  show "requires_erase cfg ops (address_of cfg c) s = requires_erase cfg view_ops (address_of cfg c) (view s)"
    using read_sector [OF assms, of c "address_of cfg c" "dc_size cfg"] by (simp add: requires_erase_def)
  show "current_sector cfg ops s = current_sector cfg view_ops (view s)"
    by (simp add: current_sector_def find_valid_sector_def evaluate_sectors_def h f v)
qed

section \<open>Erasing the target\<close>

lemma outcome_erase:
  assumes "live_at v s" "dlay cfg" "P v" "P (erased cfg c v)"
  shows "outcome P (erased cfg c v) (dcd_erase_sector cfg ops c s)"
proof -
  have ok: "ok s" "view s = v" using assms(1) by (auto simp: live_at_def)
  note sec = layout_facts(1) [OF assms(2), of c]
  show ?thesis
  proof (cases "requires_erase cfg ops (address_of cfg c) s")
    case False
    then show ?thesis
      using no_erase [of cfg c v] read_views(5) [OF ok(1) assms(2)] ok assms(1)
      by (simp add: dcd_erase_sector_def outcome_def)
  next
    case True
    let ?r = "st_erase_sector ops (address_of cfg c) s"
    have "outcome P (erased cfg c v) ?r"
    proof (cases "dead (snd ?r)")
      case True
      then show ?thesis
        using erase_torn [OF ok(1) sec] erase_ok [OF ok(1) sec] assms(3,4) ok
        by (auto simp: outcome_def frozen_def erased_def)
    next
      case False
      then show ?thesis
        using erase_live [OF ok(1) sec] erase_ok [OF ok(1) sec] ok by (simp add: outcome_def live_at_def erased_def)
    qed
    with True show ?thesis by (simp add: dcd_erase_sector_def)
  qed
qed

lemma frozen_erase:
  assumes "frozen P s" "dlay cfg"
  shows "frozen P (snd (dcd_erase_sector cfg ops c s))"
  using assms layout_facts(1) [OF assms(2), of c]
    erase_dead [of s "address_of cfg c" "dc_size cfg"] erase_ok [of s "address_of cfg c" "dc_size cfg"]
  by (auto simp: frozen_def dcd_erase_sector_def Let_def)

section \<open>A dead store stays as it is\<close>

lemma frozen_write_sector:
  assumes "frozen P s" "dlay cfg" "offset + length data \<le> dcd_length cfg"
    "existing = None \<or> existing = Some (address_of cfg d)"
  shows "frozen P (snd (write_sector cfg ops offset data existing c s))"
proof -
  obtain L where L: "dc_size cfg = L + 40" using layout_facts(2) [OF assms(2)] by (metis less_imp_add_positive add.commute)
  then have bound: "offset + length data \<le> L" using assms(3) by (simp add: dcd_length_def)
  have rng: "in_range (address_of cfg c + k) n" if "k + n \<le> L + 40" for k n
    using that sector_range [OF assms(2), of c "address_of cfg c + k" n] by (simp add: L)
  have rng0: "in_range (address_of cfg c) 8"
    using rng [of 0 8] by simp
  have copy: "frozen P (snd (st_write ops (address_of cfg c + k) (st_read ops (address_of cfg d + k) n s') s'))"
    if "frozen P s'" "k + n \<le> L + 40" for k n s'
  proof -
    have "length (st_read ops (address_of cfg d + k) n s') = n"
      using that read_sector [of s' cfg d "address_of cfg d + k" n] assms(2) by (simp add: frozen_def L)
    with that show ?thesis by (intro frozen_write) (simp_all add: rng)
  qed
  have plain: "frozen P (snd (st_write ops (address_of cfg c + k) ds s'))"
    if "frozen P s'" "k + length ds \<le> L + 40" for k ds s'
    using that by (intro frozen_write rng)
  have foot: "frozen P (snd (write_v2_footer cfg ops c f ct s'))" if "frozen P s'" for f ct s'
    using that unfolding write_v2_footer_def Let_def footer_offset_def by (intro plain) (auto simp: L)
  have head: "frozen P (snd (write_header cfg ops c h s'))" if "frozen P s'" for h s'
    using that rng0 by (simp add: write_header_def frozen_write header_bytes_def)
  show ?thesis
    unfolding write_sector_def Let_def
    by (intro frozen_then frozen_erase [OF assms(1,2)] foot head)
      (use assms(4) bound in \<open>auto intro: plain simp: L copy [of _ 8 offset]
         copy [of _ "8 + offset + length data" "L - (offset + length data)"]\<close>)
qed

section \<open>Running a sector write\<close>

lemma write_sector_outcome:
  assumes live: "live_at v s" and lay: "dlay cfg" and c: "c \<noteq> Sector_Unknown"
    and ex: "\<And>d. ex = Some d \<Longrightarrow> d \<noteq> Sector_Unknown \<and> d \<noteq> c"
    and fits: "offset + length data \<le> dcd_length cfg"
    and P: "P v" "\<And>w. in_body cfg c v w \<Longrightarrow> P w"
    and head: "\<And>k. k \<le> 8 \<Longrightarrow> P (and_upd (built cfg offset data ex c v) (address_of cfg c)
                 (take k (header_bytes header_make_valid)))"
  shows "outcome P (and_upd (built cfg offset data ex c v) (address_of cfg c) (header_bytes header_make_valid))
    (write_sector cfg ops offset data (map_option (address_of cfg) ex) c s)"
proof -
  obtain L where L: "dc_size cfg = L + 40" using layout_facts(2) [OF lay] by (metis less_imp_add_positive add.commute)
  let ?B = "address_of cfg c"
  let ?body = "body_of cfg offset data ex v" and ?f = "new_footer cfg (old_footer cfg ex v)"
  let ?u3 = "with_body cfg c ?body v"
  let ?u4 = "with_footer cfg c ?f ?u3"
  note stages = built_stages [OF lay fits, where c = c and v = v and ex = ex]
  have len: "offset + length data \<le> L" using fits by (simp add: dcd_length_def L)
  define x where "x = (case ex of None \<Rightarrow> [] | Some d \<Rightarrow> take offset (sector_data cfg d v))"
  define z where "z = (case ex of None \<Rightarrow> [] | Some d \<Rightarrow> drop (offset + length data) (sector_data cfg d v))"
  have body: "?body = x @ data @ z" by (simp add: body_of_def x_def z_def split: option.splits)
  have blen: "length ?body \<le> L" using body_length(1) [OF fits, of ex v] by (simp add: dcd_length_def L)
  define e where "e = erased cfg c v"
  define u1 where "u1 = and_upd e (?B + 8) x"
  define u2 where "u2 = and_upd u1 (?B + 8 + length x) data"
  have u3: "?u3 = and_upd u2 (?B + 8 + length x + length data) z"
    by (simp add: with_body_def body u1_def u2_def e_def and_upd_append add.assoc)
  have e_body: "in_body cfg c v e" by (simp add: in_body_def e_def)
  have b1: "in_body cfg c v u1" unfolding u1_def
    by (rule in_body_upd [OF e_body]) (use blen body in \<open>simp_all add: L\<close>)
  have b2: "in_body cfg c v u2" unfolding u2_def
    by (rule in_body_upd [OF b1]) (use blen body in \<open>simp_all add: L\<close>)
  have rng: "in_range (?B + k) n" if "k + n \<le> L + 40" for k n
    using that sector_range [OF lay, of c "?B + k" n] by (simp add: L)
  have oldb: "bytes_at w (address_of cfg d + k) n = bytes_at v (address_of cfg d + k) n"
    if "in_body cfg c v w" "ex = Some d" "k + n \<le> dc_size cfg" for w d k n
  proof -
    have "same_sector cfg d v w" using in_body_other [OF that(1) lay c] ex [OF that(2)] by auto
    then show ?thesis using that(3) by (intro bytes_at_cong) (auto simp: same_sector_def)
  qed
  have read_old: "st_read ops (address_of cfg d + k) n t = bytes_at v (address_of cfg d + k) n"
    if "live_at w t" "in_body cfg c v w" "ex = Some d" "k + n \<le> dc_size cfg" for w t d k n
    using that oldb [of w d k n] read_sector [of t cfg d "address_of cfg d + k" n] lay
    by (simp add: live_at_def)
  have wr: "outcome P (and_upd u (?B + k) ds) (st_write ops (?B + k) ds t)"
    if "live_at u t" "in_body cfg c v u" "8 \<le> k" "k + length ds \<le> L + 40" "and_fits u (?B + k) ds" for u t k ds
    using that by (intro outcome_write rng P(2) in_body_upd) (auto simp: L)
  have x_read: "x = bytes_at v (address_of cfg d + 8) offset" if "ex = Some d" for d
    using that len bytes_at_append [of v "address_of cfg d + 8" offset "L - offset"]
    by (simp add: x_def sector_data_def dcd_length_def L)
  have z_read: "z = bytes_at v (address_of cfg d + (8 + offset + length data)) (L - (offset + length data))"
    if "ex = Some d" for d
    using that len bytes_at_append [of v "address_of cfg d + 8" "offset + length data" "L - (offset + length data)"]
    by (simp add: z_def sector_data_def dcd_length_def L add.assoc)
  have xlen: "ex = Some d \<Longrightarrow> length x = offset" "ex = None \<Longrightarrow> x = [] \<and> z = []" for d
    using len by (auto simp: x_def z_def sector_data_def dcd_length_def L)
  have fit1: "and_fits e (?B + 8) x"
    using blen body by (intro and_fits_erased) (simp add: e_def erased_def L)
  have fit2: "and_fits u1 (?B + (8 + length x)) data"
    using blen body by (intro and_fits_erased) (simp add: u1_def e_def erased_def L)
  have fit3: "and_fits u2 (?B + (8 + length x + length data)) z"
    using blen body by (intro and_fits_erased) (simp add: u2_def u1_def e_def erased_def L)
  have froz: "frozen P (snd (st_write ops (?B + k) ds t))" if "frozen P t" "k + length ds \<le> L + 40" for k ds t
    using that by (intro frozen_write rng)
  have cp: "frozen P (snd (st_write ops (?B + k) (st_read ops (address_of cfg d + k) n t) t))"
    if "frozen P t" "k + n \<le> L + 40" for k n t d
  proof -
    have "length (st_read ops (address_of cfg d + k) n t) = n"
      using that read_sector [of t cfg d "address_of cfg d + k" n] lay by (simp add: frozen_def L)
    with that show ?thesis by (intro froz) simp_all
  qed
  let ?ex = "map_option (address_of cfg) ex"
  have S1: "outcome P e (dcd_erase_sector cfg ops c s)"
    using outcome_erase [OF live lay, of P c] P(1) P(2) [OF e_body] by (simp add: e_def)
  have S2: "outcome P u1 (case ?ex of Some a \<Rightarrow> st_write ops (?B + 8) (st_read ops (a + 8) offset t) t | None \<Rightarrow> (0, t))"
    if t: "live_at e t" for t
  proof (cases ex)
    case None
    then show ?thesis using t xlen(2) by (simp add: outcome_skip u1_def)
  next
    case (Some d)
    then have "st_read ops (address_of cfg d + 8) offset t = x"
      using read_old [OF t e_body Some, of 8 offset] x_read [OF Some] len by (simp add: L)
    then show ?thesis
      using Some wr [OF t e_body, of 8 x] fit1 blen body by (simp add: u1_def)
  qed
  have w1: "(if ?ex \<noteq> None then 8 + offset else 8) = 8 + length x"
    using xlen by (cases ex) auto
  have S3: "outcome P u2 (if data \<noteq> [] then st_write ops (?B + (8 + length x)) data t else (0, t))"
    if t: "live_at u1 t" for t
    using wr [OF t b1, of "8 + length x" data] fit2 blen body t
    by (auto simp: u2_def outcome_skip add.assoc)
  have S4: "outcome P ?u3 (case ?ex of Some a \<Rightarrow> st_write ops (?B + (8 + length x + length data))
        (st_read ops (a + (8 + length x + length data)) (dc_size cfg - (8 + length x + length data) - 32) t) t
      | None \<Rightarrow> (0, t))" if t: "live_at u2 t" for t
  proof (cases ex)
    case None
    then show ?thesis unfolding u3 using t xlen(2) by (simp add: outcome_skip)
  next
    case (Some d)
    have "st_read ops (address_of cfg d + (8 + length x + length data)) (L - (offset + length data)) t = z"
      using read_old [OF t b2 Some, of "8 + offset + length data" "L - (offset + length data)"] z_read [OF Some]
        len xlen(1) [OF Some] by (simp add: L)
    then show ?thesis
      unfolding u3 using Some wr [OF t b2, of "8 + length x + length data" z] fit3 blen body xlen(1) [OF Some]
      by (simp add: L add.assoc)
  qed
  define foot where "foot t = map_option (\<lambda>a. bytes_footer (st_read ops (a + footer_offset cfg) 32 t)) ?ex" for t
  have S5: "outcome P ?u4 (write_v2_footer cfg ops c
      (case foot t of Some f \<Rightarrow> if footer_valid f then Some f else None | None \<Rightarrow> None) (next_counter (foot t)) t)"
    if t: "live_at ?u3 t" for t
  proof -
    have "foot t = old_footer cfg ex v"
      using read_old [OF t stages(1)] L by (cases ex) (auto simp: foot_def old_footer_def sector_footer_def footer_offset_def)
    then have "write_v2_footer cfg ops c
      (case foot t of Some f \<Rightarrow> if footer_valid f then Some f else None | None \<Rightarrow> None) (next_counter (foot t)) t
      = st_write ops (?B + footer_offset cfg) (take 28 (footer_bytes ?f)) t"
      by (simp add: write_v2_footer_def new_footer_def split: option.splits)
    then show ?thesis
      using wr [OF t stages(1), of "footer_offset cfg" "take 28 (footer_bytes ?f)"] stages(4)
      by (simp add: with_footer_def footer_offset_def L)
  qed
  have S6: "outcome P (built cfg offset data ex c v)
      (st_write ops (?B + (dc_size cfg - 4)) (le32 (compute_sector_crc cfg ops c t)) t)"
    if t: "live_at ?u4 t" for t
  proof -
    have "compute_sector_crc cfg ops c t = compute_sector_crc cfg view_ops c ?u4"
      using read_views(3) [of t cfg c] t lay by (simp add: live_at_def)
    then show ?thesis
      using wr [OF t stages(2), of "dc_size cfg - 4"] stages(5) by (simp add: built_def with_crc_def L)
  qed
  have S7: "outcome P (and_upd (built cfg offset data ex c v) ?B (header_bytes header_make_valid))
      (write_header cfg ops c header_make_valid t)"
    if t: "live_at (built cfg offset data ex c v) t" for t
  proof -
    have "bytes_at (built cfg offset data ex c v) ?B 8 = replicate 8 0xFF"
      by (rule in_body_head [OF stages(3) layout_facts(2) [OF lay]])
    then have "and_fits (built cfg offset data ex c v) ?B (header_bytes header_make_valid)"
      by (intro and_fits_erased) (simp add: bytes_at_eq_iff header_bytes_def)
    then show ?thesis
      unfolding write_header_def using rng [of 0 8] head
      by (intro outcome_write [OF t]) (auto simp: header_bytes_def)
  qed
  have F2: "frozen P (snd (case ?ex of Some a \<Rightarrow> st_write ops (?B + 8) (st_read ops (a + 8) offset t) t | None \<Rightarrow> (0, t)))"
    if "frozen P t" for t
    using that cp [of t 8 offset] len by (cases ex) auto
  have F3: "frozen P (snd (if data \<noteq> [] then st_write ops (?B + (8 + length x)) data t else (0, t)))"
    if "frozen P t" for t
    using that froz [of t "8 + length x" data] blen body by (simp add: add.assoc)
  have F4: "frozen P (snd (case ?ex of Some a \<Rightarrow> st_write ops (?B + (8 + length x + length data))
        (st_read ops (a + (8 + length x + length data)) (dc_size cfg - (8 + length x + length data) - 32) t) t
      | None \<Rightarrow> (0, t)))" if "frozen P t" for t
    using that cp [of t "8 + length x + length data" "L - (length x + length data)"] blen body
    by (cases ex) (auto simp: L)
  have F5: "frozen P (snd (write_v2_footer cfg ops c g n t))" if "frozen P t" for g n t
    using that unfolding write_v2_footer_def Let_def footer_offset_def by (intro froz) (auto simp: L)
  have F6: "frozen P (snd (st_write ops (?B + (dc_size cfg - 4)) (le32 k) t))" if "frozen P t" for k t
    using that by (intro froz) (simp_all add: L)
  have F7: "frozen P (snd (write_header cfg ops c h t))" if "frozen P t" for h t
    using that rng [of 0 8] by (simp add: write_header_def frozen_write header_bytes_def)
  show ?thesis
    unfolding write_sector_def Let_def w1 foot_def [symmetric]
    by (intro outcome_then [OF S1] outcome_then [OF S2] outcome_then [OF S3] outcome_then [OF S4]
        outcome_then [OF S5] outcome_then [OF S6] S7 frozen_then F2 F3 F4 F5 F6 F7; assumption)
qed

section \<open>Replacing the current sector\<close>

text \<open>The complete new sector, before and after the old one is marked.\<close>

lemma built_head:
  assumes "dlay cfg" "offset + length data \<le> dcd_length cfg" "k \<le> 8"
  shows "head_of cfg c (and_upd (built cfg offset data ex c v) (address_of cfg c) (take k (header_bytes header_make_valid)))
    = bytes_header (take k (header_bytes header_make_valid) @ replicate (8 - k) 0xFF)"
  using built_stages(3) [OF assms(1,2), where c = c and v = v and ex = ex] in_body_head [OF _ layout_facts(2) [OF assms(1)]]
  by (intro head_over_blank [OF _ assms(3)]) blast

lemma built_crc:
  assumes lay: "dlay cfg" and "offset + length data \<le> dcd_length cfg" and c: "c \<noteq> Sector_Unknown"
    and same: "same_body cfg c (built cfg offset data ex c v) w"
  shows "crc_valid cfg view_ops c w" "footer_counter (foot_of cfg c w) = next_counter (old_footer cfg ex v)"
proof -
  note st = built_stages [OF assms(1,2), where c = c and v = v and ex = ex]
  note sb = same_body_facts [OF same layout_facts(2) [OF lay]]
  have "crc_valid cfg view_ops c (built cfg offset data ex c v)"
    unfolding crc_valid_def crc_valid_against_def st(6) st(7)
    by (simp add: footer_valid_def new_footer_facts(1))
  then show "crc_valid cfg view_ops c w" by (simp add: sb(2))
  show "footer_counter (foot_of cfg c w) = next_counter (old_footer cfg ex v)"
    unfolding sb(1) st(6) by (rule new_footer_facts(2))
qed

lemma header_take_length: "length (take k (header_bytes h)) \<le> 8"
  by (simp add: header_bytes_def)

lemma replace_torn:
  assumes lay: "dlay cfg" and fits: "offset + length data \<le> dcd_length cfg" and sane: "dcd_sane cfg v"
    and d: "current_sector cfg view_ops v = d" "d \<noteq> Sector_Unknown" and c: "c = alternate_sector d"
  defines "b \<equiv> built cfg offset data (Some d) c v"
    and "new \<equiv> dcd_updated (dcd_content cfg v) offset data"
  shows "\<And>w. in_body cfg c v w \<Longrightarrow> dcd_sane cfg w \<and> dcd_content cfg w = dcd_content cfg v"
    and "\<And>k. k < 8 \<Longrightarrow>
      let w = and_upd b (address_of cfg c) (take k (header_bytes header_make_valid))
      in dcd_sane cfg w \<and> dcd_content cfg w = dcd_content cfg v"
    and "\<And>j. let w = and_upd (and_upd b (address_of cfg c) (header_bytes header_make_valid))
                      (address_of cfg d) (take j (header_bytes header_make_invalid))
      in dcd_sane cfg w \<and> dcd_content cfg w = new \<and> current_sector cfg view_ops w = c"
proof -
  have cr: "c \<noteq> Sector_Unknown" "alternate_sector c = d" "d \<noteq> c" using c d(2) by simp_all
  note sz = layout_facts(2) [OF lay]
  note st = built_stages [OF lay fits, where c = c and v = v and ex = "Some d"]
  have cur: "current_sector cfg view_ops v \<noteq> c" using d cr by simp
  have other: "same_sector cfg d v w" if "in_body cfg c v w" for w
    using in_body_other [OF that lay cr(1) d(2)] cr(3) by simp
  have blank: "\<not> good_seal (bytes_header (replicate 8 0xFF))"
    using partial_header [of 0] by simp
  show "dcd_sane cfg w \<and> dcd_content cfg w = dcd_content cfg v" if w: "in_body cfg c v w" for w
  proof -
    have "\<not> good_seal (head_of cfg c w)"
      using blank in_body_head [OF w sz] by (simp add: sector_header_def)
    then show ?thesis
      using content_keep [OF lay cr(1) sane cur] other [OF w] cr(2) by simp
  qed
  have hd_other: "same_sector cfg d u (and_upd u (address_of cfg c) ds)" if "length ds \<le> 8" for u ds
    by (rule header_write_other(1) [OF lay cr(1) d(2) _ that]) (use cr(3) in simp)
  have trans: "same_sector cfg d u w \<Longrightarrow> same_sector cfg d w w' \<Longrightarrow> same_sector cfg d u w'" for u w w'
    by (simp add: same_sector_def)
  have inb: "in_body cfg c v b" using st(3) by (simp add: b_def)
  show "let w = and_upd b (address_of cfg c) (take k (header_bytes header_make_valid))
      in dcd_sane cfg w \<and> dcd_content cfg w = dcd_content cfg v" if k: "k < 8" for k
  proof -
    let ?w = "and_upd b (address_of cfg c) (take k (header_bytes header_make_valid))"
    have "same_sector cfg d v ?w"
      by (rule trans [OF other [OF inb] hd_other [OF header_take_length]])
    moreover have "\<not> good_seal (head_of cfg c ?w)"
      using built_head [OF lay fits, of k c "Some d" v] partial_header [OF k] k by (simp add: b_def)
    ultimately show ?thesis using content_keep [OF lay cr(1) sane cur] cr(2) by simp
  qed
  show "let w = and_upd (and_upd b (address_of cfg c) (header_bytes header_make_valid))
                      (address_of cfg d) (take j (header_bytes header_make_invalid))
      in dcd_sane cfg w \<and> dcd_content cfg w = new \<and> current_sector cfg view_ops w = c" for j
  proof -
    let ?u = "and_upd b (address_of cfg c) (header_bytes header_make_valid)"
    let ?w = "and_upd ?u (address_of cfg d) (take j (header_bytes header_make_invalid))"
    have hl: "length (header_bytes h) \<le> 8" for h by (simp add: header_bytes_def)
    have du: "same_sector cfg d v ?u" by (rule trans [OF other [OF inb] hd_other [OF hl]])
    note dw = header_write_other [OF lay d(2) cr(1) cr(3) header_take_length, of ?u j header_make_invalid]
    have cw: "same_sector cfg c ?u ?w" by (rule dw(1))
    have body_c: "same_body cfg c b ?w"
      using header_write_other(2) [OF lay cr(1) d(2) _ hl, of b header_make_valid] cr(3) same_sector_body [OF cw]
      by (simp add: same_body_def)
    have body_d: "same_body cfg d v ?w"
      using same_sector_body [OF du] dw(2) by (simp add: same_body_def)
    have hc: "head_of cfg c ?w = header_make_valid"
      using built_head [OF lay fits, of 8 c "Some d" v] full_header same_head [OF cw sz]
      by (simp add: b_def header_bytes_def)
    have hd: "is_header (head_of cfg d ?w)"
    proof -
      have "header_valid (head_of cfg d v)" by (rule current_valid [OF sane d])
      then have "is_header (head_of cfg d ?u)"
        using same_head [OF du sz] by (simp add: header_valid_def)
      then show ?thesis by (rule invalidate_keeps_watermark)
    qed
    have crc: "crc_valid cfg view_ops c ?w" "footer_counter (foot_of cfg c ?w) = next_counter (Some (foot_of cfg d v))"
      using built_crc [OF lay fits cr(1)] body_c by (simp_all add: b_def old_footer_def)
    have fd: "foot_of cfg d ?w = foot_of cfg d v" by (rule same_body_facts(1) [OF body_d sz])
    have cur_w: "current_sector cfg view_ops ?w = c"
      using hc hd crc cr fd by (intro current_new) (simp_all add: next_counter_def)
    have "dcd_sane cfg ?w" using hc hd cr c d(2) by (cases d) (simp_all add: dcd_sane_def)
    moreover have "sector_data cfg c ?w = new"
    proof -
      have "sector_data cfg c ?w = sector_data cfg c b" by (rule same_body_facts(3) [OF body_c sz])
      also have "\<dots> = body_of cfg offset data (Some d) v"
        using st(8) body_length(2) [OF fits, of "Some d" v] by (simp add: b_def)
      finally show ?thesis using d by (simp add: body_of_def new_def dcd_updated_def dcd_content_def)
    qed
    ultimately show ?thesis using cur_w cr(1) by (simp add: Let_def dcd_content_def)
  qed
qed

section \<open>Initialising an empty store\<close>

lemma built_blank:
  assumes "dlay cfg"
  shows "sector_data cfg c (built cfg 0 [] None c v) = replicate (dcd_length cfg) 0xFF"
proof -
  obtain L where L: "dc_size cfg = L + 40" using layout_facts(2) [OF assms] by (metis less_imp_add_positive add.commute)
  have "built cfg 0 [] None c v x = 0xFF" if "address_of cfg c + 8 \<le> x" "x < address_of cfg c + 8 + L" for x
    using that by (simp add: built_def with_crc_def with_footer_def with_body_def body_of_def erased_def
        footer_offset_def L)
  then show ?thesis by (auto simp: sector_data_def dcd_length_def L bytes_at_eq_iff)
qed

lemma init_torn:
  assumes lay: "dlay cfg" and sane: "dcd_sane cfg v" and none: "current_sector cfg view_ops v = Sector_Unknown"
  defines "b \<equiv> built cfg 0 [] None Sector_1 v"
  shows "\<And>w. in_body cfg Sector_1 v w \<Longrightarrow> dcd_sane cfg w \<and> dcd_content cfg w = dcd_content cfg v"
    and "\<And>k. k \<le> 8 \<Longrightarrow>
      let w = and_upd b (address_of cfg Sector_1) (take k (header_bytes header_make_valid))
      in dcd_sane cfg w \<and> dcd_content cfg w = dcd_content cfg v
         \<and> (k = 8 \<longrightarrow> current_sector cfg view_ops w = Sector_1)"
proof -
  note sz = layout_facts(2) [OF lay]
  have fits: "0 + length ([] :: u8 list) \<le> dcd_length cfg" by simp
  note st = built_stages [OF lay fits, where c = Sector_1 and v = v and ex = None]
  have cur: "current_sector cfg view_ops v \<noteq> Sector_1" using none by simp
  have other: "same_sector cfg Sector_0 v w" if "in_body cfg Sector_1 v w" for w
    using in_body_other [OF that lay] by simp
  have blank: "\<not> good_seal (bytes_header (replicate 8 0xFF))" using partial_header [of 0] by simp
  show "dcd_sane cfg w \<and> dcd_content cfg w = dcd_content cfg v" if w: "in_body cfg Sector_1 v w" for w
  proof -
    have "\<not> good_seal (head_of cfg Sector_1 w)"
      using blank in_body_head [OF w sz] by (simp add: sector_header_def)
    then show ?thesis using content_keep [OF lay _ sane cur] other [OF w] by simp
  qed
  show "let w = and_upd b (address_of cfg Sector_1) (take k (header_bytes header_make_valid))
      in dcd_sane cfg w \<and> dcd_content cfg w = dcd_content cfg v
         \<and> (k = 8 \<longrightarrow> current_sector cfg view_ops w = Sector_1)" if k: "k \<le> 8" for k
  proof -
    let ?w = "and_upd b (address_of cfg Sector_1) (take k (header_bytes header_make_valid))"
    note hw = header_write_other [OF lay _ _ _ header_take_length, of Sector_1 Sector_0 b k header_make_valid, simplified]
    have same: "same_sector cfg Sector_0 v ?w"
      using other [OF st(3)] hw(1) by (simp add: same_sector_def b_def)
    have head: "head_of cfg Sector_1 ?w = bytes_header (take k (header_bytes header_make_valid) @ replicate (8 - k) 0xFF)"
      using built_head [OF lay fits k, of Sector_1 None v] by (simp add: b_def)
    show ?thesis
    proof (cases "k = 8")
      case False
      then have "\<not> good_seal (head_of cfg Sector_1 ?w)" using partial_header [of k] k head by simp
      then show ?thesis using False content_keep [OF lay _ sane cur] same by (simp add: Let_def)
    next
      case True
      have hc: "head_of cfg Sector_1 ?w = header_make_valid"
        using head full_header True by (simp add: header_bytes_def)
      have "\<not> header_valid (head_of cfg Sector_0 v)" using none by (simp add: current_none)
      then have hd: "\<not> good_seal (head_of cfg Sector_0 ?w)"
        using sane same_head [OF same sz] by (auto simp: dcd_sane_def header_valid_good)
      then have cur_w: "current_sector cfg view_ops ?w = Sector_1"
        using hc by (intro current_only) (simp_all add: header_valid_good)
      have "sector_data cfg Sector_1 ?w = sector_data cfg Sector_1 b"
        by (rule same_body_facts(3) [OF hw(2) sz])
      then have "dcd_content cfg ?w = dcd_content cfg v"
        using built_blank [OF lay, of Sector_1 v] cur_w none by (simp add: dcd_content_def b_def)
      moreover have "dcd_sane cfg ?w" using hc hd by (simp add: dcd_sane_def)
      ultimately show ?thesis unfolding Let_def using cur_w by blast
    qed
  qed
qed

lemma current_valid_outcome:
  assumes live: "live_at v s" and lay: "dlay cfg" and sane: "dcd_sane cfg v"
  obtains d s1 where "current_valid_sector cfg ops s = (d, s1)" "d \<noteq> Sector_Unknown"
    "(\<exists>w. live_at w s1 \<and> holds_old cfg (dcd_content cfg v) w \<and> current_sector cfg view_ops w = d)
     \<or> frozen (holds_old cfg (dcd_content cfg v)) s1"
proof (cases "current_sector cfg view_ops v = Sector_Unknown")
  case False
  have "current_sector cfg ops s = current_sector cfg view_ops v"
    using live read_views(6) [of s cfg] lay by (simp add: live_at_def)
  then show ?thesis
    using that [of "current_sector cfg view_ops v" s] False live sane
    by (auto simp: current_valid_sector_def holds_old_def Let_def)
next
  case True
  let ?P = "holds_old cfg (dcd_content cfg v)"
  have "current_sector cfg ops s = current_sector cfg view_ops v"
    using live read_views(6) [of s cfg] lay by (simp add: live_at_def)
  then have cv: "current_valid_sector cfg ops s = (Sector_1, snd (write_sector cfg ops 0 [] None Sector_1 s))"
    using True by (simp add: current_valid_sector_def dcd_initialize_def)
  let ?w = "and_upd (built cfg 0 [] None Sector_1 v) (address_of cfg Sector_1) (header_bytes header_make_valid)"
  note torn = init_torn [OF lay sane True]
  have w8: "take 8 (header_bytes header_make_valid) = header_bytes header_make_valid" by (simp add: header_bytes_def)
  have "outcome ?P ?w (write_sector cfg ops 0 [] (map_option (address_of cfg) None) Sector_1 s)"
    using torn sane by (intro write_sector_outcome [OF live lay]) (auto simp: holds_old_def Let_def)
  moreover have "?P ?w" "current_sector cfg view_ops ?w = Sector_1"
    using torn(2) [of 8] w8 by (simp_all add: holds_old_def Let_def)
  ultimately show ?thesis
    using that [OF cv] by (auto simp: outcome_def)
qed

lemma replace_head:
  assumes lay: "dlay cfg" and fits: "offset + length data \<le> dcd_length cfg" and sane: "dcd_sane cfg v"
    and d: "current_sector cfg view_ops v = d" "d \<noteq> Sector_Unknown" and c: "c = alternate_sector d"
  defines "u \<equiv> and_upd (built cfg offset data (Some d) c v) (address_of cfg c) (header_bytes header_make_valid)"
  shows "header_valid (head_of cfg d u)"
proof -
  have cr: "c \<noteq> Sector_Unknown" "d \<noteq> c" using c d(2) by simp_all
  note st = built_stages [OF lay fits, where c = c and v = v and ex = "Some d"]
  have "same_sector cfg d v (built cfg offset data (Some d) c v)"
    using in_body_other [OF st(3) lay cr(1) d(2)] cr(2) by simp
  moreover have "same_sector cfg d (built cfg offset data (Some d) c v) u"
    unfolding u_def by (rule header_write_other(1) [OF lay cr(1) d(2)]) (use cr(2) in \<open>simp_all add: header_bytes_def\<close>)
  ultimately have "same_sector cfg d v u" by (simp add: same_sector_def)
  then show ?thesis
    using same_head layout_facts(2) [OF lay] current_valid [OF sane d] by metis
qed

text \<open>A write from a content with a current sector, up to the invalidation of that sector.\<close>

lemma replace_outcome:
  assumes live: "live_at v s" and lay: "dlay cfg" and sane: "dcd_sane cfg v"
    and d: "current_sector cfg view_ops v = d" "d \<noteq> Sector_Unknown"
    and fits: "offset + length data \<le> dcd_length cfg"
  defines "new \<equiv> dcd_updated (dcd_content cfg v) offset data"
  defines "P \<equiv> \<lambda>u. holds_old cfg (dcd_content cfg v) u \<or> holds_old cfg new u"
  obtains w where "holds_old cfg new w" "outcome P w
      (then_ok (write_sector cfg ops offset data (Some (address_of cfg d)) (alternate_sector d) s)
        (write_header cfg ops d header_make_invalid))"
proof -
  let ?c = "alternate_sector d"
  let ?b = "built cfg offset data (Some d) ?c v"
  let ?u = "and_upd ?b (address_of cfg ?c) (header_bytes header_make_valid)"
  let ?w = "and_upd ?u (address_of cfg d) (header_bytes header_make_invalid)"
  note torn = replace_torn [OF lay fits sane d refl]
  have h8: "length (header_bytes h) = 8" for h by (simp add: header_bytes_def)
  have torn3: "holds_old cfg new (and_upd ?u (address_of cfg d) (take j (header_bytes header_make_invalid)))" for j
    using torn(3) [of j] by (simp add: holds_old_def new_def Let_def)
  have Pu: "P ?u" using torn3 [of 0] by (simp add: P_def)
  have head: "P (and_upd ?b (address_of cfg ?c) (take k (header_bytes header_make_valid)))" if "k \<le> 8" for k
  proof (cases "k = 8")
    case True
    then show ?thesis using Pu h8 by simp
  next
    case False
    then show ?thesis using torn(2) [of k] that by (simp add: P_def holds_old_def Let_def)
  qed
  have Pv: "P v" using sane by (simp add: P_def holds_old_def)
  have Pin: "P x" if "in_body cfg ?c v x" for x using torn(1) [OF that] by (simp add: P_def holds_old_def)
  have cr: "?c \<noteq> Sector_Unknown" by simp
  have ex: "e \<noteq> Sector_Unknown \<and> e \<noteq> ?c" if "Some d = Some e" for e using that d(2) by simp
  have W: "outcome P ?u (write_sector cfg ops offset data (map_option (address_of cfg) (Some d)) ?c s)"
    by (rule write_sector_outcome [OF live lay cr ex fits Pv Pin head])
  have rng: "in_range (address_of cfg d) (length (header_bytes h))" for h
    using sector_range [OF lay, of d "address_of cfg d" 8] layout_facts(2) [OF lay] by (simp add: h8)
  have H: "outcome P ?w (write_header cfg ops d header_make_invalid t)" if "live_at ?u t" for t
    unfolding write_header_def
    by (rule outcome_write [OF that rng invalidate_fits [OF replace_head [OF lay fits sane d refl]]])
      (use torn3 in \<open>simp add: P_def\<close>)
  have F: "frozen P (snd (write_header cfg ops d header_make_invalid t))" if "frozen P t" for t
    using that rng by (simp add: write_header_def frozen_write)
  have "outcome P ?w (then_ok (write_sector cfg ops offset data (Some (address_of cfg d)) ?c s)
        (write_header cfg ops d header_make_invalid))"
    using outcome_then [OF W H F] by simp
  moreover have "holds_old cfg new ?w" using torn3 [of 8] h8 by simp
  ultimately show ?thesis by (rule that [rotated])
qed

lemma dcd_write_outcome:
  assumes live: "live_at v s" and lay: "dlay cfg" and sane: "dcd_sane cfg v"
    and fits: "offset + length data \<le> dcd_length cfg" and data: "data \<noteq> []"
    and res: "dcd_write cfg ops offset data s = (r, s')"
  defines "new \<equiv> dcd_updated (dcd_content cfg v) offset data"
  shows "ok s'" "holds_old cfg (dcd_content cfg v) (view s') \<or> holds_old cfg new (view s')"
    "\<not> dead s' \<Longrightarrow> r = DCD_SUCCESS \<and> holds_old cfg new (view s')"
proof -
  let ?old = "dcd_content cfg v"
  let ?P = "\<lambda>u. holds_old cfg ?old u \<or> holds_old cfg new u"
  obtain d s1 where cv: "current_valid_sector cfg ops s = (d, s1)" "d \<noteq> Sector_Unknown"
    and st: "(\<exists>w. live_at w s1 \<and> holds_old cfg ?old w \<and> current_sector cfg view_ops w = d)
      \<or> frozen (holds_old cfg ?old) s1"
    by (rule current_valid_outcome [OF live lay sane])
  let ?c = "alternate_sector d"
  have len: "(offset + length data) mod 2 ^ 32 \<le> dcd_length cfg" "offset < dcd_length cfg"
  proof -
    show "offset < dcd_length cfg" using fits data by (cases data) auto
    show "(offset + length data) mod 2 ^ 32 \<le> dcd_length cfg" using fits mod_less_eq_dividend le_trans by blast
  qed
  have run: "dcd_write cfg ops offset data s =
      then_ok (write_sector cfg ops offset data (Some (address_of cfg d)) ?c s1)
        (write_header cfg ops d header_make_invalid)"
    using len data cv by (simp add: dcd_write_def not_less Let_def)
  have rng: "in_range (address_of cfg d) (length (header_bytes h))" for h
    using sector_range [OF lay, of d "address_of cfg d" 8] layout_facts(2) [OF lay] by (simp add: header_bytes_def)
  have fr_head: "frozen Q (snd (write_header cfg ops d header_make_invalid t))" if "frozen Q t" for Q t
    using that rng by (simp add: write_header_def frozen_write)
  have "frozen ?P s' \<or> (\<exists>w. holds_old cfg new w \<and> outcome ?P w (r, s'))"
    using st
  proof (elim disjE exE conjE)
    assume "frozen (holds_old cfg ?old) s1"
    then have "frozen ?P s1" by (simp add: frozen_def)
    then have "frozen ?P (snd (write_sector cfg ops offset data (Some (address_of cfg d)) ?c s1))"
      by (rule frozen_write_sector [OF _ lay fits]) simp
    then have "frozen ?P (snd (dcd_write cfg ops offset data s))"
      unfolding run by (rule frozen_then) (rule fr_head)
    then show ?thesis by (simp add: res)
  next
    fix w
    assume w: "live_at w s1" "holds_old cfg ?old w" "current_sector cfg view_ops w = d"
    then have old: "dcd_sane cfg w" "dcd_content cfg w = ?old" by (simp_all add: holds_old_def)
    show ?thesis
      using replace_outcome [OF w(1) lay old(1) w(3) cv(2) fits] run res
      unfolding old(2) new_def [symmetric] by metis
  qed
  then show "ok s'" "holds_old cfg ?old (view s') \<or> holds_old cfg new (view s')"
    "\<not> dead s' \<Longrightarrow> r = DCD_SUCCESS \<and> holds_old cfg new (view s')"
    by (auto simp: frozen_def outcome_def live_at_def DCD_SUCCESS_def)
qed

section \<open>Sequences of writes\<close>

lemma frozen_current_valid:
  assumes "frozen P s" "dlay cfg" "current_valid_sector cfg ops s = (d, s1)"
  shows "frozen P s1"
proof -
  have "frozen P (snd (write_sector cfg ops 0 [] None Sector_1 s))"
    by (rule frozen_write_sector [OF assms(1,2)]) simp_all
  then show ?thesis
    using assms(1,3) by (auto simp: current_valid_sector_def dcd_initialize_def Let_def split: if_splits)
qed

lemma frozen_dcd_write:
  assumes fr: "frozen P s" and lay: "dlay cfg" and small: "offset + length data < 2 ^ 32"
  shows "frozen P (snd (dcd_write cfg ops offset data s))"
proof (cases "dcd_length cfg \<le> offset \<or> dcd_length cfg < offset + length data \<or> data = []")
  case True
  then show ?thesis using fr small by (auto simp: dcd_write_def)
next
  case False
  obtain d s1 where cv: "current_valid_sector cfg ops s = (d, s1)" by fastforce
  have rng: "in_range (address_of cfg d) (length (header_bytes h))" for h
    using sector_range [OF lay, of d "address_of cfg d" 8] layout_facts(2) [OF lay] by (simp add: header_bytes_def)
  have "frozen P (snd (write_sector cfg ops offset data (Some (address_of cfg d)) (alternate_sector d) s1))"
    by (rule frozen_write_sector [OF frozen_current_valid [OF fr lay cv] lay]) (use False in auto)
  then show ?thesis
    using False small cv rng
    by (simp add: dcd_write_def Let_def not_le not_less frozen_then write_header_def frozen_write)
qed

lemma dcd_write_step:
  assumes live: "live_at v s" and lay: "dlay cfg" and sane: "dcd_sane cfg v"
    and small: "fst w + length (snd w) < 2 ^ 32"
  defines "s' \<equiv> snd (dcd_write cfg ops (fst w) (snd w) s)"
  shows "ok s' \<and> (holds_old cfg (dcd_content cfg v) (view s') \<and> dead s'
    \<or> holds_old cfg (dcd_effect cfg w (dcd_content cfg v)) (view s'))"
proof (cases "dcd_length cfg \<le> fst w \<or> dcd_length cfg < fst w + length (snd w) \<or> snd w = []")
  case True
  then have "s' = s" using small by (auto simp: s'_def dcd_write_def)
  moreover have "dcd_effect cfg w (dcd_content cfg v) = dcd_content cfg v"
    using True by (auto simp: dcd_effect_def dcd_updated_def)
  ultimately show ?thesis using live sane by (simp add: live_at_def holds_old_def)
next
  case False
  then have fits: "fst w + length (snd w) \<le> dcd_length cfg" "snd w \<noteq> []" by auto
  obtain r where r: "dcd_write cfg ops (fst w) (snd w) s = (r, s')" by (simp add: s'_def prod_eq_iff)
  have "dcd_effect cfg w (dcd_content cfg v) = dcd_updated (dcd_content cfg v) (fst w) (snd w)"
    using False by (simp add: dcd_effect_def)
  then show ?thesis using dcd_write_outcome [OF live lay sane fits r] by auto
qed

lemma dcd_run_frozen:
  "frozen P s \<Longrightarrow> dlay cfg \<Longrightarrow> (\<forall>w \<in> set ws. fst w + length (snd w) < 2 ^ 32) \<Longrightarrow>
     frozen P (dcd_run cfg ops ws s)"
  by (induction ws arbitrary: s) (auto simp: frozen_dcd_write)

theorem dcd_run_prefix:
  assumes "ok s" "dlay cfg" "dcd_sane cfg (view s)"
    and "\<forall>w \<in> set ws. fst w + length (snd w) < 2 ^ 32"
  shows "\<exists>n \<le> length ws. ok (dcd_run cfg ops ws s)
     \<and> holds_old cfg (fold (dcd_effect cfg) (take n ws) (dcd_content cfg (view s))) (view (dcd_run cfg ops ws s))
     \<and> (\<not> dead (dcd_run cfg ops ws s) \<longrightarrow> n = length ws)"
  using assms
proof (induction ws arbitrary: s)
  case Nil
  then show ?case by (simp add: holds_old_def)
next
  case (Cons w ws)
  let ?m = "dcd_content cfg (view s)" and ?t = "snd (dcd_write cfg ops (fst w) (snd w) s)"
  have run: "dcd_run cfg ops (w # ws) s = dcd_run cfg ops ws ?t" by simp
  show ?case
  proof (cases "dead s")
    case True
    then have "frozen (holds_old cfg ?m) s" using Cons.prems by (simp add: frozen_def holds_old_def)
    from dcd_run_frozen [OF this Cons.prems(2,4)] show ?thesis
      by (intro exI [of _ 0]) (auto simp: frozen_def)
  next
    case False
    then have live: "live_at (view s) s" using Cons.prems(1) by (simp add: live_at_def)
    have step: "ok ?t" "holds_old cfg ?m (view ?t) \<and> dead ?t \<or> holds_old cfg (dcd_effect cfg w ?m) (view ?t)"
      using dcd_write_step [OF live Cons.prems(2,3), of w] Cons.prems(4) by auto
    from step(2) show ?thesis
    proof
      assume "holds_old cfg ?m (view ?t) \<and> dead ?t"
      then have "frozen (holds_old cfg ?m) ?t" using step(1) by (simp add: frozen_def)
      then have "frozen (holds_old cfg ?m) (dcd_run cfg ops ws ?t)"
        by (rule dcd_run_frozen) (use Cons.prems in auto)
      then show ?thesis unfolding run by (intro exI [of _ 0]) (auto simp: frozen_def)
    next
      assume h: "holds_old cfg (dcd_effect cfg w ?m) (view ?t)"
      then have "dcd_sane cfg (view ?t)" "dcd_content cfg (view ?t) = dcd_effect cfg w ?m"
        by (simp_all add: holds_old_def)
      with Cons.IH [OF step(1) Cons.prems(2)] Cons.prems(4)
      obtain n where "n \<le> length ws" "ok (dcd_run cfg ops ws ?t)"
        "holds_old cfg (fold (dcd_effect cfg) (take n ws) (dcd_effect cfg w ?m)) (view (dcd_run cfg ops ws ?t))"
        "\<not> dead (dcd_run cfg ops ws ?t) \<longrightarrow> n = length ws" by auto
      then show ?thesis unfolding run by (intro exI [of _ "Suc n"]) auto
    qed
  qed
qed

section \<open>Reading\<close>

lemma sector_content_read:
  assumes "ok s" "dlay cfg" "offset + n \<le> dcd_length cfg"
  shows "st_read ops (address_of cfg d + 8 + offset) n s = take n (drop offset (sector_data cfg d (view s)))"
proof -
  obtain L where L: "dc_size cfg = L + 40" using layout_facts(2) [OF assms(2)] by (metis less_imp_add_positive add.commute)
  have "bytes_at (view s) (address_of cfg d + 8) L =
      bytes_at (view s) (address_of cfg d + 8) offset @ bytes_at (view s) (address_of cfg d + 8 + offset) n
      @ bytes_at (view s) (address_of cfg d + 8 + offset + n) (L - offset - n)"
    using assms(3) bytes_at_append [of "view s" "address_of cfg d + 8" offset "L - offset"]
      bytes_at_append [of "view s" "address_of cfg d + 8 + offset" n "L - offset - n"]
    by (simp add: dcd_length_def L)
  then show ?thesis
    using read_sector [OF assms(1,2), of d "address_of cfg d + 8 + offset" n] assms(3)
    by (simp add: sector_data_def dcd_length_def L)
qed

lemma dcd_read_content:
  assumes live: "live_at v s" and lay: "dlay cfg" and sane: "dcd_sane cfg v"
    and fits: "offset + n \<le> dcd_length cfg"
    and res: "dcd_read cfg ops offset s = (a, s')" and alive: "\<not> dead s'"
  shows "st_read ops a n s' = take n (drop offset (dcd_content cfg v))"
    "ok s'" "dcd_sane cfg (view s')" "dcd_content cfg (view s') = dcd_content cfg v"
proof -
  obtain d s1 where cv: "current_valid_sector cfg ops s = (d, s1)" "d \<noteq> Sector_Unknown"
    and st: "(\<exists>w. live_at w s1 \<and> holds_old cfg (dcd_content cfg v) w \<and> current_sector cfg view_ops w = d)
      \<or> frozen (holds_old cfg (dcd_content cfg v)) s1"
    by (rule current_valid_outcome [OF live lay sane])
  have as: "a = address_of cfg d + 8 + offset" "s' = s1" using res cv(1) by (simp_all add: dcd_read_def)
  obtain w where w: "live_at w s1" "holds_old cfg (dcd_content cfg v) w" "current_sector cfg view_ops w = d"
    using st alive as(2) by (auto simp: frozen_def)
  have vw: "ok s1" "view s1 = w" using w(1) by (auto simp: live_at_def)
  then show "ok s'" "dcd_sane cfg (view s')" "dcd_content cfg (view s') = dcd_content cfg v"
    using w(2) as by (auto simp: holds_old_def)
  have "sector_data cfg d w = dcd_content cfg v"
    using w(2,3) cv(2) by (auto simp: holds_old_def dcd_content_def)
  then show "st_read ops a n s' = take n (drop offset (dcd_content cfg v))"
    using sector_content_read [OF vw(1) lay fits, of d] vw(2) as by simp
qed

end

end
