(* ===== verification/Dcd_Migration.thy ===== *)
theory Dcd_Migration
  imports Dcd_Correct
begin

text \<open>
  The migration of the first DCD format (\<open>UpdateDCD::migrate\<close>), with a power failure after any
  byte: either the other sector holds the old application data, or nothing is initialised yet and
  the old sector is untouched, so that the next boot migrates again.
\<close>

section \<open>What a migration leaves\<close>

definition migrated :: "dcd_cfg \<Rightarrow> u8 list \<Rightarrow> dcd_sector \<Rightarrow> (nat \<Rightarrow> u8) \<Rightarrow> bool" where
  "migrated cfg data c w \<longleftrightarrow> dcd_sane cfg w \<and> current_sector cfg view_ops w = c
     \<and> dcd_content cfg w = data @ replicate (dcd_length cfg - length data) 0xFF"

definition unmigrated :: "dcd_cfg \<Rightarrow> dcd_sector \<Rightarrow> (nat \<Rightarrow> u8) \<Rightarrow> (nat \<Rightarrow> u8) \<Rightarrow> bool" where
  "unmigrated cfg d v w \<longleftrightarrow> dcd_sane cfg w \<and> current_sector cfg view_ops w = Sector_Unknown
     \<and> same_sector cfg d v w"

definition old_data :: "dcd_cfg \<Rightarrow> dcd_sector \<Rightarrow> (nat \<Rightarrow> u8) \<Rightarrow> u8 list" where
  "old_data cfg d v = bytes_at v (address_of cfg d + OLD_FORMAT_OFFSET) (dc_size cfg - OLD_FORMAT_OFFSET)"

context flash_store
begin

lemma built_fresh:
  assumes lay: "dlay cfg" and fits: "length data \<le> dcd_length cfg"
  shows "sector_data cfg c (built cfg 0 data None c v) = data @ replicate (dcd_length cfg - length data) 0xFF"
proof -
  obtain L where L: "dc_size cfg = L + 40" using layout_facts(2) [OF lay] by (metis less_imp_add_positive add.commute)
  have len: "length data \<le> L" using fits by (simp add: dcd_length_def L)
  have "built cfg 0 data None c v (address_of cfg c + 8 + i) = (if i < length data then data ! i else 0xFF)" if "i < L" for i
    using that len
    by (simp add: built_def with_crc_def with_footer_def with_body_def body_of_def erased_def footer_offset_def L
        and_upd_def [of _ "address_of cfg c + 8"])
  then show ?thesis
    using len by (simp add: sector_data_def dcd_length_def L bytes_at_eq_iff nth_append)
qed

lemma fresh_torn:
  assumes lay: "dlay cfg" and sane: "dcd_sane cfg v" and none: "current_sector cfg view_ops v = Sector_Unknown"
    and fits: "length data \<le> dcd_length cfg" and c: "c \<noteq> Sector_Unknown"
  defines "b \<equiv> built cfg 0 data None c v"
  shows "\<And>w. in_body cfg c v w \<Longrightarrow> unmigrated cfg (alternate_sector c) v w"
    and "\<And>k. k < 8 \<Longrightarrow> unmigrated cfg (alternate_sector c) v
           (and_upd b (address_of cfg c) (take k (header_bytes header_make_valid)))"
    and "migrated cfg data c (and_upd b (address_of cfg c) (header_bytes header_make_valid))"
proof -
  let ?d = "alternate_sector c"
  note sz = layout_facts(2) [OF lay]
  have fits0: "0 + length data \<le> dcd_length cfg" using fits by simp
  note st = built_stages [OF lay fits0, where c = c and v = v and ex = None]
  have cr: "?d \<noteq> Sector_Unknown" "c \<noteq> ?d" using c by simp_all
  have cur: "current_sector cfg view_ops v \<noteq> c" using none c by simp
  have other: "same_sector cfg ?d v w" if "in_body cfg c v w" for w
    using in_body_other [OF that lay c cr(1)] cr(2) by simp
  have keep: "unmigrated cfg ?d v w" if "same_sector cfg ?d v w" "\<not> good_seal (head_of cfg c w)" for w
    using content_keep [OF lay c sane cur that] none that(1) by (simp add: unmigrated_def)
  have blank: "\<not> good_seal (bytes_header (replicate 8 0xFF))" using partial_header [of 0] by simp
  show "unmigrated cfg ?d v w" if w: "in_body cfg c v w" for w
    using keep [OF other [OF w]] blank in_body_head [OF w sz] by (simp add: sector_header_def)
  have same: "same_sector cfg ?d v (and_upd b (address_of cfg c) ds)" if "length ds \<le> 8" for ds
    using other [OF st(3)] header_write_other(1) [OF lay c cr(1,2) that, of b]
    by (simp add: same_sector_def b_def)
  show "unmigrated cfg ?d v (and_upd b (address_of cfg c) (take k (header_bytes header_make_valid)))"
    if k: "k < 8" for k
    by (rule keep [OF same])
      (use built_head [OF lay fits0, of k c None v] partial_header [OF k] k in \<open>simp_all add: b_def header_take_length\<close>)
  let ?w = "and_upd b (address_of cfg c) (header_bytes header_make_valid)"
  have h8: "length (header_bytes header_make_valid) \<le> 8" by (simp add: header_bytes_def)
  have hc: "head_of cfg c ?w = header_make_valid"
    using built_head [OF lay fits0, of 8 c None v] full_header by (simp add: b_def header_bytes_def)
  have "\<not> header_valid (head_of cfg ?d v)" using none c by (cases c) (simp_all add: current_none)
  moreover have "head_of cfg ?d ?w = head_of cfg ?d v" by (rule same_head [OF same [OF h8] sz])
  ultimately have hd: "\<not> good_seal (head_of cfg ?d ?w)"
    using sane c by (cases c) (auto simp: dcd_sane_def header_valid_good)
  have cur_w: "current_sector cfg view_ops ?w = c"
    using hc hd by (intro current_only [OF c]) (simp_all add: header_valid_good)
  have "sector_data cfg c ?w = sector_data cfg c b"
    by (rule same_body_facts(3) [OF header_write_other(2) [OF lay c cr h8] sz])
  moreover have "dcd_sane cfg ?w" using hc hd c by (cases c) (simp_all add: dcd_sane_def)
  ultimately show "migrated cfg data c ?w"
    using built_fresh [OF lay fits, of c v] cur_w c by (simp add: migrated_def dcd_content_def b_def)
qed

lemma fresh_outcome:
  assumes live: "live_at v s" and lay: "dlay cfg" and sane: "dcd_sane cfg v"
    and none: "current_sector cfg view_ops v = Sector_Unknown"
    and fits: "length data \<le> dcd_length cfg" and c: "c \<noteq> Sector_Unknown"
  defines "t \<equiv> snd (write_sector cfg ops 0 data None c s)"
  shows "ok t \<and> (migrated cfg data c (view t) \<or> dead t \<and> unmigrated cfg (alternate_sector c) v (view t))"
proof -
  let ?P = "\<lambda>w. migrated cfg data c w \<or> unmigrated cfg (alternate_sector c) v w"
  let ?w = "and_upd (built cfg 0 data None c v) (address_of cfg c) (header_bytes header_make_valid)"
  note torn = fresh_torn [OF lay sane none fits c]
  have h8: "take 8 (header_bytes header_make_valid) = header_bytes header_make_valid" by (simp add: header_bytes_def)
  have head: "?P (and_upd (built cfg 0 data None c v) (address_of cfg c) (take k (header_bytes header_make_valid)))"
    if "k \<le> 8" for k
    using that torn(2) [of k] torn(3) h8 by (cases "k = 8") auto
  have "outcome ?P ?w (write_sector cfg ops 0 data (map_option (address_of cfg) None) c s)"
    by (rule write_sector_outcome [OF live lay c])
      (use fits torn sane none head in \<open>auto simp: unmigrated_def same_sector_def\<close>)
  then show ?thesis using torn(3) by (auto simp: outcome_def live_at_def frozen_def t_def)
qed

section \<open>The migration\<close>

lemma initialized_view:
  assumes "ok s" "dlay cfg"
  shows "is_initialized cfg ops s \<longleftrightarrow> current_sector cfg view_ops (view s) \<noteq> Sector_Unknown"
  using read_views(1) [OF assms, of Sector_0] read_views(1) [OF assms, of Sector_1]
  by (auto simp: is_initialized_def sector_valid_def current_none)

lemma old_format_view:
  assumes "ok s" "dlay cfg"
  shows "is_current_old ops (address_of cfg d) s \<longleftrightarrow>
    view s (address_of cfg d + 8) = 0 \<and> view s (address_of cfg d + 9) = 1"
  using layout_facts(2) [OF assms(2)] read_sector [OF assms, of d "address_of cfg d + 8" 1] bytes_at_eq_iff [of "view s" _ 1]
    read_sector [OF assms, of d "address_of cfg d + 9" 1]
  by (simp add: is_current_old_def bytes_at_eq_iff)

lemma migrate_outcome:
  assumes live: "live_at v s" and lay: "dlay cfg" and sane: "dcd_sane cfg v" and big: "OLD_FORMAT_OFFSET \<le> dc_size cfg"
    and none: "current_sector cfg view_ops v = Sector_Unknown"
    and old: "view s (address_of cfg Sector_0 + 8) = 0" "view s (address_of cfg Sector_0 + 9) = 1"
  defines "t \<equiv> dcd_migrate cfg ops s"
  shows "ok t" "migrated cfg (old_data cfg Sector_0 v) Sector_1 (view t)
    \<or> dead t \<and> unmigrated cfg Sector_0 v (view t)"
proof -
  have s: "ok s" "view s = v" using live by (auto simp: live_at_def)
  have rd: "st_read ops (address_of cfg Sector_0 + OLD_FORMAT_OFFSET) (dc_size cfg - OLD_FORMAT_OFFSET) s
      = old_data cfg Sector_0 v"
    using read_sector [OF s(1) lay, of Sector_0] big s(2) by (simp add: old_data_def)
  have "is_current_old ops (dc_addr1 cfg) s"
    using old_format_view [OF s(1) lay, of Sector_0] old by (simp add: address_of_def)
  then have "t = snd (write_sector cfg ops 0 (old_data cfg Sector_0 v) None Sector_1 s)"
    using initialized_view [OF s(1) lay] none s(2) rd
    by (simp add: t_def dcd_migrate_def initialize_from_sector_def address_of_def)
  moreover have "length (old_data cfg Sector_0 v) \<le> dcd_length cfg"
    by (auto simp: old_data_def dcd_length_def OLD_FORMAT_OFFSET_def)
  ultimately show "ok t" "migrated cfg (old_data cfg Sector_0 v) Sector_1 (view t)
    \<or> dead t \<and> unmigrated cfg Sector_0 v (view t)"
    using fresh_outcome [OF live lay sane none, of "old_data cfg Sector_0 v" Sector_1] by simp_all
qed

text \<open>Initialising formats one sector, whatever it held.\<close>

lemma initialize_outcome:
  assumes live: "live_at v s" and lay: "dlay cfg" and c: "c \<noteq> Sector_Unknown"
    and res: "dcd_initialize cfg ops c s = (r, t)"
  shows "ok t"
    "dead t \<or> r = 0 \<and> sector_header cfg ops c t = header_make_valid \<and> crc_valid cfg ops c t
       \<and> footer_valid (sector_footer cfg ops c t) \<and> footer_counter (sector_footer cfg ops c t) = 0
       \<and> df_mysize (sector_footer cfg ops c t) = 4
       \<and> sector_data cfg c (view t) = replicate (dcd_length cfg) 0xFF"
proof -
  let ?b = "built cfg 0 [] None c v"
  let ?w = "and_upd ?b (address_of cfg c) (header_bytes header_make_valid)"
  note sz = layout_facts(2) [OF lay]
  have fits: "0 + length ([] :: u8 list) \<le> dcd_length cfg" by simp
  note st = built_stages [OF lay fits, where c = c and v = v and ex = None]
  have out: "outcome (\<lambda>_. True) ?w (r, t)"
    using write_sector_outcome [OF live lay c _ fits, of None "\<lambda>_. True"] res by (simp add: dcd_initialize_def)
  then show okt: "ok t" by (auto simp: outcome_def live_at_def frozen_def)
  have h8: "length (header_bytes header_make_valid) \<le> 8" by (simp add: header_bytes_def)
  have body: "same_body cfg c ?b ?w"
    by (rule header_write_other(2) [OF lay c _ _ h8, of "alternate_sector c"]) (use c in simp_all)
  have hd: "head_of cfg c ?w = header_make_valid"
    using built_head [OF lay fits, of 8 c None v] full_header by (simp add: header_bytes_def)
  have ft: "\<exists>k. foot_of cfg c ?w = new_footer cfg None\<lparr>df_crc := k\<rparr>"
    using same_body_facts(1) [OF body sz] st(6) by (simp add: old_footer_def) blast
  have crc: "crc_valid cfg view_ops c ?w" "footer_counter (foot_of cfg c ?w) = 0"
    using built_crc [OF lay fits c body] by (simp_all add: old_footer_def next_counter_def)
  have data: "sector_data cfg c ?w = replicate (dcd_length cfg) 0xFF"
    using same_body_facts(3) [OF body sz] built_blank [OF lay] by simp
  have "df_mysize (foot_of cfg c ?w) = 4" "footer_valid (foot_of cfg c ?w)"
    using ft by (auto simp: new_footer_def footer_set_counter_def footer_initialize_def footer_valid_def)
  then show "dead t \<or> r = 0 \<and> sector_header cfg ops c t = header_make_valid \<and> crc_valid cfg ops c t
       \<and> footer_valid (sector_footer cfg ops c t) \<and> footer_counter (sector_footer cfg ops c t) = 0
       \<and> df_mysize (sector_footer cfg ops c t) = 4
       \<and> sector_data cfg c (view t) = replicate (dcd_length cfg) 0xFF"
    using out hd crc data read_views [OF okt lay] by (auto simp: outcome_def live_at_def frozen_def)
qed

end

end
