(* ===== verification/Dcd_Properties.thy ===== *)
theory Dcd_Properties
  imports Dcd_Migration
begin

text \<open>
  What the DCD guarantees on every store that keeps the contract \<open>flash_store\<close>: the mock
  \<open>RAMFlashStorage\<close> with a power failure after any byte and, through the chip locales, the
  internal and the serial flash.
\<close>

section \<open>A concrete device\<close>

definition tiny_geometry :: flash_geometry where
  "tiny_geometry = \<lparr>fl_base = 0, fl_sectors = 2, fl_sector_size = 48\<rparr>"

definition tiny_crc :: "u8 list \<Rightarrow> u32" where
  "tiny_crc bs = ucast (fold (+) bs 0)"

definition tiny_cfg :: dcd_cfg where
  "tiny_cfg = \<lparr>dc_size = 48, dc_addr1 = 0, dc_addr2 = 48, dc_crc = tiny_crc,
     dc_uninit = \<lparr>df_reserved = replicate 16 0, df_flags = 0, df_reserved2 = replicate 3 0, df_pad = 0,
       df_version = 0, df_mysize = 0, df_watermark = 0, df_crc = 0\<rparr>\<rparr>"

definition tiny_flash :: "int \<Rightarrow> ram_flash" where
  "tiny_flash n = \<lparr>rf_memory = replicate 96 0xFF, rf_write_count = n, rf_erase_count = 0\<rparr>"

definition tiny_writes :: "(nat \<times> u8 list) list" where
  "tiny_writes = [(0, [1, 2, 3]), (2, [9, 9]), (7, [1, 1])]"

lemma tiny_layout: "dcd_layout (ram_is_sector tiny_geometry) tiny_cfg"
  by (simp add: dcd_layout_def ram_is_sector_def ram_in_range_def tiny_geometry_def tiny_cfg_def flash_bytes_def)

lemma tiny_ok: "0 \<le> n \<Longrightarrow> ram_ok tiny_geometry (tiny_flash n)"
  by (simp add: ram_ok_def tiny_flash_def tiny_geometry_def flash_bytes_def)

lemma tiny_small: "\<forall>w \<in> set tiny_writes. fst w + length (snd w) < 2 ^ 32"
  by (simp add: tiny_writes_def)

lemma tiny_view: "ram_view tiny_geometry (tiny_flash n) = (\<lambda>x. if x < 96 then 0xFF else 0)"
  by (rule ext) (simp add: ram_view_def tiny_geometry_def tiny_flash_def flash_bytes_def)

lemma tiny_heads: "\<not> good_seal (head_of tiny_cfg c (ram_view tiny_geometry (tiny_flash n)))"
proof -
  have "bytes_at (ram_view tiny_geometry (tiny_flash n)) (address_of tiny_cfg c) 8 = replicate 8 0xFF"
    by (auto simp: tiny_view bytes_at_eq_iff address_of_def tiny_cfg_def)
  then show ?thesis using partial_header [of 0] by (simp add: sector_header_def)
qed

lemma tiny_sane: "dcd_sane tiny_cfg (ram_view tiny_geometry (tiny_flash n))"
  using tiny_heads by (simp add: dcd_sane_def)

lemma tiny_blank: "dcd_content tiny_cfg (ram_view tiny_geometry (tiny_flash n)) = replicate 8 0xFF"
proof -
  have "current_sector tiny_cfg view_ops (ram_view tiny_geometry (tiny_flash n)) = Sector_Unknown"
    using tiny_heads by (simp add: current_none header_valid_good)
  then show ?thesis by (simp add: dcd_content_def dcd_length_def tiny_cfg_def)
qed

section \<open>Properties\<close>

text \<open>
  C5: Writes to the DCD are all or nothing.  On any flash, whatever the moment at which the power fails
  (the mock store stops after any byte), the content after a sequence of writes is what some
  prefix of the sequence makes of the content before, where a write replaces the bytes of its range
  and a write outside the application data does nothing; with the power on, it is the effect of
  all of them.  So it is for every sequence that starts where this one ends.
\<close>

theorem dcd_power_failure:
  assumes "flash_store ops view dead ok in_range is_sector"
    and "ok s" "dcd_layout is_sector cfg" "dcd_sane cfg (view s)"
    and "\<forall>w \<in> set ws. fst w + length (snd w) < 2 ^ 32"
  shows "let t = dcd_run cfg ops ws s in
    ok t \<and> dcd_sane cfg (view t)
    \<and> (\<exists>n \<le> length ws. dcd_content cfg (view t) = fold (dcd_effect cfg) (take n ws) (dcd_content cfg (view s))
         \<and> (\<not> dead t \<longrightarrow> n = length ws))"
  using flash_store.dcd_run_prefix [OF assms] unfolding holds_old_def Let_def by blast

lemma dcd_power_failure_witness:
  "dcd_content tiny_cfg (ram_view tiny_geometry (dcd_run tiny_cfg (ram_store tiny_geometry) tiny_writes (tiny_flash 200)))
    \<in> {replicate 8 0xFF, [1, 2, 3, 255, 255, 255, 255, 255], [1, 2, 9, 9, 255, 255, 255, 255]}"
proof -
  let ?t = "dcd_run tiny_cfg (ram_store tiny_geometry) tiny_writes (tiny_flash 200)"
  let ?m = "\<lambda>n. fold (dcd_effect tiny_cfg) (take n tiny_writes) (replicate 8 0xFF)"
  have len: "length tiny_writes = 3" by (simp add: tiny_writes_def)
  have ok: "ram_ok tiny_geometry (tiny_flash 200)" by (simp add: tiny_ok)
  obtain n where n: "n \<le> 3" "dcd_content tiny_cfg (ram_view tiny_geometry ?t) = ?m n"
    using dcd_power_failure [OF ram.flash_store_axioms ok tiny_layout tiny_sane tiny_small]
    unfolding Let_def tiny_blank len by blast
  have m: "?m 0 = replicate 8 0xFF" "?m 1 = [1, 2, 3, 255, 255, 255, 255, 255]"
    "?m 2 = [1, 2, 9, 9, 255, 255, 255, 255]" "?m 3 = ?m 2" by (simp_all add: tiny_writes_def dcd_effect_def dcd_updated_def dcd_length_def tiny_cfg_def numeral_eq_Suc)
  have "n = 0 \<or> n = 1 \<or> n = 2 \<or> n = 3" using n(1) by linarith
  then show ?thesis unfolding n(2) by (elim disjE; simp only: m insert_iff simp_thms)
qed

text \<open>
  C6: Reading.  The address that \<open>read\<close> returns points at the content: \<open>n\<close> bytes from there are
  the bytes \<open>offset .. offset + n\<close> of it, and 0xFF everywhere on a store without a valid
  sector, which \<open>read\<close> initialises first; it leaves the content as it is.
\<close>

theorem dcd_read_returns:
  assumes "flash_store ops view dead ok in_range is_sector"
    and "ok s" "dcd_layout is_sector cfg" "dcd_sane cfg (view s)"
    and "offset + n \<le> dcd_length cfg" "dcd_read cfg ops offset s = (a, t)" "\<not> dead s" "\<not> dead t"
  shows "st_read ops a n t = take n (drop offset (dcd_content cfg (view s)))
    \<and> ok t \<and> dcd_sane cfg (view t) \<and> dcd_content cfg (view t) = dcd_content cfg (view s)"
  using flash_store.dcd_read_content [OF assms(1) _ assms(3,4,5,6) assms(8)] assms(2,7)
  by (auto simp: flash_store.live_at_def [OF assms(1)])

text \<open>An image whose second sector holds 1, 2, ..., 8.\<close>

definition tiny_image :: ram_flash where
  "tiny_image = \<lparr>rf_memory = replicate 48 0xFF @ header_bytes header_make_valid @ [1, 2, 3, 4, 5, 6, 7, 8]
      @ replicate 32 0xFF, rf_write_count = 10, rf_erase_count = 0\<rparr>"

lemma tiny_image_reads:
  "st_read (ram_store tiny_geometry) 0 8 tiny_image = replicate 8 0xFF"
  "st_read (ram_store tiny_geometry) 48 8 tiny_image = header_bytes header_make_valid"
  by (simp_all add: ram_store_def ram_data_at_def is_valid_range_def tiny_geometry_def flash_bytes_def
      tiny_image_def header_bytes_def)

lemma tiny_image_ok: "ram_ok tiny_geometry tiny_image"
  by (simp add: ram_ok_def tiny_image_def tiny_geometry_def flash_bytes_def header_bytes_def)

lemma tiny_image_heads:
  "sector_header tiny_cfg (ram_store tiny_geometry) Sector_1 tiny_image = header_make_valid"
  "\<not> good_seal (sector_header tiny_cfg (ram_store tiny_geometry) Sector_0 tiny_image)"
  using tiny_image_reads full_header partial_header [of 0]
  by (simp_all add: sector_header_def address_of_def tiny_cfg_def)

lemma tiny_image_current: "current_sector tiny_cfg (ram_store tiny_geometry) tiny_image = Sector_1"
  using tiny_image_heads
  by (simp add: current_sector_def find_valid_sector_def evaluate_sectors_def header_valid_good)
    (simp add: good_seal_def)

lemma tiny_image_sane: "dcd_sane tiny_cfg (ram_view tiny_geometry tiny_image)"
  using tiny_image_heads ram.read_views(1) [OF tiny_image_ok tiny_layout] by (simp add: dcd_sane_def)

lemma dcd_read_returns_witness:
  "dcd_read tiny_cfg (ram_store tiny_geometry) 1 tiny_image = (57, tiny_image)
   \<and> st_read (ram_store tiny_geometry) 57 3 tiny_image
     = take 3 (drop 1 (dcd_content tiny_cfg (ram_view tiny_geometry tiny_image)))"
proof -
  have alive: "\<not> ram_dead tiny_image" by (simp add: ram_dead_def tiny_image_def)
  have fits: "1 + 3 \<le> dcd_length tiny_cfg" by (simp add: dcd_length_def tiny_cfg_def)
  have run: "dcd_read tiny_cfg (ram_store tiny_geometry) 1 tiny_image = (57, tiny_image)"
    using tiny_image_current
    by (simp add: dcd_read_def current_valid_sector_def address_of_def tiny_cfg_def)
  show ?thesis
    using dcd_read_returns [OF ram.flash_store_axioms tiny_image_ok tiny_layout tiny_image_sane fits run alive alive] run by simp
qed

text \<open>
  C7: The result of \<open>write\<close>.  A write whose range lies in the application data succeeds when the power
  stays on, whatever is in flash (an empty one writes nothing); an offset at or beyond the end and
  a range that ends beyond it are refused with their error code, and the store is not touched.
\<close>

theorem dcd_write_results:
  assumes "flash_store ops view dead ok in_range is_sector"
    and "ok s" "dcd_layout is_sector cfg" "dcd_sane cfg (view s)" "\<not> dead s"
    and "offset + length data < 2 ^ 32" "dcd_write cfg ops offset data s = (r, t)"
  shows "(dcd_length cfg \<le> offset \<longrightarrow> r = DCD_INVALID_OFFSET \<and> t = s)
    \<and> (offset < dcd_length cfg \<and> dcd_length cfg < offset + length data \<longrightarrow> r = DCD_INVALID_LENGTH \<and> t = s)
    \<and> (offset < dcd_length cfg \<and> offset + length data \<le> dcd_length cfg \<and> \<not> dead t \<longrightarrow> r = DCD_SUCCESS)"
proof (intro conjI impI)
  assume "offset < dcd_length cfg \<and> offset + length data \<le> dcd_length cfg \<and> \<not> dead t"
  then show "r = DCD_SUCCESS"
    using flash_store.dcd_write_outcome(3) [OF assms(1) _ assms(3,4) _ _ assms(7)] assms(2,5,6,7)
    by (cases "data = []") (auto simp: flash_store.live_at_def [OF assms(1)] dcd_write_def)
qed (use assms(6,7) in \<open>auto simp: dcd_write_def\<close>)

lemma dcd_write_results_witness:
  "dcd_write tiny_cfg (ram_store tiny_geometry) 7 [4, 5] (tiny_flash 500) = (DCD_INVALID_LENGTH, tiny_flash 500)"
proof -
  have ok: "ram_ok tiny_geometry (tiny_flash 500)" "\<not> ram_dead (tiny_flash 500)"
    using tiny_ok [of 500] by (simp_all add: ram_dead_def tiny_flash_def)
  have small: "7 + length [4 :: u8, 5] < 2 ^ 32" by simp
  obtain r t where res: "dcd_write tiny_cfg (ram_store tiny_geometry) 7 [4, 5] (tiny_flash 500) = (r, t)" by fastforce
  have L: "dcd_length tiny_cfg = 8" by (simp add: dcd_length_def tiny_cfg_def)
  show ?thesis
    using dcd_write_results [OF ram.flash_store_axioms ok(1) tiny_layout tiny_sane ok(2) small res] res
    unfolding L by simp
qed










text \<open>
  Living with the old format.  Whenever one sector is valid and the other one carries neither of the
  two valid seals (the first version of the code clears the seal of the old sector to 0), the valid
  sector is the current one, whatever its CRC and the counters are.
\<close>

theorem dcd_v1_sector_chosen:
  assumes "c \<noteq> Sector_Unknown" "header_valid (sector_header cfg ops c s)"
    and "dh_seal (sector_header cfg ops (alternate_sector c) s) \<notin> {SEAL_VALID, SEAL_INVALID_V2}"
  shows "current_sector cfg ops s = c"
  using assms
  by (cases c) (auto simp: current_sector_def find_valid_sector_def evaluate_sectors_def header_valid_def Let_def)

lemma dcd_v1_sector_chosen_witness: "current_sector tiny_cfg (ram_store tiny_geometry) tiny_image = Sector_1"
  using dcd_v1_sector_chosen [of Sector_1 tiny_cfg "ram_store tiny_geometry" tiny_image] tiny_image_heads
  by (simp add: header_valid_good good_seal_def)

text \<open>
  Initialising a sector formats it, whatever it held: unless the power fails, the result is 0, the header is
  valid, the CRC is right, the counter is 0 and the application data is 0xFF.  The size field
  of the footer says 4, the size of a pointer, although the footer has 32 bytes.
\<close>

theorem dcd_initialize_formats:
  assumes "flash_store ops view dead ok in_range is_sector"
    and "ok s" "dcd_layout is_sector cfg" "\<not> dead s" "c \<noteq> Sector_Unknown"
    and "dcd_initialize cfg ops c s = (r, t)"
  shows "dead t \<or> r = 0 \<and> sector_header cfg ops c t = header_make_valid \<and> crc_valid cfg ops c t
     \<and> footer_valid (sector_footer cfg ops c t) \<and> footer_counter (sector_footer cfg ops c t) = 0
     \<and> df_mysize (sector_footer cfg ops c t) = 4
     \<and> sector_data cfg c (view t) = replicate (dcd_length cfg) 0xFF"
  using flash_store.initialize_outcome(2) [OF assms(1) _ assms(3,5,6)] assms(2,4)
  by (simp add: flash_store.live_at_def [OF assms(1)])

lemma dcd_initialize_formats_witness:
  "let (r, t) = dcd_initialize tiny_cfg (ram_store tiny_geometry) Sector_1 (tiny_flash 500)
   in ram_dead t \<or> r = 0 \<and> is_initialized tiny_cfg (ram_store tiny_geometry) t"
proof -
  have ok: "ram_ok tiny_geometry (tiny_flash 500)" "\<not> ram_dead (tiny_flash 500)"
    using tiny_ok [of 500] by (simp_all add: ram_dead_def tiny_flash_def)
  obtain r t where res: "dcd_initialize tiny_cfg (ram_store tiny_geometry) Sector_1 (tiny_flash 500) = (r, t)"
    by fastforce
  show ?thesis
    using dcd_initialize_formats [OF ram.flash_store_axioms ok(1) tiny_layout ok(2) _ res] res
    by (auto simp: is_initialized_def sector_valid_def header_valid_good Let_def)
qed

end
