(* ===== verification/Fixed_Containers.thy ===== *)
theory Fixed_Containers
  imports Prelude
begin

text \<open>
  The small containers of the firmware: \<open>FixedQueue\<close> (\<open>services/inc/fixed_queue.h\<close>), the index
  arithmetic of the ring buffers of the USB and UART drivers
  (\<open>services/inc/ringbuf_helper.h\<close>, on 32-bit words) and \<open>append_list\<close>
  (\<open>system/inc/append_list.h\<close>).

  The locale \<open>bounded_queue\<close> is what a client of a queue with a fixed capacity relies on; its
  client lemma says that any sequence of operations behaves as on a list.
\<close>

section \<open>The contract of a bounded queue\<close>

datatype 'a queue_op = Push 'a | Pop

datatype 'a queue_out = Pushed bool | Popped 'a

text \<open>A queue of at most \<open>cap\<close> elements on lists; \<open>pop\<close> on the empty queue gives a default.\<close>

fun list_queue_step :: "nat \<Rightarrow> 'a \<Rightarrow> 'a queue_op \<Rightarrow> 'a list \<Rightarrow> 'a queue_out \<times> 'a list" where
  "list_queue_step cap d (Push x) xs =
     (if length xs < cap then (Pushed True, xs @ [x]) else (Pushed False, xs))"
| "list_queue_step cap d Pop [] = (Popped d, [])"
| "list_queue_step cap d Pop (x # xs) = (Popped x, xs)"

primrec run_ops :: "('o \<Rightarrow> 's \<Rightarrow> 'r \<times> 's) \<Rightarrow> 'o list \<Rightarrow> 's \<Rightarrow> 'r list \<times> 's" where
  "run_ops step [] s = ([], s)"
| "run_ops step (p # ps) s =
     (let (r, s1) = step p s; (rs, s2) = run_ops step ps s1 in (r # rs, s2))"

locale bounded_queue =
  fixes push :: "'a \<Rightarrow> 'q \<Rightarrow> bool \<times> 'q"
    and pop :: "'q \<Rightarrow> 'a \<times> 'q"
    and contents :: "'q \<Rightarrow> 'a list"
    and wf :: "'q \<Rightarrow> bool"
    and bound :: "'q \<Rightarrow> nat"
    and default :: 'a
  assumes within: "wf q \<Longrightarrow> length (contents q) \<le> bound q"
    and push_wf: "wf q \<Longrightarrow> wf (snd (push x q)) \<and> bound (snd (push x q)) = bound q"
    and push_room: "wf q \<Longrightarrow> length (contents q) < bound q \<Longrightarrow>
        fst (push x q) \<and> contents (snd (push x q)) = contents q @ [x]"
    and push_full: "wf q \<Longrightarrow> length (contents q) = bound q \<Longrightarrow>
        \<not> fst (push x q) \<and> contents (snd (push x q)) = contents q"
    and pop_wf: "wf q \<Longrightarrow> wf (snd (pop q)) \<and> bound (snd (pop q)) = bound q"
    and pop_some: "wf q \<Longrightarrow> contents q = x # xs \<Longrightarrow> fst (pop q) = x \<and> contents (snd (pop q)) = xs"
    and pop_none: "wf q \<Longrightarrow> contents q = [] \<Longrightarrow> fst (pop q) = default \<and> contents (snd (pop q)) = []"
begin

fun queue_step :: "'a queue_op \<Rightarrow> 'q \<Rightarrow> 'a queue_out \<times> 'q" where
  "queue_step (Push x) q = (let (b, q') = push x q in (Pushed b, q'))"
| "queue_step Pop q = (let (x, q') = pop q in (Popped x, q'))"

lemma step_refines:
  assumes "wf q"
  shows "wf (snd (queue_step p q)) \<and> bound (snd (queue_step p q)) = bound q
    \<and> (fst (queue_step p q), contents (snd (queue_step p q))) = list_queue_step (bound q) default p (contents q)"
proof (cases p)
  case (Push x)
  then show ?thesis
    using push_wf [OF assms, of x] push_room [OF assms, of x] push_full [OF assms, of x] within [OF assms]
    by (cases "length (contents q) < bound q") (auto split: prod.splits)
next
  case Pop
  then show ?thesis
    using pop_wf [OF assms] pop_some [OF assms] pop_none [OF assms]
    by (cases "contents q") (auto split: prod.splits)
qed

theorem run_refines:
  "wf q \<Longrightarrow> wf (snd (run_ops queue_step ps q)) \<and> (fst (run_ops queue_step ps q), contents (snd (run_ops queue_step ps q)))
     = run_ops (list_queue_step (bound q) default) ps (contents q)"
proof (induction ps arbitrary: q)
  case (Cons p ps)
  obtain r q1 where q1: "queue_step p q = (r, q1)" by fastforce
  have "wf q1" "bound q1 = bound q" "list_queue_step (bound q) default p (contents q) = (r, contents q1)"
    using step_refines [OF Cons.prems, of p] q1 by auto
  then show ?case using Cons.IH [of q1] q1 by (auto split: prod.splits)
qed simp

end

section \<open>FixedQueue\<close>

record 'a fixed_queue =
  fq_capacity :: nat
  fq_size :: nat
  fq_head :: nat
  fq_tail :: nat
  fq_data :: "'a list"

definition fq_clear :: "'a fixed_queue \<Rightarrow> 'a fixed_queue" where
  "fq_clear q = q\<lparr>fq_size := 0, fq_head := 0, fq_tail := 0\<rparr>"

text \<open>\<open>junk\<close> is what \<open>new ValueType[capacity]\<close> leaves in the array.\<close>

definition fq_reallocate :: "(nat \<Rightarrow> 'a) \<Rightarrow> nat \<Rightarrow> 'a fixed_queue \<Rightarrow> 'a fixed_queue" where
  "fq_reallocate junk capacity q = fq_clear (q\<lparr>fq_capacity := capacity, fq_data := map junk [0..<capacity]\<rparr>)"

definition fq_empty_queue :: "'a fixed_queue" where
  "fq_empty_queue = \<lparr>fq_capacity = 0, fq_size = 0, fq_head = 0, fq_tail = 0, fq_data = []\<rparr>"

definition fq_new :: "(nat \<Rightarrow> 'a) \<Rightarrow> nat \<Rightarrow> 'a fixed_queue" where
  "fq_new junk capacity = fq_reallocate junk capacity fq_empty_queue"

definition fq_empty :: "'a fixed_queue \<Rightarrow> bool" where
  "fq_empty q \<longleftrightarrow> fq_size q = 0"

definition fq_full :: "'a fixed_queue \<Rightarrow> bool" where
  "fq_full q \<longleftrightarrow> fq_capacity q \<le> fq_size q"

definition fq_push :: "'a \<Rightarrow> 'a fixed_queue \<Rightarrow> bool \<times> 'a fixed_queue" where
  "fq_push value q =
     (if fq_full q then (False, q)
      else (True, q\<lparr>fq_data := (fq_data q)[fq_tail q := value],
                    fq_tail := (fq_tail q + 1) mod fq_capacity q,
                    fq_size := fq_size q + 1\<rparr>))"

text \<open>\<open>zero\<close> is the value-initialised \<open>ValueType {}\<close>.\<close>

definition fq_pop :: "'a \<Rightarrow> 'a fixed_queue \<Rightarrow> 'a \<times> 'a fixed_queue" where
  "fq_pop zero q =
     (if \<not> fq_empty q
      then (fq_data q ! fq_head q,
            q\<lparr>fq_head := (fq_head q + 1) mod fq_capacity q, fq_size := fq_size q - 1\<rparr>)
      else (zero, q))"

definition fq_contents :: "'a fixed_queue \<Rightarrow> 'a list" where
  "fq_contents q = map (\<lambda>i. fq_data q ! ((fq_head q + i) mod fq_capacity q)) [0..<fq_size q]"

definition fq_wf :: "'a fixed_queue \<Rightarrow> bool" where
  "fq_wf q \<longleftrightarrow> length (fq_data q) = fq_capacity q \<and> fq_size q \<le> fq_capacity q
     \<and> (fq_capacity q = 0 \<or> fq_head q < fq_capacity q)
     \<and> (fq_capacity q = 0 \<or> fq_tail q = (fq_head q + fq_size q) mod fq_capacity q)"

lemma fq_new_wf: "fq_wf (fq_new junk capacity)" "fq_contents (fq_new junk capacity) = []"
  "fq_capacity (fq_new junk capacity) = capacity"
  by (auto simp: fq_new_def fq_reallocate_def fq_clear_def fq_wf_def fq_contents_def fq_empty_queue_def)

lemma mod_add_inj: "h < c \<Longrightarrow> i < c \<Longrightarrow> j < c \<Longrightarrow> (h + i) mod c = (h + j) mod c \<longleftrightarrow> i = (j :: nat)"
  by (auto simp: mod_if split: if_splits)

lemma fq_push_contents:
  assumes "fq_wf q" "fq_size q < fq_capacity q"
  shows "fq_contents (snd (fq_push x q)) = fq_contents q @ [x]"
proof -
  let ?c = "fq_capacity q" and ?h = "fq_head q" and ?n = "fq_size q"
  have h: "?h < ?c" "fq_tail q = (?h + ?n) mod ?c" "length (fq_data q) = ?c"
    using assms by (auto simp: fq_wf_def)
  then have "fq_tail q < ?c" by auto
  then have "(fq_data q)[fq_tail q := x] ! ((?h + i) mod ?c) = (if i = ?n then x else fq_data q ! ((?h + i) mod ?c))"
    if "i \<le> ?n" for i
    using that assms(2) h mod_add_inj [of ?h ?c i ?n] by (auto simp: nth_list_update)
  then show ?thesis
    using assms(2) by (auto simp: fq_push_def fq_full_def fq_contents_def)
qed

lemma fq_pop_contents:
  assumes "fq_wf q" "fq_contents q = x # xs"
  shows "fst (fq_pop zero q) = x" "fq_contents (snd (fq_pop zero q)) = xs"
proof -
  let ?c = "fq_capacity q" and ?h = "fq_head q"
  obtain n where n: "fq_size q = Suc n" using assms(2) by (cases "fq_size q") (auto simp: fq_contents_def)
  have h: "?h < ?c" using assms(1) n by (auto simp: fq_wf_def)
  have split: "fq_contents q = fq_data q ! ?h # map (\<lambda>i. fq_data q ! ((?h + Suc i) mod ?c)) [0..<n]"
    unfolding fq_contents_def n
    by (subst upt_conv_Cons) (use h in \<open>simp_all add: map_Suc_upt [symmetric] del: upt_Suc\<close>)
  then show "fst (fq_pop zero q) = x" using assms(2) n by (simp add: fq_pop_def fq_empty_def)
  have "((?h + 1) mod ?c + i) mod ?c = (?h + Suc i) mod ?c" for i by (simp add: mod_simps)
  then show "fq_contents (snd (fq_pop zero q)) = xs"
    using split assms(2) n by (simp add: fq_pop_def fq_empty_def fq_contents_def)
qed

lemma fq_tail_step:
  "0 < c \<Longrightarrow> ((h + n) mod c + 1) mod c = (h + Suc n) mod (c :: nat)"
  "0 < c \<Longrightarrow> ((h + 1) mod c + n) mod c = (h + Suc n) mod (c :: nat)"
  by (simp_all add: mod_simps)

interpretation fixed_queue: bounded_queue fq_push "fq_pop zero" fq_contents fq_wf fq_capacity zero for zero
proof unfold_locales
  fix q :: "'a fixed_queue" and x xs
  assume wf: "fq_wf q"
  have length_contents: "length (fq_contents q) = fq_size q" by (simp add: fq_contents_def)
  show "length (fq_contents q) \<le> fq_capacity q" using wf by (simp add: fq_wf_def fq_contents_def)
  show "fq_wf (snd (fq_push x q)) \<and> fq_capacity (snd (fq_push x q)) = fq_capacity q"
    using wf fq_tail_step(1) [of "fq_capacity q" "fq_head q" "fq_size q"]
    by (auto simp: fq_push_def fq_full_def fq_wf_def)
  show "length (fq_contents q) < fq_capacity q \<Longrightarrow>
      fst (fq_push x q) \<and> fq_contents (snd (fq_push x q)) = fq_contents q @ [x]"
    using fq_push_contents [OF wf] length_contents by (simp add: fq_push_def fq_full_def)
  show "length (fq_contents q) = fq_capacity q \<Longrightarrow>
      \<not> fst (fq_push x q) \<and> fq_contents (snd (fq_push x q)) = fq_contents q"
    by (simp add: fq_contents_def fq_push_def fq_full_def)
  show "fq_wf (snd (fq_pop zero q)) \<and> fq_capacity (snd (fq_pop zero q)) = fq_capacity q"
    using wf fq_tail_step(2) [of "fq_capacity q" "fq_head q" "fq_size q - 1"]
    by (auto simp: fq_pop_def fq_empty_def fq_wf_def)
  show "fq_contents q = x # xs \<Longrightarrow> fst (fq_pop zero q) = x \<and> fq_contents (snd (fq_pop zero q)) = xs"
    using fq_pop_contents [OF wf] by blast
  show "fq_contents q = [] \<Longrightarrow> fst (fq_pop zero q) = zero \<and> fq_contents (snd (fq_pop zero q)) = []"
    by (auto simp: fq_contents_def fq_pop_def fq_empty_def)
qed

definition fq_step :: "'a \<Rightarrow> 'a queue_op \<Rightarrow> 'a fixed_queue \<Rightarrow> 'a queue_out \<times> 'a fixed_queue" where
  "fq_step zero p q = (case p of
       Push x \<Rightarrow> (let (b, q') = fq_push x q in (Pushed b, q'))
     | Pop \<Rightarrow> (let (x, q') = fq_pop zero q in (Popped x, q')))"

lemma fq_step_queue_step: "fq_step zero = fixed_queue.queue_step zero"
proof (intro ext)
  fix p :: "'a queue_op" and q :: "'a fixed_queue"
  show "fq_step zero p q = fixed_queue.queue_step zero p q" by (cases p) (simp_all add: fq_step_def)
qed

section \<open>Ring buffer indexes\<close>

definition ring_wrap :: "u32 \<Rightarrow> u32 \<Rightarrow> u32" where
  "ring_wrap sz idx = (if sz \<le> idx then idx - sz else idx)"

definition ring_data_avail :: "u32 \<Rightarrow> u32 \<Rightarrow> u32 \<Rightarrow> u32" where
  "ring_data_avail sz head tail = (if tail \<le> head then head - tail else sz + head - tail)"

definition ring_space_avail :: "u32 \<Rightarrow> u32 \<Rightarrow> u32 \<Rightarrow> u32" where
  "ring_space_avail sz head tail = (if sz = 0 then 0 else sz - ring_data_avail sz head tail - 1)"

definition ring_data_contig :: "u32 \<Rightarrow> u32 \<Rightarrow> u32 \<Rightarrow> u32" where
  "ring_data_contig sz head tail = (if tail \<le> head then head - tail else sz - tail)"

definition ring_space_contig :: "u32 \<Rightarrow> u32 \<Rightarrow> u32 \<Rightarrow> u32" where
  "ring_space_contig sz head tail =
     (if sz = 0 then 0
      else if tail \<le> head then (if tail \<noteq> 0 then sz else sz - 1) - head
      else tail - head - 1)"

definition ring_space_wrapped :: "u32 \<Rightarrow> u32 \<Rightarrow> u32 \<Rightarrow> u32" where
  "ring_space_wrapped sz head tail =
     (if sz = 0 then 0 else if head < tail \<or> tail = 0 then 0 else tail - 1)"

text \<open>The same on natural numbers, without wrap-around.\<close>

lemma unat_sub_u32: "(b :: u32) \<le> a \<Longrightarrow> unat (a - b) = unat a - unat b"
  by (rule unat_sub)

lemma ring_data_nat:
  assumes "head < sz" "tail < sz"
  shows "unat (ring_data_avail sz head tail)
    = (if unat tail \<le> unat head then unat head - unat tail else unat sz + unat head - unat tail)"
proof (cases "tail \<le> head")
  case True
  then show ?thesis by (simp add: ring_data_avail_def unat_sub_u32 word_le_nat_alt)
next
  case False
  then have ht: "head < tail" by simp
  have eq: "sz + head - tail = sz - (tail - head)" by simp
  have "tail - head \<le> sz"
    using ht assms(2) by (simp add: word_le_nat_alt word_less_nat_alt unat_sub_u32)
  then have "unat (sz + head - tail) = unat sz - unat (tail - head)" unfolding eq by (rule unat_sub_u32)
  also have "unat (tail - head) = unat tail - unat head" using ht by (simp add: unat_sub_u32)
  finally show ?thesis
    using ht assms by (simp add: ring_data_avail_def word_le_nat_alt word_less_nat_alt)
qed

lemma ring_space_nat:
  assumes "head < sz" "tail < sz"
  shows "unat (ring_space_avail sz head tail) = unat sz - 1 - unat (ring_data_avail sz head tail)"
    "unat (ring_data_avail sz head tail) < unat sz"
proof -
  have d: "unat (ring_data_avail sz head tail) < unat sz"
    unfolding ring_data_nat [OF assms] using assms by (auto simp: word_less_nat_alt)
  then show "unat (ring_data_avail sz head tail) < unat sz" .
  have nz: "sz \<noteq> 0" using assms by auto
  have "unat (sz - ring_data_avail sz head tail) = unat sz - unat (ring_data_avail sz head tail)"
    using d by (intro unat_sub_u32) (simp add: word_le_nat_alt)
  moreover have "1 \<le> sz - ring_data_avail sz head tail"
    using d calculation by (simp add: word_le_nat_alt)
  ultimately show "unat (ring_space_avail sz head tail) = unat sz - 1 - unat (ring_data_avail sz head tail)"
    using nz by (simp add: ring_space_avail_def unat_sub_u32)
qed

lemma ring_contig_nat:
  assumes "head < sz" "tail < sz"
  shows "unat (ring_data_contig sz head tail)
      = (if unat tail \<le> unat head then unat head - unat tail else unat sz - unat tail)"
    "unat (ring_space_contig sz head tail)
      = (if unat tail \<le> unat head then (if unat tail = 0 then unat sz - 1 else unat sz) - unat head
         else unat tail - unat head - 1)"
    "unat (ring_space_wrapped sz head tail)
      = (if unat head < unat tail \<or> unat tail = 0 then 0 else unat tail - 1)"
proof -
  have le: "x \<le> y \<longleftrightarrow> unat x \<le> unat y" "x < y \<longleftrightarrow> unat x < unat y" for x y :: u32
    by (simp_all add: word_le_nat_alt word_less_nat_alt)
  have a: "unat head < unat sz" "unat tail < unat sz" using assms by (simp_all add: le)
  have nz: "sz \<noteq> 0" using assms by auto
  have t0: "tail = 0 \<longleftrightarrow> unat tail = 0" using unat_gt_0 [of tail] by auto
  have one: "unat (x - 1) = unat x - 1" if "x \<noteq> 0" for x :: u32
    using that by (subst unat_sub_u32) (auto simp: le unat_gt_0 Suc_le_eq)
  show "unat (ring_data_contig sz head tail)
      = (if unat tail \<le> unat head then unat head - unat tail else unat sz - unat tail)"
    using a by (simp add: ring_data_contig_def le unat_sub_u32)
  have "head \<le> sz - 1" using a nz by (simp add: le one)
  moreover have "tail - head \<noteq> 0" if "\<not> tail \<le> head" using that by auto
  ultimately show "unat (ring_space_contig sz head tail)
      = (if unat tail \<le> unat head then (if unat tail = 0 then unat sz - 1 else unat sz) - unat head
         else unat tail - unat head - 1)"
    using a nz by (auto simp: ring_space_contig_def unat_sub_u32 one le t0)
  show "unat (ring_space_wrapped sz head tail)
      = (if unat head < unat tail \<or> unat tail = 0 then 0 else unat tail - 1)"
    using nz by (simp add: ring_space_wrapped_def le one t0)
qed

lemma ring_wrap_nat: "unat (ring_wrap sz idx) = (if unat sz \<le> unat idx then unat idx - unat sz else unat idx)"
  by (simp add: ring_wrap_def word_le_nat_alt unat_sub_u32)

lemma ring_advance:
  assumes "head < sz" "tail < sz" "unat sz \<le> 2 ^ 31" "unat n \<le> unat (ring_space_avail sz head tail)"
  shows "ring_wrap sz (head + n) < sz"
    "unat (ring_data_avail sz (ring_wrap sz (head + n)) tail) = unat (ring_data_avail sz head tail) + unat n"
proof -
  have a: "unat head < unat sz" "unat tail < unat sz" using assms by (simp_all add: word_less_nat_alt)
  have n: "unat n \<le> unat sz - 1" using assms(4) ring_space_nat [OF assms(1,2)] by simp
  then have add: "unat (head + n) = unat head + unat n" using a assms(3) by (intro unat_add_u32) simp
  show less: "ring_wrap sz (head + n) < sz"
    unfolding word_less_nat_alt ring_wrap_nat add using a n by simp linarith
  show "unat (ring_data_avail sz (ring_wrap sz (head + n)) tail) = unat (ring_data_avail sz head tail) + unat n"
    using assms(4) a
    unfolding ring_space_nat(1) [OF assms(1,2)] ring_data_nat [OF assms(1,2)] ring_data_nat [OF less assms(2)]
      ring_wrap_nat add
    by (auto split: if_splits)
qed

section \<open>append_list\<close>

record 'a append_list =
  al_count :: u8
  al_capacity :: u8
  al_block_size :: u8
  al_store :: "'a list"

text \<open>\<open>block\<close> is narrowed to 8 bits.\<close>

definition al_new :: "nat \<Rightarrow> 'a append_list" where
  "al_new block = \<lparr>al_count = 0, al_capacity = 0, al_block_size = of_nat block, al_store = []\<rparr>"

text \<open>
  \<open>room n\<close> says whether \<open>realloc\<close> finds room for \<open>n\<close> elements; it keeps the old elements and
  leaves \<open>junk\<close> in the new ones.  The member \<open>capacity\<close>, hidden by the parameter of the same name,
  is not updated.
\<close>

definition al_expand :: "(nat \<Rightarrow> bool) \<Rightarrow> (nat \<Rightarrow> 'a) \<Rightarrow> nat \<Rightarrow> 'a append_list \<Rightarrow> bool \<times> 'a append_list" where
  "al_expand room junk capacity l =
     (if 255 < capacity then (False, l)
      else if room capacity
      then (True, l\<lparr>al_store := take capacity (al_store l) @ map junk [length (al_store l)..<capacity]\<rparr>)
      else (False, l))"

definition al_add :: "(nat \<Rightarrow> bool) \<Rightarrow> (nat \<Rightarrow> 'a) \<Rightarrow> 'a \<Rightarrow> 'a append_list \<Rightarrow> bool \<times> 'a append_list" where
  "al_add room junk item l =
     (let (space, l1) = (if al_count l < al_capacity l then (True, l)
                         else al_expand room junk (unat (al_count l) + unat (al_block_size l)) l)
      in if space
         then (True, l1\<lparr>al_store := (al_store l1)[unat (al_count l1) := item], al_count := al_count l1 + 1\<rparr>)
         else (False, l1))"

definition al_contents :: "'a append_list \<Rightarrow> 'a list" where
  "al_contents l = take (unat (al_count l)) (al_store l)"

definition al_wf :: "'a append_list \<Rightarrow> bool" where
  "al_wf l \<longleftrightarrow> al_capacity l = 0 \<and> unat (al_count l) \<le> length (al_store l) \<and> 0 < al_block_size l"

lemma al_add_spec:
  fixes room :: "nat \<Rightarrow> bool"
  assumes "al_wf l"
  defines "fits \<equiv> unat (al_count l) + unat (al_block_size l) \<le> 255 \<and> room (unat (al_count l) + unat (al_block_size l))"
  shows "fst (al_add room junk item l) \<longleftrightarrow> fits"
    "al_contents (snd (al_add room junk item l)) = (if fits then al_contents l @ [item] else al_contents l)"
    "al_wf (snd (al_add room junk item l))"
    "unat (al_count (snd (al_add room junk item l))) = (if fits then Suc (unat (al_count l)) else unat (al_count l))"
    "al_block_size (snd (al_add room junk item l)) = al_block_size l"
proof -
  let ?n = "unat (al_count l)" and ?b = "unat (al_block_size l)"
  have wf: "al_capacity l = 0" "?n \<le> length (al_store l)" "0 < ?b"
    using assms by (auto simp: al_wf_def unat_gt_0)
  let ?store = "take (?n + ?b) (al_store l) @ map junk [length (al_store l)..<?n + ?b]"
  let ?l = "l\<lparr>al_store := ?store[?n := item], al_count := al_count l + 1\<rparr>"
  have run: "al_add room junk item l = (if fits then (True, ?l) else (False, l))"
    using wf(1) by (simp add: al_add_def al_expand_def fits_def)
  have count: "unat (al_count l + 1) = Suc ?n" if "?n + ?b \<le> 255"
    using that wf(3) by (subst unat_word_ariths) simp
  have len: "?n < length ?store" using wf by simp
  have t: "take ?n ?store = take ?n (al_store l)" using wf(2) by (simp add: min_def)
  show "fst (al_add room junk item l) \<longleftrightarrow> fits" by (simp add: run)
  have "take (Suc ?n) (?store[?n := item]) = take ?n (al_store l) @ [item]"
    using len t by (simp add: take_Suc_conv_app_nth)
  then show "al_contents (snd (al_add room junk item l)) = (if fits then al_contents l @ [item] else al_contents l)"
    using count by (simp add: run al_contents_def fits_def)
  show "al_wf (snd (al_add room junk item l))"
    using assms(1) len count by (simp add: run al_wf_def fits_def)
  show "unat (al_count (snd (al_add room junk item l))) = (if fits then Suc ?n else ?n)"
    using count by (simp add: run fits_def)
  show "al_block_size (snd (al_add room junk item l)) = al_block_size l" by (simp add: run)
qed

primrec al_add_all :: "(nat \<Rightarrow> bool) \<Rightarrow> (nat \<Rightarrow> 'a) \<Rightarrow> 'a list \<Rightarrow> 'a append_list \<Rightarrow> 'a append_list" where
  "al_add_all room junk [] l = l"
| "al_add_all room junk (x # xs) l = al_add_all room junk xs (snd (al_add room junk x l))"

lemma al_add_all_spec:
  "al_wf l \<Longrightarrow>
     al_contents (al_add_all (\<lambda>_. True) junk xs l)
       = al_contents l @ take (256 - unat (al_block_size l) - unat (al_count l)) xs"
proof (induction xs arbitrary: l)
  case (Cons x xs)
  note spec = al_add_spec [OF Cons.prems, where room = "\<lambda>_. True" and junk = junk and item = x]
  let ?n = "unat (al_count l)" and ?b = "unat (al_block_size l)"
  have IH: "al_contents (al_add_all (\<lambda>_. True) junk (x # xs) l)
      = al_contents (snd (al_add (\<lambda>_. True) junk x l))
        @ take (256 - ?b - unat (al_count (snd (al_add (\<lambda>_. True) junk x l)))) xs"
    using Cons.IH [OF spec(3)] by (simp add: spec(5))
  show ?case
  proof (cases "?n + ?b \<le> 255")
    case True
    then have "256 - ?b - ?n = Suc (256 - ?b - Suc ?n)" by simp
    then show ?thesis using IH True by (simp add: spec(2,4))
  next
    case False
    then show ?thesis using IH by (simp add: spec(2,4))
  qed
qed simp

section \<open>Properties\<close>

text \<open>
  C9: FixedQueue is a bounded FIFO.  Whatever the array holds when it is allocated, any sequence of pushes
  and pops on a new queue of any capacity (also 0) returns the same results and leaves the same
  elements as on a list: push appends and says true while there is room, and drops the element and
  says false when the queue is full; pop returns the oldest element, or the zero value when empty.
\<close>

theorem fixed_queue_fifo:
  "let (rs, q) = run_ops (fq_step zero) ps (fq_new junk capacity)
   in (rs, fq_contents q) = run_ops (list_queue_step capacity zero) ps [] \<and> fq_wf q"
  using fixed_queue.run_refines [OF fq_new_wf(1), of zero ps junk capacity]
  by (cases "run_ops (fq_step zero) ps (fq_new junk capacity)") (auto simp: fq_step_queue_step fq_new_wf)

text \<open>
  The ring buffer arithmetic.  For any size up to 2^31, with head and tail inside the buffer: data and
  space add up to one less than the size; the contiguous data and the contiguous space stay inside
  the buffer; contiguous and wrapped space together are the space there is; and putting at most that
  many bytes and wrapping the head keeps it inside and adds just so many to the data.
\<close>

theorem ring_arithmetic:
  assumes "head < sz" "tail < sz" "unat sz \<le> 2 ^ 31" "unat n \<le> unat (ring_space_avail sz head tail)"
  shows "unat (ring_data_avail sz head tail) + unat (ring_space_avail sz head tail) + 1 = unat sz
    \<and> unat tail + unat (ring_data_contig sz head tail) \<le> unat sz
    \<and> unat (ring_data_contig sz head tail) \<le> unat (ring_data_avail sz head tail)
    \<and> unat head + unat (ring_space_contig sz head tail) \<le> unat sz
    \<and> unat (ring_space_contig sz head tail) + unat (ring_space_wrapped sz head tail)
        = unat (ring_space_avail sz head tail)
    \<and> ring_wrap sz (head + n) < sz
    \<and> unat (ring_data_avail sz (ring_wrap sz (head + n)) tail) = unat (ring_data_avail sz head tail) + unat n"
proof -
  have a: "unat head < unat sz" "unat tail < unat sz" using assms by (simp_all add: word_less_nat_alt)
  note nats = ring_space_nat(1) [OF assms(1,2)] ring_contig_nat [OF assms(1,2)] ring_data_nat [OF assms(1,2)]
  show ?thesis
    using ring_advance [OF assms] a by (intro conjI) (auto simp: nats)
qed

lemma ring_arithmetic_witness:
  "ring_wrap 8 (6 + 3) = 1 \<and> unat (ring_data_avail 8 1 4) = unat (ring_data_avail 8 6 4) + 3"
  using ring_arithmetic [of 6 8 4 3] by (simp add: ring_space_avail_def ring_data_avail_def ring_wrap_def)

text \<open>
  append_list keeps what it accepts, in order, and accepts \<open>256 - block\<close> elements and no more when
  memory lasts: 251 of the default block of 5.  The capacity it records stays 0, so each of
  them reallocates the store, to \<open>block\<close> elements more than it holds.
\<close>

theorem append_list_accepts:
  assumes "0 < block" "block < 256"
  shows "al_contents (al_add_all (\<lambda>_. True) junk xs (al_new block)) = take (256 - block) xs"
proof -
  have b: "unat (of_nat block :: u8) = block" using assms by (simp add: unat_of_nat_u8)
  have "(of_nat block :: u8) \<noteq> 0" using b assms(1) by (metis unat_0 less_numeral_extra(3))
  then have "al_wf (al_new block)" by (simp add: al_wf_def al_new_def word_gt_0)
  from al_add_all_spec [OF this, of junk xs] show ?thesis by (simp add: al_new_def al_contents_def b)
qed

lemma append_list_accepts_witness:
  "length (al_contents (al_add_all (\<lambda>_. True) (\<lambda>_. 0 :: nat) [0..<300] (al_new 5))) = 251"
  by (simp add: append_list_accepts del: upt_Suc)

end
