(* ===== verification/Simple_Pool.thy ===== *)
theory Simple_Pool
  imports Prelude
begin

text \<open>
  The memory pool \<open>SimpleBasePool\<close> (\<open>system/inc/simple_pool_allocator.h\<close>).  Addresses are offsets
  from \<open>begin_\<close>.  The block headers live in two maps, \<open>next\<close> and \<open>size\<close> of the header at
  an address; the free list is the chain of headers from \<open>freeList_\<close>, walked as the code does.  A loop
  over it takes fuel and returns \<open>None\<close> when that runs out; the fuel is the size of the pool, and
  the lemmas show that it never runs out: every block has at least 12 bytes.
\<close>

section \<open>The pool\<close>

record pool =
  po_size :: nat
  po_ptr :: nat
  po_next :: "nat \<Rightarrow> nat option"
  po_bsize :: "nat \<Rightarrow> nat"
  po_free :: "nat option"
  po_end :: "nat option"

definition pool_new :: "nat \<Rightarrow> pool" where
  "pool_new n = \<lparr>po_size = n, po_ptr = 0, po_next = (\<lambda>_. None), po_bsize = (\<lambda>_. 0), po_free = None, po_end = None\<rparr>"

definition HEADER :: nat where "HEADER = 8"

text \<open>Sizes are 32-bit; an aligned size gets a word more.\<close>

definition pool_aligned :: "nat \<Rightarrow> nat" where
  "pool_aligned sz = (sz + (4 - sz mod 4)) mod 2 ^ 32"

text \<open>The search of \<open>allocate\<close>: the smallest block that is large enough, and its predecessor.\<close>

primrec find_candidate ::
    "nat \<Rightarrow> pool \<Rightarrow> nat \<Rightarrow> nat option \<Rightarrow> nat option \<Rightarrow> nat option \<times> nat option \<Rightarrow> (nat option \<times> nat option) option" where
  "find_candidate 0 p need b pr found = None"
| "find_candidate (Suc fuel) p need b pr found =
     (case b of
        None \<Rightarrow> Some found
      | Some a \<Rightarrow>
          find_candidate fuel p need (po_next p a) (Some a)
            (if need \<le> po_bsize p a
             then (case fst found of
                     None \<Rightarrow> (Some a, pr)
                   | Some c \<Rightarrow> if po_bsize p a < po_bsize p c then (Some a, pr) else found)
             else found))"

text \<open>Taking the candidate out of the free list.\<close>

definition unlink :: "nat \<Rightarrow> nat option \<Rightarrow> pool \<Rightarrow> pool" where
  "unlink candidate prev p =
     (let p1 = (case prev of
                  Some q \<Rightarrow> p\<lparr>po_next := (po_next p)(q := po_next p candidate)\<rparr>
                | None \<Rightarrow> p\<lparr>po_free := po_next p candidate\<rparr>);
          prev1 = (case prev of Some q \<Rightarrow> Some q | None \<Rightarrow> po_free p1);
          p2 = (if po_end p1 = Some candidate then p1\<lparr>po_end := prev1\<rparr> else p1)
      in p2\<lparr>po_next := (po_next p2)(candidate := None)\<rparr>)"

definition pool_allocate :: "nat \<Rightarrow> pool \<Rightarrow> (nat option \<times> pool) option" where
  "pool_allocate sz p =
     (let need = pool_aligned ((HEADER + sz) mod 2 ^ 32)
      in if need \<le> po_size p - po_ptr p
         then Some (Some (po_ptr p + HEADER),
                    p\<lparr>po_bsize := (po_bsize p)(po_ptr p := need),
                      po_next := (po_next p)(po_ptr p := None),
                      po_ptr := po_ptr p + need\<rparr>)
         else case find_candidate (Suc (po_size p)) p need (po_free p) None (None, None) of
                None \<Rightarrow> None
              | Some (None, prev) \<Rightarrow> Some (None, p)
              | Some (Some c, prev) \<Rightarrow> Some (Some (c + HEADER), unlink c prev p))"






section \<open>Chains\<close>

primrec chain :: "(nat \<Rightarrow> nat option) \<Rightarrow> nat option \<Rightarrow> nat list \<Rightarrow> bool" where
  "chain nx x [] \<longleftrightarrow> x = None"
| "chain nx x (a # as) \<longleftrightarrow> x = Some a \<and> chain nx (nx a) as"

definition last_opt :: "'a list \<Rightarrow> 'a option" where
  "last_opt xs = (if xs = [] then None else Some (last xs))"

lemma last_opt_simps [simp]: "last_opt [] = None" "last_opt [x] = Some x" "last_opt (xs @ [x]) = Some x"
  "xs \<noteq> [] \<Longrightarrow> last_opt (ys @ xs) = last_opt xs"
  by (simp_all add: last_opt_def)

lemma chain_upd: "a \<notin> set xs \<Longrightarrow> chain (nx(a := y)) x xs = chain nx x xs"
  by (induction xs arbitrary: x) auto

lemma chain_cong: "chain nx x xs \<Longrightarrow> (\<And>a. a \<in> set xs \<Longrightarrow> nx' a = nx a) \<Longrightarrow> chain nx' x xs"
  by (induction xs arbitrary: x) auto

lemma chain_split: "chain nx h (us @ c # ws) \<Longrightarrow> chain nx (nx c) ws"
  by (induction us arbitrary: h) auto

lemma chain_unlink:
  "distinct (us @ c # ws) \<Longrightarrow> us \<noteq> [] \<Longrightarrow> chain nx h (us @ c # ws) \<Longrightarrow>
     chain (nx(last us := nx c, c := None)) h (us @ ws)"
proof (induction us arbitrary: h)
  case (Cons u us)
  show ?case
  proof (cases "us = []")
    case True
    then show ?thesis using Cons.prems by (auto elim!: chain_cong)
  next
    case False
    then have l: "last us \<in> set us" by simp
    let ?nx = "nx(last us := nx c, c := None)"
    have "chain ?nx (nx u) (us @ ws)"
      by (rule Cons.IH) (use False Cons.prems in auto)
    moreover have "u \<noteq> last us" "u \<noteq> c" using l Cons.prems(1) by auto
    then have "?nx u = nx u" by simp
    ultimately have "chain ?nx h ((u # us) @ ws)" using Cons.prems(3) by (simp only: append_Cons chain.simps)
    then show ?thesis unfolding last_ConsR [OF False] .
  qed
qed simp



section \<open>The loops on a chain\<close>

definition best_fit :: "pool \<Rightarrow> nat \<Rightarrow> nat list \<Rightarrow> nat option \<times> nat option \<Rightarrow> bool" where
  "best_fit p need xs found \<longleftrightarrow>
     (fst found = None \<and> (\<forall>x \<in> set xs. \<not> need \<le> po_bsize p x))
     \<or> (\<exists>us c ws. xs = us @ c # ws \<and> found = (Some c, last_opt us) \<and> need \<le> po_bsize p c
          \<and> (\<forall>x \<in> set xs. need \<le> po_bsize p x \<longrightarrow> po_bsize p c \<le> po_bsize p x))"

lemma best_fit_step:
  assumes "best_fit p need ys found"
  shows "best_fit p need (ys @ [a])
    (if need \<le> po_bsize p a
     then (case fst found of
             None \<Rightarrow> (Some a, last_opt ys)
           | Some c \<Rightarrow> if po_bsize p a < po_bsize p c then (Some a, last_opt ys) else found)
     else found)"
  using assms unfolding best_fit_def
proof (elim disjE exE conjE)
  fix us c ws
  assume *: "ys = us @ c # ws" "found = (Some c, last_opt us)" "need \<le> po_bsize p c"
    "\<forall>x\<in>set ys. need \<le> po_bsize p x \<longrightarrow> po_bsize p c \<le> po_bsize p x"
  let ?new = "if need \<le> po_bsize p a
     then (case fst found of
             None \<Rightarrow> (Some a, last_opt ys)
           | Some c \<Rightarrow> if po_bsize p a < po_bsize p c then (Some a, last_opt ys) else found)
     else found"
  show "(fst ?new = None \<and> (\<forall>x \<in> set (ys @ [a]). \<not> need \<le> po_bsize p x))
     \<or> (\<exists>us c ws. ys @ [a] = us @ c # ws \<and> ?new = (Some c, last_opt us) \<and> need \<le> po_bsize p c
          \<and> (\<forall>x \<in> set (ys @ [a]). need \<le> po_bsize p x \<longrightarrow> po_bsize p c \<le> po_bsize p x))"
  proof (cases "need \<le> po_bsize p a \<and> po_bsize p a < po_bsize p c")
    case True
    with * show ?thesis by (intro disjI2 exI [of _ ys] exI [of _ a] exI [of _ "[]"]) fastforce
  next
    case False
    with * show ?thesis by (intro disjI2 exI [of _ us] exI [of _ c] exI [of _ "ws @ [a]"]) auto
  qed
qed auto

lemma find_candidate_chain:
  "chain (po_next p) b xs \<Longrightarrow> length xs < fuel \<Longrightarrow> best_fit p need ys found \<Longrightarrow>
     \<exists>r. find_candidate fuel p need b (last_opt ys) found = Some r \<and> best_fit p need (ys @ xs) r"
proof (induction xs arbitrary: fuel b ys found)
  case Nil
  then show ?case by (cases fuel) auto
next
  case (Cons a xs)
  obtain f where f: "fuel = Suc f" using Cons.prems(2) by (cases fuel) auto
  have b: "b = Some a" "chain (po_next p) (po_next p a) xs" using Cons.prems(1) by auto
  from Cons.IH [OF b(2) _ best_fit_step [OF Cons.prems(3), of a], of f] Cons.prems(2)
  show ?case by (simp add: f b(1) split del: if_split)
qed



section \<open>The blocks of a pool\<close>

text \<open>The blocks from \<open>a\<close> to \<open>e\<close> without gaps, at least 12 bytes each.\<close>

primrec layout :: "(nat \<Rightarrow> nat) \<Rightarrow> nat \<Rightarrow> nat list \<Rightarrow> nat \<Rightarrow> bool" where
  "layout sz a [] e \<longleftrightarrow> a = e"
| "layout sz a (b # bs) e \<longleftrightarrow> b = a \<and> 12 \<le> sz b \<and> layout sz (a + sz b) bs e"

definition pool_ok :: "pool \<Rightarrow> nat list \<Rightarrow> nat list \<Rightarrow> bool" where
  "pool_ok p bs xs \<longleftrightarrow> layout (po_bsize p) 0 bs (po_ptr p) \<and> po_ptr p \<le> po_size p
     \<and> chain (po_next p) (po_free p) xs \<and> po_end p = last_opt xs \<and> sorted_wrt (<) xs \<and> set xs \<subseteq> set bs"

text \<open>The last block is not free.\<close>

definition tight :: "nat list \<Rightarrow> nat list \<Rightarrow> bool" where
  "tight bs xs \<longleftrightarrow> bs = [] \<or> last bs \<notin> set xs"

lemma layout_append: "layout sz a (bs @ cs) e \<longleftrightarrow> (\<exists>m. layout sz a bs m \<and> layout sz m cs e)"
  by (induction bs arbitrary: a) auto

lemma layout_cong: "layout sz a bs e \<Longrightarrow> (\<And>b. b \<in> set bs \<Longrightarrow> sz' b = sz b) \<Longrightarrow> layout sz' a bs e"
  by (induction bs arbitrary: a) auto

lemma layout_bounds:
  "layout sz a bs e \<Longrightarrow> b \<in> set bs \<Longrightarrow> a \<le> b \<and> b + sz b \<le> e \<and> 12 \<le> sz b"
proof (induction bs arbitrary: a)
  case (Cons c bs)
  have "a \<le> e" if "layout sz a bs e" for a using that by (induction bs arbitrary: a) fastforce+
  with Cons show ?case by fastforce
qed simp

lemma layout_length: "layout sz a bs e \<Longrightarrow> a + length bs \<le> e"
  by (induction bs arbitrary: a) fastforce+





lemma sorted_distinct: "sorted_wrt (<) xs \<Longrightarrow> distinct (xs :: nat list)"
  by (induction xs) auto

lemma pool_ok_length:
  assumes "pool_ok p bs xs"
  shows "length bs \<le> po_size p" "length xs \<le> po_size p"
proof -
  have b: "length bs \<le> po_ptr p" using assms layout_length [of "po_bsize p" 0 bs "po_ptr p"] by (simp add: pool_ok_def)
  then show "length bs \<le> po_size p" using assms by (simp add: pool_ok_def)
  moreover have "length xs \<le> length bs"
    using assms sorted_distinct [of xs] by (metis pool_ok_def card_mono distinct_card List.finite_set card_length le_trans)
  ultimately show "length xs \<le> po_size p" by simp
qed

section \<open>Shrinking\<close>


section \<open>Allocating\<close>

lemma aligned_facts:
  assumes "sz + 12 < 2 ^ 32"
  shows "sz + 8 < pool_aligned ((HEADER + sz) mod 2 ^ 32)" "12 \<le> pool_aligned ((HEADER + sz) mod 2 ^ 32)"
    "pool_aligned ((HEADER + sz) mod 2 ^ 32) mod 4 = 0"
proof -
  let ?n = "8 + sz" and ?k = "4 - (8 + sz) mod 4"
  have n: "(HEADER + sz) mod 2 ^ 32 = ?n" using assms by (simp add: HEADER_def)
  have k: "1 \<le> ?k" "?k \<le> 4" by (simp_all add: less_imp_le Suc_le_eq)
  have al: "pool_aligned ?n = ?n + ?k" using assms k by (simp add: pool_aligned_def)
  show "sz + 8 < pool_aligned ((HEADER + sz) mod 2 ^ 32)" unfolding n al using k by linarith
  have "?n + ?k = 4 * (?n div 4 + 1)"
    using pos_mod_bound [of 4 "int ?n"] div_mult_mod_eq [of ?n 4] k by presburger
  then show "pool_aligned ((HEADER + sz) mod 2 ^ 32) mod 4 = 0" "12 \<le> pool_aligned ((HEADER + sz) mod 2 ^ 32)"
    unfolding n al by simp_all
qed

lemma unlink_ok:
  assumes ok: "pool_ok p bs (us @ c # ws)"
  defines "q \<equiv> unlink c (last_opt us) p"
  shows "pool_ok q bs (us @ ws)" "po_bsize q = po_bsize p" "po_size q = po_size p"
proof -
  have ch: "chain (po_next p) (po_free p) (us @ c # ws)" and srt: "sorted_wrt (<) (us @ c # ws)"
    and fin: "po_end p = last_opt (us @ c # ws)" and sub: "set (us @ c # ws) \<subseteq> set bs"
    using ok by (auto simp: pool_ok_def)
  have d: "distinct (us @ c # ws)" by (rule sorted_distinct [OF srt])
  show same: "po_bsize q = po_bsize p" "po_size q = po_size p"
    by (simp_all add: q_def unlink_def Let_def split: option.splits)
  have ptr: "po_ptr q = po_ptr p" by (simp add: q_def unlink_def Let_def split: option.splits)
  have chq: "chain (po_next q) (po_free q) (us @ ws)"
  proof (cases "us = []")
    case True
    have "chain (po_next p) (po_next p c) ws" using ch True by simp
    then have "chain ((po_next p)(c := None)) (po_next p c) ws" using d True by (simp add: chain_upd)
    moreover have "po_next q = (po_next p)(c := None)" "po_free q = po_next p c"
      using True by (simp_all add: q_def unlink_def Let_def)
    ultimately show ?thesis using True by simp
  next
    case False
    then have "po_next q = (po_next p)(last us := po_next p c, c := None)" "po_free q = po_free p"
      by (simp_all add: q_def unlink_def Let_def last_opt_def)
    then show ?thesis using chain_unlink [OF d False ch] by simp
  qed
  have "po_end q = last_opt (us @ ws)"
  proof (cases "ws = []")
    case True
    show ?thesis
    proof (cases "us = []")
      case True
      then have "po_next p c = None" using \<open>ws = []\<close> ch by simp
      then show ?thesis using True \<open>ws = []\<close> fin by (simp add: q_def unlink_def Let_def)
    next
      case False
      then show ?thesis using True fin by (simp add: q_def unlink_def Let_def last_opt_def)
    qed
  next
    case False
    then have "last ws \<noteq> c" using d by auto
    then show ?thesis
      using False fin by (auto simp: q_def unlink_def Let_def last_opt_def split: option.splits)
  qed
  then show "pool_ok q bs (us @ ws)"
    using ok chq same ptr srt sub by (simp add: pool_ok_def sorted_wrt_append)
qed

lemma allocate_ok:
  assumes ok: "pool_ok p bs xs" and tight: "tight bs xs" and sz: "sz + 12 < 2 ^ 32"
  obtains r p' bs' xs' where "pool_allocate sz p = Some (r, p')" "pool_ok p' bs' xs'" "tight bs' xs'" "po_size p' = po_size p"
    "r = None \<longrightarrow> p' = p \<and> set bs' - set xs' = set bs - set xs
       \<and> po_size p - po_ptr p < pool_aligned (HEADER + sz) \<and> (\<forall>x \<in> set bs - (set bs - set xs). po_bsize p x < pool_aligned (HEADER + sz))"
    "\<forall>d. r = Some d \<longrightarrow> (\<exists>b. d = b + HEADER \<and> b \<notin> set bs - set xs \<and> b \<in> set bs'
       \<and> set bs' - set xs' = insert b (set bs - set xs) \<and> HEADER + sz < po_bsize p' b
       \<and> (\<forall>u \<in> set bs - set xs. po_bsize p' u = po_bsize p u))"
proof -
  let ?need = "pool_aligned ((HEADER + sz) mod 2 ^ 32)"
  have need: "pool_aligned (HEADER + sz) = ?need" using sz by (simp add: HEADER_def)
  have lay: "layout (po_bsize p) 0 bs (po_ptr p)" and ch: "chain (po_next p) (po_free p) xs"
    and sub: "set xs \<subseteq> set bs" and srt: "sorted_wrt (<) xs" and ptr: "po_ptr p \<le> po_size p"
    using ok by (auto simp: pool_ok_def)
  show ?thesis
  proof (cases "?need \<le> po_size p - po_ptr p")
    case True
    let ?b = "po_ptr p"
    let ?p = "p\<lparr>po_bsize := (po_bsize p)(?b := ?need), po_next := (po_next p)(?b := None), po_ptr := ?b + ?need\<rparr>"
    have new: "b \<noteq> ?b" if "b \<in> set bs" for b using layout_bounds [OF lay that] by auto
    have "layout ((po_bsize p)(?b := ?need)) 0 bs ?b" by (rule layout_cong [OF lay]) (use new in auto)
    then have "layout (po_bsize ?p) 0 (bs @ [?b]) (po_ptr ?p)"
      using aligned_facts(2) [OF sz] by (auto simp: layout_append)
    moreover have "chain (po_next ?p) (po_free ?p) xs" using ch new sub by (auto elim!: chain_cong)
    ultimately have "pool_ok ?p (bs @ [?b]) xs"
      using ok True ptr by (auto simp: pool_ok_def)
    then have okp: "pool_ok ?p (bs @ [?b]) xs" .
    have tg: "tight (bs @ [?b]) xs" using new sub by (auto simp: tight_def)
    have run: "pool_allocate sz p = Some (Some (?b + HEADER), ?p)" using True by (simp add: pool_allocate_def Let_def)
    show ?thesis
      by (rule that [OF run okp tg])
        (use aligned_facts(1) [OF sz] new sub in \<open>auto simp: HEADER_def intro!: exI [of _ ?b]\<close>)
  next
    case False
    obtain found where f: "find_candidate (Suc (po_size p)) p ?need (po_free p) None (None, None) = Some found"
      "best_fit p ?need xs found"
    proof -
      have "best_fit p ?need [] (None, None)" by (simp add: best_fit_def)
      from find_candidate_chain [OF ch le_imp_less_Suc [OF pool_ok_length(2) [OF ok]] this]
      show ?thesis using that by (simp only: last_opt_simps append_Nil) blast
    qed
    have run: "pool_allocate sz p = (case found of (None, _) \<Rightarrow> Some (None, p)
        | (Some c, prev) \<Rightarrow> Some (Some (c + HEADER), unlink c prev p))"
      using False f(1) by (simp add: pool_allocate_def Let_def split: prod.splits option.splits)
    show ?thesis
    proof (cases "fst found")
      case None
      then have "pool_allocate sz p = Some (None, p)" using run by (cases found) simp
      moreover have "\<forall>x \<in> set xs. po_bsize p x < ?need" using f(2) None by (auto simp: best_fit_def)
      ultimately show ?thesis using ok tight False need by (intro that) auto
    next
      case (Some c)
      then have "fst found \<noteq> None" by simp
      then obtain us c' ws where c': "xs = us @ c' # ws" "found = (Some c', last_opt us)" "?need \<le> po_bsize p c'"
        using f(2) [unfolded best_fit_def] by (elim disjE) (simp, blast)
      then have "c' = c" using Some by simp
      note c = c' [unfolded this]
      note un = unlink_ok [OF ok [unfolded c(1)]]
      have "distinct xs" by (rule sorted_distinct [OF srt])
      then have sets: "set bs - set (us @ ws) = insert c (set bs - set xs)" using sub c(1) by auto
      have tg: "tight bs (us @ ws)" using tight c(1) by (auto simp: tight_def)
      have run': "pool_allocate sz p = Some (Some (c + HEADER), unlink c (last_opt us) p)"
        using run c(2) by simp
      have "c \<notin> set bs - set xs" "c \<in> set bs" using c(1) sub by auto
      moreover have "HEADER + sz < po_bsize p c" using aligned_facts(1) [OF sz] c(3) by (simp add: HEADER_def)
      ultimately show ?thesis
        by (intro that [OF run' un(1) tg un(3)] impI allI ballI exI [of _ c] conjI sets)
          (simp_all only: un(2) option.simps simp_thms)
    qed
  qed
qed

section \<open>Freeing\<close>

lemma last_opt_filter: "last_opt (filter P xs) = None \<longleftrightarrow> filter P xs = []"
  by (simp add: last_opt_def)




section \<open>A client\<close>











section \<open>Properties\<close>




text \<open>
  What \<open>allocate\<close> returns.  From a pool in a good state it returns a block that was not in use, with a data
  area larger than asked for, and leaves the sizes of the blocks in use alone; it returns a null
  pointer, and changes nothing, only if the unused tail and each free block are too small.
\<close>

theorem pool_allocate_result:
  assumes "pool_ok p bs xs" "tight bs xs" "sz + 12 < 2 ^ 32"
  shows "\<exists>r p' bs' xs'. pool_allocate sz p = Some (r, p') \<and> pool_ok p' bs' xs' \<and> tight bs' xs' \<and>
    (case r of
       None \<Rightarrow> p' = p \<and> po_size p - po_ptr p < pool_aligned (HEADER + sz)
         \<and> (\<forall>x \<in> set xs. po_bsize p x < pool_aligned (HEADER + sz))
     | Some d \<Rightarrow> \<exists>b. d = b + HEADER \<and> b \<notin> set bs - set xs \<and> set bs' - set xs' = insert b (set bs - set xs)
         \<and> sz < po_bsize p' b - HEADER \<and> (\<forall>u \<in> set bs - set xs. po_bsize p' u = po_bsize p u))"
proof -
  have sub: "set xs \<subseteq> set bs" using assms(1) by (simp add: pool_ok_def)
  obtain r p' bs' xs' where a: "pool_allocate sz p = Some (r, p')" "pool_ok p' bs' xs'" "tight bs' xs'" "po_size p' = po_size p"
    "r = None \<longrightarrow> p' = p \<and> set bs' - set xs' = set bs - set xs
       \<and> po_size p - po_ptr p < pool_aligned (HEADER + sz) \<and> (\<forall>x \<in> set bs - (set bs - set xs). po_bsize p x < pool_aligned (HEADER + sz))"
    "\<forall>d. r = Some d \<longrightarrow> (\<exists>b. d = b + HEADER \<and> b \<notin> set bs - set xs \<and> b \<in> set bs'
       \<and> set bs' - set xs' = insert b (set bs - set xs) \<and> HEADER + sz < po_bsize p' b
       \<and> (\<forall>u \<in> set bs - set xs. po_bsize p' u = po_bsize p u))"
    by (rule allocate_ok [OF assms])
  show ?thesis
  proof (cases r)
    case None
    then show ?thesis using a(1-3,5) sub by (intro exI [of _ r] exI [of _ p'] exI [of _ bs'] exI [of _ xs']) auto
  next
    case (Some d)
    then obtain b where "d = b + HEADER" "b \<notin> set bs - set xs" "set bs' - set xs' = insert b (set bs - set xs)"
      "HEADER + sz < po_bsize p' b" "\<forall>u \<in> set bs - set xs. po_bsize p' u = po_bsize p u" using a(6) by auto
    then show ?thesis
      using a(1-3) Some by (intro exI [of _ r] exI [of _ p'] exI [of _ bs'] exI [of _ xs']) auto
  qed
qed

lemma pool_allocate_result_witness:
  "\<exists>r p'. pool_allocate 10 (pool_new 80) = Some (r, p') \<and> (r = None \<longrightarrow> 80 < pool_aligned 18)"
proof -
  have ok: "pool_ok (pool_new 80) [] []" "tight [] []" by (simp_all add: pool_ok_def pool_new_def tight_def)
  have small: "10 + 12 < (2 :: nat) ^ 32" by simp
  obtain r p' where "pool_allocate 10 (pool_new 80) = Some (r, p')"
    "case r of None \<Rightarrow> 80 < pool_aligned 18 | Some d \<Rightarrow> True"
    using pool_allocate_result [OF ok small] by (auto simp: HEADER_def pool_new_def split: option.splits)
  then show ?thesis by (cases r) auto
qed

text \<open>
  The size of a request wraps.  A request of 2^32 - 8 bytes gets a block of 4 bytes, not even its header,
  in any pool with 4 bytes left: the 32-bit sum of the size, the header and the alignment wraps.
\<close>

theorem pool_allocate_wraps:
  "po_ptr p + 4 \<le> po_size p \<Longrightarrow>
     \<exists>p'. pool_allocate (2 ^ 32 - 8) p = Some (Some (po_ptr p + 8), p') \<and> po_ptr p' = po_ptr p + 4"
proof -
  assume room: "po_ptr p + 4 \<le> po_size p"
  have need: "pool_aligned ((HEADER + (2 ^ 32 - 8)) mod 2 ^ 32) = 4"
    by (simp add: HEADER_def pool_aligned_def)
  have "4 \<le> po_size p - po_ptr p" using room by linarith
  then show ?thesis unfolding pool_allocate_def need Let_def by (simp add: HEADER_def)
qed

lemma pool_allocate_wraps_witness: "\<exists>p'. pool_allocate (2 ^ 32 - 8) (pool_new 4) = Some (Some 8, p')"
  using pool_allocate_wraps [of "pool_new 4"] by (auto simp: pool_new_def)

end
