(* ===== verification/Vectors.thy ===== *)
theory Vectors
  imports Prelude
begin

text \<open>
  \<open>Vector\<close> (\<open>wiring/inc/spark_wiring_vector.h\<close>) for elements that are not trivially copyable.  The
  storage is a list of cells, \<open>Some x\<close> a living object and \<open>None\<close> raw memory.  An operation
  constructs, moves and destroys objects cell by cell, and its result is \<open>None\<close> when it constructs
  over a living object, uses a dead one, or leaves the storage: so \<open>Some\<close> says that the
  operation respects object lifetimes.  Lengths and indexes are natural numbers (the code
  uses \<open>int\<close>; negative arguments are modelled where the code tests for them).
  \<open>alloc n\<close> says whether the allocator has room for \<open>n\<close> elements.
\<close>

section \<open>Cells\<close>

type_synonym 'a cells = "'a option list"

definition construct_at :: "nat \<Rightarrow> 'a \<Rightarrow> 'a cells \<Rightarrow> 'a cells option" where
  "construct_at i x d = (if i < length d \<and> d ! i = None then Some (d[i := Some x]) else None)"

definition destroy_at :: "nat \<Rightarrow> 'a cells \<Rightarrow> 'a cells option" where
  "destroy_at i d = (if i < length d \<and> d ! i \<noteq> None then Some (d[i := None]) else None)"

definition object_at :: "nat \<Rightarrow> 'a cells \<Rightarrow> 'a option" where
  "object_at i d = (if i < length d then d ! i else None)"

text \<open>\<open>new(dest) T(std::move(*p)); p->~T();\<close>\<close>

definition relocate :: "nat \<Rightarrow> nat \<Rightarrow> 'a cells \<Rightarrow> 'a cells option" where
  "relocate dest p d =
     Option.bind (object_at p d) (\<lambda>x. Option.bind (construct_at dest x d) (destroy_at p))"

primrec move_fwd :: "nat \<Rightarrow> nat \<Rightarrow> nat \<Rightarrow> 'a cells \<Rightarrow> 'a cells option" where
  "move_fwd dest p 0 d = Some d"
| "move_fwd dest p (Suc n) d = Option.bind (relocate dest p d) (move_fwd (Suc dest) (Suc p) n)"

text \<open>From the last element down.\<close>

primrec move_back :: "nat \<Rightarrow> nat \<Rightarrow> nat \<Rightarrow> 'a cells \<Rightarrow> 'a cells option" where
  "move_back dest p 0 d = Some d"
| "move_back dest p (Suc n) d = Option.bind (relocate (dest + n) (p + n) d) (move_back dest p n)"

definition move_cells :: "nat \<Rightarrow> nat \<Rightarrow> nat \<Rightarrow> 'a cells \<Rightarrow> 'a cells option" where
  "move_cells dest p e d =
     (if p < dest \<and> dest < e then move_back dest p (e - p) d
      else if dest \<noteq> p then move_fwd dest p (e - p) d
      else Some d)"

primrec construct_all :: "nat \<Rightarrow> 'a list \<Rightarrow> 'a cells \<Rightarrow> 'a cells option" where
  "construct_all p [] d = Some d"
| "construct_all p (x # xs) d = Option.bind (construct_at p x d) (construct_all (Suc p) xs)"

primrec destruct :: "nat \<Rightarrow> nat \<Rightarrow> 'a cells \<Rightarrow> 'a cells option" where
  "destruct p 0 d = Some d"
| "destruct p (Suc n) d = Option.bind (destroy_at p d) (destruct (Suc p) n)"

text \<open>The index of the first (last) equal object of \<open>n\<close> objects from \<open>p\<close> up (down).\<close>

primrec find_cell :: "nat \<Rightarrow> nat \<Rightarrow> 'a \<Rightarrow> 'a cells \<Rightarrow> nat option" where
  "find_cell p 0 value d = None"
| "find_cell p (Suc n) value d = (if object_at p d = Some value then Some p else find_cell (Suc p) n value d)"

primrec rfind_cell :: "nat \<Rightarrow> 'a \<Rightarrow> 'a cells \<Rightarrow> nat option" where
  "rfind_cell 0 value d = None"
| "rfind_cell (Suc n) value d = (if object_at n d = Some value then Some n else rfind_cell n value d)"

section \<open>The vector\<close>

record 'a vec =
  vc_data :: "'a cells"
  vc_size :: nat
  vc_capacity :: nat

definition vec_empty :: "'a vec" where
  "vec_empty = \<lparr>vc_data = [], vc_size = 0, vc_capacity = 0\<rparr>"

text \<open>Moving the objects to a new array, in order.\<close>

primrec transfer_cells :: "nat \<Rightarrow> nat \<Rightarrow> 'a cells \<Rightarrow> 'a cells \<Rightarrow> 'a cells option" where
  "transfer_cells i 0 src dst = Some dst"
| "transfer_cells i (Suc n) src dst =
     Option.bind (object_at i src) (\<lambda>x. Option.bind (construct_at i x dst) (transfer_cells (Suc i) n src))"

definition vec_realloc :: "(nat \<Rightarrow> bool) \<Rightarrow> nat \<Rightarrow> 'a vec \<Rightarrow> (bool \<times> 'a vec) option" where
  "vec_realloc alloc n v =
     (if 0 < n then
        if \<not> alloc n then Some (False, v)
        else Option.bind (transfer_cells 0 (vc_size v) (vc_data v) (replicate n None))
               (\<lambda>d. Some (True, v\<lparr>vc_data := d, vc_capacity := n\<rparr>))
      else Some (True, v\<lparr>vc_data := [], vc_capacity := n\<rparr>))"

text \<open>\<open>if (need > capacity_ && !realloc(need)) return false;\<close>\<close>

definition vec_grow :: "(nat \<Rightarrow> bool) \<Rightarrow> nat \<Rightarrow> 'a vec \<Rightarrow> (bool \<times> 'a vec) option" where
  "vec_grow alloc need v = (if vc_capacity v < need then vec_realloc alloc need v else Some (True, v))"

definition vec_new_filled :: "(nat \<Rightarrow> bool) \<Rightarrow> 'a list \<Rightarrow> 'a vec option" where
  "vec_new_filled alloc xs =
     (if xs \<noteq> [] then
        Option.bind (vec_realloc alloc (length xs) vec_empty) (\<lambda>(ok, v).
          if ok then Option.bind (construct_all 0 xs (vc_data v)) (\<lambda>d. Some (v\<lparr>vc_data := d, vc_size := length xs\<rparr>))
          else Some v)
      else Some vec_empty)"

definition vec_new :: "(nat \<Rightarrow> bool) \<Rightarrow> 'a \<Rightarrow> int \<Rightarrow> 'a vec option" where
  "vec_new alloc value n = vec_new_filled alloc (replicate (nat n) value)"

text \<open>The objects of a vector, as the copy functions read them.\<close>

definition vec_objects :: "nat \<Rightarrow> nat \<Rightarrow> 'a vec \<Rightarrow> 'a list option" where
  "vec_objects i n v =
     (let cs = take n (drop i (vc_data v))
      in if i + n \<le> length (vc_data v) \<and> None \<notin> set cs then Some (map the cs) else None)"

definition vec_new_copy :: "(nat \<Rightarrow> bool) \<Rightarrow> 'a vec \<Rightarrow> 'a vec option" where
  "vec_new_copy alloc v = Option.bind (vec_objects 0 (vc_size v) v) (vec_new_filled alloc)"

definition vec_insert_list :: "(nat \<Rightarrow> bool) \<Rightarrow> nat \<Rightarrow> 'a list \<Rightarrow> 'a vec \<Rightarrow> (bool \<times> 'a vec) option" where
  "vec_insert_list alloc i xs v =
     Option.bind (vec_grow alloc (vc_size v + length xs) v) (\<lambda>(ok, v).
       if \<not> ok then Some (False, v)
       else Option.bind (move_cells (i + length xs) i (vc_size v) (vc_data v)) (\<lambda>d1.
            Option.bind (construct_all i xs d1) (\<lambda>d2.
              Some (True, v\<lparr>vc_data := d2, vc_size := vc_size v + length xs\<rparr>))))"

definition vec_insert :: "(nat \<Rightarrow> bool) \<Rightarrow> nat \<Rightarrow> 'a \<Rightarrow> 'a vec \<Rightarrow> (bool \<times> 'a vec) option" where
  "vec_insert alloc i value v =
     Option.bind (vec_grow alloc (vc_size v + 1) v) (\<lambda>(ok, v).
       if \<not> ok then Some (False, v)
       else Option.bind (move_cells (i + 1) i (vc_size v) (vc_data v)) (\<lambda>d1.
            Option.bind (construct_at i value d1) (\<lambda>d2.
              Some (True, v\<lparr>vc_data := d2, vc_size := vc_size v + 1\<rparr>))))"

definition vec_insert_n :: "(nat \<Rightarrow> bool) \<Rightarrow> nat \<Rightarrow> nat \<Rightarrow> 'a \<Rightarrow> 'a vec \<Rightarrow> (bool \<times> 'a vec) option" where
  "vec_insert_n alloc i n value v = vec_insert_list alloc i (replicate n value) v"

text \<open>Another vector's elements.\<close>

definition vec_insert_vec :: "(nat \<Rightarrow> bool) \<Rightarrow> nat \<Rightarrow> 'a vec \<Rightarrow> 'a vec \<Rightarrow> (bool \<times> 'a vec) option" where
  "vec_insert_vec alloc i w v =
     Option.bind (vec_objects 0 (vc_size w) w) (\<lambda>xs. vec_insert_list alloc i xs v)"

definition vec_append :: "(nat \<Rightarrow> bool) \<Rightarrow> 'a \<Rightarrow> 'a vec \<Rightarrow> (bool \<times> 'a vec) option" where
  "vec_append alloc value v = vec_insert alloc (vc_size v) value v"

definition vec_append_n :: "(nat \<Rightarrow> bool) \<Rightarrow> nat \<Rightarrow> 'a \<Rightarrow> 'a vec \<Rightarrow> (bool \<times> 'a vec) option" where
  "vec_append_n alloc n value v = vec_insert_n alloc (vc_size v) n value v"

definition vec_append_list :: "(nat \<Rightarrow> bool) \<Rightarrow> 'a list \<Rightarrow> 'a vec \<Rightarrow> (bool \<times> 'a vec) option" where
  "vec_append_list alloc xs v = vec_insert_list alloc (vc_size v) xs v"

definition vec_append_vec :: "(nat \<Rightarrow> bool) \<Rightarrow> 'a vec \<Rightarrow> 'a vec \<Rightarrow> (bool \<times> 'a vec) option" where
  "vec_append_vec alloc w v = vec_insert_vec alloc (vc_size v) w v"

definition vec_prepend :: "(nat \<Rightarrow> bool) \<Rightarrow> 'a \<Rightarrow> 'a vec \<Rightarrow> (bool \<times> 'a vec) option" where
  "vec_prepend alloc value v = vec_insert alloc 0 value v"

definition vec_prepend_n :: "(nat \<Rightarrow> bool) \<Rightarrow> nat \<Rightarrow> 'a \<Rightarrow> 'a vec \<Rightarrow> (bool \<times> 'a vec) option" where
  "vec_prepend_n alloc n value v = vec_insert_n alloc 0 n value v"

definition vec_prepend_list :: "(nat \<Rightarrow> bool) \<Rightarrow> 'a list \<Rightarrow> 'a vec \<Rightarrow> (bool \<times> 'a vec) option" where
  "vec_prepend_list alloc xs v = vec_insert_list alloc 0 xs v"

definition vec_prepend_vec :: "(nat \<Rightarrow> bool) \<Rightarrow> 'a vec \<Rightarrow> 'a vec \<Rightarrow> (bool \<times> 'a vec) option" where
  "vec_prepend_vec alloc w v = vec_insert_vec alloc 0 w v"

text \<open>\<open>n\<close> may be negative.\<close>

definition vec_clip :: "nat \<Rightarrow> int \<Rightarrow> 'a vec \<Rightarrow> nat" where
  "vec_clip i n v = nat (if n < 0 \<or> int (vc_size v) < int i + n then int (vc_size v) - int i else n)"

definition vec_remove_at :: "nat \<Rightarrow> int \<Rightarrow> 'a vec \<Rightarrow> 'a vec option" where
  "vec_remove_at i n v =
     (let k = vec_clip i n v
      in Option.bind (destruct i k (vc_data v)) (\<lambda>d1.
         Option.bind (move_cells i (i + k) (vc_size v) d1) (\<lambda>d2.
           Some (v\<lparr>vc_data := d2, vc_size := vc_size v - k\<rparr>))))"

definition vec_remove_one :: "'a \<Rightarrow> 'a vec \<Rightarrow> (bool \<times> 'a vec) option" where
  "vec_remove_one value v =
     (case find_cell 0 (vc_size v) value (vc_data v) of
        None \<Rightarrow> Some (False, v)
      | Some p \<Rightarrow>
          Option.bind (destroy_at p (vc_data v)) (\<lambda>d1.
          Option.bind (move_cells p (p + 1) (vc_size v) d1) (\<lambda>d2.
            Some (True, v\<lparr>vc_data := d2, vc_size := vc_size v - 1\<rparr>))))"

text \<open>The loop of \<open>removeAll\<close>: \<open>n\<close> objects from \<open>p\<close> on are still to be searched.\<close>

primrec remove_all_loop :: "nat \<Rightarrow> nat \<Rightarrow> nat \<Rightarrow> 'a \<Rightarrow> 'a cells \<Rightarrow> (nat \<times> 'a cells) option" where
  "remove_all_loop 0 p e value d = None"
| "remove_all_loop (Suc fuel) p e value d =
     (case find_cell p (e - p) value d of
        None \<Rightarrow> Some (e, d)
      | Some q \<Rightarrow>
          Option.bind (destroy_at q d) (\<lambda>d1.
          Option.bind (move_cells q (q + 1) e d1) (\<lambda>d2.
            remove_all_loop fuel q (e - 1) value d2)))"

definition vec_remove_all :: "'a \<Rightarrow> 'a vec \<Rightarrow> (nat \<times> 'a vec) option" where
  "vec_remove_all value v =
     Option.bind (remove_all_loop (Suc (vc_size v)) 0 (vc_size v) value (vc_data v)) (\<lambda>(e, d).
       let n = vc_size v - e in Some (n, v\<lparr>vc_data := d, vc_size := vc_size v - n\<rparr>))"

definition vec_take_at :: "nat \<Rightarrow> 'a vec \<Rightarrow> ('a \<times> 'a vec) option" where
  "vec_take_at i v =
     Option.bind (object_at i (vc_data v)) (\<lambda>x.
     Option.bind (destroy_at i (vc_data v)) (\<lambda>d1.
     Option.bind (move_cells i (i + 1) (vc_size v) d1) (\<lambda>d2.
       Some (x, v\<lparr>vc_data := d2, vc_size := vc_size v - 1\<rparr>))))"

definition vec_take_first :: "'a vec \<Rightarrow> ('a \<times> 'a vec) option" where
  "vec_take_first v = vec_take_at 0 v"

text \<open>On an empty vector the index is -1.\<close>

definition vec_take_last :: "'a vec \<Rightarrow> ('a \<times> 'a vec) option" where
  "vec_take_last v = (if vc_size v = 0 then None else vec_take_at (vc_size v - 1) v)"

definition vec_first :: "'a vec \<Rightarrow> 'a option" where
  "vec_first v = object_at 0 (vc_data v)"

definition vec_last :: "'a vec \<Rightarrow> 'a option" where
  "vec_last v = (if vc_size v = 0 then None else object_at (vc_size v - 1) (vc_data v))"

definition vec_at :: "nat \<Rightarrow> 'a vec \<Rightarrow> 'a option" where
  "vec_at i v = object_at i (vc_data v)"

definition vec_copy :: "(nat \<Rightarrow> bool) \<Rightarrow> nat \<Rightarrow> int \<Rightarrow> 'a vec \<Rightarrow> 'a vec option" where
  "vec_copy alloc i n v = Option.bind (vec_objects i (vec_clip i n v) v) (vec_new_filled alloc)"

definition vec_index_of :: "'a \<Rightarrow> nat \<Rightarrow> 'a vec \<Rightarrow> int" where
  "vec_index_of value i v =
     (case find_cell i (vc_size v - i) value (vc_data v) of None \<Rightarrow> -1 | Some p \<Rightarrow> int p)"

definition vec_last_index_from :: "'a \<Rightarrow> int \<Rightarrow> 'a vec \<Rightarrow> int" where
  "vec_last_index_from value i v =
     (case rfind_cell (nat (i + 1)) value (vc_data v) of None \<Rightarrow> -1 | Some p \<Rightarrow> int p)"

definition vec_last_index_of :: "'a \<Rightarrow> 'a vec \<Rightarrow> int" where
  "vec_last_index_of value v = vec_last_index_from value (int (vc_size v) - 1) v"

definition vec_contains :: "'a \<Rightarrow> 'a vec \<Rightarrow> bool" where
  "vec_contains value v \<longleftrightarrow> find_cell 0 (vc_size v) value (vc_data v) \<noteq> None"

definition vec_fill :: "'a \<Rightarrow> 'a vec \<Rightarrow> 'a vec option" where
  "vec_fill value v =
     Option.bind (destruct 0 (vc_size v) (vc_data v)) (\<lambda>d1.
     Option.bind (construct_all 0 (replicate (vc_size v) value) d1) (\<lambda>d2. Some (v\<lparr>vc_data := d2\<rparr>)))"

text \<open>\<open>zero\<close> is the value-initialised \<open>T()\<close>.\<close>

definition vec_resize :: "(nat \<Rightarrow> bool) \<Rightarrow> 'a \<Rightarrow> int \<Rightarrow> 'a vec \<Rightarrow> (bool \<times> 'a vec) option" where
  "vec_resize alloc zero n v =
     (if int (vc_size v) < n then
        Option.bind (vec_grow alloc (nat n) v) (\<lambda>(ok, v).
          if \<not> ok then Some (False, v)
          else Option.bind (construct_all (vc_size v) (replicate (nat n - vc_size v) zero) (vc_data v)) (\<lambda>d.
                 Some (True, v\<lparr>vc_data := d, vc_size := nat n\<rparr>)))
      else if 0 \<le> n then
        Option.bind (destruct (nat n) (vc_size v - nat n) (vc_data v)) (\<lambda>d.
          Some (True, v\<lparr>vc_data := d, vc_size := nat n\<rparr>))
      else Some (True, v))"

definition vec_reserve :: "(nat \<Rightarrow> bool) \<Rightarrow> int \<Rightarrow> 'a vec \<Rightarrow> (bool \<times> 'a vec) option" where
  "vec_reserve alloc n v = (if int (vc_capacity v) < n then vec_realloc alloc (nat n) v else Some (True, v))"

definition vec_trim :: "(nat \<Rightarrow> bool) \<Rightarrow> 'a vec \<Rightarrow> (bool \<times> 'a vec) option" where
  "vec_trim alloc v = (if vc_size v < vc_capacity v then vec_realloc alloc (vc_size v) v else Some (True, v))"

definition vec_clear :: "'a vec \<Rightarrow> 'a vec option" where
  "vec_clear v = Option.bind (destruct 0 (vc_size v) (vc_data v)) (\<lambda>d. Some (v\<lparr>vc_data := d, vc_size := 0\<rparr>))"

primrec cells_equal :: "nat \<Rightarrow> nat \<Rightarrow> 'a cells \<Rightarrow> 'a cells \<Rightarrow> bool" where
  "cells_equal p 0 d e \<longleftrightarrow> True"
| "cells_equal p (Suc n) d e \<longleftrightarrow> (if object_at p d \<noteq> object_at p e then False else cells_equal (Suc p) n d e)"

definition vec_equal :: "'a vec \<Rightarrow> 'a vec \<Rightarrow> bool" where
  "vec_equal v w \<longleftrightarrow> (if vc_size v \<noteq> vc_size w then False else cells_equal 0 (vc_size v) (vc_data v) (vc_data w))"

definition vec_not_equal :: "'a vec \<Rightarrow> 'a vec \<Rightarrow> bool" where
  "vec_not_equal v w \<longleftrightarrow> \<not> vec_equal v w"

definition vec_swap :: "'a vec \<times> 'a vec \<Rightarrow> 'a vec \<times> 'a vec" where
  "vec_swap p =
     (let v = fst p; w = snd p
      in (\<lparr>vc_data = vc_data w, vc_size = vc_size w, vc_capacity = vc_capacity w\<rparr>,
          \<lparr>vc_data = vc_data v, vc_size = vc_size v, vc_capacity = vc_capacity v\<rparr>))"

definition vec_assign :: "(nat \<Rightarrow> bool) \<Rightarrow> 'a vec \<Rightarrow> 'a vec \<Rightarrow> 'a vec option" where
  "vec_assign alloc w v = Option.bind (vec_new_copy alloc w) (\<lambda>c. Some (fst (vec_swap (v, c))))"

section \<open>The loops on cells\<close>

lemma relocate_eq:
  "p < length d \<Longrightarrow> dest < length d \<Longrightarrow> d ! p = Some x \<Longrightarrow> d ! dest = None \<Longrightarrow>
     relocate dest p d = Some (d[dest := Some x, p := None])"
  by (auto simp: relocate_def object_at_def construct_at_def destroy_at_def nth_list_update)

lemma relocate_down:
  "length A = a \<Longrightarrow> relocate a (a + Suc j) (A @ None # replicate j None @ Some x # R)
     = Some (A @ Some x # replicate j None @ None # R)"
  by (subst relocate_eq [where x = x]) (auto simp: nth_append list_update_append)

lemma relocate_up:
  "length A = a \<Longrightarrow> length C = c \<Longrightarrow> relocate (a + Suc c) a (A @ Some x # C @ None # R)
     = Some (A @ None # C @ Some x # R)"
  by (subst relocate_eq [where x = x]) (auto simp: nth_append list_update_append)

lemma replicate_snoc: "replicate j x @ x # R = x # replicate j x @ R"
  by (induction j) auto

lemma move_fwd_down:
  "length A = a \<Longrightarrow> move_fwd a (a + Suc j) (length xs) (A @ replicate (Suc j) None @ map Some xs @ B)
     = Some (A @ map Some xs @ replicate (Suc j) None @ B)"
proof (induction xs arbitrary: a A)
  case (Cons x xs)
  have "move_fwd (Suc a) (Suc (a + Suc j)) (length xs) ((A @ [Some x]) @ replicate (Suc j) None @ map Some xs @ B)
      = Some ((A @ [Some x]) @ map Some xs @ replicate (Suc j) None @ B)"
    using Cons.IH [of "A @ [Some x]" "Suc a"] Cons.prems by simp
  then show ?case
    using relocate_down [OF Cons.prems, of j x "map Some xs @ B"] by (simp add: replicate_snoc)
qed simp

lemma move_back_up:
  "length A = a \<Longrightarrow> move_back (a + Suc j) a (length xs) (A @ map Some xs @ replicate (Suc j) None @ B)
     = Some (A @ replicate (Suc j) None @ map Some xs @ B)"
proof (induction xs arbitrary: B rule: rev_induct)
  case (snoc x xs)
  have "relocate (a + length xs + Suc j) (a + length xs)
      ((A @ map Some xs) @ Some x # replicate j None @ None # B)
    = Some ((A @ map Some xs) @ None # replicate j None @ Some x # B)"
    by (rule relocate_up) (use snoc.prems in simp_all)
  then have "relocate (a + Suc j + length xs) (a + length xs) (A @ map Some (xs @ [x]) @ replicate (Suc j) None @ B)
    = Some (A @ map Some xs @ replicate (Suc j) None @ Some x # B)"
    by (simp add: replicate_snoc ac_simps)
  then show ?case using snoc.IH [OF snoc.prems, of "Some x # B"] by simp
qed simp

lemma move_fwd_up:
  "length A = a \<Longrightarrow> length C = c \<Longrightarrow> move_fwd (a + length xs + c) a (length xs) (A @ map Some xs @ C @ replicate (length xs) None @ B)
     = Some (A @ replicate (length xs) None @ C @ map Some xs @ B)"
proof (induction xs arbitrary: a A c C)
  case (Cons x xs)
  have r: "relocate (a + Suc (length (map Some xs @ C))) a (A @ Some x # (map Some xs @ C) @ None # replicate (length xs) None @ B)
      = Some (A @ None # (map Some xs @ C) @ Some x # replicate (length xs) None @ B)"
    by (rule relocate_up) (use Cons.prems in simp_all)
  have "move_fwd (Suc a + length xs + Suc c) (Suc a) (length xs)
      ((A @ [None]) @ map Some xs @ (C @ [Some x]) @ replicate (length xs) None @ B)
    = Some ((A @ [None]) @ replicate (length xs) None @ (C @ [Some x]) @ map Some xs @ B)"
    by (rule Cons.IH) (use Cons.prems in simp_all)
  with r Cons.prems show ?case by (simp add: ac_simps)
qed simp

lemma move_cells_up:
  assumes "length A = a"
  shows "move_cells (a + k) a (a + length xs) (A @ map Some xs @ replicate k None @ B)
    = Some (A @ replicate k None @ map Some xs @ B)"
proof (cases k)
  case (Suc j)
  show ?thesis
  proof (cases "k < length xs")
    case True
    then show ?thesis using move_back_up [OF assms, of j xs B] by (simp add: move_cells_def Suc)
  next
    case False
    then have "replicate k None = replicate (k - length xs) None @ replicate (length xs) (None :: 'a option)"
      "replicate k None = replicate (length xs) None @ replicate (k - length xs) (None :: 'a option)"
      by (simp_all add: replicate_add [symmetric])
    then have "move_fwd (a + k) a (length xs) (A @ map Some xs @ replicate k None @ B)
        = Some (A @ replicate k None @ map Some xs @ B)"
      using move_fwd_up [OF assms length_replicate, of xs "k - length xs" None B] False
      by (metis add.assoc append.assoc le_add_diff_inverse not_less)
    then show ?thesis using False by (simp add: move_cells_def Suc)
  qed
qed (simp add: move_cells_def)

lemma move_cells_down:
  assumes "length A = a"
  shows "move_cells a (a + k) (a + k + length xs) (A @ replicate k None @ map Some xs @ B)
    = Some (A @ map Some xs @ replicate k None @ B)"
proof (cases k)
  case (Suc j)
  then show ?thesis using move_fwd_down [OF assms, of j xs B] by (simp add: move_cells_def)
qed (simp add: move_cells_def)

lemma construct_all_spec:
  "length A = a \<Longrightarrow> construct_all a xs (A @ replicate (length xs) None @ B) = Some (A @ map Some xs @ B)"
proof (induction xs arbitrary: a A)
  case (Cons x xs)
  have "construct_all (Suc a) xs ((A @ [Some x]) @ replicate (length xs) None @ B) = Some ((A @ [Some x]) @ map Some xs @ B)"
    by (rule Cons.IH) (use Cons.prems in simp)
  then show ?case using Cons.prems by (simp add: construct_at_def nth_append list_update_append)
qed simp

lemma destruct_spec:
  "length A = a \<Longrightarrow> destruct a (length xs) (A @ map Some xs @ B) = Some (A @ replicate (length xs) None @ B)"
proof (induction xs arbitrary: a A)
  case (Cons x xs)
  have "destruct (Suc a) (length xs) ((A @ [None]) @ map Some xs @ B) = Some ((A @ [None]) @ replicate (length xs) None @ B)"
    by (rule Cons.IH) (use Cons.prems in simp)
  then show ?case using Cons.prems by (simp add: destroy_at_def nth_append list_update_append)
qed simp

lemma transfer_spec:
  "length A = i \<Longrightarrow> length A' = i \<Longrightarrow>
     transfer_cells i (length xs) (A @ map Some xs @ B) (A' @ replicate (length xs) None @ B') = Some (A' @ map Some xs @ B')"
proof (induction xs arbitrary: i A A')
  case (Cons x xs)
  have "transfer_cells (Suc i) (length xs) ((A @ [Some x]) @ map Some xs @ B) ((A' @ [Some x]) @ replicate (length xs) None @ B')
      = Some ((A' @ [Some x]) @ map Some xs @ B')"
    by (rule Cons.IH) (use Cons.prems in simp_all)
  then show ?case using Cons.prems by (simp add: object_at_def construct_at_def nth_append list_update_append)
qed simp

text \<open>The position of the first occurrence.\<close>

definition first_pos :: "'a \<Rightarrow> 'a list \<Rightarrow> nat" where
  "first_pos x xs = length (takeWhile (\<lambda>y. y \<noteq> x) xs)"

lemma first_pos_simps [simp]: "first_pos x (y # ys) = (if y = x then 0 else Suc (first_pos x ys))"
  by (simp add: first_pos_def)

lemma first_pos_less: "x \<in> set xs \<Longrightarrow> first_pos x xs < length xs"
  by (induction xs) auto

lemma first_pos_split:
  "x \<in> set xs \<Longrightarrow> xs = take (first_pos x xs) xs @ x # drop (Suc (first_pos x xs)) xs"
  by (induction xs) auto

lemma first_pos_notin: "x \<notin> set (take (first_pos x xs) xs)"
  by (induction xs) (auto simp: first_pos_def)

lemma find_cell_spec:
  "length A = a \<Longrightarrow> find_cell a (length xs) value (A @ map Some xs @ B)
     = (if value \<in> set xs then Some (a + first_pos value xs) else None)"
proof (induction xs arbitrary: a A)
  case (Cons x xs)
  have "find_cell (Suc a) (length xs) value ((A @ [Some x]) @ map Some xs @ B)
      = (if value \<in> set xs then Some (Suc a + first_pos value xs) else None)"
    by (rule Cons.IH) (use Cons.prems in simp)
  then show ?case using Cons.prems by (auto simp: object_at_def nth_append)
qed simp

section \<open>The vector as a list\<close>

definition vec_rep :: "'a vec \<Rightarrow> 'a list \<Rightarrow> bool" where
  "vec_rep v xs \<longleftrightarrow> vc_size v = length xs \<and> length xs \<le> vc_capacity v
     \<and> vc_data v = map Some xs @ replicate (vc_capacity v - length xs) None"

lemma vec_repD:
  assumes "vec_rep v xs"
  shows "vc_size v = length xs" "length xs \<le> vc_capacity v"
    "vc_data v = map Some xs @ replicate (vc_capacity v - length xs) None"
  using assms by (auto simp: vec_rep_def)

lemma realloc_ok:
  assumes "vec_rep v xs" "length xs \<le> n"
  shows "vec_realloc alloc n v = Some (n = 0 \<or> alloc n, if n = 0 \<or> alloc n
      then v\<lparr>vc_data := map Some xs @ replicate (n - length xs) None, vc_capacity := n\<rparr> else v)"
proof -
  have "replicate n None = replicate (length xs) None @ replicate (n - length xs) (None :: 'a option)"
    using assms(2) by (simp add: replicate_add [symmetric])
  then have "transfer_cells 0 (vc_size v) (vc_data v) (replicate n None) = Some (map Some xs @ replicate (n - length xs) None)"
    using transfer_spec [of "[]" 0 "[]" xs "replicate (vc_capacity v - length xs) None" "replicate (n - length xs) None"]
    by (simp add: vec_repD [OF assms(1)])
  then show ?thesis using assms(2) by (auto simp: vec_realloc_def)
qed

lemma grow_ok:
  assumes "vec_rep v xs" "length xs \<le> n"
  obtains "vc_capacity v < n" "\<not> alloc n" "vec_grow alloc n v = Some (False, v)"
  | w where "vec_grow alloc n v = Some (True, w)" "vec_rep w xs" "n \<le> vc_capacity w"
proof (cases "vc_capacity v < n")
  case False
  then show ?thesis using that(2) [of v] assms by (simp add: vec_grow_def)
next
  case True
  then show ?thesis
    using that realloc_ok [OF assms, of alloc] assms vec_repD(1) [OF assms(1)]
    by (cases "alloc n") (auto simp: vec_grow_def vec_rep_def)
qed

lemma cells_split:
  assumes "vec_rep v xs" "i \<le> length xs"
  shows "vc_data v = map Some (take i xs) @ map Some (drop i xs) @ replicate (vc_capacity v - length xs) None"
  using vec_repD(3) [OF assms(1)] by (metis append.assoc append_take_drop_id map_append)

lemma insert_cells:
  assumes "vec_rep v xs" "i \<le> length xs" "length xs + length ys \<le> vc_capacity v"
  obtains d1 where "move_cells (i + length ys) i (vc_size v) (vc_data v) = Some d1"
    "construct_all i ys d1 = Some (map Some (take i xs @ ys @ drop i xs)
       @ replicate (vc_capacity v - (length xs + length ys)) None)"
proof -
  let ?A = "map Some (take i xs)" and ?B = "replicate (vc_capacity v - (length xs + length ys)) (None :: 'a option)"
  have rep: "replicate (vc_capacity v - length xs) None = replicate (length ys) None @ ?B"
    using assms(3) by (simp add: replicate_add [symmetric])
  have "move_cells (i + length ys) i (i + length (drop i xs)) (?A @ map Some (drop i xs) @ replicate (length ys) None @ ?B)
      = Some (?A @ replicate (length ys) None @ map Some (drop i xs) @ ?B)"
    by (rule move_cells_up) (use assms(2) in simp)
  then have 1: "move_cells (i + length ys) i (vc_size v) (vc_data v)
      = Some (?A @ replicate (length ys) None @ map Some (drop i xs) @ ?B)"
    using assms(2) cells_split [OF assms(1,2)] vec_repD(1) [OF assms(1)] rep by simp
  have "construct_all i ys (?A @ replicate (length ys) None @ (map Some (drop i xs) @ ?B))
      = Some (?A @ map Some ys @ (map Some (drop i xs) @ ?B))"
    by (rule construct_all_spec) (use assms(2) in simp)
  then show ?thesis using that [OF 1] by simp
qed

lemma insert_list_ok:
  assumes "vec_rep v xs" "i \<le> length xs"
  obtains "vc_capacity v < length xs + length ys" "\<not> alloc (length xs + length ys)" "vec_insert_list alloc i ys v = Some (False, v)"
  | w where "vec_insert_list alloc i ys v = Some (True, w)" "vec_rep w (take i xs @ ys @ drop i xs)"
proof (rule grow_ok [OF assms(1), of "length xs + length ys" alloc])
  assume *: "vc_capacity v < length xs + length ys" "\<not> alloc (length xs + length ys)"
    "vec_grow alloc (length xs + length ys) v = Some (False, v)"
  then show ?thesis using that(1) vec_repD(1) [OF assms(1)] by (simp add: vec_insert_list_def)
next
  fix w assume w: "vec_grow alloc (length xs + length ys) v = Some (True, w)" "vec_rep w xs" "length xs + length ys \<le> vc_capacity w"
  obtain d1 where d: "move_cells (i + length ys) i (vc_size w) (vc_data w) = Some d1"
    "construct_all i ys d1 = Some (map Some (take i xs @ ys @ drop i xs)
       @ replicate (vc_capacity w - (length xs + length ys)) None)"
    by (rule insert_cells [OF w(2) assms(2) w(3)])
  then show ?thesis
    using that(2) w vec_repD(1) [OF assms(1)] vec_repD(1) [OF w(2)] assms(2)
    by (simp add: vec_insert_list_def vec_rep_def)
qed simp

lemma construct_all_one: "construct_all i [x] = construct_at i x"
proof -
  have "construct_all (Suc i) [] = (Some :: 'a cells \<Rightarrow> _)" by (rule ext) simp
  then show ?thesis by (intro ext) (simp add: bind_runit)
qed

lemma insert_one: "vec_insert alloc i x v = vec_insert_list alloc i [x] v"
  unfolding vec_insert_def vec_insert_list_def construct_all_one list.size(3,4) add_0 One_nat_def ..

lemma remove_cells:
  assumes "vec_rep v xs" "i + k \<le> length xs"
  obtains d1 where "destruct i k (vc_data v) = Some d1"
    "move_cells i (i + k) (vc_size v) d1 = Some (map Some (take i xs @ drop (i + k) xs)
       @ replicate (vc_capacity v - (length xs - k)) None)"
proof -
  let ?A = "map Some (take i xs)" and ?ys = "take k (drop i xs)" and ?zs = "drop (i + k) xs"
    and ?B = "replicate (vc_capacity v - length xs) (None :: 'a option)"
  have dr: "drop i xs = ?ys @ ?zs" by (metis append_take_drop_id drop_drop add.commute)
  have k: "length ?ys = k" using assms(2) by simp
  have a: "length ?A = i" using assms(2) by simp
  have "destruct i (length ?ys) (?A @ map Some ?ys @ (map Some ?zs @ ?B)) = Some (?A @ replicate (length ?ys) None @ (map Some ?zs @ ?B))"
    by (rule destruct_spec [OF a])
  then have 1: "destruct i k (vc_data v) = Some (?A @ replicate k None @ map Some ?zs @ ?B)"
  proof -
    have "vc_data v = ?A @ map Some ?ys @ (map Some ?zs @ ?B)"
      using cells_split [OF assms(1), of i] assms(2) by (metis dr map_append append.assoc add_leD1)
    then show ?thesis using \<open>destruct i (length ?ys) _ = _\<close> k by simp
  qed
  have "move_cells i (i + k) (i + k + length ?zs) (?A @ replicate k None @ map Some ?zs @ ?B)
      = Some (?A @ map Some ?zs @ replicate k None @ ?B)"
    by (rule move_cells_down [OF a])
  moreover have "replicate k None @ ?B = replicate (vc_capacity v - (length xs - k)) None"
    using assms(2) vec_repD(2) [OF assms(1)] by (simp add: replicate_add [symmetric])
  ultimately show ?thesis using that [OF 1] vec_repD(1) [OF assms(1)] assms(2) by simp
qed

lemma remove_at_ok:
  assumes "vec_rep v xs" "i \<le> length xs"
  obtains w where "vec_remove_at i n v = Some w" "vec_rep w (take i xs @ drop (i + vec_clip i n v) xs)"
proof -
  let ?k = "vec_clip i n v"
  let ?d = "map Some (take i xs @ drop (i + ?k) xs) @ replicate (vc_capacity v - (length xs - ?k)) None"
  let ?w = "v\<lparr>vc_data := ?d, vc_size := vc_size v - ?k\<rparr>"
  have k: "i + ?k \<le> length xs" using assms vec_repD(1) [OF assms(1)] by (auto simp: vec_clip_def)
  obtain d1 where "destruct i ?k (vc_data v) = Some d1" "move_cells i (i + ?k) (vc_size v) d1 = Some ?d"
    by (rule remove_cells [OF assms(1) k])
  then have "vec_remove_at i n v = Some ?w" by (simp add: vec_remove_at_def Let_def)
  moreover have "vec_rep ?w (take i xs @ drop (i + ?k) xs)"
    using vec_repD(1,2) [OF assms(1)] k by (simp add: vec_rep_def)
  ultimately show ?thesis by (rule that)
qed

lemma destroy_one: "destroy_at p d = destruct p 1 d"
  by (cases "destroy_at p d") simp_all

lemma remove_pos:
  assumes "vec_rep v xs" "i < length xs"
  obtains d1 d2 where "destroy_at i (vc_data v) = Some d1" "move_cells i (i + 1) (vc_size v) d1 = Some d2"
    "vec_rep (v\<lparr>vc_data := d2, vc_size := vc_size v - 1\<rparr>) (take i xs @ drop (Suc i) xs)"
proof -
  let ?d = "map Some (take i xs @ drop (i + 1) xs) @ replicate (vc_capacity v - (length xs - 1)) None"
  have "i + 1 \<le> length xs" using assms(2) by simp
  then obtain d1 where d: "destruct i 1 (vc_data v) = Some d1" "move_cells i (i + 1) (vc_size v) d1 = Some ?d"
    by (rule remove_cells [OF assms(1)])
  have "vec_rep (v\<lparr>vc_data := ?d, vc_size := vc_size v - 1\<rparr>) (take i xs @ drop (Suc i) xs)"
    using vec_repD(1,2) [OF assms(1)] assms(2) by (simp add: vec_rep_def)
  then show ?thesis using that d unfolding destroy_one by blast
qed

lemma object_at_rep: "vec_rep v xs \<Longrightarrow> i < length xs \<Longrightarrow> object_at i (vc_data v) = Some (xs ! i)"
  by (auto simp: object_at_def vec_rep_def nth_append)

lemma take_at_ok:
  assumes "vec_rep v xs" "i < length xs"
  obtains w where "vec_take_at i v = Some (xs ! i, w)" "vec_rep w (take i xs @ drop (Suc i) xs)"
proof (rule remove_pos [OF assms])
  fix d1 d2
  assume "destroy_at i (vc_data v) = Some d1" "move_cells i (i + 1) (vc_size v) d1 = Some d2"
    "vec_rep (v\<lparr>vc_data := d2, vc_size := vc_size v - 1\<rparr>) (take i xs @ drop (Suc i) xs)"
  then show ?thesis using that object_at_rep [OF assms] by (simp add: vec_take_at_def)
qed

lemma find_rep: "vec_rep v xs \<Longrightarrow> find_cell 0 (vc_size v) value (vc_data v)
    = (if value \<in> set xs then Some (first_pos value xs) else None)"
  using find_cell_spec [of "[]" 0 xs "value"] by (simp add: vec_rep_def)

lemma remove1_pos: "x \<in> set xs \<Longrightarrow> remove1 x xs = take (first_pos x xs) xs @ drop (Suc (first_pos x xs)) xs"
  by (induction xs) auto

lemma remove_one_ok:
  assumes "vec_rep v xs"
  obtains w where "vec_remove_one x v = Some (x \<in> set xs, w)" "vec_rep w (remove1 x xs)"
proof (cases "x \<in> set xs")
  case False
  then show ?thesis using that [of v] assms by (simp add: vec_remove_one_def find_rep remove1_idem)
next
  case True
  show ?thesis
  proof (rule remove_pos [OF assms first_pos_less [OF True]])
    fix d1 d2
    assume "destroy_at (first_pos x xs) (vc_data v) = Some d1"
      "move_cells (first_pos x xs) (first_pos x xs + 1) (vc_size v) d1 = Some d2"
      "vec_rep (v\<lparr>vc_data := d2, vc_size := vc_size v - 1\<rparr>) (take (first_pos x xs) xs @ drop (Suc (first_pos x xs)) xs)"
    then show ?thesis
      using that True remove1_pos [OF True] by (simp add: vec_remove_one_def find_rep [OF assms])
  qed
qed

lemma remove_all_split:
  assumes "x \<in> set xs"
  shows "removeAll x xs = take (first_pos x xs) xs @ removeAll x (drop (Suc (first_pos x xs)) xs)"
proof -
  have "removeAll x xs = removeAll x (take (first_pos x xs) xs @ x # drop (Suc (first_pos x xs)) xs)"
    using first_pos_split [OF assms] by simp
  then show ?thesis using first_pos_notin [of x xs] by (simp add: removeAll_id)
qed

lemma remove_all_spec:
  "length A = a \<Longrightarrow> length xs < fuel \<Longrightarrow>
     remove_all_loop fuel a (a + length xs) x (A @ map Some xs @ B)
       = Some (a + length (removeAll x xs),
           A @ map Some (removeAll x xs) @ replicate (length xs - length (removeAll x xs)) None @ B)"
proof (induction fuel arbitrary: a A xs B)
  case (Suc fuel)
  show ?case
  proof (cases "x \<in> set xs")
    case False
    then show ?thesis using find_cell_spec [OF Suc.prems(1), of xs x B] by (simp add: removeAll_id)
  next
    case True
    let ?i = "first_pos x xs"
    let ?ys = "take ?i xs" and ?zs = "drop (Suc ?i) xs"
    have xs: "xs = ?ys @ x # ?zs" by (rule first_pos_split [OF True])
    have li: "?i < length xs" by (rule first_pos_less [OF True])
    have a: "length (A @ map Some ?ys) = a + ?i" using Suc.prems(1) li by simp
    have d: "A @ map Some xs @ B = (A @ map Some ?ys) @ map Some [x] @ (map Some ?zs @ B)"
      by (subst xs) simp
    have 1: "destroy_at (a + ?i) (A @ map Some xs @ B) = Some ((A @ map Some ?ys) @ replicate 1 None @ map Some ?zs @ B)"
      unfolding d destroy_one using destruct_spec [OF a, of "[x]" "map Some ?zs @ B"] by simp
    have len: "a + length xs = a + ?i + 1 + length ?zs" using li by simp
    have 2: "move_cells (a + ?i) (a + ?i + 1) (a + length xs) ((A @ map Some ?ys) @ replicate 1 None @ map Some ?zs @ B)
        = Some ((A @ map Some ?ys) @ map Some ?zs @ replicate 1 None @ B)"
      unfolding len by (rule move_cells_down [OF a])
    have e: "a + length xs - 1 = a + ?i + length ?zs" using li by simp
    have 3: "remove_all_loop fuel (a + ?i) (a + length xs - 1) x ((A @ map Some ?ys) @ map Some ?zs @ replicate 1 None @ B)
        = Some (a + ?i + length (removeAll x ?zs), (A @ map Some ?ys) @ map Some (removeAll x ?zs)
            @ replicate (length ?zs - length (removeAll x ?zs)) None @ replicate 1 None @ B)"
      unfolding e by (rule Suc.IH [OF a]) (use Suc.prems(2) li in simp)
    have ra: "removeAll x xs = ?ys @ removeAll x ?zs" by (rule remove_all_split [OF True])
    have "length (removeAll x ?zs) \<le> length ?zs" by (rule length_removeAll_less_eq)
    then have "length xs - length (removeAll x xs) = length ?zs - length (removeAll x ?zs) + 1"
      unfolding ra using li by simp
    then have "replicate (length ?zs - length (removeAll x ?zs)) None @ replicate 1 None @ B
        = replicate (length xs - length (removeAll x xs)) None @ B"
      by (simp only: append_assoc [symmetric] replicate_add [symmetric])
    then show ?thesis
      using find_cell_spec [OF Suc.prems(1), of xs x B] True 1 2 3 li ra by simp
  qed
qed simp

lemma remove_all_ok:
  assumes "vec_rep v xs"
  obtains w where "vec_remove_all x v = Some (count_list xs x, w)" "vec_rep w (removeAll x xs)"
proof -
  let ?ys = "removeAll x xs"
  have ct: "length xs - length ?ys = count_list xs x" by (induction xs) (auto simp: Suc_diff_le length_removeAll_less_eq)
  have le: "length ?ys \<le> length xs" by (rule length_removeAll_less_eq)
  have "remove_all_loop (Suc (vc_size v)) 0 (vc_size v) x (vc_data v)
      = Some (length ?ys, map Some ?ys @ replicate (length xs - length ?ys) None @ replicate (vc_capacity v - length xs) None)"
    using remove_all_spec [of "[]" 0 xs "Suc (length xs)" x "replicate (vc_capacity v - length xs) None"]
    by (simp add: vec_repD [OF assms])
  moreover have "replicate (length xs - length ?ys) None @ replicate (vc_capacity v - length xs) (None :: 'a option)
      = replicate (vc_capacity v - length ?ys) None"
    using le vec_repD(2) [OF assms] by (simp add: replicate_add [symmetric])
  ultimately show ?thesis
    using that [of "v\<lparr>vc_data := map Some ?ys @ replicate (vc_capacity v - length ?ys) None, vc_size := length ?ys\<rparr>"]
      vec_repD(1,2) [OF assms] le ct
    by (simp add: vec_remove_all_def Let_def vec_rep_def)
qed

section \<open>The other operations\<close>

lemma fill_ok:
  assumes "vec_rep v xs"
  obtains w where "vec_fill x v = Some w" "vec_rep w (replicate (length xs) x)"
proof -
  let ?B = "replicate (vc_capacity v - length xs) (None :: 'a option)"
  have "destruct 0 (vc_size v) (vc_data v) = Some (replicate (length xs) None @ ?B)"
    using destruct_spec [of "[]" 0 xs ?B] by (simp add: vec_repD [OF assms])
  moreover have "construct_all 0 (replicate (vc_size v) x) (replicate (length xs) None @ ?B)
      = Some (map Some (replicate (length xs) x) @ ?B)"
    using construct_all_spec [of "[]" 0 "replicate (length xs) x" ?B] by (simp add: vec_repD(1) [OF assms])
  ultimately show ?thesis
    using that [of "v\<lparr>vc_data := map Some (replicate (length xs) x) @ ?B\<rparr>"] vec_repD(1,2) [OF assms]
    by (simp add: vec_fill_def vec_rep_def)
qed

lemma truncate_ok:
  assumes "vec_rep v xs" "k \<le> length xs"
  obtains d where "destruct k (vc_size v - k) (vc_data v) = Some d" "vec_rep (v\<lparr>vc_data := d, vc_size := k\<rparr>) (take k xs)"
proof -
  let ?B = "replicate (vc_capacity v - length xs) (None :: 'a option)"
  have k: "length (map Some (take k xs)) = k" using assms(2) by simp
  have "destruct k (vc_size v - k) (vc_data v) = Some (map Some (take k xs) @ replicate (length xs - k) None @ ?B)"
    using destruct_spec [OF k, of "drop k xs" ?B] cells_split [OF assms] vec_repD(1) [OF assms(1)] by simp
  moreover have "replicate (length xs - k) None @ ?B = replicate (vc_capacity v - k) None"
    using assms(2) vec_repD(2) [OF assms(1)] by (simp add: replicate_add [symmetric])
  ultimately show ?thesis
    using that assms(2) vec_repD(2) [OF assms(1)] by (simp add: vec_rep_def)
qed

lemma clear_ok:
  assumes "vec_rep v xs"
  obtains w where "vec_clear v = Some w" "vec_rep w []"
proof (rule truncate_ok [OF assms, of 0])
  fix d
  assume "destruct 0 (vc_size v - 0) (vc_data v) = Some d" "vec_rep (v\<lparr>vc_data := d, vc_size := 0\<rparr>) (take 0 xs)"
  then show ?thesis using that by (simp add: vec_clear_def)
qed simp

lemma extend_ok:
  assumes "vec_rep v xs" "length xs + n \<le> vc_capacity v"
  obtains d where "construct_all (vc_size v) (replicate n x) (vc_data v) = Some d"
    "vec_rep (v\<lparr>vc_data := d, vc_size := length xs + n\<rparr>) (xs @ replicate n x)"
proof -
  have "replicate (vc_capacity v - length xs) None = replicate n None @ replicate (vc_capacity v - (length xs + n)) (None :: 'a option)"
    using assms(2) by (simp add: replicate_add [symmetric])
  then have "construct_all (vc_size v) (replicate n x) (vc_data v)
      = Some (map Some xs @ map Some (replicate n x) @ replicate (vc_capacity v - (length xs + n)) None)"
    using construct_all_spec [of "map Some xs" "length xs" "replicate n x" "replicate (vc_capacity v - (length xs + n)) None"]
    by (simp add: vec_repD [OF assms(1)])
  then show ?thesis using that assms(2) by (simp add: vec_rep_def)
qed

lemma resize_ok:
  assumes "vec_rep v xs"
  obtains "\<not> alloc (nat n)" "vec_resize alloc zero n v = Some (False, v)"
  | w where "vec_resize alloc zero n v = Some (True, w)"
      "vec_rep w (if n < 0 then xs else take (nat n) xs @ replicate (nat n - length xs) zero)"
proof -
  note size = vec_repD(1) [OF assms]
  consider "int (length xs) < n" | "0 \<le> n" "n \<le> int (length xs)" | "n < 0" by linarith
  then show ?thesis
  proof cases
    case 1
    then have le: "length xs \<le> nat n" by simp
    show ?thesis
    proof (rule grow_ok [OF assms le, of alloc])
      assume "\<not> alloc (nat n)" "vec_grow alloc (nat n) v = Some (False, v)"
      then show ?thesis using that(1) 1 size by (simp add: vec_resize_def)
    next
      fix w assume w: "vec_grow alloc (nat n) v = Some (True, w)" "vec_rep w xs" "nat n \<le> vc_capacity w"
      obtain d where "construct_all (vc_size w) (replicate (nat n - length xs) zero) (vc_data w) = Some d"
        "vec_rep (w\<lparr>vc_data := d, vc_size := length xs + (nat n - length xs)\<rparr>) (xs @ replicate (nat n - length xs) zero)"
        by (rule extend_ok [OF w(2), of "nat n - length xs"]) (use w(3) le in simp)
      then show ?thesis using that(2) 1 w(1) size vec_repD(1) [OF w(2)] le by (simp add: vec_resize_def)
    qed
  next
    case 2
    then have "nat n \<le> length xs" by simp
    then obtain d where "destruct (nat n) (vc_size v - nat n) (vc_data v) = Some d"
      "vec_rep (v\<lparr>vc_data := d, vc_size := nat n\<rparr>) (take (nat n) xs)"
      by (rule truncate_ok [OF assms])
    then show ?thesis using that(2) 2 size by (simp add: vec_resize_def)
  next
    case 3
    then show ?thesis using that(2) [of v] assms by (simp add: vec_resize_def)
  qed
qed

lemma realloc_rep:
  assumes "vec_rep v xs" "length xs \<le> n"
  obtains "\<not> alloc n" "vec_realloc alloc n v = Some (False, v)"
  | w where "vec_realloc alloc n v = Some (True, w)" "vec_rep w xs"
  using realloc_ok [OF assms, of alloc] assms vec_repD(1) [OF assms(1)]
  by (cases "n = 0 \<or> alloc n") (auto simp: vec_rep_def)

lemma reserve_ok:
  assumes "vec_rep v xs"
  obtains "\<not> alloc (nat n)" "vec_reserve alloc n v = Some (False, v)"
  | w where "vec_reserve alloc n v = Some (True, w)" "vec_rep w xs"
proof (cases "int (vc_capacity v) < n")
  case True
  then have "length xs \<le> nat n" using vec_repD(2) [OF assms] by linarith
  from realloc_rep [OF assms this, of alloc] show ?thesis
    using True that by (auto simp: vec_reserve_def)
next
  case False
  then show ?thesis using that(2) [of v] assms by (simp add: vec_reserve_def)
qed

lemma trim_ok:
  assumes "vec_rep v xs"
  obtains "\<not> alloc (length xs)" "vec_trim alloc v = Some (False, v)"
  | w where "vec_trim alloc v = Some (True, w)" "vec_rep w xs"
proof (cases "vc_size v < vc_capacity v")
  case True
  show ?thesis
    by (rule realloc_rep [OF assms order_refl, of alloc])
      (use True that vec_repD(1) [OF assms] in \<open>auto simp: vec_trim_def\<close>)
next
  case False
  then show ?thesis using that(2) [of v] assms by (simp add: vec_trim_def)
qed

lemma objects_rep:
  assumes "vec_rep v xs" "i + n \<le> length xs"
  shows "vec_objects i n v = Some (take n (drop i xs))"
proof -
  have "take n (drop i (vc_data v)) = map Some (take n (drop i xs))"
    using assms(2) by (simp add: vec_repD [OF assms(1)] take_map drop_map)
  then show ?thesis using assms vec_repD [OF assms(1)] by (simp add: vec_objects_def Let_def o_def)
qed

lemma filled_ok:
  obtains "\<not> alloc (length xs)" "vec_new_filled alloc xs = Some vec_empty"
  | w where "vec_new_filled alloc xs = Some w" "vec_rep w xs"
proof (cases "xs = []")
  case True
  then show ?thesis using that(2) [of vec_empty] by (simp add: vec_new_filled_def vec_rep_def vec_empty_def)
next
  case False
  have e: "vec_rep vec_empty ([] :: 'a list)" by (simp add: vec_rep_def vec_empty_def)
  have "construct_all 0 xs (replicate (length xs) None) = Some (map Some xs)"
    using construct_all_spec [of "[]" 0 xs "[]"] by simp
  then show ?thesis
    using False that realloc_ok [OF e, of "length xs" alloc]
    by (cases "alloc (length xs)") (auto simp: vec_new_filled_def vec_rep_def vec_empty_def)
qed

lemma insert_vec_eq:
  "vec_rep w ys \<Longrightarrow> vec_insert_vec alloc i w v = vec_insert_list alloc i ys v"
  using objects_rep [of w ys 0 "length ys"] vec_repD(1) [of w ys] by (simp add: vec_insert_vec_def)

lemma cells_equal_spec:
  "p + n \<le> length d \<Longrightarrow> p + n \<le> length e \<Longrightarrow> cells_equal p n d e \<longleftrightarrow> take n (drop p d) = take n (drop p e)"
proof (induction n arbitrary: p)
  case (Suc n)
  then have "drop p d = d ! p # drop (Suc p) d" "drop p e = e ! p # drop (Suc p) e"
    by (simp_all add: Cons_nth_drop_Suc)
  then show ?case using Suc by (simp add: object_at_def)
qed simp

lemma equal_rep:
  assumes "vec_rep v xs" "vec_rep w ys"
  shows "vec_equal v w \<longleftrightarrow> xs = ys"
proof (cases "length xs = length ys")
  case True
  have "cells_equal 0 (length xs) (vc_data v) (vc_data w) \<longleftrightarrow> map Some xs = map Some ys"
    using cells_equal_spec [of 0 "length xs" "vc_data v" "vc_data w"] True
    by (simp add: vec_repD [OF assms(1)] vec_repD [OF assms(2)])
  then show ?thesis using True vec_repD(1) [OF assms(1)] vec_repD(1) [OF assms(2)]
    by (simp add: vec_equal_def inj_map_eq_map)
next
  case False
  then show ?thesis using vec_repD(1) [OF assms(1)] vec_repD(1) [OF assms(2)] by (auto simp: vec_equal_def)
qed

lemma index_of_rep:
  assumes "vec_rep v xs" "i \<le> length xs"
  shows "vec_index_of x i v = (if x \<in> set (drop i xs) then int (i + first_pos x (drop i xs)) else -1)"
proof -
  have "length (map Some (take i xs)) = i" using assms(2) by simp
  from find_cell_spec [OF this, of "drop i xs" x] show ?thesis
    using cells_split [OF assms] vec_repD(1) [OF assms(1)] by (simp add: vec_index_of_def)
qed

lemma rfind_spec:
  "n \<le> length xs \<Longrightarrow> vec_rep v xs \<Longrightarrow>
     (case rfind_cell n x (vc_data v) of
        None \<Rightarrow> x \<notin> set (take n xs)
      | Some p \<Rightarrow> p < n \<and> xs ! p = x \<and> x \<notin> set (drop (Suc p) (take n xs)))"
proof (induction n)
  case (Suc n)
  have t: "take (Suc n) xs = take n xs @ [xs ! n]" using Suc.prems(1) by (simp add: take_Suc_conv_app_nth)
  have o: "object_at n (vc_data v) = Some (xs ! n)" using object_at_rep [OF Suc.prems(2)] Suc.prems(1) by simp
  show ?case
  proof (cases "xs ! n = x")
    case True
    then show ?thesis using o t Suc.prems(1) by simp
  next
    case False
    then show ?thesis using o t Suc by (auto split: option.splits simp: Suc_diff_le)
  qed
qed simp

section \<open>One operation\<close>

datatype 'a vec_op =
  Insert nat 'a | InsertN nat nat 'a | InsertList nat "'a list" | Append 'a | AppendN nat 'a | AppendList "'a list"
| Prepend 'a | PrependN nat 'a | PrependList "'a list"
| RemoveAt nat int | RemoveOne 'a | RemoveAll 'a | TakeFirst | TakeLast | TakeAt nat
| Fill 'a | Resize int | Reserve int | TrimToSize | Clear

datatype 'a vec_out = Done bool | Count nat | Elem 'a | Void

definition out_bool :: "(bool \<times> 'a vec) option \<Rightarrow> ('a vec_out \<times> 'a vec) option" where
  "out_bool r = map_option (\<lambda>(b, v). (Done b, v)) r"

definition out_elem :: "('a \<times> 'a vec) option \<Rightarrow> ('a vec_out \<times> 'a vec) option" where
  "out_elem r = map_option (\<lambda>(x, v). (Elem x, v)) r"

definition out_void :: "'a vec option \<Rightarrow> ('a vec_out \<times> 'a vec) option" where
  "out_void r = map_option (\<lambda>v. (Void, v)) r"

fun vec_step :: "(nat \<Rightarrow> bool) \<Rightarrow> 'a \<Rightarrow> 'a vec_op \<Rightarrow> 'a vec \<Rightarrow> ('a vec_out \<times> 'a vec) option" where
  "vec_step alloc zero (Insert i x) v = out_bool (vec_insert alloc i x v)"
| "vec_step alloc zero (InsertN i n x) v = out_bool (vec_insert_n alloc i n x v)"
| "vec_step alloc zero (InsertList i xs) v = out_bool (vec_insert_list alloc i xs v)"
| "vec_step alloc zero (Append x) v = out_bool (vec_append alloc x v)"
| "vec_step alloc zero (AppendN n x) v = out_bool (vec_append_n alloc n x v)"
| "vec_step alloc zero (AppendList xs) v = out_bool (vec_append_list alloc xs v)"
| "vec_step alloc zero (Prepend x) v = out_bool (vec_prepend alloc x v)"
| "vec_step alloc zero (PrependN n x) v = out_bool (vec_prepend_n alloc n x v)"
| "vec_step alloc zero (PrependList xs) v = out_bool (vec_prepend_list alloc xs v)"
| "vec_step alloc zero (RemoveAt i n) v = out_void (vec_remove_at i n v)"
| "vec_step alloc zero (RemoveOne x) v = out_bool (vec_remove_one x v)"
| "vec_step alloc zero (RemoveAll x) v = map_option (\<lambda>(n, v). (Count n, v)) (vec_remove_all x v)"
| "vec_step alloc zero TakeFirst v = out_elem (vec_take_first v)"
| "vec_step alloc zero TakeLast v = out_elem (vec_take_last v)"
| "vec_step alloc zero (TakeAt i) v = out_elem (vec_take_at i v)"
| "vec_step alloc zero (Fill x) v = out_void (vec_fill x v)"
| "vec_step alloc zero (Resize n) v = out_bool (vec_resize alloc zero n v)"
| "vec_step alloc zero (Reserve n) v = out_bool (vec_reserve alloc n v)"
| "vec_step alloc zero TrimToSize v = out_bool (vec_trim alloc v)"
| "vec_step alloc zero Clear v = out_void (vec_clear v)"

text \<open>The same operations on lists, and the arguments they are defined for.\<close>

definition insert_at :: "nat \<Rightarrow> 'a list \<Rightarrow> 'a list \<Rightarrow> 'a list" where
  "insert_at i ys xs = take i xs @ ys @ drop i xs"

definition clip :: "nat \<Rightarrow> int \<Rightarrow> 'a list \<Rightarrow> nat" where
  "clip i n xs = (if n < 0 \<or> int (length xs) < int i + n then length xs - i else nat n)"

fun list_step :: "'a \<Rightarrow> 'a vec_op \<Rightarrow> 'a list \<Rightarrow> 'a vec_out \<times> 'a list" where
  "list_step zero (Insert i x) xs = (Done True, insert_at i [x] xs)"
| "list_step zero (InsertN i n x) xs = (Done True, insert_at i (replicate n x) xs)"
| "list_step zero (InsertList i ys) xs = (Done True, insert_at i ys xs)"
| "list_step zero (Append x) xs = (Done True, xs @ [x])"
| "list_step zero (AppendN n x) xs = (Done True, xs @ replicate n x)"
| "list_step zero (AppendList ys) xs = (Done True, xs @ ys)"
| "list_step zero (Prepend x) xs = (Done True, x # xs)"
| "list_step zero (PrependN n x) xs = (Done True, replicate n x @ xs)"
| "list_step zero (PrependList ys) xs = (Done True, ys @ xs)"
| "list_step zero (RemoveAt i n) xs = (Void, take i xs @ drop (i + clip i n xs) xs)"
| "list_step zero (RemoveOne x) xs = (Done (x \<in> set xs), remove1 x xs)"
| "list_step zero (RemoveAll x) xs = (Count (count_list xs x), removeAll x xs)"
| "list_step zero TakeFirst xs = (Elem (hd xs), tl xs)"
| "list_step zero TakeLast xs = (Elem (last xs), butlast xs)"
| "list_step zero (TakeAt i) xs = (Elem (xs ! i), take i xs @ drop (Suc i) xs)"
| "list_step zero (Fill x) xs = (Void, replicate (length xs) x)"
| "list_step zero (Resize n) xs =
     (Done True, if n < 0 then xs else take (nat n) xs @ replicate (nat n - length xs) zero)"
| "list_step zero (Reserve n) xs = (Done True, xs)"
| "list_step zero TrimToSize xs = (Done True, xs)"
| "list_step zero Clear xs = (Void, [])"

fun valid_op :: "'a vec_op \<Rightarrow> 'a list \<Rightarrow> bool" where
  "valid_op (Insert i x) xs \<longleftrightarrow> i \<le> length xs"
| "valid_op (InsertN i n x) xs \<longleftrightarrow> i \<le> length xs"
| "valid_op (InsertList i ys) xs \<longleftrightarrow> i \<le> length xs"
| "valid_op (RemoveAt i n) xs \<longleftrightarrow> i \<le> length xs"
| "valid_op TakeFirst xs \<longleftrightarrow> xs \<noteq> []"
| "valid_op TakeLast xs \<longleftrightarrow> xs \<noteq> []"
| "valid_op (TakeAt i) xs \<longleftrightarrow> i < length xs"
| "valid_op _ xs \<longleftrightarrow> True"

text \<open>An operation has its effect, or the allocator has failed and nothing changes.\<close>

definition step_ok :: "(nat \<Rightarrow> bool) \<Rightarrow> 'a vec \<Rightarrow> ('a vec_out \<times> 'a vec) option \<Rightarrow> 'a vec_out \<times> 'a list \<Rightarrow> bool" where
  "step_ok alloc v r spec \<longleftrightarrow> (\<exists>out w. r = Some (out, w) \<and>
     (out = fst spec \<and> vec_rep w (snd spec) \<or> out = Done False \<and> w = v \<and> (\<exists>n. \<not> alloc n)))"

lemma insert_step:
  assumes "vec_rep v xs" "i \<le> length xs"
  shows "step_ok alloc v (out_bool (vec_insert_list alloc i ys v)) (Done True, insert_at i ys xs)"
proof (rule insert_list_ok [OF assms, of ys alloc])
  assume "\<not> alloc (length xs + length ys)" "vec_insert_list alloc i ys v = Some (False, v)"
  then show ?thesis by (auto simp: step_ok_def out_bool_def)
next
  fix w assume "vec_insert_list alloc i ys v = Some (True, w)" "vec_rep w (take i xs @ ys @ drop i xs)"
  then show ?thesis by (auto simp: step_ok_def out_bool_def insert_at_def)
qed

lemma take_at_step:
  assumes "vec_rep v xs" "i < length xs"
  shows "step_ok alloc v (out_elem (vec_take_at i v)) (Elem (xs ! i), take i xs @ drop (Suc i) xs)"
  by (rule take_at_ok [OF assms]) (simp add: step_ok_def out_elem_def)

lemma remove_at_step:
  assumes "vec_rep v xs" "i \<le> length xs"
  shows "step_ok alloc v (out_void (vec_remove_at i n v)) (Void, take i xs @ drop (i + clip i n xs) xs)"
proof -
  have "vec_clip i n v = clip i n xs" using vec_repD(1) [OF assms(1)] by (auto simp: vec_clip_def clip_def)
  moreover obtain w where "vec_remove_at i n v = Some w" "vec_rep w (take i xs @ drop (i + vec_clip i n v) xs)"
    by (rule remove_at_ok [OF assms])
  ultimately show ?thesis by (simp add: step_ok_def out_void_def)
qed

lemma resize_step:
  assumes "vec_rep v xs"
  shows "step_ok alloc v (out_bool (vec_resize alloc zero n v))
    (Done True, if n < 0 then xs else take (nat n) xs @ replicate (nat n - length xs) zero)"
  by (rule resize_ok [OF assms, of alloc n zero]) (auto simp: step_ok_def out_bool_def)

lemma reserve_step: "vec_rep v xs \<Longrightarrow> step_ok alloc v (out_bool (vec_reserve alloc n v)) (Done True, xs)"
  by (rule reserve_ok [of v xs alloc n]) (auto simp: step_ok_def out_bool_def)

lemma trim_step: "vec_rep v xs \<Longrightarrow> step_ok alloc v (out_bool (vec_trim alloc v)) (Done True, xs)"
  by (rule trim_ok [of v xs alloc]) (auto simp: step_ok_def out_bool_def)

lemma other_steps:
  assumes "vec_rep v xs"
  shows "step_ok alloc v (out_bool (vec_remove_one x v)) (Done (x \<in> set xs), remove1 x xs)"
    and "step_ok alloc v (map_option (\<lambda>(n, v). (Count n, v)) (vec_remove_all x v)) (Count (count_list xs x), removeAll x xs)"
    and "step_ok alloc v (out_void (vec_fill x v)) (Void, replicate (length xs) x)"
    and "step_ok alloc v (out_void (vec_clear v)) (Void, [])"
proof -
  obtain w1 where "vec_remove_one x v = Some (x \<in> set xs, w1)" "vec_rep w1 (remove1 x xs)"
    by (rule remove_one_ok [OF assms])
  then show "step_ok alloc v (out_bool (vec_remove_one x v)) (Done (x \<in> set xs), remove1 x xs)"
    by (simp add: step_ok_def out_bool_def)
  obtain w2 where "vec_remove_all x v = Some (count_list xs x, w2)" "vec_rep w2 (removeAll x xs)"
    by (rule remove_all_ok [OF assms])
  then show "step_ok alloc v (map_option (\<lambda>(n, v). (Count n, v)) (vec_remove_all x v)) (Count (count_list xs x), removeAll x xs)"
    by (simp add: step_ok_def)
  obtain w3 where "vec_fill x v = Some w3" "vec_rep w3 (replicate (length xs) x)"
    by (rule fill_ok [OF assms])
  then show "step_ok alloc v (out_void (vec_fill x v)) (Void, replicate (length xs) x)"
    by (simp add: step_ok_def out_void_def)
  obtain w4 where "vec_clear v = Some w4" "vec_rep w4 []" by (rule clear_ok [OF assms])
  then show "step_ok alloc v (out_void (vec_clear v)) (Void, [])" by (simp add: step_ok_def out_void_def)
qed

section \<open>Properties\<close>

text \<open>
  C11: Every operation of Vector refines its list operation.  From a vector that holds the objects \<open>xs\<close> (and raw
  memory up to the capacity), an operation with arguments it is defined for respects the
  lifetimes of all objects (it never constructs over a living one nor uses a dead one, although it
  moves overlapping ranges in place), returns what the list operation returns and holds the
  resulting list; or the allocator has failed, the result is false and the vector is unchanged.
\<close>

theorem vector_refines_list:
  assumes "vec_rep v xs" "valid_op p xs"
  shows "\<exists>out w. vec_step alloc zero p v = Some (out, w) \<and>
    (out = fst (list_step zero p xs) \<and> vec_rep w (snd (list_step zero p xs))
     \<or> out = Done False \<and> w = v \<and> (\<exists>n. \<not> alloc n))"
proof -
  note size = vec_repD(1) [OF assms(1)]
  have "step_ok alloc v (vec_step alloc zero p v) (list_step zero p xs)"
  proof (cases p)
    case (Insert i x)
    then show ?thesis using insert_step [OF assms(1), of i alloc "[x]"] assms(2) by (simp add: insert_one)
  next
    case (InsertN i n x)
    then show ?thesis using insert_step [OF assms(1), of i] assms(2) by (simp add: vec_insert_n_def)
  next
    case (InsertList i ys)
    then show ?thesis using insert_step [OF assms(1), of i] assms(2) by simp
  next
    case TakeFirst
    then have "0 < length xs" using assms(2) by simp
    from take_at_step [OF assms(1) this, of alloc] show ?thesis
      using TakeFirst assms(2) by (simp add: vec_take_first_def hd_conv_nth drop_Suc)
  next
    case TakeLast
    then have "length xs - 1 < length xs" using assms(2) by simp
    from take_at_step [OF assms(1) this, of alloc] show ?thesis
      using TakeLast assms(2) size by (simp add: vec_take_last_def last_conv_nth butlast_conv_take)
  next
    case (TakeAt i)
    then show ?thesis using take_at_step [OF assms(1), of i] assms(2) by simp
  next
    case (RemoveAt i n)
    then show ?thesis using remove_at_step [OF assms(1), of i] assms(2) by simp
  next
    case (Resize n)
    then show ?thesis using resize_step [OF assms(1)] by simp
  next
    case (Append x)
    then show ?thesis using insert_step [OF assms(1) order_refl, of alloc "[x]"] by (simp add: vec_append_def insert_one size insert_at_def)
  next
    case (AppendN n x)
    then show ?thesis
      using insert_step [OF assms(1) order_refl] by (simp add: vec_append_n_def vec_insert_n_def size insert_at_def)
  next
    case (AppendList ys)
    then show ?thesis using insert_step [OF assms(1) order_refl, of alloc ys] by (simp add: vec_append_list_def size insert_at_def)
  next
    case (Prepend x)
    then show ?thesis using insert_step [OF assms(1) le0, of alloc "[x]"] by (simp add: vec_prepend_def insert_one insert_at_def)
  next
    case (PrependN n x)
    then show ?thesis
      using insert_step [OF assms(1) le0] by (simp add: vec_prepend_n_def vec_insert_n_def insert_at_def)
  next
    case (PrependList ys)
    then show ?thesis using insert_step [OF assms(1) le0, of alloc ys] by (simp add: vec_prepend_list_def insert_at_def)
  qed (simp_all add: other_steps [OF assms(1)] reserve_step [OF assms(1)] trim_step [OF assms(1)])
  then show ?thesis by (simp add: step_ok_def)
qed

lemma vector_refines_list_witness:
  "\<exists>out w. vec_step (\<lambda>_. True) 0 (RemoveAll 7) \<lparr>vc_data = map Some [7, 1, 7 :: nat], vc_size = 3, vc_capacity = 3\<rparr> = Some (out, w)
     \<and> out = Count 2 \<and> vec_rep w [1]"
  using vector_refines_list [of "\<lparr>vc_data = map Some [7, 1, 7 :: nat], vc_size = 3, vc_capacity = 3\<rparr>" "[7, 1, 7]"
      "RemoveAll 7" "\<lambda>_. True" 0]
  by (simp add: vec_rep_def numeral_eq_Suc del: vec_step.simps)

text \<open>
  The queries of Vector.  On a vector that holds \<open>xs\<close>: \<open>at\<close>, \<open>first\<close> and \<open>last\<close> give its elements, \<open>indexOf\<close>
  the first position from the given index on (or -1), \<open>lastIndexOf\<close> the last one, \<open>contains\<close>
  membership, and \<open>==\<close> equality of the lists; \<open>copy\<close> holds the elements of its range, or none
  when the allocator fails.
\<close>

theorem vector_queries:
  assumes "vec_rep v xs" "vec_rep v' ys" "i < length xs"
  shows "vec_at i v = Some (xs ! i) \<and> vec_first v = Some (hd xs) \<and> vec_last v = Some (last xs)
    \<and> vec_index_of x i v = (if x \<in> set (drop i xs) then int (i + first_pos x (drop i xs)) else -1)
    \<and> (vec_last_index_of x v = -1 \<longleftrightarrow> x \<notin> set xs)
    \<and> (x \<in> set xs \<longrightarrow> xs ! nat (vec_last_index_of x v) = x \<and> x \<notin> set (drop (Suc (nat (vec_last_index_of x v))) xs))
    \<and> vec_contains x v = (x \<in> set xs) \<and> vec_equal v v' = (xs = ys)
    \<and> (\<exists>w. vec_copy alloc i n v = Some w \<and> (vec_rep w (take (clip i n xs) (drop i xs)) \<or> w = vec_empty \<and> \<not> alloc (clip i n xs)))"
proof -
  note size = vec_repD(1) [OF assms(1)]
  have ne: "xs \<noteq> []" using assms(3) by auto
  have clip: "vec_clip i n v = clip i n xs" "i + clip i n xs \<le> length xs"
    using size assms(3) by (auto simp: vec_clip_def clip_def)
  have copy: "\<exists>w. vec_copy alloc i n v = Some w \<and> (vec_rep w (take (clip i n xs) (drop i xs)) \<or> w = vec_empty \<and> \<not> alloc (clip i n xs))"
  proof -
    have l: "length (take (clip i n xs) (drop i xs)) = clip i n xs" using clip(2) by simp
    show ?thesis
      by (rule filled_ok [of alloc "take (clip i n xs) (drop i xs)"])
        (use l in \<open>auto simp: vec_copy_def clip(1) objects_rep [OF assms(1) clip(2)]\<close>)
  qed
  have last: "(vec_last_index_of x v = -1 \<longleftrightarrow> x \<notin> set xs)
    \<and> (x \<in> set xs \<longrightarrow> xs ! nat (vec_last_index_of x v) = x \<and> x \<notin> set (drop (Suc (nat (vec_last_index_of x v))) xs))"
    using rfind_spec [OF order_refl assms(1), of x] size
    by (auto simp: vec_last_index_of_def vec_last_index_from_def split: option.splits)
  show ?thesis
    using copy last object_at_rep [OF assms(1)] assms(3) ne size find_rep [OF assms(1)] index_of_rep [OF assms(1)]
      equal_rep [OF assms(1,2)]
    by (simp add: vec_at_def vec_first_def vec_last_def vec_contains_def hd_conv_nth last_conv_nth)
qed

lemma vector_queries_witness:
  "vec_last_index_of 7 \<lparr>vc_data = map Some [7, 1, 7 :: nat], vc_size = 3, vc_capacity = 3\<rparr> \<noteq> -1"
proof -
  have "vec_rep \<lparr>vc_data = map Some [7, 1, 7 :: nat], vc_size = 3, vc_capacity = 3\<rparr> [7, 1, 7]" by (simp add: vec_rep_def)
  from vector_queries [OF this this, of 0 7 "\<lambda>_. True" 0] show ?thesis by simp
qed

end
