(* ===== verification/Completion_Handlers.thy ===== *)
theory Completion_Handlers
  imports Prelude "HOL-Library.Multiset"
begin

text \<open>
  Completion handlers and their containers (\<open>services/inc/completion_handler.h\<close>).  A callback with its
  data is a value of type \<open>'c\<close>, a null pointer is \<open>None\<close>; what the callbacks are invoked with is
  appended to a log of \<open>(callback, error, payload)\<close>, so that moving a handler over another one and the
  destructors are visible.  Ticks are 32-bit words.  The vector of handlers is its list of elements
  (theory Vectors); \<open>room\<close> says whether \<open>append\<close> finds memory.  Callbacks do not call back into the
  container that invokes them.
\<close>

section \<open>CompletionHandler\<close>

definition SYSTEM_ERROR_NONE :: int where "SYSTEM_ERROR_NONE = 0"
definition SYSTEM_ERROR_INTERNAL :: int where "SYSTEM_ERROR_INTERNAL = -250"
definition SYSTEM_ERROR_TIMEOUT :: int where "SYSTEM_ERROR_TIMEOUT = -160"
definition SYSTEM_ERROR_ABORTED :: int where "SYSTEM_ERROR_ABORTED = -150"

type_synonym ('c, 'r) call = "'c \<times> int \<times> 'r option"

definition ch_set_error :: "int \<Rightarrow> 'r option \<Rightarrow> 'c option \<times> ('c, 'r) call list \<Rightarrow> 'c option \<times> ('c, 'r) call list" where
  "ch_set_error error msg s =
     (case fst s of Some c \<Rightarrow> (None, snd s @ [(c, error, msg)]) | None \<Rightarrow> s)"

definition ch_set_result :: "'r option \<Rightarrow> 'c option \<times> ('c, 'r) call list \<Rightarrow> 'c option \<times> ('c, 'r) call list" where
  "ch_set_result res s =
     (case fst s of Some c \<Rightarrow> (None, snd s @ [(c, SYSTEM_ERROR_NONE, res)]) | None \<Rightarrow> s)"

definition ch_destroy :: "'c option \<times> ('c, 'r) call list \<Rightarrow> ('c, 'r) call list" where
  "ch_destroy s = snd (ch_set_error SYSTEM_ERROR_INTERNAL None s)"

text \<open>Move assignment; the source becomes null.\<close>

definition ch_assign :: "'c option \<Rightarrow> 'c option \<times> ('c, 'r) call list \<Rightarrow> 'c option \<times> ('c, 'r) call list" where
  "ch_assign source s = (source, snd (ch_set_error SYSTEM_ERROR_INTERNAL None s))"

section \<open>The elements of the containers\<close>

text \<open>\<open>CompletionHandlerList\<close> has no key: there \<open>'k\<close> is \<open>unit\<close>.\<close>

record ('k, 'c) handler =
  hd_key :: 'k
  hd_callback :: "'c option"
  hd_ticks :: u32

definition MAX_TIMEOUT :: u32 where "MAX_TIMEOUT = - 1"

record ('k, 'c) handlers =
  hs_default :: u32
  hs_list :: "('k, 'c) handler list"
  hs_timeout :: u32
  hs_ticks :: u32

definition hs_new :: "u32 \<Rightarrow> ('k, 'c) handlers" where
  "hs_new d = \<lparr>hs_default = d, hs_list = [], hs_timeout = MAX_TIMEOUT, hs_ticks = 0\<rparr>"

definition hs_add ::
    "bool \<Rightarrow> 'k \<Rightarrow> 'c option \<Rightarrow> u32 \<Rightarrow> ('k, 'c) handlers \<times> ('c, 'r) call list \<Rightarrow> bool \<times> ('k, 'c) handlers \<times> ('c, 'r) call list" where
  "hs_add room key h timeout s =
     (if h \<noteq> None then
        let t = hs_ticks (fst s) + timeout
        in if room
           then (True,
                 (fst s)\<lparr>hs_list := hs_list (fst s) @ [\<lparr>hd_key = key, hd_callback = h, hd_ticks = t\<rparr>],
                         hs_timeout := (if t < hs_timeout (fst s) then t else hs_timeout (fst s))\<rparr>,
                 snd s)
           else (False, fst s, ch_destroy (h, snd s))
      else (False, s))"

definition hs_add_default ::
    "bool \<Rightarrow> 'k \<Rightarrow> 'c option \<Rightarrow> ('k, 'c) handlers \<times> ('c, 'r) call list \<Rightarrow> bool \<times> ('k, 'c) handlers \<times> ('c, 'r) call list" where
  "hs_add_default room key h s = hs_add room key h (hs_default (fst s)) s"

text \<open>Every element in turn, then \<open>reset\<close>: the destructors find nothing to do.\<close>

primrec for_handlers ::
    "('c option \<times> ('c, 'r) call list \<Rightarrow> 'c option \<times> ('c, 'r) call list) \<Rightarrow> ('k, 'c) handler list \<Rightarrow> ('c, 'r) call list
       \<Rightarrow> ('k, 'c) handler list \<times> ('c, 'r) call list" where
  "for_handlers f [] log = ([], log)"
| "for_handlers f (h # hs) log =
     (let (c, log1) = f (hd_callback h, log); (hs1, log2) = for_handlers f hs log1
      in (h\<lparr>hd_callback := c\<rparr> # hs1, log2))"

primrec destroy_handlers :: "('k, 'c) handler list \<Rightarrow> ('c, 'r) call list \<Rightarrow> ('c, 'r) call list" where
  "destroy_handlers [] log = log"
| "destroy_handlers (h # hs) log = destroy_handlers hs (ch_destroy (hd_callback h, log))"

definition hs_reset :: "('k, 'c) handlers \<times> ('c, 'r) call list \<Rightarrow> ('k, 'c) handlers \<times> ('c, 'r) call list" where
  "hs_reset s =
     ((fst s)\<lparr>hs_list := [], hs_timeout := MAX_TIMEOUT, hs_ticks := 0\<rparr>, destroy_handlers (hs_list (fst s)) (snd s))"

definition hl_set_result :: "'r option \<Rightarrow> ('k, 'c) handlers \<times> ('c, 'r) call list \<Rightarrow> ('k, 'c) handlers \<times> ('c, 'r) call list" where
  "hl_set_result res s =
     (let (hs, log) = for_handlers (ch_set_result res) (hs_list (fst s)) (snd s)
      in hs_reset ((fst s)\<lparr>hs_list := hs\<rparr>, log))"

definition hl_set_error :: "int \<Rightarrow> 'r option \<Rightarrow> ('k, 'c) handlers \<times> ('c, 'r) call list \<Rightarrow> ('k, 'c) handlers \<times> ('c, 'r) call list" where
  "hl_set_error error msg s =
     (let (hs, log) = for_handlers (ch_set_error error msg) (hs_list (fst s)) (snd s)
      in hs_reset ((fst s)\<lparr>hs_list := hs\<rparr>, log))"

definition hl_clear :: "('k, 'c) handlers \<times> ('c, 'r) call list \<Rightarrow> ('k, 'c) handlers \<times> ('c, 'r) call list" where
  "hl_clear s = hl_set_error SYSTEM_ERROR_ABORTED None s"

text \<open>
  The loop of \<open>update\<close> over the handlers from \<open>i\<close> on: an expired one is taken out and invoked, and its
  successor moves to \<open>i\<close>; another one stays, with the elapsed ticks taken off.  The result holds
  the handlers that stay, the nearest timeout, the number expired and the log.
\<close>

primrec expire_loop ::
    "u32 \<Rightarrow> ('k, 'c) handler list \<Rightarrow> u32 \<Rightarrow> ('c, 'r) call list \<Rightarrow> ('k, 'c) handler list \<times> u32 \<times> nat \<times> ('c, 'r) call list" where
  "expire_loop ticks [] timeout log = ([], timeout, 0, log)"
| "expire_loop ticks (h # hs) timeout log =
     (if hd_ticks h \<le> ticks then
        let log1 = ch_destroy (ch_set_error SYSTEM_ERROR_TIMEOUT None (hd_callback h, log));
            (hs1, timeout1, count, log2) = expire_loop ticks hs timeout log1
        in (hs1, timeout1, Suc count, log2)
      else
        let h1 = h\<lparr>hd_ticks := hd_ticks h - ticks\<rparr>;
            (hs1, timeout1, count, log2) =
              expire_loop ticks hs (if hd_ticks h1 < timeout then hd_ticks h1 else timeout) log
        in (h1 # hs1, timeout1, count, log2))"

definition hs_update :: "u32 \<Rightarrow> ('k, 'c) handlers \<times> ('c, 'r) call list \<Rightarrow> nat \<times> ('k, 'c) handlers \<times> ('c, 'r) call list" where
  "hs_update n s =
     (let p = fst s
      in if hs_list p \<noteq> [] then
           let ticks = hs_ticks p + n
           in if hs_timeout p \<le> ticks
              then let (hs1, timeout1, count, log1) = expire_loop ticks (hs_list p) MAX_TIMEOUT (snd s)
                   in (count, p\<lparr>hs_list := hs1, hs_timeout := timeout1, hs_ticks := 0\<rparr>, log1)
              else (0, p\<lparr>hs_ticks := ticks\<rparr>, snd s)
         else (0, s))"

definition nearest_timeout :: "('k, 'c) handlers \<Rightarrow> u32" where
  "nearest_timeout p = hs_timeout p - hs_ticks p"

section \<open>CompletionHandlerMap\<close>

text \<open>
  \<open>takeHandler\<close>: every handler with the key is moved into the result, over the one before; \<open>n\<close> is the
  number of handlers that are in the container besides those still to be looked at.
\<close>

primrec take_loop ::
    "'k \<Rightarrow> ('k, 'c) handler list \<Rightarrow> nat \<Rightarrow> 'c option \<Rightarrow> u32 \<Rightarrow> u32 \<Rightarrow> ('c, 'r) call list
       \<Rightarrow> 'c option \<times> ('k, 'c) handler list \<times> u32 \<times> u32 \<times> ('c, 'r) call list" where
  "take_loop key [] n found timeout ticks log = (found, [], timeout, ticks, log)"
| "take_loop key (h # hs) n found timeout ticks log =
     (if hd_key h = key then
        let (found1, log1) = ch_assign (hd_callback h) (found, log)
        in take_loop key hs n found1 timeout (if n = 0 \<and> hs = [] then 0 else ticks) log1
      else
        let (found1, hs1, timeout1, ticks1, log1) =
              take_loop key hs (Suc n) found (if hd_ticks h < timeout then hd_ticks h else timeout) ticks log
        in (found1, h # hs1, timeout1, ticks1, log1))"

definition hm_take :: "'k \<Rightarrow> ('k, 'c) handlers \<times> ('c, 'r) call list \<Rightarrow> 'c option \<times> ('k, 'c) handlers \<times> ('c, 'r) call list" where
  "hm_take key s =
     (let (found, hs1, timeout1, ticks1, log1) =
            take_loop key (hs_list (fst s)) 0 None MAX_TIMEOUT (hs_ticks (fst s)) (snd s)
      in (found, (fst s)\<lparr>hs_list := hs1, hs_timeout := timeout1, hs_ticks := ticks1\<rparr>, log1))"

primrec has_handler :: "'k \<Rightarrow> ('k, 'c) handler list \<Rightarrow> bool" where
  "has_handler key [] \<longleftrightarrow> False"
| "has_handler key (h # hs) \<longleftrightarrow> (if hd_key h = key then True else has_handler key hs)"

definition hm_has :: "'k \<Rightarrow> ('k, 'c) handlers \<Rightarrow> bool" where
  "hm_has key p \<longleftrightarrow> has_handler key (hs_list p)"

definition hm_clear :: "('k, 'c) handlers \<times> ('c, 'r) call list \<Rightarrow> ('k, 'c) handlers \<times> ('c, 'r) call list" where
  "hm_clear s =
     (let (hs, log) = for_handlers (ch_set_error SYSTEM_ERROR_ABORTED None) (hs_list (fst s)) (snd s)
      in ((fst s)\<lparr>hs_list := [], hs_timeout := MAX_TIMEOUT, hs_ticks := 0\<rparr>, destroy_handlers hs log))"

text \<open>The temporary that \<open>takeHandler\<close> returns is destroyed at the end.\<close>

definition hm_set_result :: "'k \<Rightarrow> 'r option \<Rightarrow> ('k, 'c) handlers \<times> ('c, 'r) call list \<Rightarrow> ('k, 'c) handlers \<times> ('c, 'r) call list" where
  "hm_set_result key res s =
     (let (h, p, log) = hm_take key s in (p, ch_destroy (ch_set_result res (h, log))))"

definition hm_set_error :: "'k \<Rightarrow> int \<Rightarrow> 'r option \<Rightarrow> ('k, 'c) handlers \<times> ('c, 'r) call list \<Rightarrow> ('k, 'c) handlers \<times> ('c, 'r) call list" where
  "hm_set_error key error msg s =
     (let (h, p, log) = hm_take key s in (p, ch_destroy (ch_set_error error msg (h, log))))"

section \<open>Every callback is invoked once\<close>

definition pending :: "('k, 'c) handler list \<Rightarrow> 'c multiset" where
  "pending hs = mset (List.map_filter hd_callback hs)"

definition calls :: "('c, 'r) call list \<Rightarrow> 'c multiset" where
  "calls log = mset (map fst log)"

definition opt_mset :: "'c option \<Rightarrow> 'c multiset" where
  "opt_mset h = (case h of None \<Rightarrow> {#} | Some c \<Rightarrow> {#c#})"

lemma pending_simps [simp]:
  "pending [] = {#}" "pending (h # hs) = opt_mset (hd_callback h) + pending hs" "pending (hs @ hs') = pending hs + pending hs'"
  by (simp_all add: pending_def opt_mset_def List.map_filter_def split: option.splits)

lemma calls_simps [simp]: "calls [] = {#}" "calls (log @ [(c, e, m)]) = add_mset c (calls log)"
  by (simp_all add: calls_def)

lemma opt_mset_simps [simp]: "opt_mset None = {#}" "opt_mset (Some c) = {#c#}"
  by (simp_all add: opt_mset_def)

lemma ch_calls:
  "fst (ch_set_error e m s) = None" "calls (snd (ch_set_error e m s)) = opt_mset (fst s) + calls (snd s)"
  "fst (ch_set_result res s) = None" "calls (snd (ch_set_result res s)) = opt_mset (fst s) + calls (snd s)"
  "calls (ch_destroy s) = opt_mset (fst s) + calls (snd s)"
  "fst (ch_assign h s) = h" "calls (snd (ch_assign h s)) = opt_mset (fst s) + calls (snd s)"
  by (auto simp: ch_set_error_def ch_set_result_def ch_destroy_def ch_assign_def split: option.splits)

lemma for_handlers_calls:
  assumes "\<And>s. fst (f s) = None \<and> calls (snd (f s)) = opt_mset (fst s) + calls (snd s)"
  shows "pending (fst (for_handlers f hs log)) = {#} \<and> calls (snd (for_handlers f hs log)) = pending hs + calls log"
proof (induction hs arbitrary: log)
  case (Cons h hs)
  obtain c log1 where f: "f (hd_callback h, log) = (c, log1)" by fastforce
  have "c = None" "calls log1 = opt_mset (hd_callback h) + calls log" using assms [of "(hd_callback h, log)"] f by auto
  moreover obtain hs2 log2 where "for_handlers f hs log1 = (hs2, log2)" by fastforce
  ultimately show ?case using Cons.IH [of log1] f by (simp add: ac_simps)
qed simp

lemma destroy_handlers_calls: "calls (destroy_handlers hs log) = pending hs + calls log"
  by (induction hs arbitrary: log) (simp_all add: ch_calls)

lemma expire_loop_calls:
  "expire_loop ticks hs t log = (hs1, t1, n, log1) \<Longrightarrow> pending hs1 + calls log1 = pending hs + calls log"
proof (induction hs arbitrary: t log hs1 t1 n log1)
  case (Cons h hs)
  show ?case
  proof (cases "hd_ticks h \<le> ticks")
    case True
    let ?log = "ch_destroy (ch_set_error SYSTEM_ERROR_TIMEOUT None (hd_callback h, log))"
    obtain hs2 t2 n2 log2 where e: "expire_loop ticks hs t ?log = (hs2, t2, n2, log2)" by (metis prod_cases4)
    then show ?thesis using Cons.IH [OF e] Cons.prems True by (auto simp: ch_calls)
  next
    case False
    let ?t = "if hd_ticks h - ticks < t then hd_ticks h - ticks else t"
    obtain hs2 t2 n2 log2 where e: "expire_loop ticks hs ?t log = (hs2, t2, n2, log2)" by (metis prod_cases4)
    then show ?thesis using Cons.IH [OF e] Cons.prems False by (auto simp: Let_def ac_simps cong: if_cong)
  qed
qed simp

lemma take_loop_calls:
  "take_loop key hs n found t ticks log = (found1, hs1, t1, ticks1, log1) \<Longrightarrow>
     opt_mset found1 + pending hs1 + calls log1 = opt_mset found + pending hs + calls log"
proof (induction hs arbitrary: n found t ticks log found1 hs1 t1 ticks1 log1)
  case (Cons h hs)
  show ?case
  proof (cases "hd_key h = key")
    case True
    obtain f2 log2 where a: "ch_assign (hd_callback h) (found, log) = (f2, log2)" by fastforce
    then have "f2 = hd_callback h" "calls log2 = opt_mset found + calls log"
      using ch_calls(6,7) [of "hd_callback h" "(found, log)"] by auto
    moreover have "take_loop key hs n f2 t (if n = 0 \<and> hs = [] then 0 else ticks) log2 = (found1, hs1, t1, ticks1, log1)"
      using Cons.prems True a by simp
    ultimately show ?thesis using Cons.IH by (force simp: ac_simps)
  next
    case False
    obtain f2 hs2 t2 k2 log2 where e: "take_loop key hs (Suc n) found (if hd_ticks h < t then hd_ticks h else t) ticks log
        = (f2, hs2, t2, k2, log2)" by (metis prod_cases5)
    then show ?thesis using Cons.IH [OF e] Cons.prems False by (auto simp: ac_simps)
  qed
qed simp

text \<open>The operations of both containers.\<close>

datatype ('k, 'c, 'r) handler_op =
  Add bool 'k "'c option" u32
| AddDefault bool 'k "'c option"
| Update u32
| ResultAll "'r option"
| ErrorAll int "'r option"
| ClearAll
| ResultKey 'k "'r option"
| ErrorKey 'k int "'r option"
| ClearMap

fun handler_step :: "('k, 'c, 'r) handler_op \<Rightarrow> ('k, 'c) handlers \<times> ('c, 'r) call list \<Rightarrow> ('k, 'c) handlers \<times> ('c, 'r) call list" where
  "handler_step (Add room key h t) s = snd (hs_add room key h t s)"
| "handler_step (AddDefault room key h) s = snd (hs_add_default room key h s)"
| "handler_step (Update n) s = snd (hs_update n s)"
| "handler_step (ResultAll res) s = hl_set_result res s"
| "handler_step (ErrorAll e m) s = hl_set_error e m s"
| "handler_step ClearAll s = hl_clear s"
| "handler_step (ResultKey key res) s = hm_set_result key res s"
| "handler_step (ErrorKey key e m) s = hm_set_error key e m s"
| "handler_step ClearMap s = hm_clear s"

fun op_callback :: "('k, 'c, 'r) handler_op \<Rightarrow> 'c option" where
  "op_callback (Add room key h t) = h"
| "op_callback (AddDefault room key h) = h"
| "op_callback _ = None"

definition accounted :: "('k, 'c) handlers \<times> ('c, 'r) call list \<Rightarrow> 'c multiset" where
  "accounted s = pending (hs_list (fst s)) + calls (snd s)"

lemma add_accounted: "accounted (snd (hs_add room key h t s)) = opt_mset h + accounted s"
  by (auto simp: hs_add_def accounted_def ch_calls Let_def ac_simps)

lemma update_accounted: "accounted (snd (hs_update n s)) = accounted s"
proof (cases "hs_list (fst s) \<noteq> [] \<and> hs_timeout (fst s) \<le> hs_ticks (fst s) + n")
  case True
  obtain hs1 t1 k log1 where e: "expire_loop (hs_ticks (fst s) + n) (hs_list (fst s)) MAX_TIMEOUT (snd s) = (hs1, t1, k, log1)"
    by (metis prod_cases4)
  then show ?thesis
    using True expire_loop_calls [OF e] by (simp add: hs_update_def accounted_def Let_def)
qed (auto simp: hs_update_def accounted_def Let_def)

lemma all_accounted:
  assumes "\<And>s. fst (f s) = None \<and> calls (snd (f s)) = opt_mset (fst s) + calls (snd s)"
    and "for_handlers f (hs_list (fst s)) (snd s) = (hs, log)"
  shows "pending hs + calls log = accounted s"
  using for_handlers_calls [OF assms(1), of "hs_list (fst s)" "snd s"] assms(2) by (simp add: accounted_def)

lemma reset_accounted: "accounted (hs_reset s) = accounted s"
  by (simp add: hs_reset_def accounted_def destroy_handlers_calls)

lemma set_all_accounted: "accounted (hl_set_result res s) = accounted s" "accounted (hl_set_error e m s) = accounted s"
proof -
  obtain hs log where r: "for_handlers (ch_set_result res) (hs_list (fst s)) (snd s) = (hs, log)" by fastforce
  then show "accounted (hl_set_result res s) = accounted s"
    using all_accounted [OF _ r] by (simp add: hl_set_result_def reset_accounted ch_calls) (simp add: accounted_def)
  obtain hs log where r: "for_handlers (ch_set_error e m) (hs_list (fst s)) (snd s) = (hs, log)" by fastforce
  then show "accounted (hl_set_error e m s) = accounted s"
    using all_accounted [OF _ r] by (simp add: hl_set_error_def reset_accounted ch_calls) (simp add: accounted_def)
qed

lemma clear_map_accounted: "accounted (hm_clear s) = accounted s"
proof -
  obtain hs log where r: "for_handlers (ch_set_error SYSTEM_ERROR_ABORTED None) (hs_list (fst s)) (snd s) = (hs, log)"
    by fastforce
  then show ?thesis
    using all_accounted [OF _ r] by (simp add: hm_clear_def destroy_handlers_calls ch_calls accounted_def)
qed

lemma take_accounted: "hm_take key s = (h, p, log) \<Longrightarrow> opt_mset h + pending (hs_list p) + calls log = accounted s"
  using take_loop_calls [of key "hs_list (fst s)" 0 None MAX_TIMEOUT "hs_ticks (fst s)" "snd s"]
  by (auto simp: hm_take_def accounted_def split: prod.splits)

lemma handler_step_accounted: "accounted (handler_step p s) = opt_mset (op_callback p) + accounted s"
proof (cases p)
  case (ResultKey key res)
  obtain h q log where t: "hm_take key s = (h, q, log)" by (metis prod_cases3)
  then show ?thesis
    using ResultKey take_accounted [OF t] by (simp add: hm_set_result_def accounted_def ch_calls ac_simps)
next
  case (ErrorKey key e m)
  obtain h q log where t: "hm_take key s = (h, q, log)" by (metis prod_cases3)
  then show ?thesis
    using ErrorKey take_accounted [OF t] by (simp add: hm_set_error_def accounted_def ch_calls ac_simps)
qed (simp_all add: add_accounted update_accounted hs_add_default_def set_all_accounted clear_map_accounted hl_clear_def)

lemma handler_run_accounted:
  "accounted (fold handler_step ps s) = mset (List.map_filter op_callback ps) + accounted s"
proof (induction ps arbitrary: s)
  case (Cons p ps)
  then show ?case
    by (simp add: handler_step_accounted List.map_filter_def opt_mset_def ac_simps split: option.splits)
qed (simp add: List.map_filter_def)

section \<open>What the containers promise\<close>

text \<open>
  The specification keeps, for every handler, its key, its callback and the time it has left, as an unbounded
  number.  A state of the containers stands for it when every stored expiration time is ahead of the ticks
  counted so far and the nearest expiration time is the least one.
\<close>

type_synonym ('k, 'c, 'r) spec = "('k \<times> 'c \<times> nat) list \<times> ('c, 'r) call list"

fun spec_step :: "nat \<Rightarrow> ('k, 'c, 'r) handler_op \<Rightarrow> ('k, 'c, 'r) spec \<Rightarrow> ('k, 'c, 'r) spec" where
  "spec_step d (Add room key h t) (hs, log) =
     (case h of None \<Rightarrow> (hs, log)
      | Some c \<Rightarrow> if room then (hs @ [(key, c, unat t)], log) else (hs, log @ [(c, SYSTEM_ERROR_INTERNAL, None)]))"
| "spec_step d (AddDefault room key h) (hs, log) =
     (case h of None \<Rightarrow> (hs, log)
      | Some c \<Rightarrow> if room then (hs @ [(key, c, d)], log) else (hs, log @ [(c, SYSTEM_ERROR_INTERNAL, None)]))"
| "spec_step d (Update n) (hs, log) =
     ([(k, c, r - unat n). (k, c, r) \<leftarrow> hs, unat n < r], log @ [(c, SYSTEM_ERROR_TIMEOUT, None). (k, c, r) \<leftarrow> hs, r \<le> unat n])"
| "spec_step d (ResultAll res) (hs, log) = ([], log @ [(c, SYSTEM_ERROR_NONE, res). (k, c, r) \<leftarrow> hs])"
| "spec_step d (ErrorAll e m) (hs, log) = ([], log @ [(c, e, m). (k, c, r) \<leftarrow> hs])"
| "spec_step d ClearAll (hs, log) = ([], log @ [(c, SYSTEM_ERROR_ABORTED, None). (k, c, r) \<leftarrow> hs])"
| "spec_step d ClearMap (hs, log) = ([], log @ [(c, SYSTEM_ERROR_ABORTED, None). (k, c, r) \<leftarrow> hs])"
| "spec_step d (ResultKey key res) (hs, log) =
     (let cs = [c. (k, c, r) \<leftarrow> hs, k = key]
      in ([h \<leftarrow> hs. fst h \<noteq> key], log @ [(c, SYSTEM_ERROR_INTERNAL, None). c \<leftarrow> butlast cs] @
          (if cs = [] then [] else [(last cs, SYSTEM_ERROR_NONE, res)])))"
| "spec_step d (ErrorKey key e m) (hs, log) =
     (let cs = [c. (k, c, r) \<leftarrow> hs, k = key]
      in ([h \<leftarrow> hs. fst h \<noteq> key], log @ [(c, SYSTEM_ERROR_INTERNAL, None). c \<leftarrow> butlast cs] @
          (if cs = [] then [] else [(last cs, e, m)])))"

definition nearest :: "('k, 'c) handler list \<Rightarrow> u32" where
  "nearest hs = fold (\<lambda>h t. if hd_ticks h < t then hd_ticks h else t) hs MAX_TIMEOUT"

definition hs_ok :: "('k, 'c) handlers \<Rightarrow> bool" where
  "hs_ok p \<longleftrightarrow> hs_timeout p = nearest (hs_list p) \<and>
     list_all (\<lambda>h. hs_ticks p \<le> hd_ticks h \<and> hd_callback h \<noteq> None) (hs_list p)"

definition left :: "u32 \<Rightarrow> ('k, 'c) handler \<Rightarrow> 'k \<times> 'c \<times> nat" where
  "left ticks h = (hd_key h, the (hd_callback h), unat (hd_ticks h - ticks))"

definition view :: "('k, 'c) handlers \<times> ('c, 'r) call list \<Rightarrow> ('k, 'c, 'r) spec" where
  "view s = (map (left (hs_ticks (fst s))) (hs_list (fst s)), snd s)"

text \<open>The 32-bit tick counter of the container does not wrap.\<close>

fun fits :: "('k, 'c, 'r) handler_op \<Rightarrow> ('k, 'c) handlers \<Rightarrow> bool" where
  "fits (Add room key h t) p \<longleftrightarrow> unat (hs_ticks p) + unat t < 2 ^ 32"
| "fits (AddDefault room key h) p \<longleftrightarrow> unat (hs_ticks p) + unat (hs_default p) < 2 ^ 32"
| "fits (Update n) p \<longleftrightarrow> unat (hs_ticks p) + unat n < 2 ^ 32"
| "fits _ p \<longleftrightarrow> True"

lemma unat_diff_u32: "(a :: u32) \<le> b \<Longrightarrow> unat (b - a) = unat b - unat a"
  by (rule unat_sub)

lemma left_ahead:
  assumes "ticks \<le> hd_ticks h" "unat ticks + unat n < 2 ^ 32"
  shows "hd_ticks h \<le> ticks + n \<longleftrightarrow> unat (hd_ticks h - ticks) \<le> unat n"
  using assms by (simp add: word_le_nat_alt unat_add_u32 unat_diff_u32) arith

lemma nearest_simps [simp]: "nearest [] = MAX_TIMEOUT" "nearest (hs @ [h]) = (if hd_ticks h < nearest hs then hd_ticks h else nearest hs)"
  by (simp_all add: nearest_def)

lemma nearest_from: "fold (\<lambda>h t. if hd_ticks h < t then hd_ticks h else t) hs t \<le> t"
  by (induction hs arbitrary: t) (auto intro: order_trans less_imp_le)

lemma nearest_least: "h \<in> set hs \<Longrightarrow> fold (\<lambda>h t. if hd_ticks h < t then hd_ticks h else t) hs t \<le> hd_ticks h"
proof (induction hs arbitrary: t)
  case (Cons x hs)
  then show ?case
    using nearest_from [of hs "hd_ticks x"] nearest_from [of hs t] by (auto intro: order_trans)
qed simp

lemma expire_loop_spec:
  assumes "list_all (\<lambda>h. t0 \<le> hd_ticks h \<and> hd_callback h \<noteq> None) hs" "unat t0 + unat n < 2 ^ 32" "ticks = t0 + n"
    and "expire_loop ticks hs t log = (hs1, t1, k, log1)"
  shows "map (left 0) hs1 = [(k, c, r - unat n). (k, c, r) \<leftarrow> map (left t0) hs, unat n < r] \<and>
     log1 = log @ [(c, SYSTEM_ERROR_TIMEOUT, None). (k, c, r) \<leftarrow> map (left t0) hs, r \<le> unat n] \<and>
     t1 = fold (\<lambda>h t. if hd_ticks h < t then hd_ticks h else t) hs1 t \<and> list_all (\<lambda>h. hd_callback h \<noteq> None) hs1"
  using assms
proof (induction hs arbitrary: t log hs1 t1 k log1)
  case (Cons h hs)
  obtain c where c: "hd_callback h = Some c" using Cons.prems by auto
  have le: "t0 \<le> hd_ticks h" using Cons.prems by simp
  have ahead: "hd_ticks h \<le> ticks \<longleftrightarrow> unat (hd_ticks h - t0) \<le> unat n"
    using left_ahead [OF le Cons.prems(2)] Cons.prems(3) by simp
  show ?case
  proof (cases "hd_ticks h \<le> ticks")
    case True
    obtain hs2 t2 n2 log2 where e: "expire_loop ticks hs t (log @ [(c, SYSTEM_ERROR_TIMEOUT, None)]) = (hs2, t2, n2, log2)"
      by (metis prod_cases4)
    then show ?thesis
      using Cons.IH [OF _ _ _ e] Cons.prems True ahead c
      by (auto simp: ch_set_error_def ch_destroy_def left_def Let_def)
  next
    case False
    let ?t = "if hd_ticks h - ticks < t then hd_ticks h - ticks else t"
    obtain hs2 t2 n2 log2 where e: "expire_loop ticks hs ?t log = (hs2, t2, n2, log2)" by (metis prod_cases4)
    have "unat (hd_ticks h - ticks) = unat (hd_ticks h - t0) - unat n"
      using False le Cons.prems(2,3) by (simp add: unat_diff_u32 unat_add_u32)
    then show ?thesis
      using Cons.IH [OF _ _ _ e] Cons.prems False ahead c e
      by (auto simp: left_def Let_def cong: if_cong)
  qed
qed simp

lemma add_refines:
  assumes "hs_ok p" "unat (hs_ticks p) + unat t < 2 ^ 32"
  shows "hs_ok (fst (snd (hs_add room key h t (p, log)))) \<and>
     view (snd (hs_add room key h t (p, log))) = spec_step d (Add room key h t) (view (p, log))"
proof -
  have "hs_ticks p \<le> hs_ticks p + t" "hs_ticks p + t - hs_ticks p = t"
    using assms(2) by (simp_all add: word_le_nat_alt unat_add_u32)
  then show ?thesis
    using assms(1)
    by (auto simp: hs_add_def hs_ok_def view_def left_def ch_destroy_def ch_set_error_def Let_def split: option.splits)
qed

lemma update_refines:
  assumes ok: "hs_ok p" and fit: "unat (hs_ticks p) + unat n < 2 ^ 32"
  shows "hs_ok (fst (snd (hs_update n (p, log)))) \<and> view (snd (hs_update n (p, log))) = spec_step d (Update n) (view (p, log))"
proof (cases "hs_list p \<noteq> [] \<and> hs_timeout p \<le> hs_ticks p + n")
  case True
  obtain hs1 t1 k log1 where e: "expire_loop (hs_ticks p + n) (hs_list p) MAX_TIMEOUT log = (hs1, t1, k, log1)"
    by (metis prod_cases4)
  show ?thesis
    using True expire_loop_spec [OF _ fit refl e] ok e
    by (auto simp: hs_update_def hs_ok_def view_def nearest_def Let_def list_all_iff)
next
  case False
  have out: "snd (hs_update n (p, log)) = (if hs_list p = [] then p else p\<lparr>hs_ticks := hs_ticks p + n\<rparr>, log)"
    using False by (auto simp: hs_update_def Let_def)
  have later: "hs_ticks p + n < hd_ticks h \<and> unat n < unat (hd_ticks h - hs_ticks p) \<and>
      unat (hd_ticks h - (hs_ticks p + n)) = unat (hd_ticks h - hs_ticks p) - unat n" if "h \<in> set (hs_list p)" for h
  proof -
    have "hs_ticks p \<le> hd_ticks h" using ok that by (auto simp: hs_ok_def list_all_iff)
    moreover have "hs_ticks p + n < hd_ticks h"
      using that False nearest_least [OF that, of MAX_TIMEOUT] ok
      by (auto simp: hs_ok_def nearest_def not_le intro: less_le_trans)
    ultimately show ?thesis
      using fit left_ahead [of "hs_ticks p" h n] by (auto simp: unat_diff_u32 unat_add_u32 not_le dest: less_imp_le)
  qed
  have "[(k, c, r - unat n). (k, c, r) \<leftarrow> map (left (hs_ticks p)) hs, unat n < r] = map (left (hs_ticks p + n)) hs \<and>
      [(c, SYSTEM_ERROR_TIMEOUT, None :: 'c option). (k, c, r) \<leftarrow> map (left (hs_ticks p)) hs, r \<le> unat n] = []"
    if "set hs \<subseteq> set (hs_list p)" for hs
    using that by (induction hs) (use later in \<open>auto simp: left_def not_le\<close>)
  then show ?thesis
    using ok later unfolding out by (auto simp: hs_ok_def view_def list_all_iff less_imp_le)
qed

lemma for_handlers_log:
  assumes "\<And>c log. f (Some c, log) = (None, log @ [(c, e, m)])" "list_all (\<lambda>h. hd_callback h \<noteq> None) hs"
  shows "snd (for_handlers f hs log) = log @ [(c, e, m). (k, c, r) \<leftarrow> map (left t) hs]"
  using assms(2)
proof (induction hs arbitrary: log)
  case (Cons h hs)
  then obtain c where "hd_callback h = Some c" by auto
  moreover obtain hs2 log2 where "for_handlers f hs (log @ [(c, e, m)]) = (hs2, log2)" by fastforce
  ultimately show ?case using Cons.IH [of "log @ [(c, e, m)]"] Cons.prems by (simp add: assms(1) left_def)
qed simp

lemma for_handlers_null:
  assumes "\<And>s. fst (f s) = None"
  shows "list_all (\<lambda>h. hd_callback h = None) (fst (for_handlers f hs log))"
proof (induction hs arbitrary: log)
  case (Cons h hs)
  obtain c log1 where f: "f (hd_callback h, log) = (c, log1)" by fastforce
  moreover obtain hs2 log2 where "for_handlers f hs log1 = (hs2, log2)" by fastforce
  ultimately show ?case using Cons.IH [of log1] assms [of "(hd_callback h, log)"] by simp
qed simp

lemma destroy_null: "list_all (\<lambda>h. hd_callback h = None) hs \<Longrightarrow> destroy_handlers hs log = log"
  by (induction hs) (auto simp: ch_destroy_def ch_set_error_def)

lemma all_refines:
  assumes "hs_ok p" "\<And>c log. f (Some c, log) = (None, log @ [(c, e, m)])" "\<And>s. fst (f s) = None"
    and r: "for_handlers f (hs_list p) log = (hs, log1)"
  shows "destroy_handlers hs log1 = log @ [(c, e, m). (k, c, r) \<leftarrow> fst (view (p, log))]"
proof -
  have "list_all (\<lambda>h. hd_callback h \<noteq> None) (hs_list p)" using assms(1) by (auto simp: hs_ok_def list_all_iff)
  then show ?thesis
    using for_handlers_log [of f e m "hs_list p" log, OF assms(2)] for_handlers_null [of f "hs_list p" log, OF assms(3)] r
    by (simp add: destroy_null view_def)
qed

lemma empty_ok: "hs_ok (p\<lparr>hs_list := [], hs_timeout := MAX_TIMEOUT, hs_ticks := 0\<rparr>)"
  by (simp add: hs_ok_def)

lemma set_all_refines:
  assumes "hs_ok p"
  shows "hs_ok (fst (hl_set_result res (p, log))) \<and>
      view (hl_set_result res (p, log)) = spec_step d (ResultAll res) (view (p, log))" (is ?A)
    and "hs_ok (fst (hl_set_error e m (p, log))) \<and>
      view (hl_set_error e m (p, log)) = spec_step d (ErrorAll e m) (view (p, log))" (is ?B)
    and "hs_ok (fst (hm_clear (p, log))) \<and> view (hm_clear (p, log)) = spec_step d ClearMap (view (p, log))" (is ?C)
proof -
  obtain hs log1 where r: "for_handlers (ch_set_result res) (hs_list p) log = (hs, log1)" by fastforce
  show ?A
    using all_refines [OF assms _ _ r] r
    by (simp add: hl_set_result_def hs_reset_def hs_ok_def ch_calls view_def) (simp add: ch_set_result_def)
  have err: "ch_set_error e m (Some c, log) = (None, log @ [(c, e, m)])" for e m and c :: 'b and log :: "('b, 'c) call list"
    by (simp add: ch_set_error_def)
  obtain hs log1 where r: "for_handlers (ch_set_error e m) (hs_list p) log = (hs, log1)" by fastforce
  show ?B
    using all_refines [OF assms err _ r] r by (simp add: hl_set_error_def hs_reset_def hs_ok_def ch_calls view_def)
  obtain hs log1 where r: "for_handlers (ch_set_error SYSTEM_ERROR_ABORTED None) (hs_list p) log = (hs, log1)" by fastforce
  show ?C
    using all_refines [OF assms err _ r] r by (simp add: hm_clear_def hs_ok_def ch_calls view_def)
qed

text \<open>\<open>takeHandler\<close> returns the last handler with the key; the ones before it fail.\<close>

lemma take_loop_spec:
  assumes "list_all (\<lambda>h. hd_callback h \<noteq> None) hs"
    and "take_loop key hs n found t ticks log = (found1, hs1, t1, ticks1, log1)"
  shows "hs1 = [h \<leftarrow> hs. hd_key h \<noteq> key] \<and> t1 = fold (\<lambda>h t. if hd_ticks h < t then hd_ticks h else t) hs1 t \<and>
    (ticks1 = ticks \<or> n = 0 \<and> hs1 = []) \<and>
    (let cs = (case found of None \<Rightarrow> [] | Some c \<Rightarrow> [c]) @ [the (hd_callback h). h \<leftarrow> hs, hd_key h = key]
     in found1 = (if cs = [] then None else Some (last cs)) \<and>
        log1 = log @ [(c, SYSTEM_ERROR_INTERNAL, None). c \<leftarrow> butlast cs])"
  using assms
proof (induction hs arbitrary: n found t ticks log found1 hs1 t1 ticks1 log1)
  case (Cons h hs)
  show ?case
  proof (cases "hd_key h = key")
    case True
    obtain c where c: "hd_callback h = Some c" using Cons.prems by auto
    let ?log = "log @ (case found of None \<Rightarrow> [] | Some c \<Rightarrow> [(c, SYSTEM_ERROR_INTERNAL, None)])"
    have "ch_assign (hd_callback h) (found, log) = (Some c, ?log)"
      by (simp add: ch_assign_def ch_set_error_def c split: option.splits)
    then have "take_loop key hs n (Some c) t (if n = 0 \<and> hs = [] then 0 else ticks) ?log = (found1, hs1, t1, ticks1, log1)"
      using Cons.prems True by simp
    from Cons.IH [OF _ this] show ?thesis
      using Cons.prems True c by (auto simp: Let_def split: option.splits if_splits)
  next
    case False
    obtain f2 hs2 t2 k2 log2 where e: "take_loop key hs (Suc n) found (if hd_ticks h < t then hd_ticks h else t) ticks log
        = (f2, hs2, t2, k2, log2)" by (metis prod_cases5)
    then show ?thesis using Cons.IH [OF _ e] Cons.prems False by (auto simp: Let_def)
  qed
qed (auto split: option.splits)

lemma take_refines:
  assumes "hs_ok p" "hm_take key (p, log) = (h, q, log1)"
  shows "hs_ok q \<and> fst (view (q, log1)) = [h \<leftarrow> fst (view (p, log)). fst h \<noteq> key] \<and>
    (let cs = [c. (k, c, r) \<leftarrow> fst (view (p, log)), k = key]
     in h = (if cs = [] then None else Some (last cs)) \<and> log1 = log @ [(c, SYSTEM_ERROR_INTERNAL, None). c \<leftarrow> butlast cs])"
proof -
  obtain hs1 t1 k1 where e: "take_loop key (hs_list p) 0 None MAX_TIMEOUT (hs_ticks p) log = (h, hs1, t1, k1, log1)"
    and q: "q = p\<lparr>hs_list := hs1, hs_timeout := t1, hs_ticks := k1\<rparr>"
    using assms(2) by (auto simp: hm_take_def split: prod.splits)
  have ok: "list_all (\<lambda>h. hd_callback h \<noteq> None) (hs_list p)" using assms(1) by (auto simp: hs_ok_def list_all_iff)
  have "[the (hd_callback h). h \<leftarrow> hs, hd_key h = key] = [c. (k, c, r) \<leftarrow> map (left t) hs, k = key]"
    "[h \<leftarrow> map (left t) hs. fst h \<noteq> key] = map (left t) [h \<leftarrow> hs. hd_key h \<noteq> key]" for t and hs :: "('a, 'b) handler list"
    by (induction hs) (auto simp: left_def)
  note maps = this
  note loop = take_loop_spec [OF ok e]
  have hs1: "hs1 = [h \<leftarrow> hs_list p. hd_key h \<noteq> key]" using loop by simp
  have "\<forall>h \<in> set hs1. hs_ticks p \<le> hd_ticks h \<and> hd_callback h \<noteq> None"
    using assms(1) by (auto simp: hs1 hs_ok_def list_all_iff)
  moreover have k1: "k1 = hs_ticks p \<or> hs1 = []" using loop by blast
  moreover have "t1 = nearest hs1" unfolding nearest_def using loop by blast
  ultimately have "hs_ok q" by (auto simp: q hs_ok_def list_all_iff)
  moreover have "map (left (hs_ticks q)) hs1 = map (left (hs_ticks p)) hs1" using k1 by (auto simp: q)
  then have "fst (view (q, log1)) = [h \<leftarrow> fst (view (p, log)). fst h \<noteq> key]"
    unfolding view_def by (simp add: q hs1 maps(2))
  ultimately show ?thesis using loop by (simp add: maps(1) [where t = "hs_ticks p"] view_def)
qed

text \<open>One operation.\<close>

lemma handler_step_refines:
  assumes "hs_ok p" "fits x p"
  shows "hs_ok (fst (handler_step x (p, log))) \<and>
    view (handler_step x (p, log)) = spec_step (unat (hs_default p)) x (view (p, log))"
proof (cases x)
  case (Add room key h t)
  then show ?thesis using add_refines [of p t room key h log "unat (hs_default p)"] assms by simp
next
  case (AddDefault room key h)
  then show ?thesis
    using add_refines [of p "hs_default p" room key h log "unat (hs_default p)"] assms
    by (simp add: hs_add_default_def view_def)
next
  case (Update n)
  then show ?thesis using update_refines [of p n log "unat (hs_default p)"] assms by simp
next
  case (ResultKey key res)
  obtain h q log1 where t: "hm_take key (p, log) = (h, q, log1)" by (metis prod_cases3)
  show ?thesis
    using take_refines [OF assms(1) t] ResultKey t
    by (auto simp: hm_set_result_def view_def ch_set_result_def ch_destroy_def ch_set_error_def Let_def)
next
  case (ErrorKey key e m)
  obtain h q log1 where t: "hm_take key (p, log) = (h, q, log1)" by (metis prod_cases3)
  show ?thesis
    using take_refines [OF assms(1) t] ErrorKey t
    by (auto simp: hm_set_error_def view_def ch_destroy_def ch_set_error_def Let_def)
next
  case (ResultAll res)
  then show ?thesis using set_all_refines(1) [OF assms(1)] by simp
next
  case (ErrorAll e m)
  then show ?thesis using set_all_refines(2) [OF assms(1)] by simp
next
  case ClearAll
  then show ?thesis
    using set_all_refines(2) [OF assms(1), of SYSTEM_ERROR_ABORTED None log] by (simp add: hl_clear_def view_def)
next
  case ClearMap
  then show ?thesis using set_all_refines(3) [OF assms(1)] by simp
qed

lemma handler_step_default: "hs_default (fst (handler_step x s)) = hs_default (fst s)"
  by (cases x) (auto simp: hs_add_def hs_add_default_def hs_update_def hl_set_result_def hl_set_error_def hl_clear_def hs_reset_def
      hm_clear_def hm_set_result_def hm_set_error_def hm_take_def Let_def split: prod.splits)

primrec fits_run :: "('k, 'c, 'r) handler_op list \<Rightarrow> ('k, 'c) handlers \<times> ('c, 'r) call list \<Rightarrow> bool" where
  "fits_run [] s \<longleftrightarrow> True"
| "fits_run (x # xs) s \<longleftrightarrow> fits x (fst s) \<and> fits_run xs (handler_step x s)"

lemma handler_run_refines:
  "hs_ok (fst s) \<Longrightarrow> fits_run xs s \<Longrightarrow>
     hs_ok (fst (fold handler_step xs s)) \<and>
     view (fold handler_step xs s) = fold (spec_step (unat (hs_default (fst s)))) xs (view s)"
proof (induction xs arbitrary: s)
  case (Cons x xs)
  then have "hs_ok (fst (handler_step x s)) \<and> view (handler_step x s) = spec_step (unat (hs_default (fst s))) x (view s)"
    using handler_step_refines [of "fst s" x "snd s"] by simp
  with Cons show ?case by (simp add: handler_step_default)
qed simp

lemma expire_loop_mono: "expire_loop ticks hs t log = (hs1, t1, k, log1) \<Longrightarrow> set log \<subseteq> set log1"
proof (induction hs arbitrary: t log hs1 t1 k log1)
  case (Cons x hs)
  show ?case
  proof (cases "hd_ticks x \<le> ticks")
    case True
    let ?log = "ch_destroy (ch_set_error SYSTEM_ERROR_TIMEOUT None (hd_callback x, log))"
    obtain hs2 t2 n2 where e: "expire_loop ticks hs t ?log = (hs2, t2, n2, log1)"
      using Cons.prems True by (auto simp: Let_def split: prod.splits)
    have "set log \<subseteq> set ?log" by (auto simp: ch_destroy_def ch_set_error_def split: option.splits)
    then show ?thesis using Cons.IH [OF e] by blast
  next
    case False
    then obtain t' hs2 t2 n2 where "expire_loop ticks hs t' log = (hs2, t2, n2, log1)"
      using Cons.prems by (auto simp: Let_def split: prod.splits)
    then show ?thesis using Cons.IH by blast
  qed
qed simp

lemma expire_loop_member:
  assumes "h \<in> set hs" "hd_ticks h \<le> ticks" "hd_callback h = Some c" "expire_loop ticks hs t log = (hs1, t1, k, log1)"
  shows "(c, SYSTEM_ERROR_TIMEOUT, None) \<in> set log1"
  using assms(1,4)
proof (induction hs arbitrary: t log hs1 t1 k log1)
  case (Cons x hs)
  show ?case
  proof (cases "x = h")
    case True
    obtain hs2 t2 n2 log2 where e: "expire_loop ticks hs t (log @ [(c, SYSTEM_ERROR_TIMEOUT, None)]) = (hs2, t2, n2, log2)"
      by (metis prod_cases4)
    then show ?thesis
      using expire_loop_mono [OF e] Cons.prems(2) True assms(2,3) by (simp add: ch_destroy_def ch_set_error_def Let_def)
  next
    case False
    then have "h \<in> set hs" using Cons.prems by simp
    moreover obtain t' l a b d where "expire_loop ticks hs t' l = (a, b, d, log1)"
      using Cons.prems(2) by (auto simp: Let_def split: prod.splits if_splits)
    ultimately show ?thesis using Cons.IH by blast
  qed
qed simp

section \<open>Properties\<close>

text \<open>
  C12: Every callback is invoked exactly once.  Whatever operations are applied to a new container and whether
  or not \<open>append\<close> finds memory, after the container is destroyed the callbacks that were invoked are, with
  their multiplicities, those of the handlers that were passed to \<open>addHandler\<close>.
\<close>

lemma callbacks_invoked_once:
  "mset (map fst (destroy_handlers (hs_list (fst (fold handler_step ps (hs_new d, [])))) (snd (fold handler_step ps (hs_new d, []))))) =
   mset (List.map_filter op_callback ps)"
proof -
  obtain p log where r: "fold handler_step ps (hs_new d, []) = (p, log)" by fastforce
  then have "calls (destroy_handlers (hs_list p) log) = mset (List.map_filter op_callback ps)"
    using handler_run_accounted [of ps "(hs_new d, [])"] by (simp add: accounted_def hs_new_def destroy_handlers_calls)
  then show ?thesis by (simp add: r calls_def)
qed

text \<open>
  C13: As long as the tick counter does not wrap, a run of the containers' operations is a run of the
  specification on handlers with the time they have left: \<open>update(n)\<close> takes \<open>n\<close> off every one and fails those with
  nothing left in their order, \<open>setResult\<close> and \<open>setError\<close> reach the handler of their key, and every handler that
  leaves is invoked with the outcome that removed it, the nearest expiration time stored being the least one.
\<close>

lemma handlers_refine_timers:
  assumes "fits_run ps (hs_new d, [])"
  shows "view (fold handler_step ps (hs_new d, [])) = fold (spec_step (unat d)) ps ([], []) \<and>
     hs_ok (fst (fold handler_step ps (hs_new d, [])))"
  using handler_run_refines [OF _ assms] by (simp add: hs_ok_def hs_new_def view_def)

lemma handlers_refine_timers_witness:
  "view (fold handler_step [Add True (1 :: int) (Some ''a'') 5, Add True 2 (Some ''b'') 9, Update 3, AddDefault True 1 (Some ''c''), Update 4,
       ResultKey 1 (Some ''r'')] (hs_new 60000, [])) =
     ([(2, ''b'', 2)], [(''a'', SYSTEM_ERROR_TIMEOUT, None), (''c'', SYSTEM_ERROR_NONE, Some ''r'')])"
  using handlers_refine_timers [of "[Add True (1 :: int) (Some ''a'') 5, Add True 2 (Some ''b'') 9, Update 3, AddDefault True 1 (Some ''c''),
       Update 4, ResultKey 1 (Some ''r'')]" 60000]
  by (simp add: hs_new_def hs_add_def hs_add_default_def hs_update_def MAX_TIMEOUT_def Let_def ch_set_error_def ch_destroy_def
      word_le_nat_alt word_less_nat_alt)

text \<open>
  A handler whose expiration time wraps is failed by the next \<open>update\<close>: with ticks already counted, a
  timeout as long as \<open>MAX_TIMEOUT\<close> gives an expiration time below the tick counter, and the handler is
  invoked with \<open>SYSTEM_ERROR_TIMEOUT\<close> however few ticks have passed.
\<close>

lemma wrapped_timeout_expires_at_once:
  assumes "2 ^ 32 \<le> unat (hs_ticks p) + unat timeout" "unat (hs_ticks p) + unat n < 2 ^ 32"
  shows "(c, SYSTEM_ERROR_TIMEOUT, None) \<in> set (snd (snd (hs_update n (snd (hs_add True key (Some c) timeout (p, log))))))"
proof -
  let ?t = "hs_ticks p + timeout"
  let ?h = "\<lparr>hd_key = key, hd_callback = Some c, hd_ticks = ?t\<rparr>"
  have "unat ?t = unat (hs_ticks p) + unat timeout - 2 ^ 32"
    using assms(1) unat_u32_less [of "hs_ticks p"] unat_u32_less [of timeout] by (simp add: unat_word_ariths le_mod_geq)
  then have le: "?t \<le> hs_ticks p + n"
    using assms unat_u32_less [of timeout] by (simp add: word_le_nat_alt unat_add_u32)
  define q where "q = p\<lparr>hs_list := hs_list p @ [?h], hs_timeout := (if ?t < hs_timeout p then ?t else hs_timeout p)\<rparr>"
  have add: "snd (hs_add True key (Some c) timeout (p, log)) = (q, log)" by (simp add: hs_add_def q_def Let_def)
  have ready: "hs_list q \<noteq> []" "hs_timeout q \<le> hs_ticks q + n" "hs_ticks q = hs_ticks p" "?h \<in> set (hs_list q)"
    using le by (auto simp: q_def intro: order_trans)
  obtain hs1 t1 k log1 where e: "expire_loop (hs_ticks q + n) (hs_list q) MAX_TIMEOUT log = (hs1, t1, k, log1)"
    by (metis prod_cases4)
  have "(c, SYSTEM_ERROR_TIMEOUT, None) \<in> set log1"
    using expire_loop_member [OF ready(4) _ _ e] le ready(3) by simp
  then show ?thesis using ready e by (simp add: add hs_update_def Let_def)
qed

lemma wrapped_timeout_expires_at_once_witness:
  "((), SYSTEM_ERROR_TIMEOUT, None :: unit option) \<in>
     set (snd (snd (hs_update 1 (snd (hs_add True (2 :: nat) (Some ()) MAX_TIMEOUT
        (\<lparr>hs_default = 60000, hs_list = [\<lparr>hd_key = 1, hd_callback = Some (), hd_ticks = 100\<rparr>], hs_timeout = 100, hs_ticks = 7\<rparr>, []))))))"
  by (rule wrapped_timeout_expires_at_once) (simp_all add: MAX_TIMEOUT_def unsigned_minus_1_eq_mask mask_eq_exp_minus_1)

end
