(* ===== verification/Coap_Messages.thy ===== *)
theory Coap_Messages
  imports Prelude
begin

text \<open>
  CoAP messages in the buffer of a message channel (\<open>communication/src/coap.h\<close>, \<open>messages.h\<close>,
  \<open>message_channel.h\<close>, \<open>buffer_message_channel.h\<close> and the class \<open>CoAPChannel\<close> of \<open>coap_channel.h\<close>).  The memory of
  the channel is a function from addresses to bytes, the queue of a \<open>BufferMessageChannel\<close> being the addresses below
  its size; a \<open>Message\<close> is a record with the address of its buffer.  \<open>CoAP::type\<close> and the functions of
  \<open>Messages\<close> whose bodies are not in the headers are parameters.
\<close>

section \<open>Codes\<close>

datatype coap_type = CON | NON | ACK | RESET | TYPE_ERROR

fun coap_type_code :: "coap_type \<Rightarrow> u8" where
  "coap_type_code CON = 0"
| "coap_type_code NON = 1"
| "coap_type_code ACK = 2"
| "coap_type_code RESET = 3"
| "coap_type_code TYPE_ERROR = 4"

datatype protocol_error =
  NO_ERROR | PING_TIMEOUT | IO_ERROR | INVALID_STATE | INSUFFICIENT_STORAGE | MALFORMED_MESSAGE
| DECRYPTION_ERROR | ENCRYPTION_ERROR | AUTHENTICATION_ERROR | BANDWIDTH_EXCEEDED | MESSAGE_TIMEOUT
| MISSING_MESSAGE_ID | MESSAGE_RESET | SESSION_RESUMED | IO_ERROR_FORWARD_MESSAGE_CHANNEL
| IO_ERROR_SET_DATA_MAX_EXCEEDED | IO_ERROR_PARSING_SERVER_PUBLIC_KEY | IO_ERROR_GENERIC_ESTABLISH
| IO_ERROR_GENERIC_RECEIVE | IO_ERROR_GENERIC_SEND | IO_ERROR_GENERIC_MBEDTLS_SSL_WRITE
| IO_ERROR_DISCARD_SESSION | IO_ERROR_LIGHTSSL_BLOCKING_SEND | IO_ERROR_LIGHTSSL_BLOCKING_RECEIVE
| IO_ERROR_LIGHTSSL_RECEIVE | IO_ERROR_LIGHTSSL_HANDSHAKE_NONCE | IO_ERROR_LIGHTSSL_HANDSHAKE_RECV_KEY
| UNKNOWN

section \<open>Encoding and decoding\<close>

type_synonym mem = "nat \<Rightarrow> u8"

definition VERSION :: u8 where "VERSION = 1"

definition coap_message_id :: "mem \<Rightarrow> nat \<Rightarrow> u16" where
  "coap_message_id m buf = push_bit 8 (ucast (m (buf + 2))) OR ucast (m (buf + 3))"

definition coap_header :: "nat \<Rightarrow> coap_type \<Rightarrow> u8 \<Rightarrow> u8 \<Rightarrow> u16 \<Rightarrow> mem \<Rightarrow> nat \<times> mem" where
  "coap_header buf type tokenLen code msgid m =
     (4, m(buf := push_bit 6 VERSION OR push_bit 4 (coap_type_code type) OR (tokenLen AND 0xF),
           buf + 1 := code,
           buf + 2 := ucast (drop_bit 8 msgid),
           buf + 3 := ucast (msgid AND 0xFF)))"

definition coap_path :: "mem \<Rightarrow> nat \<Rightarrow> nat" where
  "coap_path m message = message + 5 + unat (m message AND 0x0F)"

definition decode_uint32 :: "mem \<Rightarrow> nat \<Rightarrow> u32" where
  "decode_uint32 m buf = push_bit 24 (ucast (m buf)) OR push_bit 16 (ucast (m (buf + 1)))
     OR push_bit 8 (ucast (m (buf + 2))) OR ucast (m (buf + 3))"

definition decode_uint16 :: "mem \<Rightarrow> nat \<Rightarrow> u16" where
  "decode_uint16 m buf = push_bit 8 (ucast (m buf)) OR ucast (m (buf + 1))"

definition decode_uint8 :: "mem \<Rightarrow> nat \<Rightarrow> u8" where
  "decode_uint8 m buf = m buf"

definition coded_ack :: "nat \<Rightarrow> u8 \<Rightarrow> u8 \<Rightarrow> u8 \<Rightarrow> mem \<Rightarrow> nat \<times> mem" where
  "coded_ack buf code msb lsb m = (4, m(buf := 0x60, buf + 1 := code, buf + 2 := msb, buf + 3 := lsb))"

definition coded_ack_token :: "nat \<Rightarrow> u8 \<Rightarrow> u8 \<Rightarrow> u8 \<Rightarrow> u8 \<Rightarrow> mem \<Rightarrow> nat \<times> mem" where
  "coded_ack_token buf token code msb lsb m =
     (5, m(buf := 0x61, buf + 1 := code, buf + 2 := msb, buf + 3 := lsb, buf + 4 := token))"

definition empty_ack :: "nat \<Rightarrow> u8 \<Rightarrow> u8 \<Rightarrow> mem \<Rightarrow> nat \<times> mem" where
  "empty_ack buf msb lsb m = coded_ack buf 0 msb lsb m"

definition coap_reset :: "nat \<Rightarrow> u8 \<Rightarrow> u8 \<Rightarrow> mem \<Rightarrow> nat \<times> mem" where
  "coap_reset buf msb lsb m = (4, m(buf := 0x70, buf + 1 := 0, buf + 2 := msb, buf + 3 := lsb))"

text \<open>The type \<open>f\<close> stands for \<open>separate_response_with_payload\<close>, \<open>g\<close> for \<open>content\<close>.\<close>

type_synonym response_fn = "nat \<Rightarrow> u16 \<Rightarrow> u8 \<Rightarrow> u8 \<Rightarrow> u8 list \<Rightarrow> bool \<Rightarrow> mem \<Rightarrow> nat \<times> mem"

definition separate_response :: "response_fn \<Rightarrow> nat \<Rightarrow> u16 \<Rightarrow> u8 \<Rightarrow> u8 \<Rightarrow> bool \<Rightarrow> mem \<Rightarrow> nat \<times> mem" where
  "separate_response f buf message_id token code confirmable m = f buf message_id token code [] confirmable m"

definition update_ready :: "response_fn \<Rightarrow> nat \<Rightarrow> u16 \<Rightarrow> u8 \<Rightarrow> u8 \<Rightarrow> bool \<Rightarrow> mem \<Rightarrow> nat \<times> mem" where
  "update_ready f buf message_id token flags confirmable m = f buf message_id token 0x44 [flags] confirmable m"

definition chunk_received :: "response_fn \<Rightarrow> nat \<Rightarrow> u16 \<Rightarrow> u8 \<Rightarrow> u8 \<Rightarrow> bool \<Rightarrow> mem \<Rightarrow> nat \<times> mem" where
  "chunk_received f buf message_id token code confirmable m = separate_response f buf message_id token code confirmable m"

definition description :: "(nat \<Rightarrow> u16 \<Rightarrow> u8 \<Rightarrow> mem \<Rightarrow> nat \<times> mem) \<Rightarrow> nat \<Rightarrow> u16 \<Rightarrow> u8 \<Rightarrow> mem \<Rightarrow> nat \<times> mem" where
  "description g buf message_id token m = g buf message_id token m"

section \<open>Message\<close>

record message =
  mg_buf :: nat
  mg_cap :: nat
  mg_len :: nat
  mg_id :: int
  mg_confirm :: bool

definition mg_new :: "nat \<Rightarrow> nat \<Rightarrow> nat \<Rightarrow> message" where
  "mg_new buf buflen msglen = \<lparr>mg_buf = buf, mg_cap = buflen, mg_len = msglen, mg_id = -1, mg_confirm = False\<rparr>"

definition trim_capacity :: "message \<Rightarrow> nat \<times> message" where
  "trim_capacity msg = (mg_cap msg - mg_len msg, msg\<lparr>mg_cap := mg_len msg\<rparr>)"

definition buffer_available :: "message \<Rightarrow> nat" where
  "buffer_available msg = mg_cap msg - mg_len msg"

definition set_buffer :: "nat \<Rightarrow> nat \<Rightarrow> message \<Rightarrow> message" where
  "set_buffer buf n msg = msg\<lparr>mg_buf := buf, mg_cap := n, mg_len := 0\<rparr>"

definition set_length :: "nat \<Rightarrow> message \<Rightarrow> message" where
  "set_length n msg = (if n \<le> mg_cap msg then msg\<lparr>mg_len := n\<rparr> else msg)"

definition splinter :: "message \<Rightarrow> message \<Rightarrow> nat \<Rightarrow> nat \<Rightarrow> bool \<times> message \<times> message" where
  "splinter msg target size_required offset =
     (let available = buffer_available msg
      in if available < size_required + offset then (False, msg, target)
         else let (excess, msg1) = trim_capacity msg
              in (True, msg1, set_buffer (mg_buf msg1 + mg_len msg1 + offset) excess target))"

definition mg_clear :: "message \<Rightarrow> message" where
  "mg_clear msg = msg\<lparr>mg_id := -1\<rparr>"

definition set_id :: "u16 \<Rightarrow> message \<Rightarrow> message" where
  "set_id i msg = msg\<lparr>mg_id := uint i\<rparr>"

definition has_id :: "message \<Rightarrow> bool" where
  "has_id msg \<longleftrightarrow> 0 \<le> mg_id msg"

definition get_id :: "message \<Rightarrow> u16" where
  "get_id msg = word_of_int (mg_id msg)"

definition send_direct :: "message \<Rightarrow> bool" where
  "send_direct msg \<longleftrightarrow> mg_len msg < 4"

text \<open>\<open>ctype\<close> is \<open>CoAP::type\<close> on the bytes of the message.\<close>

definition get_type :: "(mem \<Rightarrow> coap_type) \<Rightarrow> mem \<Rightarrow> message \<Rightarrow> coap_type" where
  "get_type ctype m msg = (if mg_len msg \<noteq> 0 then ctype (\<lambda>i. m (mg_buf msg + i)) else TYPE_ERROR)"

definition is_request :: "(mem \<Rightarrow> coap_type) \<Rightarrow> mem \<Rightarrow> message \<Rightarrow> bool" where
  "is_request ctype m msg =
     (case get_type ctype m msg of NON \<Rightarrow> True | CON \<Rightarrow> True | ACK \<Rightarrow> False | RESET \<Rightarrow> False | TYPE_ERROR \<Rightarrow> False)"

definition decode_id :: "mem \<Rightarrow> message \<Rightarrow> bool \<times> message" where
  "decode_id m msg =
     (let decode = 4 \<le> mg_len msg
      in (decode, if decode then set_id (coap_message_id m (mg_buf msg)) msg else msg))"

definition set_confirm_received :: "bool \<Rightarrow> message \<Rightarrow> message" where
  "set_confirm_received confirm msg = msg\<lparr>mg_confirm := confirm\<rparr>"

text \<open>\<open>memcpy\<close> of a list of bytes.\<close>

primrec write_bytes :: "nat \<Rightarrow> u8 list \<Rightarrow> mem \<Rightarrow> mem" where
  "write_bytes a [] m = m"
| "write_bytes a (b # bs) m = write_bytes (Suc a) bs (m(a := b))"

definition mg_copy :: "u8 list \<Rightarrow> mem \<Rightarrow> message \<Rightarrow> nat \<times> mem \<times> message" where
  "mg_copy bytes m msg =
     (let n = (if mg_cap msg < length bytes then mg_cap msg else length bytes)
      in (n, write_bytes (mg_buf msg) (take n bytes) m, set_length n msg))"

definition mg_bytes :: "mem \<Rightarrow> message \<Rightarrow> u8 list" where
  "mg_bytes m msg = map m [mg_buf msg ..< mg_buf msg + mg_len msg]"

definition content_equals :: "mem \<Rightarrow> message \<Rightarrow> message \<Rightarrow> bool" where
  "content_equals m this msg \<longleftrightarrow> mg_len msg = mg_len this \<and> mg_bytes m msg = mg_bytes m this"

section \<open>BufferMessageChannel\<close>

definition buffer_create :: "nat \<Rightarrow> nat \<Rightarrow> nat \<Rightarrow> message \<Rightarrow> nat \<Rightarrow> protocol_error \<times> message" where
  "buffer_create size_max prefix suffix msg minimum_size =
     (if size_max - prefix - suffix < minimum_size then (INSUFFICIENT_STORAGE, msg)
      else (NO_ERROR, set_length 0 (set_buffer prefix (size_max - suffix - prefix) (mg_clear msg))))"

definition buffer_response :: "nat \<Rightarrow> nat \<Rightarrow> message \<Rightarrow> message \<Rightarrow> nat \<Rightarrow> protocol_error \<times> message \<times> message" where
  "buffer_response prefix suffix original response required =
     (let (done, original1, response1) = splinter original response required (prefix + suffix)
      in (if done then NO_ERROR else INSUFFICIENT_STORAGE, original1, response1))"

section \<open>CoAPChannel\<close>

text \<open>The channel keeps the last identifier; \<open>base\<close> is the \<open>send\<close> of the class it extends, with a state of its own.\<close>

type_synonym 's send_fn = "mem \<Rightarrow> message \<Rightarrow> 's \<Rightarrow> protocol_error \<times> 's"

definition next_message_id :: "u16 \<Rightarrow> u16" where
  "next_message_id i = i + 1"

definition coap_send :: "'s send_fn \<Rightarrow> mem \<Rightarrow> message \<Rightarrow> u16 \<Rightarrow> 's \<Rightarrow> protocol_error \<times> mem \<times> message \<times> u16 \<times> 's" where
  "coap_send base m msg message_id s =
     (if 4 \<le> mg_len msg then
        let (i, message_id1) =
              (if has_id msg then (get_id msg, message_id) else (next_message_id message_id, next_message_id message_id));
            m1 = m(mg_buf msg + 2 := ucast (drop_bit 8 i), mg_buf msg + 3 := ucast (i AND 0xFF));
            msg1 = snd (decode_id m1 msg);
            (error, s1) = base m1 msg1 s
        in (error, m1, msg1, message_id1, s1)
      else let (error, s1) = base m msg s in (error, m, msg, message_id, s1))"

section \<open>Bytes in memory\<close>

lemma write_bytes_other: "b < a \<or> a + length bs \<le> b \<Longrightarrow> write_bytes a bs m b = m b"
  by (induction bs arbitrary: a m) auto

lemma write_bytes_at: "i < length bs \<Longrightarrow> write_bytes a bs m (a + i) = bs ! i"
proof (induction bs arbitrary: a i m)
  case (Cons b bs)
  then show ?case
    using Cons.IH [of "i - 1" "Suc a"] by (cases i) (auto simp: write_bytes_other)
qed simp

lemma be16_join [byte_simps]: "(push_bit 8 (ucast (ucast (drop_bit 8 w) :: u8)) OR ucast (ucast (w AND 0xFF) :: u8) :: u16) = w"
proof -
  have m: "(0xFF :: u16) = mask 8" by (simp add: mask_eq_exp_minus_1)
  show ?thesis unfolding m by (rule bit_word_eqI) (auto simp: bit_simps)
qed

lemma header_first_byte:
  assumes "type \<noteq> TYPE_ERROR" "b = push_bit 6 VERSION OR push_bit 4 (coap_type_code type) OR (tokenLen AND 0xF)"
  shows "drop_bit 6 b = VERSION \<and> drop_bit 4 b AND 3 = coap_type_code type \<and> b AND 0xF = tokenLen AND 0xF"
proof -
  have m: "(0xF :: u8) = mask 4" by (simp add: mask_eq_exp_minus_1)
  have "drop_bit 6 (tokenLen AND 0xF) = 0" "drop_bit 4 (tokenLen AND 0xF) = 0"
    unfolding m by (auto intro!: bit_word_eqI simp: bit_simps)
  then show ?thesis
    using assms by (cases type) (simp_all add: VERSION_def bit.conj_disj_distrib2 and.assoc push_bit_eq_mult drop_bit_or)
qed

section \<open>Storage for replies\<close>

text \<open>What the handlers of the protocol rely on when they answer a message from the end of its own buffer.\<close>

locale reply_storage =
  fixes queue_size :: nat
    and create :: "message \<Rightarrow> nat \<Rightarrow> protocol_error \<times> message"
    and response :: "message \<Rightarrow> message \<Rightarrow> nat \<Rightarrow> protocol_error \<times> message \<times> message"
  assumes create_ok: "create msg n = (NO_ERROR, msg1) \<Longrightarrow>
      mg_buf msg1 + mg_cap msg1 \<le> queue_size \<and> mg_len msg1 = 0 \<and> n \<le> mg_cap msg1 \<and> \<not> has_id msg1"
    and response_ok: "response msg reply n = (NO_ERROR, msg1, reply1) \<Longrightarrow> mg_len msg \<le> mg_cap msg \<Longrightarrow>
      msg1 = msg\<lparr>mg_cap := mg_len msg\<rparr> \<and> mg_buf msg + mg_len msg \<le> mg_buf reply1 \<and> mg_len reply1 = 0 \<and>
      n \<le> mg_cap reply1 \<and> mg_buf reply1 + mg_cap reply1 \<le> mg_buf msg + mg_cap msg"
    and response_error: "response msg reply n = (e, msg1, reply1) \<Longrightarrow> e \<noteq> NO_ERROR \<Longrightarrow> msg1 = msg \<and> reply1 = reply"
begin

lemma response_inside:
  assumes "response msg reply n = (NO_ERROR, msg1, reply1)" "mg_len msg \<le> mg_cap msg" "mg_buf msg + mg_cap msg \<le> queue_size"
  shows "mg_buf reply1 + mg_cap reply1 \<le> queue_size"
  using response_ok [OF assms(1,2)] assms(3) by simp

lemma reply_keeps_message:
  assumes "response msg reply n = (NO_ERROR, msg1, reply1)" "mg_len msg \<le> mg_cap msg"
  shows "mg_bytes (write_bytes (mg_buf reply1) bs m) msg1 = mg_bytes m msg"
  using response_ok [OF assms] by (auto simp: mg_bytes_def write_bytes_other)

lemma reply_to_created:
  assumes "create msg0 k = (NO_ERROR, msg)" "len \<le> mg_cap msg"
    and "response (set_length len msg) reply n = (NO_ERROR, msg1, reply1)"
  shows "mg_buf reply1 + mg_cap reply1 \<le> queue_size \<and> n \<le> mg_cap reply1"
  using create_ok [OF assms(1)] assms(2) response_ok [OF assms(3)] response_inside [OF assms(3)]
  by (simp add: set_length_def)

end

text \<open>The buffer channel keeps the contract when messages need no room before and after them (the DTLS channel).\<close>

interpretation dtls: reply_storage n "buffer_create n 0 0" "buffer_response 0 0" for n
  by unfold_locales
    (auto simp: buffer_create_def buffer_response_def splinter_def set_length_def set_buffer_def mg_clear_def has_id_def
       trim_capacity_def buffer_available_def Let_def split: if_splits)

section \<open>Properties\<close>

text \<open>
  C14: A message whose header is written by \<open>CoAP::header\<close> and which is sent through a \<open>CoAPChannel\<close> reaches the
  channel below with that version, type, token length and code, and with the identifier the message already had
  or the next one of the channel, which is what \<open>decode_id\<close> and \<open>message_id\<close> read back; no other byte changes.
\<close>

lemma header_send_roundtrip:
  assumes "type \<noteq> TYPE_ERROR" "4 \<le> mg_len msg" "coap_header (mg_buf msg) type tokenLen code msgid m = (n, m0)"
    and "coap_send base m0 msg next_id s = (e, m1, msg1, next_id1, s1)"
  shows "drop_bit 6 (m1 (mg_buf msg)) = VERSION \<and> drop_bit 4 (m1 (mg_buf msg)) AND 3 = coap_type_code type \<and>
     m1 (mg_buf msg) AND 0xF = tokenLen AND 0xF \<and> m1 (mg_buf msg + 1) = code \<and>
     next_id1 = (if has_id msg then next_id else next_id + 1) \<and>
     get_id msg1 = (if has_id msg then get_id msg else next_id + 1) \<and> has_id msg1 \<and>
     coap_message_id m1 (mg_buf msg) = get_id msg1 \<and> msg1 = msg\<lparr>mg_id := mg_id msg1\<rparr> \<and>
     (\<forall>a. a < mg_buf msg \<or> mg_buf msg + 4 \<le> a \<longrightarrow> m1 a = m a) \<and> (e, s1) = base m1 msg1 s"
proof -
  let ?b = "mg_buf msg"
  define i where "i = (if has_id msg then get_id msg else next_id + 1)"
  define first where "first = push_bit 6 VERSION OR push_bit 4 (coap_type_code type) OR (tokenLen AND 0xF)"
  have m1: "m1 = m0(?b + 2 := ucast (drop_bit 8 i), ?b + 3 := ucast (i AND 0xFF))"
    and msg1: "msg1 = set_id (coap_message_id m1 ?b) msg"
    and rest: "next_id1 = (if has_id msg then next_id else next_id + 1)" "(e, s1) = base m1 msg1 s"
    using assms(2,4) by (auto simp: coap_send_def i_def next_message_id_def decode_id_def Let_def split: if_splits prod.splits)
  have m0: "m0 = m(?b := first, ?b + 1 := code, ?b + 2 := ucast (drop_bit 8 msgid), ?b + 3 := ucast (msgid AND 0xFF))"
    using assms(3) by (simp add: coap_header_def first_def)
  have "coap_message_id m1 ?b = i" by (simp add: coap_message_id_def m1 byte_simps)
  moreover have "msg1 = set_id i msg" using msg1 calculation by simp
  moreover note header_first_byte [OF assms(1) first_def]
  ultimately show ?thesis
    using rest by (auto simp: m0 m1 set_id_def get_id_def has_id_def i_def)
qed

lemma header_send_roundtrip_witness:
  "coap_message_id (fst (snd (coap_send (\<lambda>m msg s. (NO_ERROR, s)) (snd (coap_header 10 CON 1 2 0 (\<lambda>_. 0)))
       \<lparr>mg_buf = 10, mg_cap = 50, mg_len = 7, mg_id = -1, mg_confirm = False\<rparr> 0x12FF ()))) 10 = 0x1300"
proof -
  define msg where "msg = \<lparr>mg_buf = 10, mg_cap = 50, mg_len = 7, mg_id = -1, mg_confirm = False\<rparr>"
  obtain n m0 where h: "coap_header (mg_buf msg) CON 1 2 0 (\<lambda>_. 0) = (n, m0)" by fastforce
  obtain e m1 msg1 i1 s1 where "coap_send (\<lambda>m msg s. (NO_ERROR, s)) m0 msg 0x12FF () = (e, m1, msg1, i1, s1)"
    by (metis prod_cases5)
  then show ?thesis
    using header_send_roundtrip [OF _ _ h, of "\<lambda>m msg s. (NO_ERROR, s)" "0x12FF" "()"] h
    by (simp add: msg_def has_id_def)
qed

text \<open>
  Where the buffer for a response lies: behind the message that is answered, with the room for its own prefix
  and suffix between them; its capacity is all that was left, although it starts later, so it always ends exactly
  \<open>prefix\<close> bytes behind the queue.  For a channel without prefix (DTLS) it is inside the queue.  For the LightSSL
  channel, with a prefix of 2 bytes in a queue of 800, it ends at 802.
\<close>

lemma response_region:
  assumes "buffer_create size_max prefix suffix msg0 k = (NO_ERROR, msg)" "prefix + suffix \<le> size_max" "len \<le> mg_cap msg"
    and "buffer_response prefix suffix (set_length len msg) reply required = (NO_ERROR, msg1, reply1)"
  shows "mg_buf reply1 = mg_buf msg1 + mg_cap msg1 + prefix + suffix \<and> mg_cap msg1 = len \<and>
     required + prefix + suffix \<le> mg_cap reply1 \<and> mg_buf reply1 + mg_cap reply1 = size_max + prefix"
  using assms
  by (auto simp: buffer_create_def buffer_response_def splinter_def set_length_def set_buffer_def mg_clear_def
      trim_capacity_def buffer_available_def Let_def split: if_splits)

lemma response_region_witness:
  "mg_buf (snd (snd (buffer_response 2 16 (set_length 100 (snd (buffer_create 800 2 16 (mg_new 0 0 0) 0))) (mg_new 0 0 0) 5))) = 120 \<and>
   mg_cap (snd (snd (buffer_response 2 16 (set_length 100 (snd (buffer_create 800 2 16 (mg_new 0 0 0) 0))) (mg_new 0 0 0) 5))) = 682"
  using response_region [of 800 2 16 "mg_new 0 0 0" 0 "snd (buffer_create 800 2 16 (mg_new 0 0 0) 0)" 100 "mg_new 0 0 0" 5
      "fst (snd (buffer_response 2 16 (set_length 100 (snd (buffer_create 800 2 16 (mg_new 0 0 0) 0))) (mg_new 0 0 0) 5))"
      "snd (snd (buffer_response 2 16 (set_length 100 (snd (buffer_create 800 2 16 (mg_new 0 0 0) 0))) (mg_new 0 0 0) 5))"]
  by (simp add: buffer_create_def buffer_response_def splinter_def set_length_def set_buffer_def mg_clear_def
      trim_capacity_def buffer_available_def mg_new_def Let_def)

end
