(* ===== verification/Coap_Store.thy ===== *)
theory Coap_Store
  imports Coap_Messages
begin

text \<open>
  The messages that wait for an acknowledgement (\<open>CoAPMessage\<close>, \<open>CoAPMessageStore\<close> of
  \<open>communication/src/coap_channel.h\<close>).  The messages are objects of a heap, linked by their \<open>next\<close> pointers; a
  pointer is an address or \<open>None\<close>.  \<open>message_count\<close> counts the objects that were constructed and not destroyed.
  A loop over the list, which does not end on a cyclic list and is undefined on a dangling pointer, is \<open>None\<close>
  in both cases.  \<open>CoAP::type\<close> is a parameter, \<open>rand\<close> is an argument.
\<close>

section \<open>CoAPMessage\<close>

datatype delivery = DELIVERED | DELIVERED_NACK | NOT_DELIVERED

type_synonym ptr = "nat option"

record 'd coap_message =
  cm_next :: ptr
  cm_timeout :: u32
  cm_id :: u16
  cm_count :: u8
  cm_delivered :: "'d option"
  cm_data :: "u8 list"

definition ACK_TIMEOUT :: u32 where "ACK_TIMEOUT = 4000"
definition MAX_RETRANSMIT :: u8 where "MAX_RETRANSMIT = 3"
definition MAX_TRANSMIT_SPAN :: nat where "MAX_TRANSMIT_SPAN = 45 * 1000"

definition cm_new :: "u16 \<Rightarrow> 'd coap_message" where
  "cm_new i = \<lparr>cm_next = None, cm_timeout = 0, cm_id = i, cm_count = 0, cm_delivered = None, cm_data = []\<rparr>"

definition set_data :: "u8 list \<Rightarrow> 'd coap_message \<Rightarrow> protocol_error \<times> 'd coap_message" where
  "set_data bytes c =
     (if 1500 < length bytes then (IO_ERROR_SET_DATA_MAX_EXCEEDED, c) else (NO_ERROR, c\<lparr>cm_data := bytes\<rparr>))"

text \<open>\<open>delivered\<close> invoked with an outcome: the callback and the outcome, when there is one.\<close>

definition notify_delivered :: "delivery \<Rightarrow> 'd coap_message \<Rightarrow> ('d \<times> delivery) list" where
  "notify_delivered success c = (case cm_delivered c of Some f \<Rightarrow> [(f, success)] | None \<Rightarrow> [])"

definition notify_timeout :: "'d coap_message \<Rightarrow> ('d \<times> delivery) list" where
  "notify_timeout c = notify_delivered NOT_DELIVERED c"

definition notify_delivered_ok :: "'d coap_message \<Rightarrow> ('d \<times> delivery) list" where
  "notify_delivered_ok c = notify_delivered DELIVERED c"

definition notify_delivered_nak :: "'d coap_message \<Rightarrow> ('d \<times> delivery) list" where
  "notify_delivered_nak c = notify_delivered DELIVERED_NACK c"

definition cm_byte :: "'d coap_message \<Rightarrow> mem" where
  "cm_byte c i = cm_data c ! i"

definition cm_type :: "(mem \<Rightarrow> coap_type) \<Rightarrow> 'd coap_message \<Rightarrow> coap_type" where
  "cm_type ctype c = (if 0 < length (cm_data c) then ctype (cm_byte c) else TYPE_ERROR)"

definition cm_is_request :: "(mem \<Rightarrow> coap_type) \<Rightarrow> 'd coap_message \<Rightarrow> bool" where
  "cm_is_request ctype c =
     (case cm_type ctype c of NON \<Rightarrow> True | CON \<Rightarrow> True | ACK \<Rightarrow> False | RESET \<Rightarrow> False | TYPE_ERROR \<Rightarrow> False)"

text \<open>The shift count is below 32 for the counts \<open>prepare_retransmit\<close> is called with; \<open>r\<close> is \<open>rand()\<close>.\<close>

definition transmit_timeout :: "nat \<Rightarrow> u8 \<Rightarrow> u32" where
  "transmit_timeout r transmit_count =
     (let timeout = push_bit (unat transmit_count) ACK_TIMEOUT
      in timeout + drop_bit 9 (timeout * of_nat (r mod 256)))"

definition prepare_retransmit :: "(mem \<Rightarrow> coap_type) \<Rightarrow> nat \<Rightarrow> u32 \<Rightarrow> 'd coap_message \<Rightarrow> bool \<times> 'd coap_message" where
  "prepare_retransmit ctype r now c =
     (if ctype (cm_byte c) = CON then
        let c1 = c\<lparr>cm_timeout := now + transmit_timeout r (cm_count c), cm_count := cm_count c + 1\<rparr>
        in (cm_count c1 \<le> MAX_RETRANSMIT + 1, c1)
      else (False, c))"

definition set_expiration :: "u32 \<Rightarrow> 'd coap_message \<Rightarrow> 'd coap_message" where
  "set_expiration time c = c\<lparr>cm_timeout := time, cm_count := MAX_RETRANSMIT + 2\<rparr>"

definition time_has_passed :: "u32 \<Rightarrow> u32 \<Rightarrow> bool" where
  "time_has_passed now tick = (if tick \<le> now then now - tick \<le> 0x7FFFFFFF else 0x80000000 \<le> tick - now)"

section \<open>CoAPMessageStore\<close>

record 'd store =
  st_heap :: "nat \<Rightarrow> 'd coap_message option"
  st_head :: ptr
  st_count :: u16

definition store_new :: "'d store" where
  "store_new = \<lparr>st_heap = (\<lambda>_. None), st_head = None, st_count = 0\<rparr>"

text \<open>\<open>CoAPMessage::create\<close>: \<open>memory\<close> is the address \<open>new\<close> returns, or null.\<close>

definition cm_create :: "ptr \<Rightarrow> u16 \<Rightarrow> u8 list \<Rightarrow> nat \<Rightarrow> 'd store \<Rightarrow> ptr \<times> 'd store" where
  "cm_create memory i bytes data_len s =
     (let n = (if data_len \<noteq> 0 \<and> data_len < length bytes then data_len else length bytes)
      in case memory of
           Some p \<Rightarrow> (Some p, s\<lparr>st_heap := (st_heap s)(p := Some (snd (set_data (take n bytes) (cm_new i)))), st_count := st_count s + 1\<rparr>)
         | None \<Rightarrow> (None, s))"

definition cm_delete :: "ptr \<Rightarrow> 'd store \<Rightarrow> 'd store" where
  "cm_delete p s =
     (case p of Some a \<Rightarrow> s\<lparr>st_heap := (st_heap s)(a := None), st_count := st_count s - 1\<rparr> | None \<Rightarrow> s)"

text \<open>The result holds the message found and the one before it.\<close>

partial_function (option) for_id_loop ::
    "(nat \<Rightarrow> 'd coap_message option) \<Rightarrow> u16 \<Rightarrow> ptr \<Rightarrow> ptr \<Rightarrow> (ptr \<times> ptr) option" where
  "for_id_loop h i nxt prev =
     (case nxt of
        None \<Rightarrow> Some (None, prev)
      | Some p \<Rightarrow>
          (case h p of
             None \<Rightarrow> None
           | Some c \<Rightarrow> if cm_id c = i then Some (Some p, prev) else for_id_loop h i (cm_next c) (Some p)))"

definition for_id :: "u16 \<Rightarrow> 'd store \<Rightarrow> (ptr \<times> ptr) option" where
  "for_id i s = for_id_loop (st_heap s) i (st_head s) None"

definition from_id :: "u16 \<Rightarrow> 'd store \<Rightarrow> ptr option" where
  "from_id i s = map_option fst (for_id i s)"

definition has_messages :: "'d store \<Rightarrow> bool" where
  "has_messages s \<longleftrightarrow> st_head s \<noteq> None"

definition set_next :: "nat \<Rightarrow> ptr \<Rightarrow> (nat \<Rightarrow> 'd coap_message option) \<Rightarrow> nat \<Rightarrow> 'd coap_message option" where
  "set_next p n h = h(p := map_option (\<lambda>c. c\<lparr>cm_next := n\<rparr>) (h p))"

definition remove_message :: "nat \<Rightarrow> ptr \<Rightarrow> 'd store \<Rightarrow> 'd store" where
  "remove_message msg previous s =
     (let n = cm_next (the (st_heap s msg));
          s1 = (case previous of
                  Some q \<Rightarrow> s\<lparr>st_heap := set_next q n (st_heap s)\<rparr>
                | None \<Rightarrow> s\<lparr>st_head := n\<rparr>)
      in s1\<lparr>st_heap := set_next msg None (st_heap s1)\<rparr>)"

definition remove_id :: "u16 \<Rightarrow> 'd store \<Rightarrow> (ptr \<times> 'd store) option" where
  "remove_id i s =
     (case for_id i s of
        None \<Rightarrow> None
      | Some (msg, prev) \<Rightarrow> Some (msg, case msg of Some p \<Rightarrow> remove_message p prev s | None \<Rightarrow> s))"

definition clear_message :: "u16 \<Rightarrow> 'd store \<Rightarrow> (bool \<times> 'd store) option" where
  "clear_message i s = map_option (\<lambda>(msg, s1). (msg \<noteq> None, cm_delete msg s1)) (remove_id i s)"

definition store_add :: "nat \<Rightarrow> 'd store \<Rightarrow> (protocol_error \<times> 'd store) option" where
  "store_add p s =
     (case st_heap s p of
        None \<Rightarrow> None
      | Some c \<Rightarrow>
          (case from_id (cm_id c) s of
             None \<Rightarrow> None
           | Some found \<Rightarrow>
               if found = Some p then Some (NO_ERROR, s)
               else
                 (case clear_message (cm_id c) s of
                    None \<Rightarrow> None
                  | Some (_, s1) \<Rightarrow>
                      if cm_next (the (st_heap s1 p)) \<noteq> None then Some (INVALID_STATE, s1)
                      else Some (NO_ERROR, s1\<lparr>st_heap := set_next p (st_head s1) (st_heap s1), st_head := Some p\<rparr>))))"

partial_function (option) store_clear :: "'d store \<Rightarrow> 'd store option" where
  "store_clear s =
     (case st_head s of
        None \<Rightarrow> Some s
      | Some p \<Rightarrow>
          (case st_heap s p of
             None \<Rightarrow> None
           | Some c \<Rightarrow>
               (case remove_id (cm_id c) s of
                  None \<Rightarrow> None
                | Some (q, s1) \<Rightarrow> store_clear (cm_delete q s1))))"

definition is_confirmable :: "(mem \<Rightarrow> coap_type) \<Rightarrow> mem \<Rightarrow> bool" where
  "is_confirmable ctype buf \<longleftrightarrow> ctype buf = CON"

definition is_ack_or_reset :: "(mem \<Rightarrow> coap_type) \<Rightarrow> mem \<Rightarrow> nat \<Rightarrow> bool" where
  "is_ack_or_reset ctype buf n =
     (if n < 1 then False else ctype buf = ACK \<or> ctype buf = RESET)"

section \<open>The list of messages\<close>

text \<open>The pointers from \<open>p\<close> lead over the objects at \<open>xs\<close> to \<open>q\<close>.\<close>

fun lseg :: "(nat \<Rightarrow> 'd coap_message option) \<Rightarrow> ptr \<Rightarrow> nat list \<Rightarrow> ptr \<Rightarrow> bool" where
  "lseg h p [] q \<longleftrightarrow> p = q"
| "lseg h p (x # xs) q \<longleftrightarrow> p = Some x \<and> (case h x of None \<Rightarrow> False | Some c \<Rightarrow> lseg h (cm_next c) xs q)"

lemma lseg_append [simp]: "lseg h p (xs @ ys) r \<longleftrightarrow> (\<exists>q. lseg h p xs q \<and> lseg h q ys r)"
  by (induction xs arbitrary: p) (auto split: option.splits)

lemma lseg_update [simp]: "x \<notin> set xs \<Longrightarrow> lseg (h(x := v)) p xs q = lseg h p xs q"
  by (induction xs arbitrary: p) (auto split: option.splits)

lemma lseg_alive: "lseg h p xs q \<Longrightarrow> x \<in> set xs \<Longrightarrow> \<exists>c. h x = Some c"
  by (induction xs arbitrary: p) (auto split: option.splits)

definition body :: "'d coap_message \<Rightarrow> 'd coap_message" where
  "body c = c\<lparr>cm_next := None\<rparr>"

definition bodies :: "'d store \<Rightarrow> nat \<Rightarrow> 'd coap_message option" where
  "bodies s p = map_option body (st_heap s p)"

definition ident :: "'d store \<Rightarrow> nat \<Rightarrow> u16" where
  "ident s p = cm_id (the (st_heap s p))"

text \<open>The store holds the messages \<open>xs\<close>, in this order, no two with the same identifier.\<close>

definition holds :: "'d store \<Rightarrow> nat list \<Rightarrow> bool" where
  "holds s xs \<longleftrightarrow> lseg (st_heap s) (st_head s) xs None \<and> distinct xs \<and> distinct (map (ident s) xs)"

lemma body_simps [simp]: "cm_id (body c) = cm_id c" "body (c\<lparr>cm_next := n\<rparr>) = body c" "cm_next (body c) = None"
  by (simp_all add: body_def)

lemma for_id_loop_None [simp]: "for_id_loop h i None prev = Some (None, prev)"
  by (simp add: for_id_loop.simps)

lemma for_id_loop_Some [simp]:
  "h p = Some c \<Longrightarrow> for_id_loop h i (Some p) prev =
     (if cm_id c = i then Some (Some p, prev) else for_id_loop h i (cm_next c) (Some p))"
  by (subst for_id_loop.simps) simp

lemma for_id_loop_miss:
  "lseg h p xs None \<Longrightarrow> \<forall>x \<in> set xs. cm_id (the (h x)) \<noteq> i \<Longrightarrow>
     for_id_loop h i p prev = Some (None, if xs = [] then prev else Some (last xs))"
  by (induction xs arbitrary: p prev) (auto split: option.splits)

lemma for_id_loop_hit:
  "lseg h p (ys @ x # zs) None \<Longrightarrow> \<forall>y \<in> set ys. cm_id (the (h y)) \<noteq> i \<Longrightarrow> cm_id (the (h x)) = i \<Longrightarrow>
     for_id_loop h i p prev = Some (Some x, if ys = [] then prev else Some (last ys))"
proof (induction ys arbitrary: p prev)
  case (Cons y ys)
  then obtain c where c: "h y = Some c" "p = Some y" "cm_id c \<noteq> i" "lseg h (cm_next c) (ys @ x # zs) None"
    by (cases "h y") auto
  then show ?case using Cons.IH [OF c(4), of "Some y"] Cons.prems by simp
qed (auto split: option.splits)

lemma holds_alive: "holds s xs \<Longrightarrow> x \<in> set xs \<Longrightarrow> \<exists>c. st_heap s x = Some c"
  unfolding holds_def using lseg_alive by blast

lemma for_id_miss: "holds s xs \<Longrightarrow> i \<notin> ident s ` set xs \<Longrightarrow> \<exists>prev. for_id i s = Some (None, prev)"
  using for_id_loop_miss [of "st_heap s" "st_head s" xs i None] by (auto simp: for_id_def holds_def ident_def)

lemma ident_apart:
  assumes "holds s (ys @ x # zs)" "y \<in> set (ys @ zs)"
  shows "ident s y \<noteq> ident s x"
proof -
  have "ident s x \<notin> ident s ` set (ys @ zs)" using assms(1) by (simp add: holds_def image_Un)
  then show ?thesis using assms(2) by (metis image_eqI)
qed

lemma for_id_hit:
  assumes "holds s (ys @ x # zs)" "ident s x = i"
  shows "for_id i s = Some (Some x, if ys = [] then None else Some (last ys))"
proof -
  have "\<forall>y \<in> set ys. ident s y \<noteq> i" using ident_apart [OF assms(1)] assms(2) by simp
  then show ?thesis
    using for_id_loop_hit [of "st_heap s" "st_head s" ys x zs i None] assms by (simp add: for_id_def holds_def ident_def)
qed

lemma split_id:
  assumes "holds s xs" "i \<in> ident s ` set xs"
  obtains ys x zs where "xs = ys @ x # zs" "ident s x = i" "filter (\<lambda>p. ident s p \<noteq> i) xs = ys @ zs"
proof -
  obtain x ys zs where x: "xs = ys @ x # zs" "ident s x = i" using assms(2) by (auto dest: split_list)
  then have "\<forall>y \<in> set (ys @ zs). ident s y \<noteq> i" using ident_apart [of s ys x zs] assms(1) by (metis)
  then have "filter (\<lambda>p. ident s p \<noteq> i) (ys @ zs) = ys @ zs" by (simp only: filter_id_conv)
  then show ?thesis using that [of ys x zs] x by simp
qed

lemma bodies_ident:
  assumes "bodies s p = bodies s' q" "st_heap s p = Some c"
  shows "ident s p = ident s' q"
proof -
  obtain c' where "st_heap s' q = Some c'" "body c' = body c"
    using assms by (cases "st_heap s' q") (auto simp: bodies_def)
  from this(2) have "cm_id (body c') = cm_id (body c)" by (rule arg_cong)
  then show ?thesis using assms(2) \<open>st_heap s' q = Some c'\<close> by (simp add: ident_def)
qed

lemma remove_message_list:
  assumes "holds s (ys @ x # zs)"
  defines "s' \<equiv> remove_message x (if ys = [] then None else Some (last ys)) s"
  shows "holds s' (ys @ zs)" "bodies s' = bodies s" "st_count s' = st_count s" "\<exists>c. st_heap s' x = Some c \<and> cm_next c = None"
    and "a \<notin> set (ys @ x # zs) \<Longrightarrow> st_heap s' a = st_heap s a"
proof -
  obtain c where c: "st_heap s x = Some c" and tail: "lseg (st_heap s) (cm_next c) zs None"
    and front: "lseg (st_heap s) (st_head s) ys (Some x)" and dist: "distinct (ys @ x # zs)"
    using assms(1) by (auto simp: holds_def split: option.splits)
  show bodies: "bodies s' = bodies s"
    unfolding s'_def by (auto simp: remove_message_def bodies_def set_next_def Let_def option.map_comp comp_def)
  show "st_count s' = st_count s" by (simp add: s'_def remove_message_def Let_def)
  show "\<exists>c. st_heap s' x = Some c \<and> cm_next c = None"
    using c dist unfolding s'_def by (auto simp: remove_message_def set_next_def Let_def)
  show "a \<notin> set (ys @ x # zs) \<Longrightarrow> st_heap s' a = st_heap s a"
    unfolding s'_def by (auto simp: remove_message_def set_next_def Let_def)
  have segment: "lseg (st_heap s') (st_head s') (ys @ zs) None"
  proof (cases ys rule: rev_cases)
    case Nil
    then show ?thesis using c tail dist by (simp add: s'_def remove_message_def set_next_def Let_def)
  next
    case (snoc vs v)
    then show ?thesis
      using c tail front dist
      by (auto simp: s'_def remove_message_def set_next_def Let_def split: option.splits)
  qed
  have "map (ident s') (ys @ zs) = map (ident s) (ys @ zs)"
  proof (rule map_cong [OF refl])
    fix y assume "y \<in> set (ys @ zs)"
    then obtain c where "st_heap s' y = Some c" using lseg_alive [OF segment] by blast
    then show "ident s' y = ident s y" by (intro bodies_ident) (simp_all add: bodies)
  qed
  moreover have "distinct (map (ident s) (ys @ zs))" using assms(1) by (simp add: holds_def)
  ultimately have "distinct (map (ident s') (ys @ zs))" by metis
  moreover have "distinct (ys @ zs)" using dist by simp
  ultimately show "holds s' (ys @ zs)" using segment unfolding holds_def by blast
qed

lemma lseg_frame: "\<forall>x \<in> set xs. h' x = h x \<Longrightarrow> lseg h' p xs q = lseg h p xs q"
  by (induction xs arbitrary: p) (auto split: option.splits)

lemma holds_frame:
  assumes "holds s xs" "\<forall>x \<in> set xs. st_heap s' x = st_heap s x" "st_head s' = st_head s"
  shows "holds s' xs"
proof -
  have "map (ident s') xs = map (ident s) xs" using assms(2) by (auto simp: ident_def)
  then have "distinct (map (ident s') xs)" using assms(1) unfolding holds_def by metis
  then show ?thesis using assms lseg_frame [OF assms(2)] unfolding holds_def by metis
qed

text \<open>\<open>clear_message\<close>.\<close>

lemma clear_message_list:
  assumes "holds s xs"
  obtains s' x where "clear_message i s = Some (i \<in> ident s ` set xs, s')" "holds s' (filter (\<lambda>p. ident s p \<noteq> i) xs)"
    "bodies s' = (bodies s)(x := None) \<and> st_count s' = st_count s - 1 \<and> x \<in> set xs \<and> ident s x = i \<or>
     s' = s \<and> i \<notin> ident s ` set xs"
    "\<forall>a. a \<notin> set xs \<longrightarrow> st_heap s' a = st_heap s a"
proof (cases "i \<in> ident s ` set xs")
  case False
  obtain prev where "for_id i s = Some (None, prev)" using for_id_miss [OF assms False] by blast
  then have "clear_message i s = Some (False, s)" by (simp add: clear_message_def remove_id_def cm_delete_def)
  moreover have "filter (\<lambda>p. ident s p \<noteq> i) xs = xs" using False by (auto simp: filter_id_conv)
  ultimately show ?thesis using that [of s] assms False by auto
next
  case True
  obtain ys x zs where x: "xs = ys @ x # zs" "ident s x = i" "filter (\<lambda>p. ident s p \<noteq> i) xs = ys @ zs"
    using split_id [OF assms True] by blast
  have hs: "holds s (ys @ x # zs)" using assms x(1) by simp
  let ?prev = "if ys = [] then None else Some (last ys)"
  define s1 where "s1 = remove_message x ?prev s"
  note removed = remove_message_list [OF hs, folded s1_def]
  have clear: "clear_message i s = Some (True, cm_delete (Some x) s1)"
    using for_id_hit [OF hs x(2)] by (simp add: clear_message_def remove_id_def s1_def)
  have "holds (cm_delete (Some x) s1) (ys @ zs)"
  proof -
    have notin: "x \<notin> set (ys @ zs)" using hs by (simp add: holds_def)
    show ?thesis by (rule holds_frame [OF removed(1)]) (use notin in \<open>auto simp: cm_delete_def\<close>)
  qed
  moreover have "bodies (cm_delete (Some x) s1) = (bodies s)(x := None)"
    using removed(2) by (auto simp: bodies_def cm_delete_def fun_eq_iff)
  moreover have "st_heap (cm_delete (Some x) s1) a = st_heap s a" if "a \<notin> set xs" for a
    using removed(5) [of a] that x(1) by (auto simp: cm_delete_def)
  ultimately show ?thesis
    using that [of "cm_delete (Some x) s1" x] clear True x removed(3) by (simp add: cm_delete_def)
qed

lemma from_id_member: "holds s xs \<Longrightarrow> \<exists>found. from_id i s = Some found \<and> (found = None \<longleftrightarrow> i \<notin> ident s ` set xs) \<and>
    (\<forall>p. found = Some p \<longrightarrow> p \<in> set xs)"
proof (cases "i \<in> ident s ` set xs")
  case True
  assume hs: "holds s xs"
  obtain ys x zs where x: "xs = ys @ x # zs" "ident s x = i" using split_id [OF hs True] by blast
  then show ?thesis using for_id_hit [of s ys x zs i] hs True by (auto simp: from_id_def)
next
  case False
  assume hs: "holds s xs"
  then show ?thesis using for_id_miss [OF hs False] False by (auto simp: from_id_def)
qed

text \<open>\<open>add\<close> of an object that is in no list.\<close>

lemma store_add_list:
  assumes "holds s xs" "p \<notin> set xs" "st_heap s p = Some c" "cm_next c = None"
  obtains s' x where "store_add p s = Some (NO_ERROR, s')" "holds s' (p # filter (\<lambda>q. ident s q \<noteq> cm_id c) xs)"
    "bodies s' = (bodies s)(x := None) \<and> st_count s' = st_count s - 1 \<and> x \<in> set xs \<and> ident s x = cm_id c \<or>
     bodies s' = bodies s \<and> st_count s' = st_count s \<and> cm_id c \<notin> ident s ` set xs"
proof -
  obtain found where found: "from_id (cm_id c) s = Some found" "found \<noteq> Some p"
    using from_id_member [OF assms(1), of "cm_id c"] assms(2) by auto
  obtain s1 x where clear: "clear_message (cm_id c) s = Some (cm_id c \<in> ident s ` set xs, s1)"
    and s1: "holds s1 (filter (\<lambda>q. ident s q \<noteq> cm_id c) xs)"
    "bodies s1 = (bodies s)(x := None) \<and> st_count s1 = st_count s - 1 \<and> x \<in> set xs \<and> ident s x = cm_id c \<or>
     s1 = s \<and> cm_id c \<notin> ident s ` set xs"
    "\<forall>a. a \<notin> set xs \<longrightarrow> st_heap s1 a = st_heap s a"
    using clear_message_list [OF assms(1), of "cm_id c"] by blast
  have p: "st_heap s1 p = Some c" using s1(3) assms(2,3) by simp
  define s' where "s' = s1\<lparr>st_heap := set_next p (st_head s1) (st_heap s1), st_head := Some p\<rparr>"
  have add: "store_add p s = Some (NO_ERROR, s')"
    using found clear p assms(3,4) by (simp add: store_add_def s'_def)
  let ?xs = "filter (\<lambda>q. ident s q \<noteq> cm_id c) xs"
  have keep: "\<forall>q \<in> set ?xs. ident s1 q = ident s q \<and> st_heap s' q = st_heap s1 q"
  proof
    fix q assume q: "q \<in> set ?xs"
    have "lseg (st_heap s1) (st_head s1) ?xs None" using s1(1) by (simp add: holds_def)
    then obtain d where "st_heap s1 q = Some d" using q lseg_alive by blast
    moreover have "bodies s1 q = bodies s q" using s1(2) q by auto
    moreover have "q \<noteq> p" using q assms(2) by auto
    ultimately show "ident s1 q = ident s q \<and> st_heap s' q = st_heap s1 q"
      using bodies_ident [of s1 q s q] by (simp add: s'_def set_next_def)
  qed
  have "lseg (st_heap s') (st_head s1) ?xs None"
    using s1(1) lseg_frame [of ?xs "st_heap s'" "st_heap s1"] keep by (simp add: holds_def)
  moreover have ids: "map (ident s') ?xs = map (ident s) ?xs" using keep by (auto simp: ident_def)
  have "distinct (map (ident s) ?xs)" "distinct ?xs" "p \<notin> set ?xs"
    using assms(1,2) unfolding holds_def by (auto intro: distinct_map_filter)
  moreover have "distinct (map (ident s') ?xs)" using calculation(2) ids by metis
  moreover have "ident s' p = cm_id c" using p by (simp add: s'_def set_next_def ident_def)
  moreover have "cm_id c \<notin> ident s' ` set ?xs" using ids by auto
  ultimately have "distinct (map (ident s') (p # ?xs)) \<and> distinct (p # ?xs) \<and> lseg (st_heap s') (st_head s1) ?xs None"
    by simp
  then have "holds s' (p # ?xs)"
    using p unfolding holds_def by (simp add: s'_def set_next_def)
  moreover have "bodies s' = bodies s1" by (auto simp: s'_def bodies_def set_next_def option.map_comp comp_def)
  ultimately show ?thesis using that [of s' x] add s1(2) by (auto simp: s'_def)
qed

section \<open>Runs of the store\<close>

text \<open>
  The store owns its messages: every object of the heap is in the list, and \<open>message_count\<close> is their number.
  \<open>entry\<close> is what a client sees of a message.
\<close>

definition owns :: "'d store \<Rightarrow> nat list \<Rightarrow> bool" where
  "owns s xs \<longleftrightarrow> holds s xs \<and> dom (st_heap s) = set xs \<and> st_count s = of_nat (card (dom (st_heap s)))"

definition entry :: "'d coap_message \<Rightarrow> u16 \<times> u8 list" where
  "entry c = (cm_id c, cm_data c)"

definition contents :: "'d store \<Rightarrow> nat list \<Rightarrow> (u16 \<times> u8 list) list" where
  "contents s xs = map (\<lambda>p. entry (the (bodies s p))) xs"

lemma entry_body [simp]: "entry (body c) = entry c"
  by (simp add: entry_def body_def)

lemma fst_entry: "st_heap s p = Some c \<Longrightarrow> fst (entry (the (bodies s p))) = ident s p"
  by (simp add: bodies_def entry_def ident_def body_def)

lemma dom_bodies: "dom (bodies s) = dom (st_heap s)"
  by (auto simp: bodies_def)

lemma owns_unique:
  assumes "owns s xs" "x \<in> set xs"
  shows "set (filter (\<lambda>p. ident s p \<noteq> ident s x) xs) = set xs - {x}"
proof -
  have "inj_on (ident s) (set xs)" using assms(1) by (simp add: owns_def holds_def distinct_map)
  then show ?thesis using assms(2) by (auto dest: inj_onD)
qed

lemma contents_filter:
  assumes "dom (st_heap s) = set xs"
  shows "map (\<lambda>p. entry (the (bodies s p))) (filter (\<lambda>p. ident s p \<noteq> i) xs) = filter (\<lambda>e. fst e \<noteq> i) (contents s xs)"
proof -
  have "\<forall>p \<in> set xs. fst (entry (the (bodies s p))) = ident s p"
  proof
    fix p assume "p \<in> set xs"
    then obtain c where "st_heap s p = Some c" using assms by blast
    then show "fst (entry (the (bodies s p))) = ident s p" by (rule fst_entry)
  qed
  then show ?thesis unfolding contents_def filter_map by (auto intro!: arg_cong [where f = "map _"] filter_cong)
qed

text \<open>Two stores that differ only by an object taken away.\<close>

lemma owns_without:
  assumes "owns s xs" "holds s' (filter (\<lambda>p. ident s p \<noteq> i) xs)"
    and "bodies s' = (bodies s)(x := None) \<and> st_count s' = st_count s - 1 \<and> x \<in> set xs \<and> ident s x = i \<or>
      bodies s' = bodies s \<and> st_count s' = st_count s \<and> i \<notin> ident s ` set xs"
  shows "owns s' (filter (\<lambda>p. ident s p \<noteq> i) xs) \<and>
    contents s' (filter (\<lambda>p. ident s p \<noteq> i) xs) = filter (\<lambda>e. fst e \<noteq> i) (contents s xs)"
proof -
  let ?xs = "filter (\<lambda>p. ident s p \<noteq> i) xs"
  have dom: "dom (st_heap s) = set xs" and count: "st_count s = of_nat (card (dom (st_heap s)))"
    using assms(1) by (simp_all add: owns_def)
  have same: "\<forall>p \<in> set ?xs. bodies s' p = bodies s p" using assms(3) by auto
  then have "contents s' ?xs = map (\<lambda>p. entry (the (bodies s p))) ?xs" unfolding contents_def by auto
  moreover from assms(3) have "dom (st_heap s') = set ?xs \<and> st_count s' = of_nat (card (dom (st_heap s')))"
  proof
    assume x: "bodies s' = (bodies s)(x := None) \<and> st_count s' = st_count s - 1 \<and> x \<in> set xs \<and> ident s x = i"
    then have "dom (st_heap s') = set xs - {x}" using dom dom_bodies [of s'] dom_bodies [of s] by auto
    moreover have "set ?xs = set xs - {x}" using owns_unique [OF assms(1)] x by auto
    moreover have "0 < card (set xs)" using x by (auto simp: card_gt_0_iff)
    ultimately show ?thesis using x count dom by (simp add: of_nat_diff)
  next
    assume x: "bodies s' = bodies s \<and> st_count s' = st_count s \<and> i \<notin> ident s ` set xs"
    then show ?thesis using dom count dom_bodies [of s'] dom_bodies [of s] by auto
  qed
  ultimately show ?thesis using assms(2) contents_filter [OF dom] by (simp add: owns_def)
qed

lemma clear_message_owns:
  assumes "owns s xs"
  obtains s' where "clear_message i s = Some (i \<in> ident s ` set xs, s')" "owns s' (filter (\<lambda>p. ident s p \<noteq> i) xs)"
    "contents s' (filter (\<lambda>p. ident s p \<noteq> i) xs) = filter (\<lambda>e. fst e \<noteq> i) (contents s xs)"
proof -
  have hs: "holds s xs" using assms by (simp add: owns_def)
  show ?thesis
    using clear_message_list [OF hs, of i] owns_without [OF assms, of _ i] that by (metis (no_types, lifting))
qed

text \<open>\<open>clear\<close> empties the store and frees every message.\<close>

lemma store_clear_owns: "owns s xs \<Longrightarrow> \<exists>s'. store_clear s = Some s' \<and> owns s' []"
proof (induction xs arbitrary: s)
  case Nil
  then show ?case by (auto simp: owns_def holds_def store_clear.simps [of s])
next
  case (Cons x xs)
  obtain c where c: "st_head s = Some x" "st_heap s x = Some c"
    using Cons.prems by (auto simp: owns_def holds_def split: option.splits)
  have x: "ident s x = cm_id c" using c by (simp add: ident_def)
  obtain s' where s': "clear_message (cm_id c) s = Some (cm_id c \<in> ident s ` set (x # xs), s')"
    "owns s' (filter (\<lambda>p. ident s p \<noteq> cm_id c) (x # xs))"
    using clear_message_owns [OF Cons.prems, of "cm_id c"] by blast
  then obtain q s1 where q: "remove_id (cm_id c) s = Some (q, s1)" "s' = cm_delete q s1"
    by (auto simp: clear_message_def)
  have "distinct (map (ident s) (x # xs))" using Cons.prems by (simp only: owns_def holds_def)
  then have "filter (\<lambda>p. ident s p \<noteq> cm_id c) (x # xs) = xs"
    using x by (auto simp: filter_id_conv image_iff)
  then have "owns s' xs" using s'(2) by simp
  then obtain s'' where "store_clear s' = Some s''" "owns s'' []" using Cons.IH by blast
  then show ?case using c q by (subst store_clear.simps) simp
qed

datatype store_op = Insert ptr u16 "u8 list" nat | ClearId u16 | ClearAll

definition store_step :: "store_op \<Rightarrow> 'd store \<Rightarrow> 'd store option" where
  "store_step x s =
     (case x of
        Insert memory i bytes n \<Rightarrow>
          (case cm_create memory i bytes n s of
             (None, s1) \<Rightarrow> Some s1
           | (Some p, s1) \<Rightarrow> map_option snd (store_add p s1))
      | ClearId i \<Rightarrow> map_option snd (clear_message i s)
      | ClearAll \<Rightarrow> store_clear s)"

text \<open>The specification: an association list with the newest message first.\<close>

fun table_step :: "store_op \<Rightarrow> (u16 \<times> u8 list) list \<Rightarrow> (u16 \<times> u8 list) list" where
  "table_step (Insert None i bytes n) t = t"
| "table_step (Insert (Some p) i bytes n) t =
     (let d = (if n \<noteq> 0 \<and> n < length bytes then take n bytes else bytes)
      in (i, if 1500 < length d then [] else d) # filter (\<lambda>e. fst e \<noteq> i) t)"
| "table_step (ClearId i) t = filter (\<lambda>e. fst e \<noteq> i) t"
| "table_step ClearAll t = []"

fun fresh :: "store_op \<Rightarrow> 'd store \<Rightarrow> bool" where
  "fresh (Insert (Some p) i bytes n) s \<longleftrightarrow> st_heap s p = None"
| "fresh _ s \<longleftrightarrow> True"

lemma insert_owns:
  assumes "owns s xs" "st_heap s p = None"
  shows "\<exists>s' ys. store_step (Insert (Some p) i bytes n) s = Some s' \<and> owns s' ys \<and>
    contents s' ys = table_step (Insert (Some p) i bytes n) (contents s xs)"
proof -
  define d where "d = (if n \<noteq> 0 \<and> n < length bytes then take n bytes else bytes)"
  define c :: "'a coap_message" where "c = snd (set_data d (cm_new i))"
  define s1 where "s1 = s\<lparr>st_heap := (st_heap s)(p := Some c), st_count := st_count s + 1\<rparr>"
  have create: "cm_create (Some p) i bytes n s = (Some p, s1)"
    by (simp add: cm_create_def s1_def c_def d_def Let_def)
  have dom: "dom (st_heap s) = set xs" and count: "st_count s = of_nat (card (set xs))" and hs: "holds s xs"
    using assms(1) by (simp_all add: owns_def)
  have p: "p \<notin> set xs" using dom assms(2) by blast
  have same: "\<forall>q \<in> set xs. ident s1 q = ident s q \<and> bodies s1 q = bodies s q"
    using p by (auto simp: s1_def ident_def bodies_def)
  have hs1: "holds s1 xs" by (rule holds_frame [OF hs]) (use p in \<open>auto simp: s1_def\<close>)
  have c: "cm_next c = None" "cm_id c = i" "entry c = (i, if 1500 < length d then [] else d)"
    by (simp_all add: c_def set_data_def cm_new_def entry_def)
  obtain s' x where add: "store_add p s1 = Some (NO_ERROR, s')"
    and hs': "holds s' (p # filter (\<lambda>q. ident s1 q \<noteq> cm_id c) xs)"
    and cases: "bodies s' = (bodies s1)(x := None) \<and> st_count s' = st_count s1 - 1 \<and> x \<in> set xs \<and> ident s1 x = cm_id c \<or>
      bodies s' = bodies s1 \<and> st_count s' = st_count s1 \<and> cm_id c \<notin> ident s1 ` set xs"
    using store_add_list [OF hs1 p, of c] c(1) by (auto simp: s1_def)
  let ?xs = "filter (\<lambda>q. ident s q \<noteq> i) xs"
  have xs: "filter (\<lambda>q. ident s1 q \<noteq> cm_id c) xs = ?xs" using same c(2) by (auto intro: filter_cong)
  have dom1: "dom (bodies s1) = insert p (set xs)" using dom by (auto simp: dom_bodies s1_def)
  have "dom (bodies s') = set (p # ?xs) \<and> st_count s' = of_nat (card (set (p # ?xs)))"
    using cases
  proof
    assume x: "bodies s' = (bodies s1)(x := None) \<and> st_count s' = st_count s1 - 1 \<and> x \<in> set xs \<and> ident s1 x = cm_id c"
    have "set ?xs = set xs - {x}" using owns_unique [OF assms(1), of x] x same c(2) by auto
    moreover have "0 < card (set xs)" "x \<noteq> p" using x p by (auto simp: card_gt_0_iff)
    ultimately show ?thesis using x dom1 p count by (auto simp: s1_def of_nat_diff)
  next
    assume x: "bodies s' = bodies s1 \<and> st_count s' = st_count s1 \<and> cm_id c \<notin> ident s1 ` set xs"
    then have "\<forall>q \<in> set xs. ident s q \<noteq> i" using same c(2) by (metis image_eqI)
    then have "set ?xs = set xs" by auto
    then show ?thesis using x dom1 p count by (simp add: s1_def)
  qed
  then have "owns s' (p # ?xs)" using hs' xs by (simp add: owns_def dom_bodies)
  moreover have "contents s' (p # ?xs) = (i, if 1500 < length d then [] else d) # filter (\<lambda>e. fst e \<noteq> i) (contents s xs)"
  proof -
    have "bodies s1 p = Some (body c)" by (simp add: s1_def bodies_def)
    then have "bodies s' p = Some (body c)" using cases p by auto
    moreover have "\<forall>q \<in> set ?xs. bodies s' q = bodies s q" using cases same c(2) by auto
    ultimately have "contents s' (p # ?xs) = entry c # map (\<lambda>q. entry (the (bodies s q))) ?xs" by (auto simp: contents_def)
    then show ?thesis using contents_filter [OF dom] c(3) by simp
  qed
  ultimately show ?thesis using create add by (auto simp: store_step_def d_def Let_def)
qed

lemma store_step_owns:
  assumes "owns s xs" "fresh x s"
  shows "\<exists>s' ys. store_step x s = Some s' \<and> owns s' ys \<and> contents s' ys = table_step x (contents s xs)"
proof (cases x)
  case (Insert memory i bytes n)
  then show ?thesis
    using insert_owns [OF assms(1)] assms by (cases memory) (auto simp: store_step_def cm_create_def Let_def)
next
  case (ClearId i)
  obtain s' where "clear_message i s = Some (i \<in> ident s ` set xs, s')" "owns s' (filter (\<lambda>p. ident s p \<noteq> i) xs)"
    "contents s' (filter (\<lambda>p. ident s p \<noteq> i) xs) = filter (\<lambda>e. fst e \<noteq> i) (contents s xs)"
    using clear_message_owns [OF assms(1), of i] by blast
  then show ?thesis using ClearId by (auto simp: store_step_def)
next
  case ClearAll
  then show ?thesis using store_clear_owns [OF assms(1)] by (auto simp: store_step_def contents_def)
qed

primrec store_run :: "store_op list \<Rightarrow> 'd store \<Rightarrow> 'd store option" where
  "store_run [] s = Some s"
| "store_run (x # xs) s = (case store_step x s of Some s1 \<Rightarrow> store_run xs s1 | None \<Rightarrow> None)"

text \<open>\<open>new\<close> returns addresses that are not in use.\<close>

primrec fresh_run :: "store_op list \<Rightarrow> 'd store \<Rightarrow> bool" where
  "fresh_run [] s \<longleftrightarrow> True"
| "fresh_run (x # xs) s \<longleftrightarrow> fresh x s \<and> (case store_step x s of Some s1 \<Rightarrow> fresh_run xs s1 | None \<Rightarrow> True)"

lemma store_run_owns:
  "owns s ys \<Longrightarrow> fresh_run xs s \<Longrightarrow>
     \<exists>s' zs. store_run xs s = Some s' \<and> owns s' zs \<and> contents s' zs = fold table_step xs (contents s ys)"
proof (induction xs arbitrary: s ys)
  case (Cons x xs)
  have "fresh x s" using Cons.prems(2) by simp
  then obtain s1 ys1 where "store_step x s = Some s1" "owns s1 ys1" "contents s1 ys1 = table_step x (contents s ys)"
    using store_step_owns [OF Cons.prems(1)] by blast
  then show ?case using Cons.IH [of s1 ys1] Cons.prems(2) by auto
qed auto

section \<open>Retransmission\<close>

lemma transmit_timeout_bounds:
  assumes "k \<le> 6"
  shows "4000 * 2 ^ k \<le> unat (transmit_timeout r (of_nat k)) \<and> unat (transmit_timeout r (of_nat k)) * 512 \<le> 4000 * 2 ^ k * 767"
proof -
  have "k = 0 \<or> k = 1 \<or> k = 2 \<or> k = 3 \<or> k = 4 \<or> k = 5 \<or> k = 6" using assms by auto
  then obtain t where t: "unat (push_bit (unat (of_nat k :: u8)) ACK_TIMEOUT) = t" "t = 4000 * 2 ^ k" "t \<le> 256000"
    by (elim disjE) (auto simp: ACK_TIMEOUT_def push_bit_eq_mult)
  let ?w = "push_bit (unat (of_nat k :: u8)) ACK_TIMEOUT"
  have r: "unat (of_nat (r mod 256) :: u32) = r mod 256" by (simp add: unat_of_nat_u32)
  have "t * (r mod 256) \<le> 256000 * 255" using t(3) by (intro mult_le_mono) auto
  then have m: "unat (?w * of_nat (r mod 256)) = t * (r mod 256)"
    using t(1) r by (simp add: unat_word_ariths)
  then have "unat (drop_bit 9 (?w * of_nat (r mod 256))) = t * (r mod 256) div 512"
    by (simp add: drop_bit_eq_div unat_div)
  moreover have "t * (r mod 256) div 512 \<le> t * 255 div 512" by (intro div_le_mono mult_le_mono) auto
  ultimately have "unat (transmit_timeout r (of_nat k)) = t + t * (r mod 256) div 512"
    using t(1,3) by (simp add: transmit_timeout_def Let_def unat_word_ariths)
  moreover have "t * (r mod 256) div 512 * 512 \<le> t * 255"
  proof -
    have "t * (r mod 256) div 512 * 512 \<le> t * (r mod 256)" by (rule div_times_less_eq_dividend)
    also have "\<dots> \<le> t * 255" by (intro mult_le_mono) auto
    finally show ?thesis .
  qed
  ultimately show ?thesis using t(2) by simp
qed

lemma cm_byte_fields [simp]:
  "cm_byte (c\<lparr>cm_timeout := t\<rparr>) = cm_byte c" "cm_byte (c\<lparr>cm_count := n\<rparr>) = cm_byte c"
  by (simp_all add: cm_byte_def fun_eq_iff)

text \<open>A message resent whenever its timeout has come; \<open>rs\<close> are the results of \<open>rand\<close>.\<close>

primrec attempts :: "(mem \<Rightarrow> coap_type) \<Rightarrow> nat list \<Rightarrow> u32 \<Rightarrow> 'd coap_message \<Rightarrow> (u32 \<times> bool) list" where
  "attempts ctype [] now c = []"
| "attempts ctype (r # rs) now c =
     (let (ok, c1) = prepare_retransmit ctype r now c
      in (now, ok) # (if ok then attempts ctype rs (cm_timeout c1) c1 else []))"

lemma word_since_wrap: "unat (now - tick :: u32) = (if unat tick \<le> unat now then unat now - unat tick else unat now + 2 ^ 32 - unat tick)"
  by (simp add: unat_sub_if')

section \<open>Properties\<close>

text \<open>
  C15: A message store with the operations \<open>add\<close> (of a new message), \<open>clear_message\<close> and \<open>clear\<close> is a table from
  identifiers to messages.  Every operation ends, the list stays well linked with one message for an identifier, a
  message that is replaced or cleared is freed and no other, so that \<open>message_count\<close> is the number of messages in
  the table; a message that is longer than 1500 bytes is kept without its data.
\<close>

lemma store_refines_table:
  assumes "fresh_run xs (store_new :: 'd store)"
  shows "\<exists>s zs. store_run xs (store_new :: 'd store) = Some s \<and> contents s zs = fold table_step xs [] \<and>
     holds s zs \<and> dom (st_heap s) = set zs \<and> st_count s = of_nat (length zs)"
proof -
  have "owns (store_new :: 'd store) []" by (simp add: owns_def holds_def store_new_def)
  from store_run_owns [OF this assms] show ?thesis
    by (auto simp: owns_def holds_def distinct_card contents_def)
qed

lemma store_refines_table_witness:
  "\<exists>(s :: unit store) zs. store_run [Insert (Some 8) 1 [0x40] 0, Insert (Some 16) 2 [0x41, 5] 1, Insert (Some 24) 1 [0x42] 0, ClearId 7] store_new = Some s \<and>
     contents s zs = [(1, [0x42]), (2, [0x41])] \<and> dom (st_heap s) = set zs"
proof -
  have "fresh_run [Insert (Some 8) 1 [0x40] 0, Insert (Some 16) 2 [0x41, 5] 1, Insert (Some 24) 1 [0x42] 0, ClearId 7] (store_new :: unit store)"
    by (simp add: store_new_def store_step_def cm_create_def set_data_def cm_new_def store_add_def from_id_def for_id_def
        clear_message_def remove_id_def remove_message_def set_next_def cm_delete_def Let_def)
  from store_refines_table [OF this] show ?thesis by auto
qed

text \<open>
  C16: A confirmable message is transmitted four times, at most; the fifth attempt gives up.  The \<open>k\<close>-th wait is
  between \<open>ACK_TIMEOUT * 2 ^ k\<close> and one and a half times that, without wrap-around, and from the first to the
  last transmission there are never more than \<open>MAX_TRANSMIT_SPAN\<close> ticks.
\<close>

lemma retransmission_schedule:
  assumes "ctype (cm_byte c) = CON" "cm_count c = 0" "5 \<le> length rs"
  defines "w k \<equiv> transmit_timeout (rs ! k) (of_nat k)"
  shows "attempts ctype rs now c =
      [(now, True), (now + w 0, True), (now + w 0 + w 1, True), (now + w 0 + w 1 + w 2, True), (now + w 0 + w 1 + w 2 + w 3, False)] \<and>
    unat (now + w 0 + w 1 + w 2 - now) \<le> MAX_TRANSMIT_SPAN \<and>
    (\<forall>k \<le> 3. 4000 * 2 ^ k \<le> unat (w k) \<and> 2 * unat (w k) \<le> 3 * (4000 * 2 ^ k))"
proof -
  define r0 r1 r2 r3 r4 rs' where "r0 = rs ! 0" and "r1 = rs ! 1" and "r2 = rs ! 2" and "r3 = rs ! 3" and "r4 = rs ! 4" and
    "rs' = drop 5 rs"
  then have rs: "rs = r0 # r1 # r2 # r3 # r4 # rs'"
    using assms(3) Cons_nth_drop_Suc [of 0 rs] Cons_nth_drop_Suc [of 1 rs] Cons_nth_drop_Suc [of 2 rs] Cons_nth_drop_Suc [of 3 rs]
      Cons_nth_drop_Suc [of 4 rs] by (cases rs; cases "tl rs") (auto simp: numeral_2_eq_2)
  have bounds: "4000 * 2 ^ k \<le> unat (w k) \<and> 2 * unat (w k) \<le> 3 * (4000 * 2 ^ k)" if "k \<le> 3" for k
    using transmit_timeout_bounds [of k "rs ! k"] that unfolding w_def by auto
  have "unat (w 0 + w 1 + w 2) \<le> MAX_TRANSMIT_SPAN"
    using bounds [of 0] bounds [of 1] bounds [of 2] by (simp add: unat_word_ariths MAX_TRANSMIT_SPAN_def)
  moreover have "attempts ctype rs now c =
      [(now, True), (now + w 0, True), (now + w 0 + w 1, True), (now + w 0 + w 1 + w 2, True), (now + w 0 + w 1 + w 2 + w 3, False)]"
    using assms(1,2) unfolding rs w_def by (simp add: prepare_retransmit_def MAX_RETRANSMIT_def Let_def)
  ultimately show ?thesis using bounds by (simp add: add.assoc)
qed

lemma retransmission_schedule_witness:
  "length (attempts (\<lambda>_. CON) [255, 255, 255, 255, 255] 0xFFFFFF00 (cm_new 7 :: unit coap_message)) = 5"
  using retransmission_schedule [of "\<lambda>_. CON" "cm_new 7 :: unit coap_message" "[255, 255, 255, 255, 255]" "0xFFFFFF00"]
  by (simp add: cm_new_def)

text \<open>
  \<open>time_has_passed\<close> is right over the wrap of the tick counter: a tick counts as passed for the 2^31 - 1
  ticks that follow it.  Exactly 2^31 ticks after it the answer depends on whether the counter has wrapped since.
\<close>

lemma time_has_passed_wraps:
  "time_has_passed now tick \<longleftrightarrow> unat (now - tick) < 2 ^ 31 \<or> unat (now - tick) = 2 ^ 31 \<and> now < tick"
  using unat_u32_less [of now] unat_u32_less [of tick]
  by (auto simp: time_has_passed_def word_le_nat_alt word_less_nat_alt word_since_wrap)

end
