(* ===== verification/Coap_Reliable.thy ===== *)
theory Coap_Reliable
  imports Coap_Store
begin

text \<open>
  Synchronous sending and the reliable channel (\<open>CoAPMessageStore::send_synchronous\<close>, \<open>CoAPReliableChannel\<close> of
  \<open>communication/src/coap_channel.h\<close>).  The bodies of \<open>CoAPMessageStore::send\<close>, \<open>receive\<close> and \<open>process\<close> are not in the
  repository: with the channel below and the clock they are the operations of a record, over a world of type \<open>'w\<close>
  that has the two message stores and the memory in it.  An operation that may invoke the delivery handler of the
  message that is waited for returns the outcomes it was invoked with.
\<close>

section \<open>Operations that are not in the headers\<close>

datatype side = Client | Server

record ('w, 'd) reliable_ops =
  ro_time :: "'w \<Rightarrow> u32 \<times> 'w"
  ro_mem :: "'w \<Rightarrow> mem"
  ro_type :: "mem \<Rightarrow> coap_type"
  ro_store :: "side \<Rightarrow> 'w \<Rightarrow> 'd store"
  ro_set_store :: "side \<Rightarrow> 'd store \<Rightarrow> 'w \<Rightarrow> 'w"
  ro_store_send :: "side \<Rightarrow> message \<Rightarrow> u32 \<Rightarrow> 'w \<Rightarrow> protocol_error \<times> message \<times> 'w"
  ro_store_receive :: "side \<Rightarrow> message \<Rightarrow> u32 \<Rightarrow> 'w \<Rightarrow> protocol_error \<times> message \<times> delivery list \<times> 'w"
  ro_process :: "side \<Rightarrow> u32 \<Rightarrow> 'w \<Rightarrow> delivery list \<times> 'w"
  ro_send :: "message \<Rightarrow> 'w \<Rightarrow> protocol_error \<times> message \<times> 'w"
  ro_receive :: "message \<Rightarrow> 'w \<Rightarrow> protocol_error \<times> message \<times> 'w"
  ro_unacknowledged :: "side \<Rightarrow> 'w \<Rightarrow> bool"
  ro_establish :: "u32 \<Rightarrow> u32 \<Rightarrow> 'w \<Rightarrow> protocol_error \<times> u32 \<times> 'w"


section \<open>send_synchronous\<close>








section \<open>CoAPReliableChannel\<close>

definition reliable_establish ::
    "('w, 'd) reliable_ops \<Rightarrow> u32 \<Rightarrow> u32 \<Rightarrow> 'w \<Rightarrow> (protocol_error \<times> u32 \<times> 'w) option" where
  "reliable_establish ops flags app_crc w =
     (case store_clear (ro_store ops Server w) of
        None \<Rightarrow> None
      | Some s \<Rightarrow>
          (let w1 = ro_set_store ops Server s w
           in case store_clear (ro_store ops Client w1) of
                None \<Rightarrow> None
              | Some s1 \<Rightarrow> Some (ro_establish ops flags app_crc (ro_set_store ops Client s1 w1))))"


definition reliable_receive ::
    "('w, 'd) reliable_ops \<Rightarrow> message \<Rightarrow> bool \<Rightarrow> 'w \<Rightarrow> protocol_error \<times> message \<times> 'w" where
  "reliable_receive ops msg requests w =
     (let (error, msg1, w1) = ro_receive ops msg w;
          (error, msg2, w2) =
            (if error = NO_ERROR \<and> mg_len msg1 \<noteq> 0 then
               let request = is_request (ro_type ops) (ro_mem ops w1) msg1;
                   sd = (if request then Server else Client)
               in if \<not> request \<or> requests then
                    let (t, w2) = ro_time ops w1; (error, msg2, ds, w3) = ro_store_receive ops sd msg1 t w2
                    in (error, msg2, w3)
                  else (error, msg1, w1)
             else (error, msg1, w1));
          (t, w3) = ro_time ops w2; (ds, w4) = ro_process ops Client t w3;
          (t, w5) = ro_time ops w4; (ds, w6) = ro_process ops Server t w5
      in (error, msg2, w6))"

definition reliable_receive_all :: "('w, 'd) reliable_ops \<Rightarrow> message \<Rightarrow> 'w \<Rightarrow> protocol_error \<times> message \<times> 'w" where
  "reliable_receive_all ops msg w = reliable_receive ops msg True w"

text \<open>\<open>create\<close> is the \<open>create\<close> of the channel below.\<close>

definition receive_confirmations ::
    "(message \<Rightarrow> nat \<Rightarrow> protocol_error \<times> message) \<Rightarrow> ('w, 'd) reliable_ops \<Rightarrow> 'w \<Rightarrow> protocol_error \<times> message \<times> 'w" where
  "receive_confirmations create ops w = reliable_receive ops (snd (create (mg_new 0 0 0) 0)) False w"

definition has_unacknowledged_requests :: "('w, 'd) reliable_ops \<Rightarrow> 'w \<Rightarrow> bool" where
  "has_unacknowledged_requests ops w \<longleftrightarrow> has_messages (ro_store ops Client w) \<or> ro_unacknowledged ops Server w"

section \<open>The stores stay well formed\<close>


















section \<open>Properties\<close>




end
