(* ===== verification/Subscriptions.thy ===== *)
theory Subscriptions
  imports Coap_Messages "HOL-Library.Sublist"
begin

text \<open>
  Event subscriptions (\<open>communication/src/subscriptions.h\<close>, \<open>events.h\<close>): the table of five handlers with its queries,
  insertion and removal, and \<open>handle_event\<close>, which joins the Uri-Path options of a message into the event name in
  place and calls the handlers whose filter is a prefix of it.  A C string argument is its list of characters, none of
  them zero; a character array of a handler is the list of all its bytes.  The functions that are only declared
  (\<open>CoAP::type\<close>, \<open>CoAP::option_decode\<close>, \<open>subscription\<close>, the CRC) and the channel are parameters.
\<close>

section \<open>The table\<close>

datatype subscription_scope = MY_DEVICES | FIREHOSE

record ('h, 'd) event_handler =
  eh_filter :: "u8 list"
  eh_handler :: "'h option"
  eh_data :: "'d option"
  eh_scope :: subscription_scope
  eh_device_id :: "u8 list"

definition MAX_FILTER :: nat where "MAX_FILTER = 64"
definition DEVICE_ID_SIZE :: nat where "DEVICE_ID_SIZE = 13"
definition NUM_HANDLERS :: nat where "NUM_HANDLERS = 5"

definition zero_handler :: "('h, 'd) event_handler" where
  "zero_handler = \<lparr>eh_filter = replicate MAX_FILTER 0, eh_handler = None, eh_data = None, eh_scope = MY_DEVICES,
     eh_device_id = replicate DEVICE_ID_SIZE 0\<rparr>"

definition subscriptions_new :: "('h, 'd) event_handler list" where
  "subscriptions_new = replicate NUM_HANDLERS zero_handler"

definition strnlen :: "u8 list \<Rightarrow> nat \<Rightarrow> nat" where
  "strnlen s n = length (takeWhile (\<lambda>c. c \<noteq> 0) (take n s))"

text \<open>\<open>strncmp\<close> over no more characters than the string \<open>s\<close> has.\<close>

definition starts_with :: "u8 list \<Rightarrow> u8 list \<Rightarrow> nat \<Rightarrow> bool" where
  "starts_with field s n \<longleftrightarrow> take n field = take n s"

primrec event_handler_exists ::
    "u8 list \<Rightarrow> 'h option \<Rightarrow> 'd option \<Rightarrow> subscription_scope \<Rightarrow> u8 list option \<Rightarrow> ('h, 'd) event_handler list \<Rightarrow> bool" where
  "event_handler_exists event_name handler data scope dev_id [] = False"
| "event_handler_exists event_name handler data scope dev_id (e # es) =
     (let FILTER_LEN = strnlen event_name MAX_FILTER;
          id_len = (case dev_id of Some i \<Rightarrow> strnlen i (DEVICE_ID_SIZE - 1) | None \<Rightarrow> 0)
      in if eh_handler e = handler \<and> eh_data e = data \<and> eh_scope e = scope \<and> starts_with (eh_filter e) event_name FILTER_LEN
         then (if id_len \<noteq> 0 then starts_with (eh_device_id e) (the dev_id) id_len else eh_device_id e ! 0 = 0)
         else event_handler_exists event_name handler data scope dev_id es)"

definition fill_handler ::
    "u8 list \<Rightarrow> 'h option \<Rightarrow> 'd option \<Rightarrow> subscription_scope \<Rightarrow> u8 list option \<Rightarrow> ('h, 'd) event_handler \<Rightarrow> ('h, 'd) event_handler" where
  "fill_handler event_name handler data scope dev_id e =
     (let FILTER_LEN = strnlen event_name MAX_FILTER;
          id_len = (case dev_id of Some i \<Rightarrow> strnlen i (DEVICE_ID_SIZE - 1) | None \<Rightarrow> 0)
      in e\<lparr>eh_filter := take FILTER_LEN event_name @ replicate (MAX_FILTER - FILTER_LEN) 0,
           eh_handler := handler, eh_data := data,
           eh_device_id := take id_len (case dev_id of Some i \<Rightarrow> i | None \<Rightarrow> []) @ 0 # drop (Suc id_len) ((eh_device_id e)[0 := 0]),
           eh_scope := scope\<rparr>)"

primrec add_loop ::
    "(('h, 'd) event_handler \<Rightarrow> ('h, 'd) event_handler) \<Rightarrow> ('h, 'd) event_handler list \<Rightarrow> protocol_error \<times> ('h, 'd) event_handler list" where
  "add_loop f [] = (INSUFFICIENT_STORAGE, [])"
| "add_loop f (e # es) =
     (if eh_handler e = None then (NO_ERROR, f e # es)
      else let (error, es1) = add_loop f es in (error, e # es1))"

definition add_event_handler ::
    "u8 list \<Rightarrow> 'h option \<Rightarrow> 'd option \<Rightarrow> subscription_scope \<Rightarrow> u8 list option \<Rightarrow> ('h, 'd) event_handler list
       \<Rightarrow> protocol_error \<times> ('h, 'd) event_handler list" where
  "add_event_handler event_name handler data scope dev_id es =
     (if event_handler_exists event_name handler data scope dev_id es then (NO_ERROR, es)
      else add_loop (fill_handler event_name handler data scope dev_id) es)"

text \<open>
  \<open>strcmp\<close> with a filter: one that fills its array is not terminated, and the comparison goes on over the bytes
  \<open>beyond e\<close> of the fields that follow.
\<close>

definition filter_string :: "(('h, 'd) event_handler \<Rightarrow> u8 list) \<Rightarrow> ('h, 'd) event_handler \<Rightarrow> u8 list" where
  "filter_string beyond e = takeWhile (\<lambda>c. c \<noteq> 0) (eh_filter e @ beyond e)"

function remove_loop ::
    "(('h, 'd) event_handler \<Rightarrow> u8 list) \<Rightarrow> u8 list \<Rightarrow> nat \<Rightarrow> nat \<Rightarrow> ('h, 'd) event_handler list \<Rightarrow> ('h, 'd) event_handler list" where
  "remove_loop beyond event_name i dest es =
     (if i < length es then
        if event_name = filter_string beyond (es ! i) then
          remove_loop beyond event_name (Suc i) dest (es[i := zero_handler])
        else if dest \<noteq> i then
          remove_loop beyond event_name (Suc i) (Suc dest) ((es[dest := es ! i])[i := zero_handler])
        else remove_loop beyond event_name (Suc i) (Suc dest) es
      else es)"
  by pat_completeness auto

termination by (relation "measure (\<lambda>(_, _, i, _, es). length es - i)") auto

declare remove_loop.simps [simp del]

definition remove_event_handlers ::
    "(('h, 'd) event_handler \<Rightarrow> u8 list) \<Rightarrow> u8 list option \<Rightarrow> ('h, 'd) event_handler list \<Rightarrow> ('h, 'd) event_handler list" where
  "remove_event_handlers beyond name es =
     (case name of
        None \<Rightarrow> replicate (length es) zero_handler
      | Some event_name \<Rightarrow> remove_loop beyond event_name 0 0 es)"

primrec for_each ::
    "(('h, 'd) event_handler \<Rightarrow> 's \<Rightarrow> protocol_error \<times> 's) \<Rightarrow> ('h, 'd) event_handler list \<Rightarrow> 's \<Rightarrow> protocol_error \<times> 's" where
  "for_each callback [] s = (NO_ERROR, s)"
| "for_each callback (e # es) s =
     (if eh_handler e \<noteq> None then
        let (error, s1) = callback e s
        in if error \<noteq> NO_ERROR then (error, s1) else for_each callback es s1
      else for_each callback es s)"

text \<open>\<open>SubscriptionScope::Enum\<close> is one byte, the words of \<open>chk\<close> are in memory order.\<close>

fun scope_byte :: "subscription_scope \<Rightarrow> u8" where
  "scope_byte MY_DEVICES = 0"
| "scope_byte FIREHOSE = 1"

definition checksum_step :: "(u8 list \<Rightarrow> u32) \<Rightarrow> ('h, 'd) event_handler \<Rightarrow> u32 \<Rightarrow> protocol_error \<times> u32" where
  "checksum_step calculate_crc e checksum =
     (NO_ERROR, calculate_crc (le32 checksum @ le32 (calculate_crc (eh_device_id e)) @
        le32 (calculate_crc (eh_filter e)) @ le32 (calculate_crc [scope_byte (eh_scope e)])))"

definition compute_subscriptions_checksum :: "(u8 list \<Rightarrow> u32) \<Rightarrow> ('h, 'd) event_handler list \<Rightarrow> u32" where
  "compute_subscriptions_checksum calculate_crc es = snd (for_each (checksum_step calculate_crc) es 0)"

section \<open>Sending subscriptions\<close>

text \<open>
  The message channel: \<open>create\<close> and \<open>response\<close> of its buffer, \<open>send\<close> with its state, and whether it is unreliable.
  \<open>by_device\<close> and \<open>by_scope\<close> are the two \<open>subscription\<close> functions, which write a message and return its length.
\<close>

record 's channel =
  ch_create :: "message \<Rightarrow> nat \<Rightarrow> protocol_error \<times> message"
  ch_response :: "message \<Rightarrow> message \<Rightarrow> nat \<Rightarrow> protocol_error \<times> message \<times> message"
  ch_send :: "message \<Rightarrow> mem \<times> 's \<Rightarrow> protocol_error \<times> message \<times> mem \<times> 's"
  ch_unreliable :: bool

record subscription_fns =
  by_device :: "nat \<Rightarrow> u16 \<Rightarrow> u8 list \<Rightarrow> u8 list \<Rightarrow> mem \<Rightarrow> nat \<times> mem"
  by_scope :: "nat \<Rightarrow> u16 \<Rightarrow> u8 list \<Rightarrow> subscription_scope \<Rightarrow> mem \<Rightarrow> nat \<times> mem"

definition send_subscription ::
    "'s channel \<Rightarrow> subscription_fns \<Rightarrow> u8 list \<Rightarrow> u8 list option \<Rightarrow> subscription_scope \<Rightarrow> mem \<times> 's \<Rightarrow> protocol_error \<times> mem \<times> 's" where
  "send_subscription channel fns filt device_id scope w =
     (let message = snd (ch_create channel (mg_new 0 0 0) 0);
          (msglen, m) = (case device_id of
                           Some i \<Rightarrow> by_device fns (mg_buf message) 0 filt i (fst w)
                         | None \<Rightarrow> by_scope fns (mg_buf message) 0 filt scope (fst w));
          (result, _, w1) = ch_send channel (set_length msglen message) (m, snd w)
      in (result, w1))"

definition send_subscription_of ::
    "'s channel \<Rightarrow> subscription_fns \<Rightarrow> (('h, 'd) event_handler \<Rightarrow> u8 list) \<Rightarrow> ('h, 'd) event_handler \<Rightarrow> mem \<times> 's \<Rightarrow> protocol_error \<times> mem \<times> 's" where
  "send_subscription_of channel fns beyond e w =
     send_subscription channel fns (filter_string beyond e)
       (if eh_device_id e ! 0 \<noteq> 0 then Some (takeWhile (\<lambda>c. c \<noteq> 0) (eh_device_id e)) else None) (eh_scope e) w"

definition send_subscriptions ::
    "'s channel \<Rightarrow> subscription_fns \<Rightarrow> (('h, 'd) event_handler \<Rightarrow> u8 list) \<Rightarrow> ('h, 'd) event_handler list \<Rightarrow> mem \<times> 's \<Rightarrow> protocol_error \<times> mem \<times> 's" where
  "send_subscriptions channel fns beyond es w = for_each (send_subscription_of channel fns beyond) es w"

definition send_subscription_device ::
    "'s channel \<Rightarrow> subscription_fns \<Rightarrow> u8 list \<Rightarrow> u8 list option \<Rightarrow> mem \<times> 's \<Rightarrow> protocol_error \<times> mem \<times> 's" where
  "send_subscription_device channel fns filt device_id w = send_subscription channel fns filt device_id MY_DEVICES w"

definition send_subscription_scope ::
    "'s channel \<Rightarrow> subscription_fns \<Rightarrow> u8 list \<Rightarrow> subscription_scope \<Rightarrow> mem \<times> 's \<Rightarrow> protocol_error \<times> mem \<times> 's" where
  "send_subscription_scope channel fns filt scope w = send_subscription channel fns filt None scope w"

section \<open>handle_event\<close>

text \<open>\<open>memmove\<close>, and the loop over the further Uri-Path options; \<open>option_decode\<close> returns the length and the new position.\<close>

definition memmove :: "nat \<Rightarrow> nat \<Rightarrow> nat \<Rightarrow> mem \<Rightarrow> mem" where
  "memmove dst src n m = write_bytes dst (map m [src ..< src + n]) m"

partial_function (option) join_path ::
    "(mem \<Rightarrow> nat \<Rightarrow> nat \<times> nat) \<Rightarrow> nat \<Rightarrow> nat \<Rightarrow> nat \<Rightarrow> mem \<Rightarrow> (nat \<times> nat \<times> mem) option" where
  "join_path option_decode msg_end next_src next_dst m =
     (if next_src < msg_end \<and> m next_src AND 0xF0 = 0 then
        (let (option_len, src1) = option_decode m next_src;
             m1 = m(next_dst := 0x2F);
             dst1 = next_dst + 1;
             m2 = (if dst1 \<noteq> src1 then memmove dst1 src1 option_len m1 else m1)
         in join_path option_decode msg_end (src1 + option_len) (dst1 + option_len) m2)
      else Some (next_src, next_dst, m))"

text \<open>
  A call of a handler, by the slot (for \<open>call_event_handler\<close>) or directly, with the addresses of the name and of the
  data.  The direct call passes \<open>handler_data\<close> when there is one.
\<close>

primrec dispatch ::
    "mem \<Rightarrow> nat \<Rightarrow> nat \<Rightarrow> nat option \<Rightarrow> ('h, 'd) event_handler list \<Rightarrow> (('h, 'd) event_handler \<times> nat \<times> nat option) list" where
  "dispatch m event_name event_name_length data [] = []"
| "dispatch m event_name event_name_length data (e # es) =
     (if eh_handler e = None then []
      else
        let filter_length = strnlen (eh_filter e) MAX_FILTER
        in if event_name_length < filter_length then dispatch m event_name event_name_length data es
           else if take filter_length (eh_filter e) = map m [event_name ..< event_name + filter_length]
           then (e, event_name, data) # dispatch m event_name event_name_length data es
           else dispatch m event_name event_name_length data es)"

definition ack_event :: "(mem \<Rightarrow> coap_type) \<Rightarrow> 's channel \<Rightarrow> message \<Rightarrow> mem \<times> 's \<Rightarrow> protocol_error \<times> mem \<times> 's" where
  "ack_event ctype channel message w =
     (if ctype (\<lambda>i. fst w (mg_buf message + i)) = CON \<and> ch_unreliable channel then
        (case ch_response channel message (mg_new 0 0 0) 5 of
           (NO_ERROR, message1, response) \<Rightarrow>
             (let (n, m) = empty_ack (mg_buf response) 0 0 (fst w);
                  (error, _, w1) = ch_send channel (set_id (get_id message1) (set_length n response)) (m, snd w)
              in (error, w1))
         | _ \<Rightarrow> (NO_ERROR, w))
      else (NO_ERROR, w))"

text \<open>What follows the name: a Max-Age option is skipped, the payload and the name are terminated, the handlers called.\<close>

definition finish_event ::
    "(mem \<Rightarrow> nat \<Rightarrow> nat \<times> nat) \<Rightarrow> ('h, 'd) event_handler list \<Rightarrow> nat \<Rightarrow> nat \<Rightarrow> nat \<times> nat \<times> mem
       \<Rightarrow> (('h, 'd) event_handler \<times> nat \<times> nat option) list \<times> mem" where
  "finish_event option_decode es msg_end event_name r =
     (case r of (next_src, next_dst, m) \<Rightarrow>
        (let event_name_length = next_dst - event_name;
             next_src1 = (if next_src < msg_end \<and> m next_src AND 0xF0 = 0x30
                          then let (next_len, p) = option_decode m next_src in p + next_len
                          else next_src);
             (data, m1) = (if next_src1 < msg_end \<and> m next_src1 = 0xFF
                           then (Some (next_src1 + 1), m(msg_end := 0))
                           else (None, m));
             m2 = m1(event_name + event_name_length := 0)
         in (dispatch m2 event_name event_name_length data es, m2)))"

definition handle_event ::
    "(mem \<Rightarrow> coap_type) \<Rightarrow> (mem \<Rightarrow> nat \<Rightarrow> nat \<times> nat) \<Rightarrow> 's channel \<Rightarrow> ('h, 'd) event_handler list \<Rightarrow> message \<Rightarrow> mem \<times> 's
       \<Rightarrow> (protocol_error \<times> (('h, 'd) event_handler \<times> nat \<times> nat option) list \<times> mem \<times> 's) option" where
  "handle_event ctype option_decode channel es message w =
     (case ack_event ctype channel message w of
        (error, m, s) \<Rightarrow>
          if error \<noteq> NO_ERROR then Some (error, [], m, s)
          else
            (case option_decode m (mg_buf message + 6 + unat (m (mg_buf message) AND 0xF)) of
               (first_length, event_name) \<Rightarrow>
                 if first_length = 0 then Some (MALFORMED_MESSAGE, [], m, s)
                 else
                   (case join_path option_decode (mg_buf message + mg_len message)
                           (event_name + first_length) (event_name + first_length) m of
                      None \<Rightarrow> None
                    | Some r \<Rightarrow>
                        (case finish_event option_decode es (mg_buf message + mg_len message) event_name r of
                           (calls, m1) \<Rightarrow> Some (NO_ERROR, calls, m1, s)))))"

section \<open>The name of an event\<close>

text \<open>
  The encoding of options of RFC 7252, which \<open>option_decode\<close> is relied on to read: the low half of the first byte
  is the length, 13 and 14 stand for a length in the next byte or two.
\<close>

definition rfc_option_decode :: "mem \<Rightarrow> nat \<Rightarrow> nat \<times> nat" where
  "rfc_option_decode m p =
     (let n = unat (m p AND 0xF)
      in if n < 13 then (n, p + 1)
         else if n = 13 then (13 + unat (m (p + 1)), p + 2)
         else (269 + 256 * unat (m (p + 1)) + unat (m (p + 2)), p + 3))"

definition option_header :: "nat \<Rightarrow> u8 list" where
  "option_header n = (if n < 13 then [of_nat n] else [13, of_nat (n - 13)])"

definition uri_option :: "u8 list \<Rightarrow> u8 list" where
  "uri_option s = option_header (length s) @ s"

definition stored_at :: "mem \<Rightarrow> nat \<Rightarrow> u8 list \<Rightarrow> bool" where
  "stored_at m a bs \<longleftrightarrow> (\<forall>i < length bs. m (a + i) = bs ! i)"

lemma stored_at_simps [simp]:
  "stored_at m a []" "stored_at m a (b # bs) \<longleftrightarrow> m a = b \<and> stored_at m (Suc a) bs"
  "stored_at m a (xs @ ys) \<longleftrightarrow> stored_at m a xs \<and> stored_at m (a + length xs) ys"
proof -
  show cons: "stored_at m a (b # bs) \<longleftrightarrow> m a = b \<and> stored_at m (Suc a) bs" for a b bs
    unfolding stored_at_def by (simp add: All_less_Suc2)
  show "stored_at m a (xs @ ys) \<longleftrightarrow> stored_at m a xs \<and> stored_at m (a + length xs) ys"
    by (induction xs arbitrary: a) (simp_all add: cons, simp add: stored_at_def)
qed (simp add: stored_at_def)

lemma stored_at_cong: "\<forall>i < length bs. m' (a + i) = m (a + i) \<Longrightarrow> stored_at m' a bs = stored_at m a bs"
  by (simp add: stored_at_def)

lemma stored_at_map: "stored_at m a bs \<longleftrightarrow> map m [a ..< a + length bs] = bs"
  unfolding stored_at_def list_eq_iff_nth_eq by simp

lemma stored_at_write: "stored_at (write_bytes a bs m) a bs"
  by (simp add: stored_at_def write_bytes_at)

lemma byte_low_half: "n < 16 \<Longrightarrow> unat ((of_nat n :: u8) AND 0xF) = n \<and> (of_nat n :: u8) AND 0xF0 = 0"
proof -
  assume "n < 16"
  then have "n = 0 \<or> n = 1 \<or> n = 2 \<or> n = 3 \<or> n = 4 \<or> n = 5 \<or> n = 6 \<or> n = 7 \<or> n = 8 \<or> n = 9 \<or> n = 10
    \<or> n = 11 \<or> n = 12 \<or> n = 13 \<or> n = 14 \<or> n = 15" by arith
  then show ?thesis by (elim disjE) simp_all
qed

lemma option_decode_header:
  assumes "stored_at m p (option_header n)" "n < 269"
  shows "rfc_option_decode m p = (n, p + length (option_header n)) \<and> m p AND 0xF0 = 0"
proof (cases "n < 13")
  case True
  then show ?thesis using assms(1) byte_low_half [of n] by (simp add: option_header_def rfc_option_decode_def)
next
  case False
  then show ?thesis
    using assms byte_low_half [of 13]
    by (auto simp: option_header_def rfc_option_decode_def Let_def unat_of_nat_u8 simp del: of_nat_diff)
qed

lemma option_header_length: "0 < length (option_header n)"
  by (simp add: option_header_def)

text \<open>The loop moves every further segment to its place, behind a slash.\<close>

lemma join_segment:
  assumes "stored_at m (src + h) s" "dst \<le> src" "0 < h"
  defines "m2 \<equiv> (let m1 = m(dst := 0x2F) in if dst + 1 \<noteq> src + h then memmove (dst + 1) (src + h) (length s) m1 else m1)"
  shows "m2 dst = 0x2F" "stored_at m2 (dst + 1) s" "a < dst \<or> src + h + length s \<le> a \<Longrightarrow> m2 a = m a"
proof -
  let ?m1 = "m(dst := 0x2F)"
  have s: "map ?m1 [src + h ..< src + h + length s] = s"
  proof -
    have "stored_at ?m1 (src + h) s = stored_at m (src + h) s"
      by (rule stored_at_cong) (use assms(2,3) in auto)
    then show ?thesis using assms(1) by (simp only: stored_at_map)
  qed
  have m2: "m2 = (if dst + 1 \<noteq> src + h then write_bytes (dst + 1) s ?m1 else ?m1)"
    unfolding m2_def memmove_def Let_def s ..
  show "m2 dst = 0x2F" by (simp add: m2 write_bytes_other)
  show "stored_at m2 (dst + 1) s"
  proof (cases "dst + 1 = src + h")
    case True
    then have "m2 = ?m1" by (simp add: m2)
    moreover have "stored_at ?m1 (src + h) s = stored_at m (src + h) s"
      by (rule stored_at_cong) (use assms(2,3) in auto)
    ultimately show ?thesis using assms(1) True by metis
  qed (simp add: m2 stored_at_write)
  show "a < dst \<or> src + h + length s \<le> a \<Longrightarrow> m2 a = m a"
    using assms(2,3) by (auto simp: m2 write_bytes_other)
qed

lemma join_path_segments:
  assumes "\<forall>s \<in> set segs. length s < 269" "stored_at m src (concat (map uri_option segs))" "dst \<le> src"
    and "src + length (concat (map uri_option segs)) \<le> msg_end"
    and "src + length (concat (map uri_option segs)) < msg_end \<longrightarrow> m (src + length (concat (map uri_option segs))) AND 0xF0 \<noteq> 0"
  shows "\<exists>m'. join_path rfc_option_decode msg_end src dst m =
      Some (src + length (concat (map uri_option segs)), dst + length (concat (map ((#) 0x2F) segs)), m') \<and>
    stored_at m' dst (concat (map ((#) 0x2F) segs)) \<and>
    (\<forall>a. a < dst \<or> src + length (concat (map uri_option segs)) \<le> a \<longrightarrow> m' a = m a) \<and>
    dst + length (concat (map ((#) 0x2F) segs)) \<le> src + length (concat (map uri_option segs))"
  using assms
proof (induction segs arbitrary: src dst m)
  case Nil
  then show ?case by (subst join_path.simps) auto
next
  case (Cons s segs)
  let ?h = "length (option_header (length s))"
  let ?rest = "concat (map uri_option segs)"
  have at: "stored_at m src (option_header (length s))" "stored_at m (src + ?h) s" "stored_at m (src + ?h + length s) ?rest"
    using Cons.prems(2) by (simp_all add: uri_option_def [of s] add.assoc)
  have len: "length (concat (map uri_option (s # segs))) = ?h + length s + length ?rest" by (simp add: uri_option_def [of s])
  have dec: "rfc_option_decode m src = (length s, src + ?h)" "m src AND 0xF0 = 0"
    using option_decode_header [OF at(1)] Cons.prems(1) by simp_all
  define m2 where "m2 = (let m1 = m(dst := 0x2F) in if dst + 1 \<noteq> src + ?h then memmove (dst + 1) (src + ?h) (length s) m1 else m1)"
  note seg = join_segment [OF at(2) Cons.prems(3) option_header_length, folded m2_def]
  have keep: "\<forall>a. src + ?h + length s \<le> a \<longrightarrow> m2 a = m a" using seg(3) by blast
  let ?src = "src + ?h + length s"
  let ?dst = "dst + 1 + length s"
  have "\<exists>m'. join_path rfc_option_decode msg_end ?src ?dst m2 = Some (?src + length ?rest, ?dst + length (concat (map ((#) 0x2F) segs)), m') \<and>
      stored_at m' ?dst (concat (map ((#) 0x2F) segs)) \<and>
      (\<forall>a. a < ?dst \<or> ?src + length ?rest \<le> a \<longrightarrow> m' a = m2 a) \<and>
      ?dst + length (concat (map ((#) 0x2F) segs)) \<le> ?src + length ?rest"
  proof (rule Cons.IH)
    show "stored_at m2 ?src ?rest" using at(3) keep stored_at_cong [of ?rest m2 ?src m] by simp
    show "?dst \<le> ?src" using Cons.prems(3) option_header_length [of "length s"] by linarith
    show "?src + length ?rest \<le> msg_end" using Cons.prems(4) unfolding len by simp
    show "?src + length ?rest < msg_end \<longrightarrow> m2 (?src + length ?rest) AND 0xF0 \<noteq> 0"
      using Cons.prems(5) keep unfolding len by (simp add: add.assoc)
  qed (use Cons.prems(1) in simp)
  then obtain m' where m': "join_path rfc_option_decode msg_end ?src ?dst m2 = Some (?src + length ?rest, ?dst + length (concat (map ((#) 0x2F) segs)), m')"
    "stored_at m' ?dst (concat (map ((#) 0x2F) segs))" "\<forall>a. a < ?dst \<or> ?src + length ?rest \<le> a \<longrightarrow> m' a = m2 a"
    "?dst + length (concat (map ((#) 0x2F) segs)) \<le> ?src + length ?rest" by blast
  have "src < msg_end" using Cons.prems(4) option_header_length [of "length s"] unfolding len by linarith
  then have "join_path rfc_option_decode msg_end src dst m = join_path rfc_option_decode msg_end ?src ?dst m2"
    by (subst join_path.simps) (simp add: dec m2_def Let_def)
  moreover have "stored_at m' dst (0x2F # s)"
  proof -
    have "stored_at m2 dst (0x2F # s)" using seg(1,2) by simp
    then show ?thesis using m'(3) stored_at_cong [of "0x2F # s" m' dst m2] by simp
  qed
  ultimately show ?case using m' seg(3) unfolding len by (auto simp: add.assoc)
qed

section \<open>Which handlers are called\<close>

definition filter_text :: "('h, 'd) event_handler \<Rightarrow> u8 list" where
  "filter_text e = takeWhile (\<lambda>c. c \<noteq> 0) (eh_filter e)"

text \<open>The handlers before the first free slot.\<close>

primrec live :: "('h, 'd) event_handler list \<Rightarrow> ('h, 'd) event_handler list" where
  "live [] = []"
| "live (e # es) = (if eh_handler e = None then [] else e # live es)"

lemma prefix_take_iff: "prefix xs ys \<longleftrightarrow> length xs \<le> length ys \<and> xs = take (length xs) ys"
proof
  assume "prefix xs ys"
  then obtain zs where "ys = xs @ zs" by (auto simp: prefix_def)
  then show "length xs \<le> length ys \<and> xs = take (length xs) ys" by simp
next
  assume "length xs \<le> length ys \<and> xs = take (length xs) ys"
  then show "prefix xs ys" using take_is_prefix [of "length xs" ys] by simp
qed

lemma dispatch_calls:
  assumes "\<forall>e \<in> set es. length (eh_filter e) = MAX_FILTER" "stored_at m a name"
  shows "dispatch m a (length name) data es =
    map (\<lambda>e. (e, a, data)) (filter (\<lambda>e. prefix (filter_text e) name) (live es))"
  using assms(1)
proof (induction es)
  case (Cons e es)
  define n where "n = strnlen (eh_filter e) MAX_FILTER"
  have f: "take n (eh_filter e) = filter_text e" "length (filter_text e) = n"
    using Cons.prems by (simp_all add: n_def strnlen_def filter_text_def takeWhile_eq_take [symmetric])
  have at: "n \<le> length name \<Longrightarrow> map m [a ..< a + n] = take n name"
    using assms(2) by (auto simp: stored_at_def list_eq_iff_nth_eq)
  have p: "prefix (filter_text e) name \<longleftrightarrow> n \<le> length name \<and> filter_text e = take n name"
    using prefix_take_iff [of "filter_text e" name] unfolding f(2) by blast
  show ?case using Cons.IH Cons.prems at unfolding dispatch.simps Let_def n_def [symmetric] by (auto simp: f p take_is_prefix)
qed simp

text \<open>The message an event arrives in, behind the header, the token and the first byte of the path.\<close>

definition event_layout :: "mem \<Rightarrow> message \<Rightarrow> u8 list \<Rightarrow> u8 list list \<Rightarrow> u8 list \<Rightarrow> bool" where
  "event_layout m message first segs tail \<longleftrightarrow>
     (let p = mg_buf message + 6 + unat (m (mg_buf message) AND 0xF); bs = uri_option first @ concat (map uri_option segs) @ tail
      in stored_at m p bs \<and> mg_buf message + mg_len message = p + length bs) \<and>
     first \<noteq> [] \<and> length first < 269 \<and> (\<forall>s \<in> set segs. length s < 269)"

definition event_tail :: "u8 list option \<Rightarrow> u8 list option \<Rightarrow> u8 list" where
  "event_tail max_age payload =
     (case max_age of Some v \<Rightarrow> (0x30 OR of_nat (length v)) # v | None \<Rightarrow> []) @
     (case payload of Some d \<Rightarrow> 0xFF # d | None \<Rightarrow> [])"

lemma max_age_byte: "n < 13 \<Longrightarrow> unat ((0x30 OR of_nat n :: u8) AND 0xF) = n \<and> (0x30 OR of_nat n :: u8) AND 0xF0 = 0x30"
proof -
  assume "n < 13"
  then have "n = 0 \<or> n = 1 \<or> n = 2 \<or> n = 3 \<or> n = 4 \<or> n = 5 \<or> n = 6 \<or> n = 7 \<or> n = 8 \<or> n = 9 \<or> n = 10
    \<or> n = 11 \<or> n = 12" by arith
  then show ?thesis by (elim disjE) simp_all
qed

lemma tail_not_path:
  assumes "event_tail max_age payload \<noteq> []" "\<forall>v. max_age = Some v \<longrightarrow> length v < 13"
  shows "hd (event_tail max_age payload) AND 0xF0 \<noteq> 0"
  using assms max_age_byte by (auto simp: event_tail_def split: option.splits)

lemma finish_event_calls:
  fixes max_age payload :: "u8 list option"
  defines "tail \<equiv> event_tail max_age payload"
  assumes name: "stored_at m a name" "a + length name \<le> src" and tail: "stored_at m src tail" "msg_end = src + length tail"
    and age: "\<forall>v. max_age = Some v \<longrightarrow> length v < 13"
    and size: "\<forall>e \<in> set es. length (eh_filter e) = MAX_FILTER"
  shows "\<exists>m' data. finish_event rfc_option_decode es msg_end a (src, a + length name, m) =
      (map (\<lambda>e. (e, a, data)) (filter (\<lambda>e. prefix (filter_text e) name) (live es)), m') \<and>
    stored_at m' a (name @ [0]) \<and>
    (case payload of None \<Rightarrow> data = None | Some d \<Rightarrow> \<exists>p. data = Some p \<and> stored_at m' p (d @ [0]))"
proof -
  let ?payload = "case payload of Some d \<Rightarrow> 0xFF # d | None \<Rightarrow> []"
  define src2 where "src2 = (if src < msg_end \<and> m src AND 0xF0 = 0x30
      then let (next_len, p) = rfc_option_decode m src in p + next_len else src)"
  have src2: "stored_at m src2 ?payload" "src \<le> src2" "msg_end = src2 + length ?payload"
    using tail age max_age_byte
    by (auto simp: tail_def event_tail_def src2_def rfc_option_decode_def Let_def split: option.splits)
  define data where "data = (case payload of Some d \<Rightarrow> Some (src2 + 1) | None \<Rightarrow> None)"
  define m1 where "m1 = (if payload \<noteq> None then m(msg_end := 0) else m)"
  define m2 where "m2 = m1(a + length name := 0)"
  have payload: "(if src2 < msg_end \<and> m src2 = 0xFF then (Some (src2 + 1), m(msg_end := 0)) else (None, m)) = (data, m1)"
    using src2(1,3) by (auto simp: data_def m1_def split: option.splits)
  have below: "a + length name \<le> src2" using name(2) src2(2) by simp
  have "stored_at m2 a name = stored_at m a name"
    by (rule stored_at_cong) (use below src2(3) in \<open>auto simp: m2_def m1_def\<close>)
  then have name2: "stored_at m2 a (name @ [0])" using name(1) by (simp add: m2_def)
  have "finish_event rfc_option_decode es msg_end a (src, a + length name, m) = (dispatch m2 a (length name) data es, m2)"
    unfolding finish_event_def prod.case Let_def src2_def [symmetric, unfolded Let_def] payload m2_def by simp
  moreover have "dispatch m2 a (length name) data es =
      map (\<lambda>e. (e, a, data)) (filter (\<lambda>e. prefix (filter_text e) name) (live es))"
    by (rule dispatch_calls [OF size]) (use name2 in simp)
  moreover have "stored_at m2 (src2 + 1) (d @ [0])" if d: "payload = Some d" for d
  proof -
    have "stored_at m2 (src2 + 1) d = stored_at m (src2 + 1) d"
      by (rule stored_at_cong) (use below src2(3) d in \<open>auto simp: m2_def m1_def\<close>)
    then show ?thesis using src2(1,3) below d by (simp add: m2_def m1_def)
  qed
  ultimately show ?thesis using name2 by (auto simp: data_def split: option.splits)
qed

lemma handle_event_calls:
  assumes "ack_event ctype channel message w = (NO_ERROR, m, s)"
    and layout: "event_layout m message first segs (event_tail max_age payload)"
    and age: "\<forall>v. max_age = Some v \<longrightarrow> length v < 13"
    and size: "\<forall>e \<in> set es. length (eh_filter e) = MAX_FILTER"
  defines "name \<equiv> first @ concat (map ((#) 0x2F) segs)"
  shows "\<exists>m' a data. handle_event ctype rfc_option_decode channel es message w =
      Some (NO_ERROR, map (\<lambda>e. (e, a, data)) (filter (\<lambda>e. prefix (filter_text e) name) (live es)), m', s) \<and>
    stored_at m' a (name @ [0]) \<and>
    (case payload of None \<Rightarrow> data = None | Some d \<Rightarrow> \<exists>p. data = Some p \<and> stored_at m' p (d @ [0]))"
proof -
  define q where "q = mg_buf message + 6 + unat (m (mg_buf message) AND 0xF)"
  define tail where "tail = event_tail max_age payload"
  define h where "h = length (option_header (length first))"
  define segbytes where "segbytes = concat (map uri_option segs)"
  define src where "src = q + h + length first"
  define src' where "src' = src + length segbytes"
  define msg_end where "msg_end = mg_buf message + mg_len message"
  have at: "stored_at m q (option_header (length first))" "stored_at m (q + h) first" "stored_at m src segbytes" "stored_at m src' tail"
    and ends: "msg_end = src' + length tail" and first: "first \<noteq> []" "length first < 269" and segs: "\<forall>s \<in> set segs. length s < 269"
    using layout by (simp_all add: event_layout_def uri_option_def [of first] q_def h_def segbytes_def src_def src'_def
        tail_def msg_end_def add.assoc Let_def)
  have dec: "rfc_option_decode m q = (length first, q + h)"
    using option_decode_header [OF at(1) first(2)] by (simp add: h_def)
  have stop: "src' < msg_end \<longrightarrow> m src' AND 0xF0 \<noteq> 0"
    using tail_not_path [OF _ age, of payload] at(4) ends by (cases tail) (auto simp: tail_def [symmetric])
  let ?rest = "concat (map ((#) 0x2F) segs)"
  obtain m1 where join: "join_path rfc_option_decode msg_end src src m = Some (src', src + length ?rest, m1)"
    and m1: "stored_at m1 src ?rest" "\<forall>a. a < src \<or> src' \<le> a \<longrightarrow> m1 a = m a" "src + length ?rest \<le> src'"
    using join_path_segments [OF segs at(3) [unfolded segbytes_def] order_refl, of msg_end] ends stop
    unfolding src'_def segbytes_def by auto
  have tail1: "stored_at m1 src' tail" using at(4) m1(2) stored_at_cong [of tail m1 src' m] by simp
  have name1: "stored_at m1 (q + h) name"
    using at(2) m1(1,2) stored_at_cong [of first m1 "q + h" m] by (simp add: name_def src_def add.assoc)
  have len: "q + h + length name = src + length ?rest" by (simp add: name_def src_def)
  have "handle_event ctype rfc_option_decode channel es message w =
     (case finish_event rfc_option_decode es msg_end (q + h) (src', q + h + length name, m1) of
        (calls, m1) \<Rightarrow> Some (NO_ERROR, calls, m1, s))"
    using first(1)
    by (simp add: handle_event_def assms(1) q_def [symmetric] dec msg_end_def [symmetric] src_def [symmetric] join len)
  moreover obtain m' data where "finish_event rfc_option_decode es msg_end (q + h) (src', q + h + length name, m1) =
      (map (\<lambda>e. (e, q + h, data)) (filter (\<lambda>e. prefix (filter_text e) name) (live es)), m')"
    "stored_at m' (q + h) (name @ [0])"
    "case payload of None \<Rightarrow> data = None | Some d \<Rightarrow> \<exists>p. data = Some p \<and> stored_at m' p (d @ [0])"
    using finish_event_calls [of m1 "q + h" name src' max_age payload msg_end es] name1 tail1 ends m1(3) len age size
    by (auto simp: tail_def)
  ultimately show ?thesis by auto
qed

section \<open>Adding and removing handlers\<close>

definition pad :: "('h, 'd) event_handler list \<Rightarrow> ('h, 'd) event_handler list" where
  "pad used = used @ replicate (NUM_HANDLERS - length used) zero_handler"

text \<open>What the table is meant to do, on the list of the handlers in use.\<close>

definition spec_add ::
    "u8 list \<Rightarrow> 'h \<Rightarrow> 'd option \<Rightarrow> subscription_scope \<Rightarrow> u8 list option \<Rightarrow> ('h, 'd) event_handler list \<Rightarrow> ('h, 'd) event_handler list" where
  "spec_add name h data scope dev used =
     (if event_handler_exists name (Some h) data scope dev used \<or> length used = NUM_HANDLERS then used
      else used @ [fill_handler name (Some h) data scope dev zero_handler])"

definition spec_remove :: "(('h, 'd) event_handler \<Rightarrow> u8 list) \<Rightarrow> u8 list option \<Rightarrow> ('h, 'd) event_handler list \<Rightarrow> ('h, 'd) event_handler list" where
  "spec_remove beyond name used =
     (case name of None \<Rightarrow> [] | Some n \<Rightarrow> filter (\<lambda>e. filter_string beyond e \<noteq> n) used)"

definition in_use :: "('h, 'd) event_handler list \<Rightarrow> bool" where
  "in_use used \<longleftrightarrow> list_all (\<lambda>e. eh_handler e \<noteq> None \<and> length (eh_filter e) = MAX_FILTER) used \<and> length used \<le> NUM_HANDLERS"

lemma zero_handler_free [simp]: "eh_handler zero_handler = None" "length (eh_filter zero_handler) = MAX_FILTER"
  by (simp_all add: zero_handler_def)

lemma exists_append:
  "event_handler_exists name (Some h) data scope dev (used @ replicate k zero_handler) =
   event_handler_exists name (Some h) data scope dev used"
proof (induction used)
  case Nil
  show ?case by (induction k) (simp_all add: Let_def)
qed (simp add: Let_def)

lemma add_loop_append:
  "list_all (\<lambda>e. eh_handler e \<noteq> None) used \<Longrightarrow> add_loop f (used @ replicate k zero_handler) =
     (if k = 0 then (INSUFFICIENT_STORAGE, used) else (NO_ERROR, used @ f zero_handler # replicate (k - 1) zero_handler))"
proof (induction used)
  case Nil
  then show ?case by (cases k) simp_all
qed (auto split: if_splits)

lemma fill_handler_used:
  "eh_handler (fill_handler name h data scope dev e) = h" "length (eh_filter (fill_handler name h data scope dev e)) = MAX_FILTER"
proof -
  have "strnlen name MAX_FILTER \<le> MAX_FILTER \<and> strnlen name MAX_FILTER \<le> length name"
    using length_takeWhile_le [of "\<lambda>c. c \<noteq> 0" "take MAX_FILTER name"] by (simp add: strnlen_def)
  then show "eh_handler (fill_handler name h data scope dev e) = h" "length (eh_filter (fill_handler name h data scope dev e)) = MAX_FILTER"
    by (simp_all add: fill_handler_def Let_def)
qed

lemma sub_add_refines:
  assumes "in_use used"
  shows "snd (add_event_handler name (Some h) data scope dev (pad used)) = pad (spec_add name h data scope dev used) \<and>
    in_use (spec_add name h data scope dev used) \<and>
    (fst (add_event_handler name (Some h) data scope dev (pad used)) = INSUFFICIENT_STORAGE \<longleftrightarrow>
       \<not> event_handler_exists name (Some h) data scope dev used \<and> length used = NUM_HANDLERS)"
proof -
  have "list_all (\<lambda>e. eh_handler e \<noteq> None) used" "length used \<le> NUM_HANDLERS"
    using assms by (auto simp: in_use_def list_all_iff)
  then show ?thesis
    using assms unfolding add_event_handler_def pad_def exists_append
    using add_loop_append [of used "fill_handler name (Some h) data scope dev" 0]
    by (auto simp: add_loop_append spec_add_def in_use_def fill_handler_used Suc_diff_Suc)
qed

lemma remove_loop_append:
  "remove_loop beyond name (length kept + k) (length kept) (kept @ replicate k zero_handler @ rest) =
     kept @ filter (\<lambda>e. filter_string beyond e \<noteq> name) rest @
     replicate (k + (length rest - length (filter (\<lambda>e. filter_string beyond e \<noteq> name) rest))) zero_handler"
proof (induction rest arbitrary: kept k)
  case Nil
  show ?case by (subst remove_loop.simps) simp
next
  case (Cons e rest)
  let ?es = "kept @ replicate k zero_handler @ e # rest"
  have e: "?es ! (length kept + k) = e" "length kept + k < length ?es" by (simp_all add: nth_append)
  have le: "length (filter (\<lambda>e. filter_string beyond e \<noteq> name) rest) \<le> length rest" by simp
  show ?case
  proof (cases "name = filter_string beyond e")
    case True
    have "?es[length kept + k := zero_handler] = kept @ replicate (Suc k) zero_handler @ rest"
      by (simp add: list_update_append replicate_append_same [symmetric])
    then show ?thesis
      using Cons.IH [of kept "Suc k"] e True le
      by (subst remove_loop.simps) (simp add: Suc_diff_le del: replicate_Suc)
  next
    case False
    have "(if length kept \<noteq> length kept + k then ?es[length kept := e, length kept + k := zero_handler] else ?es) =
        (kept @ [e]) @ replicate k zero_handler @ rest"
      by (cases k) (simp_all add: list_update_append replicate_app_Cons_same)
    then have "remove_loop beyond name (length kept + k) (length kept) ?es =
        remove_loop beyond name (length (kept @ [e]) + k) (length (kept @ [e])) ((kept @ [e]) @ replicate k zero_handler @ rest)"
      using e False by (subst remove_loop.simps) (simp split: if_splits)
    then show ?thesis using Cons.IH [of "kept @ [e]" k] False by simp
  qed
qed

lemma filter_padding:
  "length used \<le> n \<Longrightarrow>
   filter P (used @ replicate (n - length used) z) @
     replicate (n - length (filter P (used @ replicate (n - length used) z))) z =
   filter P used @ replicate (n - length (filter P used)) z"
proof -
  assume "length used \<le> n"
  moreover have "length (filter P used) \<le> length used" by simp
  moreover have "filter P (replicate k z) = replicate (if P z then k else 0) z" for k by (induction k) auto
  ultimately show ?thesis by (simp add: replicate_add [symmetric])
qed

lemma remove_refines:
  assumes "in_use used"
  shows "remove_event_handlers beyond name (pad used) = pad (spec_remove beyond name used) \<and> in_use (spec_remove beyond name used)"
proof (cases name)
  case None
  then show ?thesis using assms by (simp add: remove_event_handlers_def pad_def spec_remove_def in_use_def)
next
  case (Some n)
  have len: "length used \<le> NUM_HANDLERS" using assms by (simp add: in_use_def)
  have "remove_loop beyond n 0 0 (pad used) = filter (\<lambda>e. filter_string beyond e \<noteq> n) (pad used) @
      replicate (NUM_HANDLERS - length (filter (\<lambda>e. filter_string beyond e \<noteq> n) (pad used))) zero_handler"
    using remove_loop_append [of beyond n "[]" 0 "pad used"] len by (simp add: pad_def)
  also have "\<dots> = pad (spec_remove beyond name used)"
    unfolding pad_def spec_remove_def Some option.case by (rule filter_padding [OF len])
  finally have "remove_event_handlers beyond name (pad used) = pad (spec_remove beyond name used)"
    by (simp add: remove_event_handlers_def Some)
  moreover have "length (filter (\<lambda>e. filter_string beyond e \<noteq> n) used) \<le> NUM_HANDLERS"
    using len length_filter_le order_trans by blast
  ultimately show ?thesis using assms Some by (auto simp: in_use_def spec_remove_def list_all_iff)
qed

datatype ('h, 'd) table_op =
  AddHandler "u8 list" 'h "'d option" subscription_scope "u8 list option"
| RemoveHandlers "u8 list option"

fun run_op :: "(('h, 'd) event_handler \<Rightarrow> u8 list) \<Rightarrow> ('h, 'd) table_op \<Rightarrow> ('h, 'd) event_handler list \<Rightarrow> ('h, 'd) event_handler list" where
  "run_op beyond (AddHandler name h data scope dev) es = snd (add_event_handler name (Some h) data scope dev es)"
| "run_op beyond (RemoveHandlers name) es = remove_event_handlers beyond name es"

fun spec_op :: "(('h, 'd) event_handler \<Rightarrow> u8 list) \<Rightarrow> ('h, 'd) table_op \<Rightarrow> ('h, 'd) event_handler list \<Rightarrow> ('h, 'd) event_handler list" where
  "spec_op beyond (AddHandler name h data scope dev) used = spec_add name h data scope dev used"
| "spec_op beyond (RemoveHandlers name) used = spec_remove beyond name used"

lemma table_run: "in_use used \<Longrightarrow> fold (run_op beyond) xs (pad used) = pad (fold (spec_op beyond) xs used) \<and> in_use (fold (spec_op beyond) xs used)"
proof (induction xs arbitrary: used)
  case (Cons x xs)
  have "run_op beyond x (pad used) = pad (spec_op beyond x used) \<and> in_use (spec_op beyond x used)"
    using sub_add_refines [OF Cons.prems] remove_refines [OF Cons.prems] by (cases x) auto
  then show ?case using Cons.IH [of "spec_op beyond x used"] by simp
qed simp

lemma live_pad: "in_use used \<Longrightarrow> live (pad used) = used"
proof -
  have "live (replicate k zero_handler) = []" for k by (cases k) simp_all
  then have "list_all (\<lambda>e. eh_handler e \<noteq> None) used \<Longrightarrow> live (used @ replicate k zero_handler) = used" for k
    by (induction used) auto
  then show "in_use used \<Longrightarrow> live (pad used) = used" by (auto simp: pad_def in_use_def list_all_iff)
qed

lemma fill_handler_text:
  assumes "length name \<le> MAX_FILTER" "0 \<notin> set name"
  shows "filter_text (fill_handler name h data scope dev e) = name" "strnlen name MAX_FILTER = length name"
proof -
  have "takeWhile (\<lambda>c. c \<noteq> 0) name = name" using assms(2) by (induction name) auto
  then show n: "strnlen name MAX_FILTER = length name" using assms(1) unfolding strnlen_def by (simp only: take_all)
  have "takeWhile (\<lambda>c. c \<noteq> 0) (name @ replicate k 0) = name" for k
    using assms(2) by (induction name; cases k) auto
  then show "filter_text (fill_handler name h data scope dev e) = name"
    by (simp add: filter_text_def fill_handler_def n Let_def)
qed

section \<open>Properties\<close>

text \<open>
  C18: After any sequence of insertions and removals the table consists of the handlers in use, in the order they were
  added, followed by free slots that are all zero, so that no handler is hidden from the loops that stop at the first
  free slot.  A removal takes away the handlers with that filter and no other; an insertion appends one, unless the
  table has an equal one or is full.
\<close>

lemma subscriptions_compact:
  "fold (run_op beyond) xs subscriptions_new = pad (fold (spec_op beyond) xs []) \<and>
   length (fold (run_op beyond) xs subscriptions_new) = NUM_HANDLERS \<and>
   live (fold (run_op beyond) xs subscriptions_new) = fold (spec_op beyond) xs []"
proof -
  have "in_use []" by (simp add: in_use_def)
  from table_run [OF this, of beyond xs] have r: "fold (run_op beyond) xs subscriptions_new = pad (fold (spec_op beyond) xs [])"
    "in_use (fold (spec_op beyond) xs [])"
    by (simp_all add: subscriptions_new_def pad_def)
  then show ?thesis using live_pad [OF r(2)] by (simp add: pad_def in_use_def)
qed

text \<open>
  C19: \<open>handle_event\<close> joins the segments of the event name with slashes, in the message buffer, terminates the name and
  the payload, and calls exactly the handlers whose filter is a prefix of the name, in the order of the table, with
  that name and payload.  Relied on: \<open>option_decode\<close> reads the encoding of RFC 7252.
\<close>

lemma event_reaches_handlers:
  assumes "ack_event ctype channel message w = (NO_ERROR, m, s)" "option_decode = rfc_option_decode"
    and "event_layout m message first segs (event_tail max_age payload)" "\<forall>v. max_age = Some v \<longrightarrow> length v < 13"
    and "\<forall>e \<in> set es. length (eh_filter e) = MAX_FILTER"
  shows "\<exists>m' a data. handle_event ctype option_decode channel es message w =
      Some (NO_ERROR, map (\<lambda>e. (e, a, data))
        (filter (\<lambda>e. prefix (filter_text e) (first @ concat (map ((#) 0x2F) segs))) (live es)), m', s) \<and>
    stored_at m' a ((first @ concat (map ((#) 0x2F) segs)) @ [0]) \<and>
    (case payload of None \<Rightarrow> data = None | Some d \<Rightarrow> \<exists>p. data = Some p \<and> stored_at m' p (d @ [0]))"
  unfolding assms(2) by (rule handle_event_calls [OF assms(1,3-5)])

definition demo_mem :: mem where
  "demo_mem i = (if i < 15 then [0x50, 2, 0, 1, 0xB1, 0x65, 3, 0x6C, 0x65, 0x64, 2, 0x6F, 0x6E, 0xFF, 0x31] ! i else 0)"

definition demo_channel :: "unit channel" where
  "demo_channel = \<lparr>ch_create = buffer_create 800 0 0, ch_response = buffer_response 0 0, ch_send = (\<lambda>msg w. (NO_ERROR, msg, w)),
     ch_unreliable = False\<rparr>"

lemma event_reaches_handlers_witness:
  "\<exists>m' a data. handle_event (\<lambda>_. NON) rfc_option_decode demo_channel (pad [fill_handler [0x6C, 0x65] (Some ()) (None :: unit option) FIREHOSE None zero_handler])
       \<lparr>mg_buf = 0, mg_cap = 800, mg_len = 15, mg_id = 1, mg_confirm = False\<rparr> (demo_mem, ()) =
     Some (NO_ERROR, [(fill_handler [0x6C, 0x65] (Some ()) None FIREHOSE None zero_handler, a, data)], m', ()) \<and>
     stored_at m' a [0x6C, 0x65, 0x64, 0x2F, 0x6F, 0x6E, 0]"
proof -
  let ?e = "fill_handler [0x6C, 0x65] (Some ()) (None :: unit option) FIREHOSE None zero_handler"
  let ?msg = "\<lparr>mg_buf = 0, mg_cap = 800, mg_len = 15, mg_id = 1, mg_confirm = False\<rparr>"
  have ack: "ack_event (\<lambda>_. NON) demo_channel ?msg (demo_mem, ()) = (NO_ERROR, demo_mem, ())" by (simp add: ack_event_def)
  have layout: "event_layout demo_mem ?msg [0x6C, 0x65, 0x64] [[0x6F, 0x6E]] (event_tail None (Some [0x31]))"
    by (simp add: event_layout_def uri_option_def option_header_def event_tail_def demo_mem_def Let_def)
  have used: "in_use [?e]" by (simp add: in_use_def fill_handler_used NUM_HANDLERS_def)
  have filter: "filter_text ?e = [0x6C, 0x65]" by (rule fill_handler_text) (simp_all add: MAX_FILTER_def)
  have "\<forall>e \<in> set (pad [?e]). length (eh_filter e) = MAX_FILTER" by (auto simp: pad_def fill_handler_used)
  from event_reaches_handlers [OF ack refl layout _ this] show ?thesis
    by (auto simp: live_pad [OF used] filter)
qed

text \<open>
  A subscription whose filter is a prefix of a filter that is subscribed with the same handler is accepted and
  dropped: \<open>add_event_handler\<close> returns \<open>NO_ERROR\<close> and changes nothing, and an event that matches the new filter
  only reaches no handler.
\<close>

lemma shorter_filter_dropped:
  fixes h :: 'h and data :: "'d option" and scope :: subscription_scope
  assumes "length longer \<le> MAX_FILTER" "0 \<notin> set longer" "prefix shorter longer" "dev = None"
    and "prefix shorter event" "\<not> prefix longer event"
  defines "es \<equiv> snd (add_event_handler longer (Some h) data scope dev subscriptions_new)"
  shows "add_event_handler shorter (Some h) data scope dev es = (NO_ERROR, es) \<and>
     filter (\<lambda>e. prefix (filter_text e) event) (live es) = []"
proof -
  let ?e = "fill_handler longer (Some h) data scope dev zero_handler"
  have empty: "in_use []" by (simp add: in_use_def)
  have "subscriptions_new = (pad [] :: ('h, 'd) event_handler list)" by (simp add: subscriptions_new_def pad_def)
  then have es: "es = pad [?e]" using sub_add_refines [OF empty, of longer h data scope dev] by (simp add: es_def spec_add_def NUM_HANDLERS_def)
  have used: "in_use [?e]" by (simp add: in_use_def fill_handler_used NUM_HANDLERS_def)
  obtain rest where rest: "longer = shorter @ rest" using assms(3) by (auto simp: prefix_def)
  have len: "strnlen shorter MAX_FILTER = length shorter" "strnlen longer MAX_FILTER = length longer"
    using fill_handler_text(2) [of shorter] fill_handler_text(2) [of longer] assms(1,2) rest by simp_all
  have "event_handler_exists shorter (Some h) data scope dev [?e]"
    by (simp add: len assms(4) starts_with_def fill_handler_def rest [symmetric] Let_def) (simp add: rest zero_handler_def DEVICE_ID_SIZE_def)
  then have "event_handler_exists shorter (Some h) data scope dev es"
    unfolding es pad_def exists_append .
  then show ?thesis
    using assms(6) by (simp add: add_event_handler_def es live_pad [OF used] fill_handler_text(1) [OF assms(1,2)])
qed

lemma shorter_filter_dropped_witness:
  "add_event_handler [0x74] (Some ()) (None :: unit option) FIREHOSE None
      (snd (add_event_handler [0x74, 0x2F, 0x31] (Some ()) None FIREHOSE None subscriptions_new)) =
   (NO_ERROR, snd (add_event_handler [0x74, 0x2F, 0x31] (Some ()) None FIREHOSE None subscriptions_new))"
  using shorter_filter_dropped [of "[0x74, 0x2F, 0x31]" "[0x74]" None "[0x74, 0x2F, 0x32]" "()" "None :: unit option" FIREHOSE]
  by (simp add: MAX_FILTER_def prefix_def)

end
