(* ===== verification/Publishing.thy ===== *)
theory Publishing
  imports Subscriptions Completion_Handlers
begin

text \<open>
  Publishing of events (\<open>communication/src/publisher.h\<close>, \<open>events.h\<close> and \<open>Protocol::send_event\<close> of \<open>protocol.h\<close>): the
  two rate limits, and what becomes of the completion handler of an event.  \<open>Messages::event\<close>, \<open>toSystemError\<close> and
  \<open>Publisher::add_ack_handler\<close> are only declared in the headers and are parameters.
\<close>

section \<open>Event types and flags\<close>

datatype event_type = PUBLIC | PRIVATE

fun event_type_code :: "event_type \<Rightarrow> u32" where
  "event_type_code PUBLIC = 0x65"
| "event_type_code PRIVATE = 0x45"

definition NO_ACK :: u32 where "NO_ACK = 0x2"
definition WITH_ACK :: u32 where "WITH_ACK = 0x8"
definition ALL_FLAGS :: u32 where "ALL_FLAGS = NO_ACK OR WITH_ACK"

definition extract_event_type :: "u32 \<Rightarrow> u32 \<times> u32" where
  "extract_event_type v = (v AND NOT ALL_FLAGS, v AND ALL_FLAGS)"

section \<open>Rate limits\<close>

definition is_system :: "u8 list \<Rightarrow> bool" where
  "is_system event_name \<longleftrightarrow> take 5 event_name = [0x73, 0x70, 0x61, 0x72, 0x6B]"

record rate_limiter =
  rl_minute :: u16
  rl_count :: u8
  rl_ticks :: "u32 list"
  rl_idx :: nat

definition rl_new :: rate_limiter where
  "rl_new = \<lparr>rl_minute = 0, rl_count = 0, rl_ticks = replicate 5 (- 1000), rl_idx = 0\<rparr>"

definition is_rate_limited :: "bool \<Rightarrow> u32 \<Rightarrow> rate_limiter \<Rightarrow> bool \<times> rate_limiter" where
  "is_rate_limited is_system_event millis rl =
     (if is_system_event then
        let currentMinute = ucast (drop_bit 16 millis) :: u16
        in if currentMinute = rl_minute rl then
             (if rl_count rl = 255 then (True, rl) else (False, rl\<lparr>rl_count := rl_count rl + 1\<rparr>))
           else (False, rl\<lparr>rl_minute := currentMinute, rl_count := 0 + 1\<rparr>)
      else
        let ticks = (rl_ticks rl)[rl_idx rl := millis];
            now = millis;
            idx = (rl_idx rl + 1) mod 5
        in (now - ticks ! idx < 1000, rl\<lparr>rl_ticks := ticks, rl_idx := idx\<rparr>))"

section \<open>Sending an event\<close>

text \<open>
  The state: the rate limiter and its counter of rejected events, the memory and the channel, the handlers that wait for
  an acknowledgement and the log of the invoked callbacks.
\<close>

record ('s, 'c, 'r) publish_state =
  pb_rate :: rate_limiter
  pb_limited :: nat
  pb_world :: "mem \<times> 's"
  pb_acks :: "(u16, 'c) handlers \<times> ('c, 'r) call list"

type_synonym event_fn = "nat \<Rightarrow> u16 \<Rightarrow> u8 list \<Rightarrow> u8 list option \<Rightarrow> int \<Rightarrow> event_type \<Rightarrow> bool \<Rightarrow> mem \<Rightarrow> nat \<times> mem"

type_synonym ('c, 'r) add_ack_fn =
  "u16 \<Rightarrow> 'c option \<Rightarrow> (u16, 'c) handlers \<times> ('c, 'r) call list \<Rightarrow> (u16, 'c) handlers \<times> ('c, 'r) call list"

text \<open>The parameter \<open>handler\<close> is destroyed when the function returns.\<close>

definition publisher_send_event ::
    "'s channel \<Rightarrow> event_fn \<Rightarrow> ('c, 'r) add_ack_fn \<Rightarrow> u8 list \<Rightarrow> u8 list option \<Rightarrow> int \<Rightarrow> event_type \<Rightarrow> u32 \<Rightarrow> u32 \<Rightarrow> 'c option
       \<Rightarrow> ('s, 'c, 'r) publish_state \<Rightarrow> protocol_error \<times> ('s, 'c, 'r) publish_state" where
  "publisher_send_event channel event add_ack event_name data ttl event_type flags time handler st =
     (let (rate_limited, rl) = is_rate_limited (is_system event_name) time (pb_rate st);
          st1 = st\<lparr>pb_rate := rl\<rparr>;
          (acks, log) = pb_acks st
      in if rate_limited then
           (BANDWIDTH_EXCEEDED, st1\<lparr>pb_limited := pb_limited st + 1, pb_acks := (acks, ch_destroy (handler, log))\<rparr>)
         else
           let message = snd (ch_create channel (mg_new 0 0 0) 0);
               confirmable = (if flags AND NO_ACK \<noteq> 0 then False
                              else if flags AND WITH_ACK \<noteq> 0 then True
                              else ch_unreliable channel);
               (msglen, m) = event (mg_buf message) 0 event_name data ttl event_type confirmable (fst (pb_world st));
               (result, message1, w) = ch_send channel (set_length msglen message) (m, snd (pb_world st));
               st2 = st1\<lparr>pb_world := w\<rparr>
           in if result = NO_ERROR then
                if flags AND WITH_ACK \<noteq> 0 \<and> has_id message1
                then (result, st2\<lparr>pb_acks := add_ack (get_id message1) handler (acks, log)\<rparr>)
                else (result, st2\<lparr>pb_acks := (acks, ch_destroy (ch_set_result None (handler, log)))\<rparr>)
              else (result, st2\<lparr>pb_acks := (acks, ch_destroy (handler, log))\<rparr>))"

definition SYSTEM_ERROR_BUSY :: int where "SYSTEM_ERROR_BUSY = -110"

text \<open>\<open>Protocol::send_event\<close>: after the move the handler is null.\<close>

definition protocol_send_event ::
    "(protocol_error \<Rightarrow> int) \<Rightarrow> bool \<Rightarrow> u32 \<Rightarrow> 's channel \<Rightarrow> event_fn \<Rightarrow> ('c, 'r) add_ack_fn \<Rightarrow> u8 list \<Rightarrow> u8 list option \<Rightarrow> int
       \<Rightarrow> event_type \<Rightarrow> u32 \<Rightarrow> 'c option \<Rightarrow> ('s, 'c, 'r) publish_state \<Rightarrow> bool \<times> ('s, 'c, 'r) publish_state" where
  "protocol_send_event toSystemError updating millis channel event add_ack event_name data ttl event_type flags handler st =
     (if updating then
        (False, st\<lparr>pb_acks := (fst (pb_acks st), ch_destroy (ch_set_error SYSTEM_ERROR_BUSY None (handler, snd (pb_acks st))))\<rparr>)
      else
        let (error, st1) = publisher_send_event channel event add_ack event_name data ttl event_type flags millis handler st;
            moved = None
        in if error \<noteq> NO_ERROR then
             (False, st1\<lparr>pb_acks := (fst (pb_acks st1),
                ch_destroy (ch_set_error (toSystemError error) None (moved, snd (pb_acks st1))))\<rparr>)
           else (True, st1\<lparr>pb_acks := (fst (pb_acks st1), ch_destroy (moved, snd (pb_acks st1)))\<rparr>))"

definition add_ack_handler :: "bool \<Rightarrow> u16 \<Rightarrow> 'c option \<Rightarrow> u32 \<Rightarrow> (u16, 'c) handlers \<times> ('c, 'r) call list \<Rightarrow> (u16, 'c) handlers \<times> ('c, 'r) call list" where
  "add_ack_handler room msg_id handler timeout s = snd (hs_add room msg_id handler timeout s)"

section \<open>The ring of the last five events\<close>

primrec rate_run :: "u32 list \<Rightarrow> rate_limiter \<Rightarrow> bool list \<times> rate_limiter" where
  "rate_run [] rl = ([], rl)"
| "rate_run (t # ts) rl =
     (let (limited, rl1) = is_rate_limited False t rl; (rest, rl2) = rate_run ts rl1 in (limited # rest, rl2))"

lemma rate_run_append:
  "rate_run (xs @ ys) rl = (let (a, rl1) = rate_run xs rl; (b, rl2) = rate_run ys rl1 in (a @ b, rl2))"
  by (induction xs arbitrary: rl) (auto simp: Let_def split: prod.splits)

text \<open>The last five times are in the ring, at their number modulo five.\<close>

definition ring_of :: "u32 list \<Rightarrow> rate_limiter \<Rightarrow> bool" where
  "ring_of ts rl \<longleftrightarrow> length (rl_ticks rl) = 5 \<and> rl_idx rl = length ts mod 5 \<and>
     (\<forall>j < length ts. length ts \<le> j + 5 \<longrightarrow> rl_ticks rl ! (j mod 5) = ts ! j)"

lemma ring_step:
  assumes "ring_of ts rl"
  shows "ring_of (ts @ [t]) (snd (is_rate_limited False t rl)) \<and>
    (4 \<le> length ts \<longrightarrow> fst (is_rate_limited False t rl) = (t - ts ! (length ts - 4) < 1000))"
proof -
  let ?n = "length ts"
  have len: "length (rl_ticks rl) = 5" and idx: "rl_idx rl = ?n mod 5"
    and at: "\<And>j. j < ?n \<Longrightarrow> ?n \<le> j + 5 \<Longrightarrow> rl_ticks rl ! (j mod 5) = ts ! j"
    using assms by (simp_all add: ring_of_def)
  let ?ticks = "(rl_ticks rl)[?n mod 5 := t]"
  have new: "?ticks ! (j mod 5) = (ts @ [t]) ! j" if j: "j < Suc ?n" "Suc ?n \<le> j + 5" for j
  proof (cases "j = ?n")
    case True
    then show ?thesis using len by simp
  next
    case False
    then have lt: "j < ?n" using j by simp
    have "j mod 5 \<noteq> ?n mod 5"
    proof
      assume "j mod 5 = ?n mod 5"
      then have "5 dvd ?n - j" using mod_eq_dvd_iff_nat [of j ?n 5] lt by simp
      then show False using dvd_imp_le [of 5 "?n - j"] lt j by simp
    qed
    then show ?thesis using at [of j] j False by (simp add: nth_append)
  qed
  moreover have "Suc ?n mod 5 = (?n - 4) mod 5" if "4 \<le> ?n" 
  proof -
    define k where "k = ?n - 4"
    have k: "?n = k + 4" using that by (simp add: k_def)
    have "Suc (k + 4) = k + 5" by simp
    then show ?thesis unfolding k by (simp only: mod_add_self2 add_diff_cancel_right')
  qed
  then have "?ticks ! (Suc ?n mod 5) = ts ! (?n - 4)" if four: "4 \<le> ?n"
  proof -
    have lt: "?n - 4 < ?n" "?n - 4 < Suc ?n" "Suc ?n \<le> ?n - 4 + 5" using four by simp_all
    have "(ts @ [t]) ! (?n - 4) = ts ! (?n - 4)" by (rule nth_append_left [OF lt(1)])
    then show ?thesis using new [OF lt(2,3)] \<open>4 \<le> ?n \<Longrightarrow> Suc ?n mod 5 = (?n - 4) mod 5\<close> four by simp
  qed
  moreover have "(?n mod 5 + 1) mod 5 = Suc ?n mod 5" by (simp only: Suc_eq_plus1 [symmetric] mod_Suc_eq)
  ultimately show ?thesis
    using len unfolding is_rate_limited_def idx Let_def by (auto simp: ring_of_def)
qed

lemma rate_run_ring:
  "ring_of ts (snd (rate_run ts rl_new)) \<and> length (fst (rate_run ts rl_new)) = length ts \<and>
   (\<forall>k < length ts. 4 \<le> k \<longrightarrow> fst (rate_run ts rl_new) ! k = (ts ! k - ts ! (k - 4) < 1000))"
proof (induction ts rule: rev_induct)
  case Nil
  show ?case by (simp add: ring_of_def rl_new_def)
next
  case (snoc t ts)
  obtain rs rl where r: "rate_run ts rl_new = (rs, rl)" by fastforce
  have "rate_run (ts @ [t]) rl_new = (rs @ [fst (is_rate_limited False t rl)], snd (is_rate_limited False t rl))"
    by (simp add: rate_run_append r case_prod_beta Let_def)
  then show ?case
    using ring_step [of ts rl t] snoc.IH r by (auto simp: nth_append less_Suc_eq)
qed

section \<open>Properties\<close>

text \<open>
  C20: No more than four user events are accepted in any second, whatever the times of the attempts and also over the
  wrap of the tick counter; an event that comes at least a second after the fourth attempt before it is accepted.
\<close>

lemma at_most_four_events_per_second:
  assumes "sorted ts"
  defines "limited \<equiv> fst (rate_run (map of_nat ts) rl_new)"
  shows "card {i. i < length ts \<and> \<not> limited ! i \<and> a \<le> ts ! i \<and> ts ! i < a + 1000} \<le> 4 \<and>
     (\<forall>k < length ts. 4 \<le> k \<longrightarrow> 1000 \<le> ts ! k - ts ! (k - 4) \<longrightarrow> ts ! k - ts ! (k - 4) < 2 ^ 32 \<longrightarrow> \<not> limited ! k)"
proof -
  have rate: "limited ! k \<longleftrightarrow> (of_nat (ts ! k - ts ! (k - 4)) :: u32) < 1000" if "k < length ts" "4 \<le> k" for k
  proof -
    have "ts ! (k - 4) \<le> ts ! k" using assms(1) that by (simp add: sorted_iff_nth_mono)
    then show ?thesis using rate_run_ring [of "map of_nat ts"] that by (simp add: limited_def of_nat_diff)
  qed
  have word: "(of_nat d :: u32) < 1000 \<longleftrightarrow> d < 1000" if "d < 2 ^ 32" for d
    using that by (simp add: word_less_nat_alt unat_of_nat)
  let ?A = "{i. i < length ts \<and> \<not> limited ! i \<and> a \<le> ts ! i \<and> ts ! i < a + 1000}"
  have "card ?A \<le> 4"
  proof (rule ccontr)
    assume big: "\<not> card ?A \<le> 4"
    have fin: "finite ?A" by simp
    have ne: "?A \<noteq> {}" using big by (intro notI) simp
    define k where "k = Max ?A"
    have k: "k < length ts" "\<not> limited ! k" "ts ! k < a + 1000" using Max_in [OF fin ne] by (simp_all add: k_def)
    have "?A \<subseteq> {Min ?A..k}" using fin by (auto simp: k_def)
    then have "card ?A \<le> Suc k - Min ?A" using card_mono [of "{Min ?A..k}" ?A] by simp
    then have four: "4 \<le> k" "Min ?A \<le> k - 4" using big by simp_all
    have "a \<le> ts ! Min ?A" using Min_in [OF fin ne] by simp
    moreover have "ts ! Min ?A \<le> ts ! (k - 4)" using assms(1) four k(1) by (simp add: sorted_iff_nth_mono)
    ultimately have "ts ! k - ts ! (k - 4) < 1000" using k(3) by simp
    then show False using rate [OF k(1) four(1)] word [of "ts ! k - ts ! (k - 4)"] k(2) by simp
  qed
  moreover have "\<not> limited ! k" if "k < length ts" "4 \<le> k" "1000 \<le> ts ! k - ts ! (k - 4)" "ts ! k - ts ! (k - 4) < 2 ^ 32" for k
    using rate [OF that(1,2)] word [OF that(4)] that(3) by linarith
  ultimately show ?thesis by blast
qed

lemma at_most_four_events_per_second_witness:
  "card {i. i < length [5000, 5001, 5002, 5003, 5004, 6500 :: nat] \<and>
     \<not> fst (rate_run (map of_nat [5000, 5001, 5002, 5003, 5004, 6500]) rl_new) ! i \<and>
     5000 \<le> [5000, 5001, 5002, 5003, 5004, 6500 :: nat] ! i \<and> [5000, 5001, 5002, 5003, 5004, 6500 :: nat] ! i < 5000 + 1000} \<le> 4"
  by (rule conjunct1 [OF at_most_four_events_per_second]) simp

text \<open>
  C21: The completion handler of an event is used exactly once: when \<open>send_event\<close> returns, its callback has been invoked,
  or it waits for an acknowledgement.  When the publisher fails, however, the callback gets \<open>SYSTEM_ERROR_INTERNAL\<close>
  and not the error that \<open>send_event\<close> means to pass, because the handler was moved away before.  Relied on:
  \<open>add_ack_handler\<close> keeps the handler or invokes it.
\<close>

lemma send_event_completes_once:
  assumes "\<And>i h s. accounted (add_ack i h s) = opt_mset h + accounted s"
    and "protocol_send_event toSystemError updating millis channel event add_ack name data ttl type flags handler st = (ok, st')"
  shows "accounted (pb_acks st') = opt_mset handler + accounted (pb_acks st) \<and>
    (\<not> ok \<longrightarrow> fst (pb_acks st') = fst (pb_acks st) \<and>
       snd (pb_acks st') = snd (pb_acks st) @
         (case handler of Some c \<Rightarrow> [(c, if updating then SYSTEM_ERROR_BUSY else SYSTEM_ERROR_INTERNAL, None)] | None \<Rightarrow> []))"
proof (cases updating)
  case True
  then show ?thesis
    using assms(2)
    by (auto simp: protocol_send_event_def accounted_def ch_destroy_def ch_set_error_def split: option.splits)
next
  case False
  obtain acks log where a: "pb_acks st = (acks, log)" by fastforce
  obtain e st1 where p: "publisher_send_event channel event add_ack name data ttl type flags millis handler st = (e, st1)"
    by fastforce
  have "accounted (pb_acks st1) = opt_mset handler + accounted (acks, log) \<and>
      (e \<noteq> NO_ERROR \<longrightarrow> pb_acks st1 = (acks, ch_destroy (handler, log)))"
    using p assms(1) unfolding publisher_send_event_def a
    by (auto simp: Let_def accounted_def ch_calls split: prod.splits if_splits)
  moreover have "ok = (e = NO_ERROR)" "pb_acks st' = pb_acks st1"
    using assms(2) False p
    by (auto simp: protocol_send_event_def Let_def ch_destroy_def ch_set_error_def split: if_splits)
  ultimately show ?thesis
    using False a by (auto simp: ch_destroy_def ch_set_error_def split: option.splits)
qed

lemma send_event_completes_once_witness:
  "snd (pb_acks (snd (protocol_send_event (\<lambda>_. -1) False 5000 (demo_channel\<lparr>ch_send := \<lambda>msg w. (IO_ERROR, msg, w)\<rparr>)
       (\<lambda>buf i name data ttl ty con m. (10, m)) (\<lambda>i h s. add_ack_handler True i h 20000 s) [0x74] None 60 PUBLIC WITH_ACK (Some ())
       \<lparr>pb_rate = rl_new, pb_limited = 0, pb_world = (\<lambda>_. 0, ()), pb_acks = (hs_new 60000, [])\<rparr>))) =
   [((), SYSTEM_ERROR_INTERNAL, None :: unit option)]"
proof -
  let ?add = "\<lambda>i h (s :: (u16, unit) handlers \<times> (unit, unit) call list). add_ack_handler True i h 20000 s"
  let ?send = "protocol_send_event (\<lambda>_. -1) False 5000 (demo_channel\<lparr>ch_send := \<lambda>msg w. (IO_ERROR, msg, w)\<rparr>)
       (\<lambda>buf i name data ttl ty con m. (10, m)) ?add [0x74] None 60 PUBLIC WITH_ACK (Some ())
       \<lparr>pb_rate = rl_new, pb_limited = 0, pb_world = (\<lambda>_. 0, ()), pb_acks = (hs_new 60000, [])\<rparr>"
  have add: "accounted (?add i h s) = opt_mset h + accounted s" for i h s
    by (simp add: add_ack_handler_def add_accounted)
  have limit: "is_rate_limited (is_system [0x74]) 5000 rl_new = (False, snd (is_rate_limited False 5000 rl_new))"
    by (simp add: is_rate_limited_def is_system_def rl_new_def Let_def)
  define r where "r = ?send"
  have "fst r = False"
    unfolding r_def by (simp add: protocol_send_event_def publisher_send_event_def limit demo_channel_def Let_def)
  then obtain st' where "r = (False, st')" by (cases r) simp
  then have eq: "?send = (False, st')" unfolding r_def .
  have "snd (pb_acks st') = [((), SYSTEM_ERROR_INTERNAL, None)]"
    using send_event_completes_once [OF add eq] by simp
  then show ?thesis unfolding eq by simp
qed

end
