(* ===== verification/Protocol_Services.thy ===== *)
theory Protocol_Services
  imports Publishing
begin

text \<open>
  The services of the cloud protocol (\<open>communication/src/ping.h\<close>, \<open>timesyncmanager.h\<close>, \<open>functions.h\<close>, \<open>variables.h\<close> and
  the inline functions of \<open>protocol.h\<close>): the keep-alive pings, time requests, calls of user functions and readings
  of user variables.  The functions of \<open>Messages\<close> that only are declared, the clock and the user's callbacks are
  parameters.  A write outside a buffer or through a null pointer is \<open>None\<close>.
\<close>

section \<open>Pinger\<close>

record pinger =
  pg_expecting :: bool
  pg_interval :: u32
  pg_timeout :: u32

definition pinger_new :: pinger where
  "pinger_new = \<lparr>pg_expecting = False, pg_interval = 0, pg_timeout = 10000\<rparr>"

definition pinger_init :: "u32 \<Rightarrow> u32 \<Rightarrow> pinger \<Rightarrow> pinger" where
  "pinger_init interval timeout p = p\<lparr>pg_interval := interval, pg_timeout := timeout\<rparr>"

definition pinger_set_interval :: "u32 \<Rightarrow> pinger \<Rightarrow> pinger" where
  "pinger_set_interval interval p = p\<lparr>pg_interval := interval\<rparr>"

definition pinger_reset :: "pinger \<Rightarrow> pinger" where
  "pinger_reset p = p\<lparr>pg_expecting := False\<rparr>"

definition pinger_process :: "u32 \<Rightarrow> ('s \<Rightarrow> protocol_error \<times> 's) \<Rightarrow> pinger \<Rightarrow> 's \<Rightarrow> protocol_error \<times> pinger \<times> 's" where
  "pinger_process millis_since_last_message ping p s =
     (if pg_expecting p then
        (if pg_timeout p < millis_since_last_message then (PING_TIMEOUT, p, s)
         else (NO_ERROR, p\<lparr>pg_expecting := False\<rparr>, s))
      else if pg_interval p \<noteq> 0 \<and> pg_interval p < millis_since_last_message
           then let (error, s1) = ping s in (error, p\<lparr>pg_expecting := True\<rparr>, s1)
           else (NO_ERROR, p, s))"

definition pinger_message_received :: "pinger \<Rightarrow> pinger" where
  "pinger_message_received p = p\<lparr>pg_expecting := False\<rparr>"

section \<open>TimeSyncManager\<close>

record timesync =
  ts_last_sync_millis :: u32
  ts_request_sent_millis :: u32
  ts_last_sync_time :: int
  ts_expecting :: bool

definition timesync_new :: timesync where
  "timesync_new = \<lparr>ts_last_sync_millis = 0, ts_request_sent_millis = 0, ts_last_sync_time = 0, ts_expecting = False\<rparr>"

definition timesync_reset :: "timesync \<Rightarrow> timesync" where
  "timesync_reset t = t\<lparr>ts_expecting := False, ts_request_sent_millis := 0\<rparr>"

definition timesync_send_request :: "u32 \<Rightarrow> ('s \<Rightarrow> bool \<times> 's) \<Rightarrow> timesync \<Rightarrow> 's \<Rightarrow> bool \<times> timesync \<times> 's" where
  "timesync_send_request mil send_time_request t s =
     (if ts_expecting t then (True, t, s)
      else let (ok, s1) = send_time_request s in (ok, t\<lparr>ts_request_sent_millis := mil, ts_expecting := True\<rparr>, s1))"

definition timesync_handle_response :: "int \<Rightarrow> u32 \<Rightarrow> (int \<Rightarrow> 's \<Rightarrow> 's) \<Rightarrow> timesync \<Rightarrow> 's \<Rightarrow> bool \<times> timesync \<times> 's" where
  "timesync_handle_response tm mil set_time t s =
     (True, t\<lparr>ts_expecting := False, ts_last_sync_time := tm, ts_last_sync_millis := mil\<rparr>, set_time tm s)"

definition timesync_pending :: "timesync \<Rightarrow> bool" where
  "timesync_pending t = ts_expecting t"

definition timesync_last_sync :: "timesync \<Rightarrow> u32 \<times> int" where
  "timesync_last_sync t = (ts_last_sync_millis t, ts_last_sync_time t)"

section \<open>Functions\<close>




text \<open>The result of the user's function; \<open>function_return\<close> writes the message.\<close>

definition function_result ::
    "'s channel \<Rightarrow> (nat \<Rightarrow> u16 \<Rightarrow> u8 \<Rightarrow> int \<Rightarrow> bool \<Rightarrow> mem \<Rightarrow> nat \<times> mem) \<Rightarrow> int \<Rightarrow> u8 \<Rightarrow> mem \<times> 's \<Rightarrow> protocol_error \<times> mem \<times> 's" where
  "function_result channel function_return result token w =
     (let message = snd (ch_create channel (mg_new 0 0 0) 10);
          (n, m) = function_return (mg_buf message) 0 token result (ch_unreliable channel) (fst w);
          (error, _, w1) = ch_send channel (set_length n message) (m, snd w)
      in (error, w1))"

section \<open>Variables\<close>

definition decode_variable_request :: "mem \<Rightarrow> message \<Rightarrow> u8 list" where
  "decode_variable_request m message =
     (let queue = mg_buf message;
          n = unat (m (queue + 7) AND 0x0F);
          variable_key_length = (if 12 < n then 12 else n)
      in map m [queue + 8 ..< queue + 8 + variable_key_length] @ replicate (13 - variable_key_length) 0)"

datatype variable_value = BoolVar bool | IntVar int | StringVar "u8 list" | DoubleVar nat | OtherVar

text \<open>The overloads of \<open>Messages::variable_value\<close> are one parameter; a double is the bits of it.\<close>

definition handle_variable_request ::
    "'s channel \<Rightarrow> (nat \<Rightarrow> u16 \<Rightarrow> u8 \<Rightarrow> variable_value \<Rightarrow> mem \<Rightarrow> nat \<times> mem) \<Rightarrow> variable_value \<Rightarrow> message \<Rightarrow> u8 \<Rightarrow> u16 \<Rightarrow> mem \<times> 's
       \<Rightarrow> protocol_error \<times> mem \<times> 's" where
  "handle_variable_request channel variable_value v message token message_id w =
     (let message1 = set_id message_id message;
          queue = mg_buf message1;
          (response, m) =
            (case v of
               BoolVar b \<Rightarrow> variable_value queue message_id token (BoolVar b) (fst w)
             | IntVar i \<Rightarrow> variable_value queue message_id token (IntVar i) (fst w)
             | StringVar s \<Rightarrow>
                 (let max_length = mg_cap message1;
                      str_length = (if max_length < length s then max_length else length s)
                  in variable_value queue message_id token (StringVar (take str_length s)) (fst w))
             | DoubleVar d \<Rightarrow> variable_value queue message_id token (DoubleVar d) (fst w)
             | OtherVar \<Rightarrow> (0, fst w));
          (error, _, w1) = ch_send channel (set_length response message1) (m, snd w)
      in (error, w1))"

section \<open>Protocol\<close>

record 's protocol =
  pr_last_message :: u32
  pr_pinger :: pinger
  pr_timesync :: timesync
  pr_token :: u8
  pr_flags :: u8
  pr_updating :: bool
  pr_product_id :: u16
  pr_product_version :: u16
  pr_world :: "mem \<times> 's"

definition PING_AS_EMPTY_MESSAGE :: u8 where "PING_AS_EMPTY_MESSAGE = 4"

definition set_protocol_flags :: "u8 \<Rightarrow> 's protocol \<Rightarrow> 's protocol" where
  "set_protocol_flags flags p = p\<lparr>pr_flags := flags\<rparr>"

definition next_token :: "'s protocol \<Rightarrow> u8 \<times> 's protocol" where
  "next_token p = (pr_token p + 1, p\<lparr>pr_token := pr_token p + 1\<rparr>)"

definition initialize_ping :: "u32 \<Rightarrow> u32 \<Rightarrow> 's protocol \<Rightarrow> 's protocol" where
  "initialize_ping interval timeout p = p\<lparr>pr_pinger := pinger_init interval timeout (pr_pinger p)\<rparr>"

definition set_keepalive :: "u32 \<Rightarrow> 's protocol \<Rightarrow> 's protocol" where
  "set_keepalive interval p = p\<lparr>pr_pinger := pinger_set_interval interval (pr_pinger p)\<rparr>"

text \<open>\<open>keep_alive\<close> and \<open>ping_message\<close> write the two kinds of ping; \<open>millis\<close> is the clock when \<open>ping\<close> reads it.\<close>

record ping_fns =
  keep_alive :: "nat \<Rightarrow> mem \<Rightarrow> nat \<times> mem"
  ping_message :: "nat \<Rightarrow> u16 \<Rightarrow> mem \<Rightarrow> nat \<times> mem"

definition protocol_ping :: "'s channel \<Rightarrow> ping_fns \<Rightarrow> bool \<Rightarrow> u32 \<Rightarrow> 's protocol \<Rightarrow> protocol_error \<times> 's protocol" where
  "protocol_ping channel fns forceCoAP millis p =
     (let message = snd (ch_create channel (mg_new 0 0 0) 0);
          (n, m) = (if \<not> forceCoAP \<and> pr_flags p AND PING_AS_EMPTY_MESSAGE \<noteq> 0
                    then keep_alive fns (mg_buf message) (fst (pr_world p))
                    else ping_message fns (mg_buf message) 0 (fst (pr_world p)));
          (error, _, w) = ch_send channel (set_length n message) (m, snd (pr_world p))
      in (error, p\<lparr>pr_last_message := millis, pr_world := w\<rparr>))"

text \<open>\<open>transfer_idle\<close> is \<open>ChunkedTransfer::idle\<close>; the clock is read when the loop starts and again by \<open>ping\<close>.\<close>

definition event_loop_idle ::
    "'s channel \<Rightarrow> ping_fns \<Rightarrow> (mem \<times> 's \<Rightarrow> protocol_error \<times> mem \<times> 's) \<Rightarrow> u32 \<Rightarrow> u32 \<Rightarrow> 's protocol \<Rightarrow> protocol_error \<times> 's protocol" where
  "event_loop_idle channel fns transfer_idle millis millis_ping p =
     (if pr_updating p then
        let (error, w) = transfer_idle (pr_world p) in (error, p\<lparr>pr_world := w\<rparr>)
      else
        let (error, pg, p1) = pinger_process (millis - pr_last_message p) (protocol_ping channel fns False millis_ping) (pr_pinger p) p
        in (error, p1\<lparr>pr_pinger := pg\<rparr>))"

definition send_time_request ::
    "'s channel \<Rightarrow> (nat \<Rightarrow> u16 \<Rightarrow> u8 \<Rightarrow> mem \<Rightarrow> nat \<times> mem) \<Rightarrow> u32 \<Rightarrow> 's protocol \<Rightarrow> bool \<times> 's protocol" where
  "send_time_request channel time_request millis p =
     (if pr_updating p then (False, p)
      else
        let (ok, t, p1) = timesync_send_request millis
              (\<lambda>p. let (token, p1) = next_token p;
                       message = snd (ch_create channel (mg_new 0 0 0) 0);
                       (n, m) = time_request (mg_buf message) 0 token (fst (pr_world p1));
                       (error, _, w) = ch_send channel (set_length n message) (m, snd (pr_world p1))
                   in (error = NO_ERROR, p1\<lparr>pr_world := w\<rparr>)) (pr_timesync p) p
        in (ok, p1\<lparr>pr_timesync := t\<rparr>))"

text \<open>The wrappers that refresh the checksum of the subscriptions when the message was sent; \<open>crc\<close> does that.\<close>

definition after_subscription :: "(mem \<times> 's \<Rightarrow> mem \<times> 's) \<Rightarrow> protocol_error \<times> mem \<times> 's \<Rightarrow> bool \<times> mem \<times> 's" where
  "after_subscription crc r = (fst r = NO_ERROR, if fst r = NO_ERROR then crc (snd r) else snd r)"

definition protocol_send_subscription_device ::
    "(mem \<times> 's \<Rightarrow> mem \<times> 's) \<Rightarrow> 's channel \<Rightarrow> subscription_fns \<Rightarrow> u8 list \<Rightarrow> u8 list option \<Rightarrow> mem \<times> 's \<Rightarrow> bool \<times> mem \<times> 's" where
  "protocol_send_subscription_device crc channel fns name device_id w =
     after_subscription crc (send_subscription_device channel fns name device_id w)"

definition protocol_send_subscription_scope ::
    "(mem \<times> 's \<Rightarrow> mem \<times> 's) \<Rightarrow> 's channel \<Rightarrow> subscription_fns \<Rightarrow> u8 list \<Rightarrow> subscription_scope \<Rightarrow> mem \<times> 's \<Rightarrow> bool \<times> mem \<times> 's" where
  "protocol_send_subscription_scope crc channel fns name scope w =
     after_subscription crc (send_subscription_scope channel fns name scope w)"

definition protocol_send_subscriptions ::
    "(mem \<times> 's \<Rightarrow> mem \<times> 's) \<Rightarrow> 's channel \<Rightarrow> subscription_fns \<Rightarrow> (('h, 'd) event_handler \<Rightarrow> u8 list) \<Rightarrow> ('h, 'd) event_handler list
       \<Rightarrow> mem \<times> 's \<Rightarrow> bool \<times> mem \<times> 's" where
  "protocol_send_subscriptions crc channel fns beyond es w = after_subscription crc (send_subscriptions channel fns beyond es w)"

definition protocol_add_event_handler ::
    "u8 list \<Rightarrow> 'h option \<Rightarrow> ('h, 'd) event_handler list \<Rightarrow> bool \<times> ('h, 'd) event_handler list" where
  "protocol_add_event_handler name handler es =
     (let (error, es1) = add_event_handler name handler None FIREHOSE None es in (error = NO_ERROR, es1))"

definition set_product_id :: "u16 \<Rightarrow> 's protocol \<Rightarrow> 's protocol" where
  "set_product_id i p = p\<lparr>pr_product_id := i\<rparr>"

definition set_product_firmware_version :: "u16 \<Rightarrow> 's protocol \<Rightarrow> 's protocol" where
  "set_product_firmware_version v p = p\<lparr>pr_product_version := v\<rparr>"

text \<open>The details are the size of the structure, the product and its version.\<close>

definition get_product_details :: "'s protocol \<Rightarrow> nat \<times> u16 \<times> u16 \<Rightarrow> nat \<times> u16 \<times> u16" where
  "get_product_details p details =
     (if 4 \<le> fst details then (fst details, pr_product_id p, pr_product_version p) else details)"

section \<open>Polling\<close>

text \<open>The event loop without messages: the errors of a sequence of polls, each with its two readings of the clock.\<close>

primrec idle_run ::
    "'s channel \<Rightarrow> ping_fns \<Rightarrow> (mem \<times> 's \<Rightarrow> protocol_error \<times> mem \<times> 's) \<Rightarrow> (u32 \<times> u32) list \<Rightarrow> 's protocol \<Rightarrow> protocol_error list" where
  "idle_run channel fns transfer_idle [] p = []"
| "idle_run channel fns transfer_idle (t # ts) p =
     (let (error, p1) = event_loop_idle channel fns transfer_idle (fst t) (snd t) p
      in error # idle_run channel fns transfer_idle ts p1)"

fun polled_within :: "u32 \<Rightarrow> (u32 \<times> u32) list \<Rightarrow> bool" where
  "polled_within timeout (s # t # ts) \<longleftrightarrow> fst t - snd s \<le> timeout \<and> polled_within timeout (t # ts)"
| "polled_within timeout _ \<longleftrightarrow> True"

lemma event_loop_idle_step:
  assumes "\<not> pr_updating p" "\<And>msg w. fst (ch_send channel msg w) \<noteq> PING_TIMEOUT"
    and "pg_expecting (pr_pinger p) \<longrightarrow> t - pr_last_message p \<le> pg_timeout (pr_pinger p)"
    and "event_loop_idle channel fns transfer_idle t t' p = (error, p1)"
  shows "error \<noteq> PING_TIMEOUT \<and> \<not> pr_updating p1 \<and> pg_timeout (pr_pinger p1) = pg_timeout (pr_pinger p) \<and>
    (pg_expecting (pr_pinger p1) \<longrightarrow> pr_last_message p1 = t')"
proof -
  have ping: "fst (protocol_ping channel fns b t' p) \<noteq> PING_TIMEOUT \<and> \<not> pr_updating (snd (protocol_ping channel fns b t' p)) \<and>
      pr_last_message (snd (protocol_ping channel fns b t' p)) = t'" for b
    using assms(1,2) by (simp add: protocol_ping_def case_prod_beta Let_def)
  obtain e q where "protocol_ping channel fns False t' p = (e, q)" by fastforce
  with ping [of False] show ?thesis
    using assms(1,3,4) by (auto simp: event_loop_idle_def pinger_process_def not_less Let_def split: if_splits)
qed

section \<open>Properties\<close>

text \<open>
  A server that never answers is not detected: when the event loop is polled at least once within the ping timeout
  after each poll, no poll returns \<open>PING_TIMEOUT\<close>, although pings are sent and no message ever arrives, because the
  first poll after a ping takes the expectation of an answer back.
\<close>

lemma dead_server_not_detected:
  fixes p :: "'s protocol"
  assumes "\<not> pr_updating p" "\<not> pg_expecting (pr_pinger p)" "polled_within (pg_timeout (pr_pinger p)) ts"
    and "\<And>msg w. fst (ch_send channel msg w) \<noteq> PING_TIMEOUT"
  shows "PING_TIMEOUT \<notin> set (idle_run channel fns transfer_idle ts p)"
proof -
  have "\<not> pr_updating p \<Longrightarrow> polled_within (pg_timeout (pr_pinger p)) ts \<Longrightarrow>
      (pg_expecting (pr_pinger p) \<longrightarrow> ts \<noteq> [] \<longrightarrow> fst (hd ts) - pr_last_message p \<le> pg_timeout (pr_pinger p)) \<Longrightarrow>
      PING_TIMEOUT \<notin> set (idle_run channel fns transfer_idle ts p)" for p :: "'s protocol"
  proof (induction ts arbitrary: p)
    case (Cons t ts)
    obtain e q where q: "event_loop_idle channel fns transfer_idle (fst t) (snd t) p = (e, q)" by fastforce
    have step: "e \<noteq> PING_TIMEOUT \<and> \<not> pr_updating q \<and> pg_timeout (pr_pinger q) = pg_timeout (pr_pinger p) \<and>
        (pg_expecting (pr_pinger q) \<longrightarrow> pr_last_message q = snd t)"
      by (rule event_loop_idle_step [OF Cons.prems(1) assms(4) _ q]) (use Cons.prems(3) in simp)
    have "polled_within (pg_timeout (pr_pinger p)) ts \<and> (ts \<noteq> [] \<longrightarrow> fst (hd ts) - snd t \<le> pg_timeout (pr_pinger p))"
      using Cons.prems(2) by (cases ts) auto
    then show ?case using Cons.IH [of q] step q by auto
  qed simp
  then show ?thesis using assms(1-3) by simp
qed

lemma dead_server_not_detected_witness:
  "PING_TIMEOUT \<notin> set (idle_run demo_channel \<lparr>keep_alive = (\<lambda>_ m. (0, m)), ping_message = (\<lambda>_ _ m. (4, m))\<rparr> (\<lambda>w. (NO_ERROR, w))
     [(20000, 20001), (21000, 21001), (40000, 40001)]
     \<lparr>pr_last_message = 0, pr_pinger = \<lparr>pg_expecting = False, pg_interval = 15000, pg_timeout = 30000\<rparr>, pr_timesync = timesync_new,
      pr_token = 0, pr_flags = 0, pr_updating = False, pr_product_id = 0, pr_product_version = 0, pr_world = (\<lambda>_. 0, ())\<rparr>)"
  by (rule dead_server_not_detected) (simp_all add: demo_channel_def)




end
