(* ===== verification/Futures.thy ===== *)
theory Futures
  imports Prelude "HOL-Library.Multiset"
begin

text \<open>
  Futures and promises (\<open>wiring/inc/spark_wiring_async.h\<close>) and their errors
  (\<open>wiring/inc/spark_wiring_error.h\<close>).  An operation on a future is an activation: a position in the code
  with its local variables.  Every action of an activation is one access to the shared object, the atomic
  variables of the code one by one, so that a run is an arbitrary interleaving of any number of activations in
  any number of threads.  The code synchronises through read-modify-write operations on one variable and
  through release and acquire on \<open>done_\<close>, for which the interleavings are all executions.

  The user's callbacks are a log: the calls made in the application thread, and the calls handed over to it.
\<close>

section \<open>Errors\<close>

record error_obj =
  eo_type :: int
  eo_msg :: "string option"

definition ERROR_NONE :: int where "ERROR_NONE = 0"
definition ERROR_UNKNOWN :: int where "ERROR_UNKNOWN = - 100"

definition error_of_type :: "int \<Rightarrow> error_obj" where
  "error_of_type t = \<lparr>eo_type = t, eo_msg = None\<rparr>"

definition error_of :: "int \<Rightarrow> string option \<Rightarrow> error_obj" where
  "error_of t msg = \<lparr>eo_type = t, eo_msg = msg\<rparr>"

definition error_of_message :: "string option \<Rightarrow> error_obj" where
  "error_of_message msg = error_of ERROR_UNKNOWN msg"

definition error_copy :: "error_obj \<Rightarrow> error_obj" where
  "error_copy e = error_of (eo_type e) (eo_msg e)"

text \<open>The new object and what is left of the old one.\<close>

definition error_swap :: "error_obj \<Rightarrow> error_obj \<Rightarrow> error_obj \<times> error_obj" where
  "error_swap a b = (\<lparr>eo_type = eo_type b, eo_msg = eo_msg b\<rparr>, \<lparr>eo_type = eo_type a, eo_msg = eo_msg a\<rparr>)"

definition error_move :: "error_obj \<Rightarrow> error_obj \<times> error_obj" where
  "error_move e = error_swap (error_of_type ERROR_UNKNOWN) e"

definition error_assign :: "error_obj \<Rightarrow> error_obj \<Rightarrow> error_obj" where
  "error_assign this e = fst (error_swap this e)"

definition error_message :: "(int \<Rightarrow> string) \<Rightarrow> error_obj \<Rightarrow> string" where
  "error_message system_error_message e = (case eo_msg e of Some m \<Rightarrow> m | None \<Rightarrow> system_error_message (eo_type e))"

definition error_equal :: "error_obj \<Rightarrow> error_obj \<Rightarrow> bool" where
  "error_equal a b \<longleftrightarrow> eo_type a = eo_type b"

definition error_is :: "error_obj \<Rightarrow> int \<Rightarrow> bool" where
  "error_is e t \<longleftrightarrow> eo_type e = t"

definition error_set :: "error_obj \<Rightarrow> bool" where
  "error_set e \<longleftrightarrow> eo_type e \<noteq> ERROR_NONE"

section \<open>The shared object\<close>

datatype fstate = RUNNING | SUCCEEDED | FAILED | CANCELLED

text \<open>The two callbacks, and the states in which they are due.\<close>

datatype callback_slot = OnSuccess | OnError

fun slot_state :: "callback_slot \<Rightarrow> fstate" where
  "slot_state OnSuccess = SUCCEEDED"
| "slot_state OnError = FAILED"

text \<open>The member of the union that has been constructed.  The specialization for \<open>void\<close> has no result.\<close>

datatype 'r union_cell = Unset | ResultCell 'r | ErrorCell error_obj

datatype 'r arg = NoArg | ResultArg 'r | ErrorArg error_obj

record ('r, 'c) future =
  fu_void :: bool
  fu_state :: fstate
  fu_done :: bool
  fu_callback :: "callback_slot \<Rightarrow> 'c option"
  fu_cell :: "'r union_cell"
  fu_calls :: "('c \<times> 'r arg) list"
  fu_queue :: "('c \<times> 'r arg) list"
  fu_lost :: "('c \<times> 'r arg) list"
  fu_dropped :: "'c list"

definition fut_base :: "bool \<Rightarrow> fstate \<Rightarrow> 'r union_cell \<Rightarrow> ('r, 'c) future" where
  "fut_base is_void st c = \<lparr>fu_void = is_void, fu_state = st, fu_done = (st \<noteq> RUNNING), fu_callback = (\<lambda>_. None),
     fu_cell = c, fu_calls = [], fu_queue = [], fu_lost = [], fu_dropped = []\<rparr>"

definition fut_running :: "('r, 'c) future" where
  "fut_running = fut_base False RUNNING Unset"

definition fut_of_result :: "'r \<Rightarrow> ('r, 'c) future" where
  "fut_of_result r = fut_base False SUCCEEDED (ResultCell r)"

definition fut_of_error :: "error_obj \<Rightarrow> ('r, 'c) future" where
  "fut_of_error e = fut_base False FAILED (ErrorCell e)"

definition fut_void :: "fstate \<Rightarrow> ('r, 'c) future" where
  "fut_void st = fut_base True st (ErrorCell (error_of_type ERROR_UNKNOWN))"

definition fut_void_of_error :: "error_obj \<Rightarrow> ('r, 'c) future" where
  "fut_void_of_error e = fut_base True FAILED (ErrorCell e)"

section \<open>Atomic actions\<close>

definition change_state :: "fstate \<Rightarrow> ('r, 'c) future \<Rightarrow> bool \<times> ('r, 'c) future" where
  "change_state st f = (if fu_state f = RUNNING then (True, f\<lparr>fu_state := st\<rparr>) else (False, f))"

definition release_done :: "('r, 'c) future \<Rightarrow> ('r, 'c) future" where
  "release_done f = f\<lparr>fu_done := True\<rparr>"

definition exchange :: "callback_slot \<Rightarrow> 'c option \<Rightarrow> ('r, 'c) future \<Rightarrow> 'c option \<times> ('r, 'c) future" where
  "exchange s c f = (fu_callback f s, f\<lparr>fu_callback := (fu_callback f)(s := c)\<rparr>)"

text \<open>\<open>setCallback\<close> deletes the callback it replaces.\<close>

definition set_callback :: "callback_slot \<Rightarrow> 'c \<Rightarrow> ('r, 'c) future \<Rightarrow> ('r, 'c) future" where
  "set_callback s c f =
     (let (old, f1) = exchange s (Some c) f
      in f1\<lparr>fu_dropped := fu_dropped f1 @ (case old of Some d \<Rightarrow> [d] | None \<Rightarrow> [])\<rparr>)"

text \<open>
  A call is synchronous in the application thread.  Otherwise it is handed over to that thread, which may not
  accept it; the code ignores the result.
\<close>

definition call_application :: "bool \<Rightarrow> bool \<Rightarrow> 'c \<times> 'r arg \<Rightarrow> ('r, 'c) future \<Rightarrow> ('r, 'c) future" where
  "call_application app accepts call f =
     (if app then f\<lparr>fu_calls := fu_calls f @ [call]\<rparr>
      else if accepts then f\<lparr>fu_queue := fu_queue f @ [call]\<rparr>
      else f\<lparr>fu_lost := fu_lost f @ [call]\<rparr>)"

text \<open>The event loop of the application runs the first \<open>n\<close> calls that were handed over.\<close>

definition process_events :: "nat \<Rightarrow> ('r, 'c) future \<Rightarrow> ('r, 'c) future" where
  "process_events n f = f\<lparr>fu_calls := fu_calls f @ take n (fu_queue f), fu_queue := drop n (fu_queue f)\<rparr>"

section \<open>Activations\<close>

datatype 'r fut_outcome = Result 'r | Failure error_obj

fun outcome_slot :: "'r fut_outcome \<Rightarrow> callback_slot" where
  "outcome_slot (Result r) = OnSuccess"
| "outcome_slot (Failure e) = OnError"

text \<open>Why the state of a future is examined: for a callback, for the result, the error, or a yes or no.\<close>

datatype 'r query = ForCallback callback_slot | ForValue 'r | ForError | ForBool callback_slot

fun query_slot :: "'r query \<Rightarrow> callback_slot" where
  "query_slot (ForCallback s) = s"
| "query_slot (ForValue d) = OnSuccess"
| "query_slot ForError = OnError"
| "query_slot (ForBool s) = s"

text \<open>What follows a wait.\<close>

datatype 'r after = ReturnWait | ThenAcquire "'r query" | ThenLoad "'r query"

datatype 'r out = Void | Bool bool | Value 'r | ErrorValue error_obj | Undefined

datatype ('r, 'c) pc =
    ChangeState "'r fut_outcome" | StoreCell "'r fut_outcome" | ReleaseDone "'r fut_outcome"
  | TakeCallback callback_slot | CallCallback callback_slot 'c
  | CancelState | CancelDone
  | SetCallback callback_slot 'c | AcquireDone "'r query" | LoadState "'r query" | ReadCell "'r query"
  | WaitStart int "'r after" | WaitLoop int u32 "'r after" | WaitTime int u32 "'r after"
  | LoadCancelled | LoadDone
  | Returned "'r out"

text \<open>The environment of a step: the time, whether a call is accepted, how many calls the event loop runs.\<close>

record env =
  en_now :: u32
  en_accepts :: bool
  en_runs :: nat

fun wait_over :: "bool \<Rightarrow> 'r after \<Rightarrow> ('r, 'c) pc" where
  "wait_over b ReturnWait = Returned (Bool b)"
| "wait_over b (ThenAcquire q) = AcquireDone q"
| "wait_over b (ThenLoad q) = LoadState q"

text \<open>What a query gives on a future in another state.\<close>

fun give_up :: "'r query \<Rightarrow> 'r out" where
  "give_up (ForCallback s) = Void"
| "give_up (ForValue d) = Value d"
| "give_up ForError = ErrorValue (error_of_type ERROR_NONE)"
| "give_up (ForBool s) = Bool False"

fun state_matches :: "'r query \<Rightarrow> ('r, 'c) pc" where
  "state_matches (ForCallback s) = TakeCallback s"
| "state_matches (ForBool s) = Returned (Bool True)"
| "state_matches (ForValue d) = ReadCell (ForValue d)"
| "state_matches ForError = ReadCell ForError"

text \<open>Reading a member of the union that has not been constructed is undefined.\<close>

fun read_cell :: "'r query \<Rightarrow> 'r union_cell \<Rightarrow> 'r out" where
  "read_cell (ForValue d) (ResultCell r) = Value r"
| "read_cell ForError (ErrorCell e) = ErrorValue e"
| "read_cell _ _ = Undefined"

fun callback_arg :: "bool \<Rightarrow> callback_slot \<Rightarrow> 'r union_cell \<Rightarrow> 'r arg option" where
  "callback_arg is_void OnSuccess (ResultCell r) = (if is_void then Some NoArg else Some (ResultArg r))"
| "callback_arg is_void OnSuccess _ = (if is_void then Some NoArg else None)"
| "callback_arg is_void OnError (ErrorCell e) = Some (ErrorArg e)"
| "callback_arg is_void OnError _ = None"

fun store_cell :: "'r fut_outcome \<Rightarrow> 'r union_cell" where
  "store_cell (Result r) = ResultCell r"
| "store_cell (Failure e) = ErrorCell e"

fun fut_act :: "env \<Rightarrow> bool \<Rightarrow> ('r, 'c) pc \<Rightarrow> ('r, 'c) future \<Rightarrow> ('r, 'c) pc \<times> ('r, 'c) future" where
  "fut_act en app (ChangeState x) f =
     (let (ok, f1) = change_state (slot_state (outcome_slot x)) f
      in (if \<not> ok then Returned Void
          else if fu_void f \<and> outcome_slot x = OnSuccess then ReleaseDone x else StoreCell x, f1))"
| "fut_act en app (StoreCell x) f = (ReleaseDone x, f\<lparr>fu_cell := store_cell x\<rparr>)"
| "fut_act en app (ReleaseDone x) f = (TakeCallback (outcome_slot x), release_done f)"
| "fut_act en app (TakeCallback s) f =
     (let (c, f1) = exchange s None f
      in (case c of Some d \<Rightarrow> CallCallback s d | None \<Rightarrow> Returned Void, f1))"
| "fut_act en app (CallCallback s c) f =
     (case callback_arg (fu_void f) s (fu_cell f) of
        None \<Rightarrow> (Returned Undefined, f)
      | Some a \<Rightarrow> (Returned Void, call_application app (en_accepts en) (c, a) f))"
| "fut_act en app CancelState f =
     (let (ok, f1) = change_state CANCELLED f in (if ok then CancelDone else Returned (Bool False), f1))"
| "fut_act en app CancelDone f = (Returned (Bool True), release_done f)"
| "fut_act en app (SetCallback s c) f = (AcquireDone (ForCallback s), set_callback s c f)"
| "fut_act en app (AcquireDone q) f =
     (if fu_done f then WaitStart 0 (ThenLoad q) else Returned (give_up q), f)"
| "fut_act en app (LoadState q) f =
     (if fu_state f = slot_state (query_slot q) then state_matches q else Returned (give_up q), f)"
| "fut_act en app (ReadCell q) f = (Returned (read_cell q (fu_cell f)), f)"
| "fut_act en app (WaitStart timeout k) f =
     (if app then WaitLoop timeout (if 0 < timeout then en_now en else 0) k else wait_over False k, f)"
| "fut_act en app (WaitLoop timeout t k) f =
     (if fu_done f then wait_over True k else WaitTime timeout t k, f)"
| "fut_act en app (WaitTime timeout t k) f =
     (if 0 < timeout \<and> of_int timeout \<le> en_now en - t then (wait_over False k, f)
      else (WaitLoop timeout t k, process_events (en_runs en) f))"
| "fut_act en app LoadCancelled f = (Returned (Bool (fu_state f = CANCELLED)), f)"
| "fut_act en app LoadDone f = (Returned (Bool (fu_done f)), f)"
| "fut_act en app (Returned x) f = (Returned x, f)"

section \<open>Operations and runs\<close>

datatype ('r, 'c) future_op =
    SetResultOp 'r | SetErrorOp error_obj | CancelOp | OnSuccessOp 'c | OnErrorOp 'c | WaitOp int
  | ResultOp 'r | ErrorOp | IsSucceededOp | IsFailedOp | IsCancelledOp | IsDoneOp

fun start_pc :: "('r, 'c) future_op \<Rightarrow> ('r, 'c) pc" where
  "start_pc (SetResultOp r) = ChangeState (Result r)"
| "start_pc (SetErrorOp e) = ChangeState (Failure e)"
| "start_pc CancelOp = CancelState"
| "start_pc (OnSuccessOp c) = SetCallback OnSuccess c"
| "start_pc (OnErrorOp c) = SetCallback OnError c"
| "start_pc (WaitOp timeout) = WaitStart timeout ReturnWait"
| "start_pc (ResultOp d) = WaitStart 0 (ThenAcquire (ForValue d))"
| "start_pc ErrorOp = WaitStart 0 (ThenAcquire ForError)"
| "start_pc IsSucceededOp = WaitStart 0 (ThenLoad (ForBool OnSuccess))"
| "start_pc IsFailedOp = WaitStart 0 (ThenLoad (ForBool OnError))"
| "start_pc IsCancelledOp = LoadCancelled"
| "start_pc IsDoneOp = LoadDone"

text \<open>
  \<open>Promise::defaultCallback\<close>, the completion callback of the system; \<open>read\<close> is \<open>*data\<close> as a result and
  \<open>text_at\<close> is \<open>data\<close> as a message.
\<close>

definition default_callback :: "('d \<Rightarrow> 'r) \<Rightarrow> ('d \<Rightarrow> string) \<Rightarrow> 'r \<Rightarrow> int \<Rightarrow> 'd option \<Rightarrow> ('r, 'c) future_op" where
  "default_callback read text_at zero error data =
     (if error \<noteq> ERROR_NONE then SetErrorOp (error_of error (map_option text_at data))
      else (case data of Some d \<Rightarrow> SetResultOp (read d) | None \<Rightarrow> SetResultOp zero))"

definition default_callback_void :: "('d \<Rightarrow> string) \<Rightarrow> int \<Rightarrow> 'd option \<Rightarrow> (unit, 'c) future_op" where
  "default_callback_void text_at error data =
     (if error \<noteq> ERROR_NONE then SetErrorOp (error_of error (map_option text_at data)) else SetResultOp ())"

record ('r, 'c) frun =
  fr_future :: "('r, 'c) future"
  fr_acts :: "(bool \<times> ('r, 'c) pc) list"

datatype ('r, 'c) event = Begin bool "('r, 'c) future_op" | Step nat env | Process nat

fun run_event :: "('r, 'c) event \<Rightarrow> ('r, 'c) frun \<Rightarrow> ('r, 'c) frun" where
  "run_event (Begin app p) s = s\<lparr>fr_acts := fr_acts s @ [(app, start_pc p)]\<rparr>"
| "run_event (Step i en) s =
     (if i < length (fr_acts s) then
        let (app, p) = fr_acts s ! i;
            (p1, f1) = fut_act en app p (fr_future s)
        in s\<lparr>fr_future := f1, fr_acts := (fr_acts s)[i := (app, p1)]\<rparr>
      else s)"
| "run_event (Process n) s = s\<lparr>fr_future := process_events n (fr_future s)\<rparr>"

definition fut_run :: "('r, 'c) event list \<Rightarrow> ('r, 'c) future \<Rightarrow> ('r, 'c) frun" where
  "fut_run es f = fold run_event es \<lparr>fr_future = f, fr_acts = []\<rparr>"

text \<open>The member that the destructor destroys, and the one that has been constructed.\<close>

fun destructor_of :: "fstate \<Rightarrow> callback_slot option" where
  "destructor_of SUCCEEDED = Some OnSuccess"
| "destructor_of FAILED = Some OnError"
| "destructor_of RUNNING = None"
| "destructor_of CANCELLED = None"

fun constructed :: "'r union_cell \<Rightarrow> callback_slot option" where
  "constructed Unset = None"
| "constructed (ResultCell r) = Some OnSuccess"
| "constructed (ErrorCell e) = Some OnError"

section \<open>The invariant\<close>

text \<open>
  An activation that has won the change of state owns the future until it releases \<open>done_\<close>; it will take the
  callback that is due.  The callbacks it holds are neither registered nor called yet.
\<close>

fun claims :: "('r, 'c) pc \<Rightarrow> fstate multiset" where
  "claims (StoreCell x) = {#slot_state (outcome_slot x)#}"
| "claims (ReleaseDone x) = {#slot_state (outcome_slot x)#}"
| "claims CancelDone = {#CANCELLED#}"
| "claims _ = {#}"

fun holding :: "('r, 'c) pc \<Rightarrow> 'c multiset" where
  "holding (SetCallback s c) = {#c#}"
| "holding (CallCallback s c) = {#c#}"
| "holding _ = {#}"

fun asks :: "'r query \<Rightarrow> callback_slot option" where
  "asks (ForCallback s) = Some s"
| "asks _ = None"

fun after_takes :: "callback_slot \<Rightarrow> 'r after \<Rightarrow> bool" where
  "after_takes s (ThenLoad q) \<longleftrightarrow> asks q = Some s"
| "after_takes s _ \<longleftrightarrow> False"

fun will_take :: "callback_slot \<Rightarrow> ('r, 'c) pc \<Rightarrow> bool" where
  "will_take s (TakeCallback t) \<longleftrightarrow> t = s"
| "will_take s (AcquireDone q) \<longleftrightarrow> asks q = Some s"
| "will_take s (LoadState q) \<longleftrightarrow> asks q = Some s"
| "will_take s (WaitStart timeout k) \<longleftrightarrow> after_takes s k"
| "will_take s (WaitLoop timeout t k) \<longleftrightarrow> after_takes s k"
| "will_take s (WaitTime timeout t k) \<longleftrightarrow> after_takes s k"
| "will_take s _ \<longleftrightarrow> False"

fun has_value :: "'r query \<Rightarrow> bool" where
  "has_value (ForValue d) = True"
| "has_value _ = False"

text \<open>Only a yes or no is asked of a future that may still be running.\<close>

fun query_ok :: "('r, 'c) future \<Rightarrow> 'r query \<Rightarrow> bool" where
  "query_ok f (ForBool s) \<longleftrightarrow> True"
| "query_ok f (ForValue d) \<longleftrightarrow> fu_done f \<and> \<not> fu_void f"
| "query_ok f (ForCallback s) \<longleftrightarrow> fu_done f"
| "query_ok f ForError \<longleftrightarrow> fu_done f"

fun after_ok :: "('r, 'c) future \<Rightarrow> 'r after \<Rightarrow> bool" where
  "after_ok f ReturnWait \<longleftrightarrow> True"
| "after_ok f (ThenAcquire q) \<longleftrightarrow> has_value q \<longrightarrow> \<not> fu_void f"
| "after_ok f (ThenLoad q) \<longleftrightarrow> query_ok f q"

definition cell_ok :: "('r, 'c) future \<Rightarrow> fstate \<Rightarrow> bool" where
  "cell_ok f st \<longleftrightarrow> (st = SUCCEEDED \<and> \<not> fu_void f \<longrightarrow> constructed (fu_cell f) = Some OnSuccess) \<and>
     (st = FAILED \<longrightarrow> constructed (fu_cell f) = Some OnError)"

fun pc_ok :: "('r, 'c) future \<Rightarrow> ('r, 'c) pc \<Rightarrow> bool" where
  "pc_ok f (StoreCell x) \<longleftrightarrow> fu_state f = slot_state (outcome_slot x) \<and> \<not> (fu_void f \<and> outcome_slot x = OnSuccess)"
| "pc_ok f (ReleaseDone x) \<longleftrightarrow> fu_state f = slot_state (outcome_slot x) \<and> cell_ok f (fu_state f)"
| "pc_ok f (TakeCallback s) \<longleftrightarrow> fu_done f \<and> fu_state f = slot_state s"
| "pc_ok f (CallCallback s c) \<longleftrightarrow> fu_done f \<and> fu_state f = slot_state s"
| "pc_ok f CancelDone \<longleftrightarrow> fu_state f = CANCELLED"
| "pc_ok f (AcquireDone q) \<longleftrightarrow> has_value q \<longrightarrow> \<not> fu_void f"
| "pc_ok f (LoadState q) \<longleftrightarrow> query_ok f q"
| "pc_ok f (ReadCell q) \<longleftrightarrow> query_ok f q \<and> fu_done f \<and> fu_state f = slot_state (query_slot q) \<and> (has_value q \<or> q = ForError)"
| "pc_ok f (WaitStart timeout k) \<longleftrightarrow> after_ok f k"
| "pc_ok f (WaitLoop timeout t k) \<longleftrightarrow> after_ok f k"
| "pc_ok f (WaitTime timeout t k) \<longleftrightarrow> after_ok f k"
| "pc_ok f (Returned x) \<longleftrightarrow> x \<noteq> Undefined"
| "pc_ok f _ \<longleftrightarrow> True"

definition winners :: "(bool \<times> ('r, 'c) pc) multiset \<Rightarrow> fstate multiset" where
  "winners A = (\<Sum>a \<in># A. claims (snd a))"

definition held :: "(bool \<times> ('r, 'c) pc) multiset \<Rightarrow> 'c multiset" where
  "held A = (\<Sum>a \<in># A. holding (snd a))"

definition logged :: "('r, 'c) future \<Rightarrow> ('c \<times> 'r arg) list" where
  "logged f = fu_calls f @ fu_queue f @ fu_lost f"

text \<open>The value that the callbacks are called with.\<close>

definition due :: "('r, 'c) future \<Rightarrow> 'r arg option" where
  "due f = (case fu_state f of
      SUCCEEDED \<Rightarrow> callback_arg (fu_void f) OnSuccess (fu_cell f)
    | FAILED \<Rightarrow> callback_arg (fu_void f) OnError (fu_cell f)
    | _ \<Rightarrow> None)"

definition fut_inv :: "('r, 'c) future \<Rightarrow> (bool \<times> ('r, 'c) pc) multiset \<Rightarrow> bool" where
  "fut_inv f A \<longleftrightarrow>
     winners A = (if fu_state f = RUNNING \<or> fu_done f then {#} else {#fu_state f#}) \<and>
     (fu_state f = RUNNING \<longrightarrow> \<not> fu_done f) \<and>
     (fu_state f \<in> {RUNNING, CANCELLED} \<and> \<not> fu_void f \<longrightarrow> fu_cell f = Unset) \<and>
     (fu_done f \<longrightarrow> cell_ok f (fu_state f)) \<and>
     (\<forall>a \<in># A. pc_ok f (snd a)) \<and>
     (\<forall>x \<in> set (logged f). fu_done f \<and> due f = Some (snd x)) \<and>
     (\<forall>s. fu_done f \<and> fu_state f = slot_state s \<and> fu_callback f s \<noteq> None \<longrightarrow> (\<exists>a \<in># A. will_take s (snd a)))"

definition slot_content :: "'c option \<Rightarrow> 'c multiset" where
  "slot_content c = (case c of Some d \<Rightarrow> {#d#} | None \<Rightarrow> {#})"

text \<open>Every callback that was ever given to the future, wherever it is now.\<close>

definition accounted :: "('r, 'c) future \<Rightarrow> (bool \<times> ('r, 'c) pc) multiset \<Rightarrow> 'c multiset" where
  "accounted f A = slot_content (fu_callback f OnSuccess) + slot_content (fu_callback f OnError)
     + mset (fu_dropped f) + mset (map fst (logged f)) + held A"

section \<open>Preservation\<close>

lemma winners_simps [simp]: "winners {#} = {#}" "winners (add_mset a A) = claims (snd a) + winners A"
  by (simp_all add: winners_def)

lemma held_simps [simp]: "held {#} = {#}" "held (add_mset a A) = holding (snd a) + held A"
  by (simp_all add: held_def)

lemma slot_content_simps [simp]: "slot_content None = {#}" "slot_content (Some c) = {#c#}"
  by (simp_all add: slot_content_def)

lemma holding_over [simp]: "holding (wait_over b k) = {#}" "claims (wait_over b k) = {#}"
  by (cases k; simp)+

lemma matches_nothing [simp]: "holding (state_matches q) = {#}" "claims (state_matches q) = {#}"
  by (cases q; simp)+

lemma process_logged: "mset (logged (process_events n f)) = mset (logged f)"
  by (simp add: logged_def process_events_def) (metis append_take_drop_id mset_append)

lemma call_logged: "mset (logged (call_application app accepts x f)) = add_mset x (mset (logged f))"
  by (simp add: logged_def call_application_def)

lemma slot_state_inj [simp]: "slot_state s = slot_state t \<longleftrightarrow> s = t"
  by (cases s; cases t) simp_all

lemma slot_state_final [simp]: "slot_state s \<noteq> RUNNING" "slot_state s \<noteq> CANCELLED" "RUNNING \<noteq> slot_state s" "CANCELLED \<noteq> slot_state s"
  by (cases s; simp)+

lemma callback_arg_defined:
  assumes "cell_ok f (fu_state f)" "fu_state f = slot_state s"
  shows "\<exists>a. callback_arg (fu_void f) s (fu_cell f) = Some a"
  using assms by (cases s; cases "fu_cell f") (auto simp: cell_ok_def)

lemma due_slot: "fu_state f = slot_state s \<Longrightarrow> due f = callback_arg (fu_void f) s (fu_cell f)"
  by (cases s) (auto simp: due_def)

lemma same_core:
  assumes "fu_void f1 = fu_void f" "fu_state f1 = fu_state f" "fu_done f1 = fu_done f" "fu_cell f1 = fu_cell f"
  shows "cell_ok f1 st = cell_ok f st" and "due f1 = due f" and "pc_ok f1 p = pc_ok f p"
proof -
  show c: "cell_ok f1 st = cell_ok f st" and "due f1 = due f" for st
    using assms by (auto simp: cell_ok_def due_def cong: fstate.case_cong)
  have q: "query_ok f1 q = query_ok f q" for q using assms by (cases q) auto
  have a: "after_ok f1 k = after_ok f k" for k using assms q by (cases k) auto
  show "pc_ok f1 p = pc_ok f p" using assms q a c by (cases p) auto
qed

text \<open>An activation that owns nothing is not disturbed by the one that owns the future.\<close>

lemma pc_ok_idle:
  assumes "\<not> fu_done f" "claims p = {#}" "fu_void f1 = fu_void f" "pc_ok f p"
  shows "pc_ok f1 p"
proof -
  have q: "query_ok f1 q" if "query_ok f q" for q using assms that by (cases q) auto
  have a: "after_ok f1 k" if "after_ok f k" for k using assms that q by (cases k) auto
  show ?thesis using assms q a by (cases p) auto
qed

lemma winners_empty: "winners A = {#} \<Longrightarrow> a \<in># A \<Longrightarrow> claims (snd a) = {#}"
  by (induction A) auto

lemma others_idle:
  assumes "\<not> fu_done f" "winners A = {#}" "\<forall>a \<in># A. pc_ok f (snd a)" "fu_void f1 = fu_void f" "(b, q) \<in># A"
  shows "pc_ok f1 q"
  using assms winners_empty [of A "(b, q)"] pc_ok_idle [of f q f1] by auto

text \<open>A step that leaves the state, the flag and the union alone.\<close>

lemma quiet_step:
  assumes inv: "fut_inv f (add_mset (app, p) A)"
    and core: "fu_void f1 = fu_void f" "fu_state f1 = fu_state f" "fu_done f1 = fu_done f" "fu_cell f1 = fu_cell f"
    and step: "claims p1 = claims p" "pc_ok f p1"
    and calls: "\<forall>x \<in> set (logged f1). x \<in> set (logged f) \<or> fu_done f \<and> due f = Some (snd x)"
    and slots: "\<And>s. fu_done f \<Longrightarrow> fu_state f = slot_state s \<Longrightarrow> fu_callback f1 s \<noteq> None \<Longrightarrow>
        will_take s p1 \<or> fu_callback f s \<noteq> None \<and> \<not> will_take s p"
  shows "fut_inv f1 (add_mset (app, p1) A)"
proof -
  note same = same_core [OF core]
  have "\<exists>a \<in># add_mset (app, p1) A. will_take s (snd a)"
    if "fu_done f" "fu_state f = slot_state s" "fu_callback f1 s \<noteq> None" for s
    using slots [OF that] inv that(1,2) unfolding fut_inv_def by fastforce
  then show ?thesis using inv step calls core unfolding fut_inv_def same by auto
qed

lemma give_up_defined [simp]: "give_up q \<noteq> Undefined"
  by (cases q) auto

lemma over_take: "after_takes s k \<Longrightarrow> will_take s (wait_over b k)"
  by (cases k) auto

lemma over_ok: "after_ok f k \<Longrightarrow> pc_ok f (wait_over b k)"
  by (cases k) auto

lemma read_defined:
  assumes "pc_ok f (ReadCell q)" "cell_ok f (fu_state f)"
  shows "read_cell q (fu_cell f) \<noteq> Undefined"
  using assms by (cases q; cases "fu_cell f") (auto simp: cell_ok_def)

lemma act_inv:
  assumes inv: "fut_inv f (add_mset (app, p) A)" and act: "fut_act en app p f = (p1, f1)"
  shows "fut_inv f1 (add_mset (app, p1) A)"
proof -
  have ok: "pc_ok f p" and union_cell: "fu_done f \<Longrightarrow> cell_ok f (fu_state f)"
    and win: "claims p + winners A = (if fu_state f = RUNNING \<or> fu_done f then {#} else {#fu_state f#})"
    and rest: "\<forall>a \<in># A. pc_ok f (snd a)"
    using inv by (auto simp: fut_inv_def)
  show ?thesis
  proof (cases p)
    case (ChangeState x)
    show ?thesis
    proof (cases "fu_state f = RUNNING")
      case True
      then have "\<not> fu_done f" "winners A = {#}" using inv win ChangeState by (auto simp: fut_inv_def)
      then have "\<And>b q. (b, q) \<in># A \<Longrightarrow> pc_ok f1 q" using others_idle [of f A f1] rest act ChangeState
        by (auto simp: change_state_def split: if_splits)
      then show ?thesis using inv act ChangeState True \<open>\<not> fu_done f\<close>
        by (cases x) (auto simp: fut_inv_def change_state_def cell_ok_def logged_def split: if_splits)
    next
      case False
      then show ?thesis using act ChangeState by (intro quiet_step [OF inv]) (auto simp: change_state_def)
    qed
  next
    case (StoreCell x)
    then have run: "\<not> fu_done f" "winners A = {#}" "fu_state f = slot_state (outcome_slot x)" using ok win by (auto split: if_splits)
    have "\<And>b q. (b, q) \<in># A \<Longrightarrow> pc_ok f1 q" using others_idle [OF run(1,2) rest, of f1] act StoreCell by auto
    then show ?thesis using inv act StoreCell run
      by (cases x) (auto simp: fut_inv_def cell_ok_def logged_def)
  next
    case (ReleaseDone x)
    then have run: "\<not> fu_done f" "winners A = {#}" "fu_state f = slot_state (outcome_slot x)" using ok win by (auto split: if_splits)
    have "\<And>b q. (b, q) \<in># A \<Longrightarrow> pc_ok f1 q" using others_idle [OF run(1,2) rest, of f1] act ReleaseDone by (auto simp: release_done_def)
    then show ?thesis using inv act ReleaseDone run ok
      by (auto simp: fut_inv_def cell_ok_def logged_def release_done_def)
  next
    case CancelState
    show ?thesis
    proof (cases "fu_state f = RUNNING")
      case True
      then have "\<not> fu_done f" "winners A = {#}" using inv win CancelState by (auto simp: fut_inv_def)
      then have "\<And>b q. (b, q) \<in># A \<Longrightarrow> pc_ok f1 q" using others_idle [of f A f1] rest act CancelState
        by (auto simp: change_state_def split: if_splits)
      then show ?thesis using inv act CancelState True \<open>\<not> fu_done f\<close>
        by (auto simp: fut_inv_def change_state_def logged_def split: if_splits)
    next
      case False
      then show ?thesis using act CancelState by (intro quiet_step [OF inv]) (auto simp: change_state_def)
    qed
  next
    case CancelDone
    then have run: "\<not> fu_done f" "winners A = {#}" "fu_state f = CANCELLED" using ok win by (auto split: if_splits)
    have "\<And>b q. (b, q) \<in># A \<Longrightarrow> pc_ok f1 q" using others_idle [OF run(1,2) rest, of f1] act CancelDone by (auto simp: release_done_def)
    then show ?thesis using inv act CancelDone run ok
      by (auto simp: fut_inv_def cell_ok_def logged_def release_done_def)
  next
    case (TakeCallback s)
    then show ?thesis using act ok
      by (intro quiet_step [OF inv]) (auto simp: exchange_def logged_def split: option.splits if_splits)
  next
    case (CallCallback s c)
    obtain a where a: "callback_arg (fu_void f) s (fu_cell f) = Some a"
      using callback_arg_defined [of f s] union_cell ok CallCallback by auto
    then have "due f = Some a" using ok CallCallback by (simp add: due_slot)
    then show ?thesis using act ok CallCallback a
      by (intro quiet_step [OF inv]) (auto simp: call_application_def logged_def split: if_splits)
  next
    case (SetCallback s c)
    then show ?thesis using act ok
      by (intro quiet_step [OF inv]) (auto simp: set_callback_def exchange_def logged_def split: if_splits)
  next
    case (AcquireDone q)
    then show ?thesis using act ok
      by (intro quiet_step [OF inv]; cases q) (auto split: if_splits)
  next
    case (LoadState q)
    then show ?thesis using act ok
      by (intro quiet_step [OF inv]; cases q) (auto split: if_splits)
  next
    case (ReadCell q)
    then show ?thesis using act ok union_cell read_defined [of f q]
      by (intro quiet_step [OF inv]) auto
  next
    case (WaitStart timeout k)
    then show ?thesis using act ok over_ok [of f k] over_take [of _ k]
      by (intro quiet_step [OF inv]) (auto split: if_splits)
  next
    case (WaitLoop timeout t k)
    then show ?thesis using act ok over_ok [of f k] over_take [of _ k]
      by (intro quiet_step [OF inv]) (auto split: if_splits)
  next
    case (WaitTime timeout t k)
    then show ?thesis using act ok over_ok [of f k] over_take [of _ k]
      by (intro quiet_step [OF inv]) (auto simp: process_events_def logged_def split: if_splits dest: in_set_takeD in_set_dropD)
  next
    case LoadCancelled
    then show ?thesis using act by (intro quiet_step [OF inv]) auto
  next
    case LoadDone
    then show ?thesis using act by (intro quiet_step [OF inv]) auto
  next
    case (Returned x)
    then show ?thesis using act inv by simp
  qed
qed

lemma call_accounted:
  "image_mset fst (mset (logged (call_application app accepts x f))) = add_mset (fst x) (image_mset fst (mset (logged f)))"
  by (simp add: call_logged)

lemma process_accounted: "image_mset fst (mset (logged (process_events n f))) = image_mset fst (mset (logged f))"
  by (simp add: process_logged)

lemma accounted_split: "accounted f (add_mset a A) = accounted f {#} + holding (snd a) + held A"
  by (simp add: accounted_def ac_simps)

lemma call_frame: "fu_callback (call_application app acc x f) = fu_callback f"
    "fu_dropped (call_application app acc x f) = fu_dropped f"
  by (simp_all add: call_application_def)

lemma process_frame: "fu_callback (process_events n f) = fu_callback f" "fu_dropped (process_events n f) = fu_dropped f"
  by (simp_all add: process_events_def)

lemma set_callback_accounted:
  "accounted (set_callback s c f) {#} = add_mset c (accounted f {#})"
  by (cases s; cases "fu_callback f s") (auto simp: accounted_def set_callback_def exchange_def logged_def)

lemma exchange_accounted:
  "accounted f {#} = slot_content (fu_callback f s) + accounted (snd (exchange s None f)) {#}"
  by (cases s) (auto simp: accounted_def exchange_def logged_def)

lemma act_accounted:
  assumes "fut_act en app p f = (p1, f1)" "pc_ok f p" "fu_done f \<longrightarrow> cell_ok f (fu_state f)"
  shows "accounted f1 {#} + holding p1 = accounted f {#} + holding p"
proof (cases p)
  case (TakeCallback s)
  then show ?thesis using assms exchange_accounted [of f s] by (auto split: option.splits prod.splits simp: exchange_def)
next
  case (CallCallback s c)
  obtain a where "callback_arg (fu_void f) s (fu_cell f) = Some a"
    using callback_arg_defined [of f s] assms CallCallback by auto
  then show ?thesis using assms CallCallback by (auto simp: accounted_def call_accounted call_frame)
next
  case (SetCallback s c)
  then show ?thesis using assms set_callback_accounted [of s c f] by auto
next
  case (WaitTime timeout t k)
  then show ?thesis using assms by (auto simp: accounted_def process_accounted process_frame split: if_splits)
qed (use assms in \<open>auto simp: accounted_def change_state_def release_done_def logged_def split: if_splits\<close>)

section \<open>Runs\<close>

fun op_callbacks :: "('r, 'c) future_op \<Rightarrow> 'c multiset" where
  "op_callbacks (OnSuccessOp c) = {#c#}"
| "op_callbacks (OnErrorOp c) = {#c#}"
| "op_callbacks _ = {#}"

fun given :: "('r, 'c) event list \<Rightarrow> 'c multiset" where
  "given [] = {#}"
| "given (Begin app p # es) = op_callbacks p + given es"
| "given (e # es) = given es"

text \<open>A future without a result has no \<open>result()\<close>.\<close>

fun events_ok :: "bool \<Rightarrow> ('r, 'c) event list \<Rightarrow> bool" where
  "events_ok is_void [] \<longleftrightarrow> True"
| "events_ok is_void (Begin app (ResultOp d) # es) \<longleftrightarrow> \<not> is_void \<and> events_ok is_void es"
| "events_ok is_void (e # es) \<longleftrightarrow> events_ok is_void es"

definition run_inv :: "('r, 'c) frun \<Rightarrow> bool" where
  "run_inv s \<longleftrightarrow> fut_inv (fr_future s) (mset (fr_acts s))"

definition run_accounted :: "('r, 'c) frun \<Rightarrow> 'c multiset" where
  "run_accounted s = accounted (fr_future s) (mset (fr_acts s))"

lemma act_void: "fut_act en app p f = (p1, f1) \<Longrightarrow> fu_void f1 = fu_void f"
  by (cases p) (auto simp: change_state_def release_done_def exchange_def set_callback_def call_application_def process_events_def
      split: if_splits option.splits)

lemma act_done: "fut_act en app p f = (p1, f1) \<Longrightarrow> fu_done f \<Longrightarrow> fu_done f1"
  by (cases p) (auto simp: change_state_def release_done_def exchange_def set_callback_def call_application_def process_events_def
      split: if_splits option.splits)

lemma mset_acts:
  assumes "i < length acts" "acts ! i = (app, p)"
  shows "mset acts = add_mset (app, p) (mset acts - {#(app, p)#})"
    "mset (acts[i := x]) = add_mset x (mset acts - {#(app, p)#})"
  using assms nth_mem_mset [OF assms(1)] by (simp_all add: mset_update)

lemma begin_inv:
  assumes "fut_inv f A" "events_ok (fu_void f) [Begin app p]"
  shows "fut_inv f (add_mset (app, start_pc p) A)"
  using assms by (cases p) (auto simp: fut_inv_def)

lemma process_inv:
  assumes "fut_inv f A" shows "fut_inv (process_events n f) A"
proof -
  have core: "fu_void (process_events n f) = fu_void f" "fu_state (process_events n f) = fu_state f"
    "fu_done (process_events n f) = fu_done f" "fu_cell (process_events n f) = fu_cell f"
    by (simp_all add: process_events_def)
  have "set (logged (process_events n f)) = set (logged f)"
    using process_logged [of n f] by (metis set_mset_mset)
  then show ?thesis using assms unfolding fut_inv_def same_core [OF core] core process_frame by simp
qed

lemma event_inv:
  assumes "run_inv s" "events_ok (fu_void (fr_future s)) [e]"
  shows "run_inv (run_event e s) \<and> fu_void (fr_future (run_event e s)) = fu_void (fr_future s) \<and>
    run_accounted (run_event e s) = run_accounted s + given [e]"
proof (cases e)
  case (Begin app p)
  then show ?thesis using assms begin_inv [of "fr_future s" "mset (fr_acts s)" app p]
    by (cases p) (auto simp: run_inv_def run_accounted_def accounted_def)
next
  case (Step i en)
  show ?thesis
  proof (cases "i < length (fr_acts s)")
    case True
    obtain app p where p: "fr_acts s ! i = (app, p)" by fastforce
    obtain p1 f1 where act: "fut_act en app p (fr_future s) = (p1, f1)" by fastforce
    note m = mset_acts [OF True p]
    have inv: "fut_inv (fr_future s) (add_mset (app, p) (mset (fr_acts s) - {#(app, p)#}))"
      using assms m(1) by (simp add: run_inv_def)
    then have ok: "pc_ok (fr_future s) p" "fu_done (fr_future s) \<longrightarrow> cell_ok (fr_future s) (fu_state (fr_future s))"
      by (auto simp: fut_inv_def)
    have "run_accounted (run_event e s) = run_accounted s"
      using act_accounted [OF act ok] Step True p act
      unfolding run_accounted_def by (subst m(1)) (simp add: m(2) accounted_split)
    then show ?thesis using act_inv [OF inv act] act_void [OF act] Step True p act m(2)
      by (simp add: run_inv_def)
  qed (use assms Step in simp)
next
  case (Process n)
  then show ?thesis using assms process_inv [of "fr_future s" "mset (fr_acts s)" n]
    by (simp add: run_inv_def run_accounted_def accounted_def process_accounted process_frame)
      (simp add: process_events_def)
qed

lemma events_ok_Cons: "events_ok v (e # es) \<longleftrightarrow> events_ok v [e] \<and> events_ok v es"
  by (cases "(v, [e])" rule: events_ok.cases) auto

lemma given_Cons: "given (e # es) = given [e] + given es"
  by (cases e) auto

lemma fold_inv:
  assumes "run_inv s" "events_ok (fu_void (fr_future s)) es"
  shows "run_inv (fold run_event es s) \<and> fu_void (fr_future (fold run_event es s)) = fu_void (fr_future s) \<and>
    run_accounted (fold run_event es s) = run_accounted s + given es"
  using assms
proof (induction es arbitrary: s)
  case (Cons e es)
  then have ok: "events_ok (fu_void (fr_future s)) [e]" "events_ok (fu_void (fr_future s)) es"
    using events_ok_Cons [of "fu_void (fr_future s)" e es] by auto
  show ?case using Cons.IH [of "run_event e s"] event_inv [OF Cons.prems(1) ok(1)] ok(2)
    by (simp add: given_Cons [of e es] ac_simps)
qed simp

text \<open>The futures that the constructors make.\<close>

inductive new_future :: "('r, 'c) future \<Rightarrow> bool" where
  "new_future fut_running"
| "new_future (fut_of_result r)"
| "new_future (fut_of_error e)"
| "st \<noteq> FAILED \<Longrightarrow> new_future (fut_void st)"
| "new_future (fut_void_of_error e)"

lemma new_future_inv: "new_future f \<Longrightarrow> fut_inv f {#} \<and> accounted f {#} = {#}"
  by (induction rule: new_future.induct)
    (auto simp: fut_inv_def fut_running_def fut_of_result_def fut_of_error_def fut_void_def fut_void_of_error_def fut_base_def
      cell_ok_def logged_def accounted_def)

lemma run_facts:
  assumes "new_future f" "events_ok (fu_void f) es"
  shows "run_inv (fut_run es f)" "fu_void (fr_future (fut_run es f)) = fu_void f" "run_accounted (fut_run es f) = given es"
  using fold_inv [of "\<lparr>fr_future = f, fr_acts = []\<rparr>" es] new_future_inv [OF assms(1)] assms(2)
  by (auto simp: fut_run_def run_inv_def run_accounted_def)

section \<open>Progress\<close>

fun after_rank :: "'r after \<Rightarrow> nat" where
  "after_rank ReturnWait = 0"
| "after_rank (ThenLoad q) = 3"
| "after_rank (ThenAcquire q) = 6"

fun pc_rank :: "('r, 'c) pc \<Rightarrow> nat" where
  "pc_rank (ChangeState x) = 5"
| "pc_rank (StoreCell x) = 4"
| "pc_rank (ReleaseDone x) = 3"
| "pc_rank (TakeCallback s) = 2"
| "pc_rank (CallCallback s c) = 1"
| "pc_rank CancelState = 2"
| "pc_rank CancelDone = 1"
| "pc_rank (SetCallback s c) = 7"
| "pc_rank (AcquireDone q) = 6"
| "pc_rank (LoadState q) = 3"
| "pc_rank (ReadCell q) = 1"
| "pc_rank (WaitStart timeout k) = 2 + after_rank k"
| "pc_rank (WaitLoop timeout t k) = 1 + after_rank k"
| "pc_rank (WaitTime timeout t k) = 2 + after_rank k"
| "pc_rank LoadCancelled = 1"
| "pc_rank LoadDone = 1"
| "pc_rank (Returned x) = 0"

lemma pc_rank_zero: "pc_rank p = 0 \<longleftrightarrow> (\<exists>x. p = Returned x)"
  by (cases p) auto

lemma after_rank_le: "after_rank k \<le> 6"
  by (cases k) auto

lemma pc_rank_le: "pc_rank p \<le> 8"
  by (cases p) (auto simp: after_rank_le le_trans [OF after_rank_le])

lemma over_rank: "pc_rank (wait_over b k) \<le> after_rank k"
  by (cases k) auto

lemma matches_rank: "pc_rank (state_matches q) \<le> 2"
  by (cases q) auto

lemma act_rank:
  assumes "fut_act en app p f = (p1, f1)" "fu_done f"
  shows "pc_rank p1 \<le> pc_rank p - 1"
  using assms over_rank [of True] over_rank [of False] matches_rank
  by (cases p) (auto simp: le_diff_conv change_state_def exchange_def split: if_splits option.splits
      intro: order_trans [OF over_rank] order_trans [OF matches_rank])

fun own_steps :: "nat \<Rightarrow> ('r, 'c) event list \<Rightarrow> nat" where
  "own_steps i [] = 0"
| "own_steps i (Step j en # es) = (if i = j then Suc (own_steps i es) else own_steps i es)"
| "own_steps i (e # es) = own_steps i es"

lemma event_done:
  assumes "fu_done (fr_future s)" "i < length (fr_acts s)"
  shows "fu_done (fr_future (run_event e s)) \<and> i < length (fr_acts (run_event e s)) \<and>
    pc_rank (snd (fr_acts (run_event e s) ! i)) \<le> pc_rank (snd (fr_acts s ! i)) - own_steps i [e]"
proof (cases e)
  case (Step j en)
  obtain app p where p: "fr_acts s ! j = (app, p)" by fastforce
  obtain p1 f1 where act: "fut_act en app p (fr_future s) = (p1, f1)" by fastforce
  show ?thesis using assms Step p act act_done [OF act] act_rank [OF act]
    by (auto simp: nth_list_update)
qed (use assms in \<open>auto simp: nth_append process_events_def\<close>)

lemma own_steps_Cons: "own_steps i (e # es) = own_steps i [e] + own_steps i es"
  by (cases e) auto

lemma fold_done:
  assumes "fu_done (fr_future s)" "i < length (fr_acts s)"
  shows "pc_rank (snd (fr_acts (fold run_event es s) ! i)) \<le> pc_rank (snd (fr_acts s ! i)) - own_steps i es"
  using assms
proof (induction es arbitrary: s)
  case (Cons e es)
  show ?case using Cons.IH [of "run_event e s"] event_done [OF Cons.prems, of e]
    by (simp add: own_steps_Cons [of i e es], linarith)
qed simp

lemma returned_facts:
  assumes "\<forall>a \<in> set acts. \<exists>x. snd a = Returned x"
  shows "winners (mset acts) = {#}" "held (mset acts) = {#}"
  using assms by (induction acts) auto


section \<open>Properties\<close>

definition demo_env :: env where "demo_env = \<lparr>en_now = 0, en_accepts = True, en_runs = 0\<rparr>"

text \<open>A result is set in another thread while the application registers a callback and asks for the result.\<close>

definition demo_events :: "(nat, nat) event list" where
  "demo_events = [Begin False (SetResultOp 7), Begin True (OnSuccessOp 1), Begin True (ResultOp 9)]
     @ map (\<lambda>i. Step i demo_env) [0, 2, 1, 0, 1, 2, 0, 2, 1, 2, 0, 2, 2, 2, 0, 2, 0, 2, 2, 2] @ [Process 1]"

lemma demo_new: "new_future (fut_running :: (nat, nat) future)"
  by (rule new_future.intros)

definition demo_final :: "(nat, nat) frun" where
  "demo_final = \<lparr>fr_future = \<lparr>fu_void = False, fu_state = SUCCEEDED, fu_done = True, fu_callback = \<lambda>_. None,
       fu_cell = ResultCell 7, fu_calls = [(1, ResultArg 7)], fu_queue = [], fu_lost = [], fu_dropped = []\<rparr>,
     fr_acts = [(False, Returned Void), (True, Returned Void), (True, Returned (Value 7))]\<rparr>"

lemma demo_run: "fut_run demo_events fut_running = demo_final"
  by (simp add: demo_events_def fut_run_def fut_running_def fut_base_def change_state_def demo_env_def
      release_done_def exchange_def set_callback_def call_application_def process_events_def demo_final_def)

lemma demo_events_ok: "events_ok (fu_void (fut_running :: (nat, nat) future)) demo_events"
  by (simp add: demo_events_def fut_running_def fut_base_def)

text \<open>
  C36: Whatever operations run on a future in any threads and however they interleave, none of them reads the
  result before it has been stored or the error of a future that has none; when they have returned, the
  destructor destroys exactly the member that has been constructed.
\<close>

theorem future_union_safe:
  assumes "new_future f" "events_ok (fu_void f) es"
  defines "s \<equiv> fut_run es f"
  shows "(\<forall>a \<in> set (fr_acts s). snd a \<noteq> Returned Undefined) \<and>
    (\<not> fu_void f \<and> (\<forall>a \<in> set (fr_acts s). \<exists>x. snd a = Returned x) \<longrightarrow>
       destructor_of (fu_state (fr_future s)) = constructed (fu_cell (fr_future s)))"
proof -
  have inv: "fut_inv (fr_future s) (mset (fr_acts s))" and v: "fu_void (fr_future s) = fu_void f"
    using run_facts [OF assms(1,2)] by (simp_all add: s_def run_inv_def)
  have "snd a \<noteq> Returned Undefined" if "a \<in> set (fr_acts s)" for a
  proof -
    have "pc_ok (fr_future s) (snd a)" using inv that by (simp add: fut_inv_def)
    then show ?thesis by auto
  qed
  moreover have "destructor_of (fu_state (fr_future s)) = constructed (fu_cell (fr_future s))"
    if "\<not> fu_void f" "\<forall>a \<in> set (fr_acts s). \<exists>x. snd a = Returned x"
    using inv v that(1) returned_facts(1) [OF that(2)]
    by (cases "fu_state (fr_future s)") (auto simp: fut_inv_def cell_ok_def split: if_splits)
  ultimately show ?thesis by blast
qed

lemma future_union_safe_witness:
  "new_future (fut_running :: (nat, nat) future) \<and>
   destructor_of (fu_state (fr_future demo_final)) = constructed (fu_cell (fr_future demo_final))"
  by (rule conjI [OF demo_new mp [OF conjunct2 [OF future_union_safe [OF demo_new demo_events_ok, unfolded demo_run]]]])
    (simp add: demo_final_def fut_running_def fut_base_def)



text \<open>
  C37: Once a future is done, an operation on it returns after at most eight of its own actions, whatever the other
  threads do in between.
\<close>

theorem future_operations_return:
  assumes "fu_done (fr_future (fut_run es1 f))" "i < length (fr_acts (fut_run es1 f))" "8 \<le> own_steps i es2"
  shows "\<exists>x. snd (fr_acts (fut_run (es1 @ es2) f) ! i) = Returned x"
proof -
  let ?s = "fut_run es1 f"
  have "pc_rank (snd (fr_acts (fold run_event es2 ?s) ! i)) \<le> pc_rank (snd (fr_acts ?s ! i)) - own_steps i es2"
    by (rule fold_done [OF assms(1,2)])
  then have "pc_rank (snd (fr_acts (fut_run (es1 @ es2) f) ! i)) = 0"
    using assms(3) pc_rank_le [of "snd (fr_acts ?s ! i)"] by (simp add: fut_run_def)
  then show ?thesis by (simp add: pc_rank_zero)
qed
definition demo_settled :: "(nat, nat) event list" where
  "demo_settled = Begin False (SetResultOp 7) # replicate 3 (Step 0 demo_env) @ [Begin True (ResultOp 9)]"

lemma future_operations_return_witness:
  "\<exists>x. snd (fr_acts (fut_run (demo_settled @ replicate 8 (Step 1 demo_env)) fut_running) ! 1) = Returned x"
  by (rule future_operations_return)
    (simp_all add: demo_settled_def fut_run_def fut_running_def fut_base_def change_state_def release_done_def
      numeral_eq_Suc)

end
