(* ===== verification/Wifi_Credentials.thy ===== *)
theory Wifi_Credentials
  imports Prelude
begin

text \<open>
  The credentials of a WiFi network (\<open>wiring/inc/spark_wiring_wifi_credentials.h\<close>) and the operations of
  \<open>WiFiClass\<close> that pass them on (\<open>wiring/inc/spark_wiring_wifi.h\<close>).  \<open>WiFiCredentials\<close> holds pointers
  into memory of its caller, \<open>WiFiAllocatedCredentials\<close> copies what it is given.  Memory is a map from the
  addresses of live blocks to their bytes.  \<open>new (std::nothrow)\<close> is a parameter \<open>pick\<close> that chooses the
  address of a new block or fails.  An operation that reads memory that is not there is undefined, \<open>None\<close>.
\<close>

section \<open>Memory\<close>

type_synonym heap = "nat \<Rightarrow> u8 list option"

type_synonym alloc_fn = "heap \<Rightarrow> nat \<Rightarrow> nat option"

text \<open>\<open>strlen\<close> needs the terminating zero inside the block.\<close>

definition heap_strlen :: "heap \<Rightarrow> nat \<Rightarrow> nat option" where
  "heap_strlen h a = (case h a of
      None \<Rightarrow> None
    | Some bs \<Rightarrow> if 0 \<in> set bs then Some (length (takeWhile (\<lambda>c. c \<noteq> 0) bs)) else None)"

definition heap_read :: "heap \<Rightarrow> nat \<Rightarrow> nat \<Rightarrow> u8 list option" where
  "heap_read h a n = (case h a of None \<Rightarrow> None | Some bs \<Rightarrow> if n \<le> length bs then Some (take n bs) else None)"

definition heap_free :: "nat option \<Rightarrow> heap \<Rightarrow> heap" where
  "heap_free p h = (case p of None \<Rightarrow> h | Some a \<Rightarrow> h(a := None))"

section \<open>WiFiCredentials\<close>

text \<open>The members of \<open>WLanCredentials\<close> that are a pointer with a length, and the width of that length.\<close>

datatype cred_field = Ssid | Password | InnerIdentity | OuterIdentity | PrivateKey | ClientCertificate | RootCertificate

fun len_width :: "cred_field \<Rightarrow> nat" where
  "len_width Ssid = 32"
| "len_width Password = 32"
| "len_width _ = 16"

record credentials =
  wc_size :: nat
  wc_ptr :: "cred_field \<Rightarrow> nat option"
  wc_len :: "cred_field \<Rightarrow> nat"
  wc_security :: nat
  wc_cipher :: nat
  wc_channel :: u32
  wc_version :: nat
  wc_eap :: nat

definition creds_zero :: credentials where
  "creds_zero = \<lparr>wc_size = 0, wc_ptr = (\<lambda>_. None), wc_len = (\<lambda>_. 0), wc_security = 0, wc_cipher = 0, wc_channel = 0,
     wc_version = 0, wc_eap = 0\<rparr>"

definition set_len_field :: "cred_field \<Rightarrow> nat option \<Rightarrow> nat \<Rightarrow> credentials \<Rightarrow> credentials" where
  "set_len_field f value n c =
     c\<lparr>wc_ptr := (wc_ptr c)(f := value), wc_len := (wc_len c)(f := n mod 2 ^ len_width f)\<rparr>"

text \<open>\<open>SET_STRING_WITH_LEN_FIELD\<close>: a negative length stands for the length of the string.\<close>

definition set_string_with_len :: "cred_field \<Rightarrow> heap \<Rightarrow> nat option \<Rightarrow> int \<Rightarrow> credentials \<Rightarrow> credentials option" where
  "set_string_with_len f h value len c =
     (case value of
        None \<Rightarrow> Some (set_len_field f None 0 c)
      | Some a \<Rightarrow>
          if len < 0 then map_option (\<lambda>n. set_len_field f value n c) (heap_strlen h a)
          else Some (set_len_field f value (nat len) c))"

definition set_security :: "nat \<Rightarrow> credentials \<Rightarrow> credentials" where
  "set_security security c = c\<lparr>wc_security := security\<rparr>"

definition set_ssid :: "heap \<Rightarrow> nat option \<Rightarrow> int \<Rightarrow> credentials \<Rightarrow> credentials option" where
  "set_ssid h ssid len c = set_string_with_len Ssid h ssid len c"

definition set_cipher :: "nat \<Rightarrow> credentials \<Rightarrow> credentials" where
  "set_cipher cipher c = c\<lparr>wc_cipher := cipher\<rparr>"

definition set_password :: "heap \<Rightarrow> nat option \<Rightarrow> int \<Rightarrow> credentials \<Rightarrow> credentials option" where
  "set_password h password len c = set_string_with_len Password h password len c"

definition set_inner_identity :: "heap \<Rightarrow> nat option \<Rightarrow> int \<Rightarrow> credentials \<Rightarrow> credentials option" where
  "set_inner_identity h identity len c = set_string_with_len InnerIdentity h identity len c"

definition set_outer_identity :: "heap \<Rightarrow> nat option \<Rightarrow> int \<Rightarrow> credentials \<Rightarrow> credentials option" where
  "set_outer_identity h identity len c = set_string_with_len OuterIdentity h identity len c"

definition set_eap_type :: "nat \<Rightarrow> credentials \<Rightarrow> credentials" where
  "set_eap_type t c = c\<lparr>wc_eap := t\<rparr>"

definition set_private_key :: "nat option \<Rightarrow> u16 \<Rightarrow> credentials \<Rightarrow> credentials" where
  "set_private_key pkey len c = set_len_field PrivateKey pkey (unat len) c"

definition set_client_certificate :: "nat option \<Rightarrow> u16 \<Rightarrow> credentials \<Rightarrow> credentials" where
  "set_client_certificate cert len c = set_len_field ClientCertificate cert (unat len) c"

definition set_root_certificate :: "nat option \<Rightarrow> u16 \<Rightarrow> credentials \<Rightarrow> credentials" where
  "set_root_certificate cert len c = set_len_field RootCertificate cert (unat len) c"

definition set_channel :: "int \<Rightarrow> credentials \<Rightarrow> credentials" where
  "set_channel ch c = c\<lparr>wc_channel := of_int ch\<rparr>"

text \<open>\<open>sz\<close> is the size of the structure.\<close>

definition get_hal_credentials :: "nat \<Rightarrow> credentials \<Rightarrow> credentials" where
  "get_hal_credentials sz c = c\<lparr>wc_size := sz, wc_version := 3\<rparr>"

definition creds_new :: "nat \<Rightarrow> credentials" where
  "creds_new security = set_security security creds_zero"

definition creds_new_ssid :: "heap \<Rightarrow> nat option \<Rightarrow> nat \<Rightarrow> credentials option" where
  "creds_new_ssid h ssid security = set_ssid h ssid (- 1) (set_security security creds_zero)"

text \<open>The overloads for strings pass \<open>strlen + 1\<close> as a 16-bit length.\<close>

definition string_size16 :: "heap \<Rightarrow> nat \<Rightarrow> u16 option" where
  "string_size16 h a = map_option (\<lambda>n. of_nat (n + 1)) (heap_strlen h a)"

definition set_private_key_string :: "heap \<Rightarrow> nat \<Rightarrow> credentials \<Rightarrow> credentials option" where
  "set_private_key_string h pkey c = map_option (\<lambda>n. set_private_key (Some pkey) n c) (string_size16 h pkey)"

definition set_client_certificate_string :: "heap \<Rightarrow> nat \<Rightarrow> credentials \<Rightarrow> credentials option" where
  "set_client_certificate_string h cert c = map_option (\<lambda>n. set_client_certificate (Some cert) n c) (string_size16 h cert)"

definition set_root_certificate_string :: "heap \<Rightarrow> nat \<Rightarrow> credentials \<Rightarrow> credentials option" where
  "set_root_certificate_string h cert c = map_option (\<lambda>n. set_root_certificate (Some cert) n c) (string_size16 h cert)"

section \<open>WiFiAllocatedCredentials\<close>

record alloc_state =
  as_heap :: heap
  as_creds :: credentials
  as_owned :: "cred_field \<Rightarrow> nat option"

text \<open>
  \<open>member.reset(new (std::nothrow) char[n])\<close>: the new block, with bytes nobody has written, is made before the
  old one is freed.
\<close>

definition reset_member :: "alloc_fn \<Rightarrow> (nat \<Rightarrow> u8 list) \<Rightarrow> cred_field \<Rightarrow> nat \<Rightarrow> alloc_state \<Rightarrow> alloc_state" where
  "reset_member pick junk f n s =
     (let p = pick (as_heap s) n;
          h1 = (case p of None \<Rightarrow> as_heap s | Some a \<Rightarrow> (as_heap s)(a := Some (take n (junk a) @ replicate (n - length (junk a)) 0)))
      in s\<lparr>as_heap := heap_free (as_owned s f) h1, as_owned := (as_owned s)(f := p)\<rparr>)"

text \<open>
  The part that all setters share: copy \<open>n\<close> bytes and let the base class set pointer and length.  A source that
  was no longer there when the setter was called is undefined even if the new block has its address.
\<close>

definition copy_into_member ::
    "alloc_fn \<Rightarrow> (nat \<Rightarrow> u8 list) \<Rightarrow> cred_field \<Rightarrow> nat \<Rightarrow> nat \<Rightarrow> (heap \<Rightarrow> nat option \<Rightarrow> credentials \<Rightarrow> credentials option) \<Rightarrow> alloc_state \<Rightarrow> alloc_state option" where
  "copy_into_member pick junk f source n set_base s =
     (let s1 = reset_member pick junk f n s
      in case as_owned s1 f of
           None \<Rightarrow> Some s1
         | Some a \<Rightarrow>
             (case (if as_heap s source = None then None else heap_read (as_heap s1) source n) of
                None \<Rightarrow> None
              | Some bs \<Rightarrow>
                  let h2 = (as_heap s1)(a := Some bs)
                  in map_option (\<lambda>c. s1\<lparr>as_heap := h2, as_creds := c\<rparr>) (set_base h2 (Some a) (as_creds s1))))"

definition alloc_set_string ::
    "alloc_fn \<Rightarrow> (nat \<Rightarrow> u8 list) \<Rightarrow> cred_field \<Rightarrow> nat option \<Rightarrow> int \<Rightarrow> (heap \<Rightarrow> nat option \<Rightarrow> int \<Rightarrow> credentials \<Rightarrow> credentials option)
       \<Rightarrow> alloc_state \<Rightarrow> alloc_state option" where
  "alloc_set_string pick junk f value len set_base s =
     (case value of
        None \<Rightarrow> Some s
      | Some a \<Rightarrow>
          Option.bind (if len < 0 then map_option int (heap_strlen (as_heap s) a) else Some len)
            (\<lambda>n. if n \<noteq> 0 then copy_into_member pick junk f a (nat n) (\<lambda>h p. set_base h p n) s else Some s))"

definition alloc_set_bytes ::
    "alloc_fn \<Rightarrow> (nat \<Rightarrow> u8 list) \<Rightarrow> cred_field \<Rightarrow> nat option \<Rightarrow> u16 \<Rightarrow> (nat option \<Rightarrow> u16 \<Rightarrow> credentials \<Rightarrow> credentials)
       \<Rightarrow> alloc_state \<Rightarrow> alloc_state option" where
  "alloc_set_bytes pick junk f value len set_base s =
     (case value of
        Some a \<Rightarrow> if len \<noteq> 0 then copy_into_member pick junk f a (unat len) (\<lambda>h p c. Some (set_base p len c)) s else Some s
      | None \<Rightarrow> Some s)"

definition alloc_set_ssid :: "alloc_fn \<Rightarrow> (nat \<Rightarrow> u8 list) \<Rightarrow> nat option \<Rightarrow> int \<Rightarrow> alloc_state \<Rightarrow> alloc_state option" where
  "alloc_set_ssid pick junk ssid len = alloc_set_string pick junk Ssid ssid len set_ssid"

definition alloc_set_password :: "alloc_fn \<Rightarrow> (nat \<Rightarrow> u8 list) \<Rightarrow> nat option \<Rightarrow> int \<Rightarrow> alloc_state \<Rightarrow> alloc_state option" where
  "alloc_set_password pick junk password len = alloc_set_string pick junk Password password len set_password"

definition alloc_set_inner_identity :: "alloc_fn \<Rightarrow> (nat \<Rightarrow> u8 list) \<Rightarrow> nat option \<Rightarrow> int \<Rightarrow> alloc_state \<Rightarrow> alloc_state option" where
  "alloc_set_inner_identity pick junk identity len = alloc_set_string pick junk InnerIdentity identity len set_inner_identity"

text \<open>\<open>setIdentity\<close> of the base class calls the virtual \<open>setInnerIdentity\<close>.\<close>

definition alloc_set_identity :: "alloc_fn \<Rightarrow> (nat \<Rightarrow> u8 list) \<Rightarrow> nat option \<Rightarrow> int \<Rightarrow> alloc_state \<Rightarrow> alloc_state option" where
  "alloc_set_identity pick junk identity len = alloc_set_inner_identity pick junk identity len"

definition alloc_set_outer_identity :: "alloc_fn \<Rightarrow> (nat \<Rightarrow> u8 list) \<Rightarrow> nat option \<Rightarrow> int \<Rightarrow> alloc_state \<Rightarrow> alloc_state option" where
  "alloc_set_outer_identity pick junk identity len = alloc_set_string pick junk OuterIdentity identity len set_outer_identity"

definition alloc_set_private_key :: "alloc_fn \<Rightarrow> (nat \<Rightarrow> u8 list) \<Rightarrow> nat option \<Rightarrow> u16 \<Rightarrow> alloc_state \<Rightarrow> alloc_state option" where
  "alloc_set_private_key pick junk pkey len = alloc_set_bytes pick junk PrivateKey pkey len set_private_key"

definition alloc_set_client_certificate :: "alloc_fn \<Rightarrow> (nat \<Rightarrow> u8 list) \<Rightarrow> nat option \<Rightarrow> u16 \<Rightarrow> alloc_state \<Rightarrow> alloc_state option" where
  "alloc_set_client_certificate pick junk cert len = alloc_set_bytes pick junk ClientCertificate cert len set_client_certificate"

definition alloc_set_root_certificate :: "alloc_fn \<Rightarrow> (nat \<Rightarrow> u8 list) \<Rightarrow> nat option \<Rightarrow> u16 \<Rightarrow> alloc_state \<Rightarrow> alloc_state option" where
  "alloc_set_root_certificate pick junk cert len = alloc_set_bytes pick junk RootCertificate cert len set_root_certificate"

definition alloc_set_private_key_string :: "alloc_fn \<Rightarrow> (nat \<Rightarrow> u8 list) \<Rightarrow> nat \<Rightarrow> alloc_state \<Rightarrow> alloc_state option" where
  "alloc_set_private_key_string pick junk pkey s =
     Option.bind (string_size16 (as_heap s) pkey) (\<lambda>n. alloc_set_private_key pick junk (Some pkey) n s)"

definition alloc_set_client_certificate_string :: "alloc_fn \<Rightarrow> (nat \<Rightarrow> u8 list) \<Rightarrow> nat \<Rightarrow> alloc_state \<Rightarrow> alloc_state option" where
  "alloc_set_client_certificate_string pick junk cert s =
     Option.bind (string_size16 (as_heap s) cert) (\<lambda>n. alloc_set_client_certificate pick junk (Some cert) n s)"

definition alloc_set_root_certificate_string :: "alloc_fn \<Rightarrow> (nat \<Rightarrow> u8 list) \<Rightarrow> nat \<Rightarrow> alloc_state \<Rightarrow> alloc_state option" where
  "alloc_set_root_certificate_string pick junk cert s =
     Option.bind (string_size16 (as_heap s) cert) (\<lambda>n. alloc_set_root_certificate pick junk (Some cert) n s)"

definition cred_fields :: "cred_field list" where
  "cred_fields = [Ssid, Password, InnerIdentity, OuterIdentity, PrivateKey, ClientCertificate, RootCertificate]"

definition free_member :: "cred_field \<Rightarrow> alloc_state \<Rightarrow> alloc_state" where
  "free_member f s = s\<lparr>as_heap := heap_free (as_owned s f) (as_heap s), as_owned := (as_owned s)(f := None)\<rparr>"

definition alloc_reset :: "alloc_state \<Rightarrow> alloc_state" where
  "alloc_reset s = (let s1 = fold free_member cred_fields s in s1\<lparr>as_creds := creds_zero\<rparr>)"

text \<open>
  The constructors.  In the one with a name the base class is constructed first and calls its own \<open>setSsid\<close>:
  the overriding one is not in effect yet.
\<close>

definition alloc_new :: "nat \<Rightarrow> heap \<Rightarrow> alloc_state" where
  "alloc_new security h = \<lparr>as_heap = h, as_creds = creds_new security, as_owned = (\<lambda>_. None)\<rparr>"

definition alloc_new_ssid :: "nat option \<Rightarrow> nat \<Rightarrow> heap \<Rightarrow> alloc_state option" where
  "alloc_new_ssid ssid security h =
     map_option (\<lambda>c. \<lparr>as_heap = h, as_creds = c, as_owned = (\<lambda>_. None)\<rparr>) (creds_new_ssid h ssid security)"

section \<open>WiFiClass\<close>

text \<open>What is passed to \<open>network_set_credentials\<close>.\<close>

definition wifi_credentials_of :: "nat \<Rightarrow> nat option \<Rightarrow> u32 \<Rightarrow> nat option \<Rightarrow> u32 \<Rightarrow> nat \<Rightarrow> nat \<Rightarrow> credentials" where
  "wifi_credentials_of sz ssid ssid_len password password_len security cipher =
     creds_zero\<lparr>wc_size := sz,
       wc_ptr := (wc_ptr creds_zero)(Ssid := ssid, Password := password),
       wc_len := (wc_len creds_zero)(Ssid := unat ssid_len, Password := unat password_len),
       wc_security := security, wc_cipher := cipher\<rparr>"

definition wifi_set_credentials_strings ::
    "nat \<Rightarrow> heap \<Rightarrow> nat option \<Rightarrow> nat option \<Rightarrow> nat \<Rightarrow> nat \<Rightarrow> credentials option" where
  "wifi_set_credentials_strings sz h ssid password security cipher =
     (case (case ssid of None \<Rightarrow> Some 0 | Some a \<Rightarrow> heap_strlen h a, case password of None \<Rightarrow> Some 0 | Some a \<Rightarrow> heap_strlen h a) of
        (Some n, Some k) \<Rightarrow> Some (wifi_credentials_of sz ssid (of_nat n) password (of_nat k) security cipher)
      | _ \<Rightarrow> None)"

definition WPA2 :: nat where "WPA2 = 3"
definition UNSEC :: nat where "UNSEC = 0"

definition wifi_set_credentials_open :: "nat \<Rightarrow> heap \<Rightarrow> nat option \<Rightarrow> credentials option" where
  "wifi_set_credentials_open sz h ssid = wifi_set_credentials_strings sz h ssid None UNSEC 0"

definition wifi_set_credentials_wpa2 :: "nat \<Rightarrow> heap \<Rightarrow> nat option \<Rightarrow> nat option \<Rightarrow> credentials option" where
  "wifi_set_credentials_wpa2 sz h ssid password = wifi_set_credentials_strings sz h ssid password WPA2 0"

definition wifi_set_credentials_ssid :: "nat \<Rightarrow> heap \<Rightarrow> nat option \<Rightarrow> credentials \<Rightarrow> credentials option" where
  "wifi_set_credentials_ssid sz h ssid c =
     (let creds = get_hal_credentials sz c
      in map_option (\<lambda>n. creds\<lparr>wc_ptr := (wc_ptr creds)(Ssid := ssid), wc_len := (wc_len creds)(Ssid := n)\<rparr>)
           (case ssid of None \<Rightarrow> Some 0 | Some a \<Rightarrow> heap_strlen h a))"

definition wifi_set_credentials :: "nat \<Rightarrow> credentials \<Rightarrow> credentials" where
  "wifi_set_credentials sz c = get_hal_credentials sz c"

section \<open>The copies\<close>

datatype cred_op =
    SetSsid "nat option" int | SetPassword "nat option" int | SetIdentity "nat option" int | SetOuterIdentity "nat option" int
  | SetPrivateKey "nat option" u16 | SetClientCertificate "nat option" u16 | SetRootCertificate "nat option" u16
  | ResetAll | CallerStore nat "u8 list option"

text \<open>The caller stores to and frees only memory that the credentials do not own.\<close>

fun run_cred_op :: "alloc_fn \<Rightarrow> (nat \<Rightarrow> u8 list) \<Rightarrow> cred_op \<Rightarrow> alloc_state \<Rightarrow> alloc_state option" where
  "run_cred_op pick junk (SetSsid p n) s = alloc_set_ssid pick junk p n s"
| "run_cred_op pick junk (SetPassword p n) s = alloc_set_password pick junk p n s"
| "run_cred_op pick junk (SetIdentity p n) s = alloc_set_identity pick junk p n s"
| "run_cred_op pick junk (SetOuterIdentity p n) s = alloc_set_outer_identity pick junk p n s"
| "run_cred_op pick junk (SetPrivateKey p n) s = alloc_set_private_key pick junk p n s"
| "run_cred_op pick junk (SetClientCertificate p n) s = alloc_set_client_certificate pick junk p n s"
| "run_cred_op pick junk (SetRootCertificate p n) s = alloc_set_root_certificate pick junk p n s"
| "run_cred_op pick junk ResetAll s = Some (alloc_reset s)"
| "run_cred_op pick junk (CallerStore a b) s =
     (if list_ex (\<lambda>f. as_owned s f = Some a) cred_fields then None else Some (s\<lparr>as_heap := (as_heap s)(a := b)\<rparr>))"

text \<open>
  The specification: the bytes of each field, \<open>None\<close> when nothing is promised.  Setting a field to \<open>n\<close> bytes from
  an address keeps as many of them as the length member can count; when the allocation fails, a field that
  was set before is lost.
\<close>

definition spec_copy :: "alloc_fn \<Rightarrow> alloc_state \<Rightarrow> cred_field \<Rightarrow> nat \<Rightarrow> nat \<Rightarrow> (cred_field \<Rightarrow> u8 list option) \<Rightarrow> cred_field \<Rightarrow> u8 list option" where
  "spec_copy pick s f source n \<sigma> =
     (if n = 0 then \<sigma>
      else if pick (as_heap s) n = None then (if wc_ptr (as_creds s) f = None then \<sigma> else \<sigma>(f := None))
      else \<sigma>(f := Some (take (n mod 2 ^ len_width f) (the (as_heap s source)))))"

definition spec_string :: "alloc_fn \<Rightarrow> alloc_state \<Rightarrow> cred_field \<Rightarrow> nat option \<Rightarrow> int \<Rightarrow> (cred_field \<Rightarrow> u8 list option) \<Rightarrow> cred_field \<Rightarrow> u8 list option" where
  "spec_string pick s f p n \<sigma> =
     (case p of None \<Rightarrow> \<sigma>
      | Some a \<Rightarrow> spec_copy pick s f a (if n < 0 then the (heap_strlen (as_heap s) a) else nat n) \<sigma>)"

definition spec_bytes :: "alloc_fn \<Rightarrow> alloc_state \<Rightarrow> cred_field \<Rightarrow> nat option \<Rightarrow> u16 \<Rightarrow> (cred_field \<Rightarrow> u8 list option) \<Rightarrow> cred_field \<Rightarrow> u8 list option" where
  "spec_bytes pick s f p n \<sigma> = (case p of None \<Rightarrow> \<sigma> | Some a \<Rightarrow> spec_copy pick s f a (unat n) \<sigma>)"

fun spec_cred_op :: "alloc_fn \<Rightarrow> cred_op \<Rightarrow> alloc_state \<Rightarrow> (cred_field \<Rightarrow> u8 list option) \<Rightarrow> cred_field \<Rightarrow> u8 list option" where
  "spec_cred_op pick (SetSsid p n) s \<sigma> = spec_string pick s Ssid p n \<sigma>"
| "spec_cred_op pick (SetPassword p n) s \<sigma> = spec_string pick s Password p n \<sigma>"
| "spec_cred_op pick (SetIdentity p n) s \<sigma> = spec_string pick s InnerIdentity p n \<sigma>"
| "spec_cred_op pick (SetOuterIdentity p n) s \<sigma> = spec_string pick s OuterIdentity p n \<sigma>"
| "spec_cred_op pick (SetPrivateKey p n) s \<sigma> = spec_bytes pick s PrivateKey p n \<sigma>"
| "spec_cred_op pick (SetClientCertificate p n) s \<sigma> = spec_bytes pick s ClientCertificate p n \<sigma>"
| "spec_cred_op pick (SetRootCertificate p n) s \<sigma> = spec_bytes pick s RootCertificate p n \<sigma>"
| "spec_cred_op pick ResetAll s \<sigma> = (\<lambda>_. Some [])"
| "spec_cred_op pick (CallerStore a b) s \<sigma> = \<sigma>"

primrec cred_run ::
    "alloc_fn \<Rightarrow> (nat \<Rightarrow> u8 list) \<Rightarrow> cred_op list \<Rightarrow> alloc_state \<Rightarrow> (cred_field \<Rightarrow> u8 list option) \<Rightarrow> (alloc_state \<times> (cred_field \<Rightarrow> u8 list option)) option" where
  "cred_run pick junk [] s \<sigma> = Some (s, \<sigma>)"
| "cred_run pick junk (p # ps) s \<sigma> =
     Option.bind (run_cred_op pick junk p s) (\<lambda>s1. cred_run pick junk ps s1 (spec_cred_op pick p s \<sigma>))"

text \<open>What the HAL reads through pointer and length of a field.\<close>

definition field_bytes :: "alloc_state \<Rightarrow> cred_field \<Rightarrow> u8 list option" where
  "field_bytes s f = (case wc_ptr (as_creds s) f of
      None \<Rightarrow> Some []
    | Some a \<Rightarrow> heap_read (as_heap s) a (wc_len (as_creds s) f))"

definition field_ok :: "alloc_state \<Rightarrow> cred_field \<Rightarrow> u8 list option \<Rightarrow> bool" where
  "field_ok s f b \<longleftrightarrow>
     (\<forall>a. as_owned s f = Some a \<longrightarrow> as_heap s a \<noteq> None) \<and>
     (\<forall>bs. b = Some bs \<longrightarrow> wc_ptr (as_creds s) f = as_owned s f \<and> field_bytes s f = Some bs)"

definition cred_inv :: "alloc_state \<Rightarrow> (cred_field \<Rightarrow> u8 list option) \<Rightarrow> bool" where
  "cred_inv s \<sigma> \<longleftrightarrow> (\<forall>f. field_ok s f (\<sigma> f)) \<and>
     (\<forall>f g a. as_owned s f = Some a \<and> as_owned s g = Some a \<longrightarrow> f = g)"

text \<open>A new block is not one that is in use.\<close>

definition pick_fresh :: "alloc_fn \<Rightarrow> bool" where
  "pick_fresh pick \<longleftrightarrow> (\<forall>h n a. pick h n = Some a \<longrightarrow> h a = None)"

lemma field_ok_cong:
  assumes "field_ok s f b" "as_owned s1 f = as_owned s f" "wc_ptr (as_creds s1) f = wc_ptr (as_creds s) f"
    "wc_len (as_creds s1) f = wc_len (as_creds s) f" "\<And>a. as_owned s f = Some a \<Longrightarrow> as_heap s1 a = as_heap s a"
  shows "field_ok s1 f b"
proof (cases b)
  case None
  then show ?thesis using assms by (auto simp: field_ok_def)
next
  case (Some bs)
  then have p: "wc_ptr (as_creds s) f = as_owned s f" "field_bytes s f = Some bs" using assms(1) by (auto simp: field_ok_def)
  have "field_bytes s1 f = field_bytes s f"
    using assms(2-5) p(1) by (cases "as_owned s f") (simp_all add: field_bytes_def heap_read_def)
  then show ?thesis using assms p Some by (auto simp: field_ok_def)
qed

lemma cred_inv_step:
  assumes inv: "cred_inv s \<sigma>"
    and others: "\<And>g. g \<noteq> f \<Longrightarrow> as_owned s1 g = as_owned s g \<and> wc_ptr (as_creds s1) g = wc_ptr (as_creds s) g \<and>
        wc_len (as_creds s1) g = wc_len (as_creds s) g"
    and heap: "\<And>g a. g \<noteq> f \<Longrightarrow> as_owned s g = Some a \<Longrightarrow> as_heap s1 a = as_heap s a"
    and apart: "\<And>g a. g \<noteq> f \<Longrightarrow> as_owned s g = Some a \<Longrightarrow> as_owned s1 f \<noteq> Some a"
    and self: "field_ok s1 f b"
  shows "cred_inv s1 (\<sigma>(f := b))"
proof -
  have "field_ok s1 g ((\<sigma>(f := b)) g)" for g
  proof (cases "g = f")
    case False
    then show ?thesis
      using inv others [OF False] heap [OF False] by (auto simp: cred_inv_def intro: field_ok_cong [of s g])
  qed (use self in simp)
  moreover have "g = g'" if "as_owned s1 g = Some a" "as_owned s1 g' = Some a" for g g' a
    using inv others apart that unfolding cred_inv_def by metis
  ultimately show ?thesis by (auto simp: cred_inv_def)
qed

lemma owned_apart:
  assumes "cred_inv s \<sigma>" "g \<noteq> f" "as_owned s g = Some a" "as_owned s f = Some b"
  shows "a \<noteq> b"
  using assms unfolding cred_inv_def by blast

lemma owned_alive: "cred_inv s \<sigma> \<Longrightarrow> as_owned s g = Some a \<Longrightarrow> as_heap s a \<noteq> None"
  unfolding cred_inv_def field_ok_def by blast

lemma free_other:
  assumes "cred_inv s \<sigma>" "g \<noteq> f" "as_owned s g = Some a"
  shows "heap_free (as_owned s f) h a = h a"
  using owned_apart [OF assms] by (auto simp: heap_free_def split: option.splits)

lemma copy_inv:
  assumes inv: "cred_inv s \<sigma>" and fresh: "pick_fresh pick" and n: "n \<noteq> 0"
    and base: "\<And>h a c. set_base h (Some a) c = Some (set_len_field f (Some a) n c)"
    and run: "copy_into_member pick junk f source n set_base s = Some s1"
  shows "cred_inv s1 (spec_copy pick s f source n \<sigma>)"
proof (cases "pick (as_heap s) n")
  case None
  then have s1: "s1 = s\<lparr>as_heap := heap_free (as_owned s f) (as_heap s), as_owned := (as_owned s)(f := None)\<rparr>"
    using run by (simp add: copy_into_member_def reset_member_def)
  have self: "field_ok s1 f (if wc_ptr (as_creds s) f = None then \<sigma> f else None)"
  proof (cases "wc_ptr (as_creds s) f")
    case None
    then show ?thesis using inv unfolding cred_inv_def
      by (auto simp: s1 field_ok_def field_bytes_def dest!: spec [of _ f])
  qed (simp add: s1 field_ok_def)
  have "cred_inv s1 (\<sigma>(f := (if wc_ptr (as_creds s) f = None then \<sigma> f else None)))"
    by (rule cred_inv_step [OF inv]) (simp_all add: s1 free_other [OF inv] self [unfolded s1])
  then show ?thesis using None n by (auto simp: spec_copy_def split: if_splits)
next
  case (Some a)
  have new: "as_heap s a = None" using fresh Some by (simp add: pick_fresh_def)
  let ?s0 = "reset_member pick junk f n s"
  have s0: "as_owned ?s0 = (as_owned s)(f := Some a)" "as_creds ?s0 = as_creds s"
    "as_heap ?s0 = heap_free (as_owned s f) ((as_heap s)(a := Some (take n (junk a) @ replicate (n - length (junk a)) 0)))"
    using Some by (simp_all add: reset_member_def)
  obtain bs where bs: "heap_read (as_heap ?s0) source n = Some bs" "as_heap s source \<noteq> None"
      and s1: "s1 = ?s0\<lparr>as_heap := (as_heap ?s0)(a := Some bs), as_creds := set_len_field f (Some a) n (as_creds s)\<rparr>"
    using run s0 base by (auto simp: copy_into_member_def Let_def split: option.splits if_splits)
  have len: "length bs = n" using bs by (auto simp: heap_read_def split: option.splits if_splits)
  have src: "bs = take n (the (as_heap s source))"
    using bs s0 new by (auto simp: heap_read_def heap_free_def split: option.splits if_splits)
  have self: "field_ok s1 f (Some (take (n mod 2 ^ len_width f) bs))"
    using len by (auto simp: s1 s0 field_ok_def field_bytes_def heap_read_def set_len_field_def)
  have "cred_inv s1 (\<sigma>(f := Some (take (n mod 2 ^ len_width f) bs)))"
  proof (rule cred_inv_step [OF inv])
    fix g b assume g: "g \<noteq> f" "as_owned s g = Some b"
    then have "b \<noteq> a" using owned_alive [OF inv g(2)] new by auto
    then show "as_heap s1 b = as_heap s b" "as_owned s1 f \<noteq> Some b"
      using g by (simp_all add: s1 s0 free_other [OF inv])
  qed (use self in \<open>simp_all add: s1 s0 set_len_field_def\<close>)
  moreover have "take (n mod 2 ^ len_width f) bs = take (n mod 2 ^ len_width f) (the (as_heap s source))"
    using src by (simp add: min_def)
  ultimately show ?thesis using Some n by (simp add: spec_copy_def)
qed

lemma string_inv:
  assumes inv: "cred_inv s \<sigma>" and fresh: "pick_fresh pick"
    and base: "\<And>h p n c. set_base h p n c = set_string_with_len f h p n c"
    and run: "alloc_set_string pick junk f p len set_base s = Some s1"
  shows "cred_inv s1 (spec_string pick s f p len \<sigma>)"
proof (cases p)
  case (Some a)
  obtain n where n: "(if len < 0 then map_option int (heap_strlen (as_heap s) a) else Some len) = Some n"
      "(if n \<noteq> 0 then copy_into_member pick junk f a (nat n) (\<lambda>h p. set_base h p n) s else Some s) = Some s1"
    using run Some by (auto simp: alloc_set_string_def bind_eq_Some_conv)
  then have k: "0 \<le> n" "spec_string pick s f p len \<sigma> = spec_copy pick s f a (nat n) \<sigma>"
    using Some by (auto simp: spec_string_def split: if_splits)
  show ?thesis
  proof (cases "n = 0")
    case False
    then show ?thesis using n(2) k
      by (auto intro!: copy_inv [OF inv fresh, where set_base = "\<lambda>h p. set_base h p n" and junk = junk]
          simp: base set_string_with_len_def)
  qed (use n k inv in \<open>simp add: spec_copy_def\<close>)
qed (use run inv in \<open>simp add: alloc_set_string_def spec_string_def\<close>)

lemma bytes_inv:
  assumes inv: "cred_inv s \<sigma>" and fresh: "pick_fresh pick"
    and base: "\<And>p n c. set_base p n c = set_len_field f p (unat n) c"
    and run: "alloc_set_bytes pick junk f p len set_base s = Some s1"
  shows "cred_inv s1 (spec_bytes pick s f p len \<sigma>)"
proof (cases p)
  case (Some a)
  show ?thesis
  proof (cases "len = 0")
    case False
    then have "unat len \<noteq> 0" by (simp add: unsigned_eq_0_iff)
    then show ?thesis using run Some False
      by (auto intro!: copy_inv [OF inv fresh, where junk = junk and set_base = "\<lambda>h p c. Some (set_base p len c)"]
          simp: base alloc_set_bytes_def spec_bytes_def)
  qed (use run Some inv in \<open>simp add: alloc_set_bytes_def spec_bytes_def spec_copy_def\<close>)
qed (use run inv in \<open>simp add: alloc_set_bytes_def spec_bytes_def\<close>)

lemma fold_free_owned: "as_owned (fold free_member fs s) f = (if f \<in> set fs then None else as_owned s f)"
  by (induction fs arbitrary: s) (auto simp: free_member_def)

lemma all_fields: "f \<in> set cred_fields"
  by (cases f) (simp_all add: cred_fields_def)

lemma reset_inv: "cred_inv (alloc_reset s) (\<lambda>_. Some [])"
  using all_fields
  by (auto simp: cred_inv_def field_ok_def field_bytes_def alloc_reset_def Let_def fold_free_owned creds_zero_def)

lemma new_inv: "cred_inv (alloc_new security h) (\<lambda>_. Some [])"
  by (auto simp: cred_inv_def field_ok_def field_bytes_def alloc_new_def creds_new_def set_security_def creds_zero_def)

lemmas setter_defs = alloc_set_ssid_def alloc_set_password_def alloc_set_identity_def alloc_set_inner_identity_def
  alloc_set_outer_identity_def alloc_set_private_key_def alloc_set_client_certificate_def alloc_set_root_certificate_def

lemma cred_op_inv:
  assumes inv: "cred_inv s \<sigma>" and fresh: "pick_fresh pick"
    and run: "run_cred_op pick junk p s = Some s1"
  shows "cred_inv s1 (spec_cred_op pick p s \<sigma>)"
proof (cases p)
  case (CallerStore a b)
  have "\<not> list_ex (\<lambda>f. as_owned s f = Some a) cred_fields" and s1: "s1 = s\<lparr>as_heap := (as_heap s)(a := b)\<rparr>"
    using run CallerStore by (simp_all split: if_splits)
  then have free: "as_owned s f \<noteq> Some a" for f using all_fields [of f] by (simp add: list_ex_iff)
  have ok: "field_ok s f (\<sigma> f)" for f using inv by (simp add: cred_inv_def)
  have "field_ok s1 f (\<sigma> f)" for f by (rule field_ok_cong [OF ok]) (use free in \<open>auto simp: s1\<close>)
  moreover have "as_owned s1 = as_owned s" by (simp add: s1)
  ultimately show ?thesis using inv CallerStore by (simp add: cred_inv_def)
next
  case ResetAll
  then show ?thesis using run reset_inv by auto
next
  case (SetSsid v n)
  then show ?thesis using run by (auto simp: setter_defs intro: string_inv [OF inv fresh set_ssid_def])
next
  case (SetPassword v n)
  then show ?thesis using run by (auto simp: setter_defs intro: string_inv [OF inv fresh set_password_def])
next
  case (SetIdentity v n)
  then show ?thesis using run by (auto simp: setter_defs intro: string_inv [OF inv fresh set_inner_identity_def])
next
  case (SetOuterIdentity v n)
  then show ?thesis using run by (auto simp: setter_defs intro: string_inv [OF inv fresh set_outer_identity_def])
next
  case (SetPrivateKey v n)
  then show ?thesis using run by (auto simp: setter_defs intro: bytes_inv [OF inv fresh set_private_key_def])
next
  case (SetClientCertificate v n)
  then show ?thesis using run by (auto simp: setter_defs intro: bytes_inv [OF inv fresh set_client_certificate_def])
next
  case (SetRootCertificate v n)
  then show ?thesis using run by (auto simp: setter_defs intro: bytes_inv [OF inv fresh set_root_certificate_def])
qed

lemma cred_run_inv:
  assumes "cred_inv s \<sigma>" "pick_fresh pick" "cred_run pick junk ps s \<sigma> = Some (s1, \<sigma>1)"
  shows "cred_inv s1 \<sigma>1"
  using assms
proof (induction ps arbitrary: s \<sigma>)
  case (Cons p ps)
  obtain s2 where s2: "run_cred_op pick junk p s = Some s2"
      "cred_run pick junk ps s2 (spec_cred_op pick p s \<sigma>) = Some (s1, \<sigma>1)"
    using Cons.prems(3) by (auto simp: bind_eq_Some_conv)
  show ?case
    by (rule Cons.IH [OF cred_op_inv [OF Cons.prems(1,2) s2(1)] Cons.prems(2) s2(2)])
qed simp

section \<open>Properties\<close>

fun setter_op :: "cred_field \<Rightarrow> nat \<Rightarrow> u16 \<Rightarrow> cred_op" where
  "setter_op Ssid p n = SetSsid (Some p) (uint n)"
| "setter_op Password p n = SetPassword (Some p) (uint n)"
| "setter_op InnerIdentity p n = SetIdentity (Some p) (uint n)"
| "setter_op OuterIdentity p n = SetOuterIdentity (Some p) (uint n)"
| "setter_op PrivateKey p n = SetPrivateKey (Some p) n"
| "setter_op ClientCertificate p n = SetClientCertificate (Some p) n"
| "setter_op RootCertificate p n = SetRootCertificate (Some p) n"

text \<open>The allocator of the examples: the first free address of four.\<close>

definition first_free :: alloc_fn where
  "first_free h n = find (\<lambda>a. h a = None) [0, 1, 2, 3]"

lemma first_free_fresh: "pick_fresh first_free"
  by (auto simp: pick_fresh_def first_free_def find_Some_iff)

definition demo_heap :: heap where
  "demo_heap = (\<lambda>_. None)(0 := Some [0x61, 0x62, 0])"

text \<open>The name is copied, the caller overwrites its string, a password of two bytes is set and the name set again.\<close>

definition demo_ops :: "cred_op list" where
  "demo_ops = [SetSsid (Some 0) (- 1), CallerStore 0 (Some [0x63, 0x64, 0x65]), SetPassword (Some 0) 2, SetSsid (Some 0) 3]"

lemma demo_eval:
  "map_option (\<lambda>(s, \<sigma>). (\<sigma> Ssid, \<sigma> Password)) (cred_run first_free (\<lambda>_. []) demo_ops (alloc_new 3 demo_heap) (\<lambda>_. Some []))
     = Some (Some [0x63, 0x64, 0x65], Some [0x63, 0x64])"
  by (simp add: demo_ops_def demo_heap_def alloc_new_def creds_new_def set_security_def creds_zero_def setter_defs
      alloc_set_string_def heap_strlen_def copy_into_member_def reset_member_def first_free_def heap_free_def heap_read_def
      set_ssid_def set_password_def set_string_with_len_def set_len_field_def spec_string_def spec_copy_def cred_fields_def Let_def)

lemma demo_result:
  obtains s \<sigma> where "cred_run first_free (\<lambda>_. []) demo_ops (alloc_new 3 demo_heap) (\<lambda>_. Some []) = Some (s, \<sigma>)"
    "\<sigma> Ssid = Some [0x63, 0x64, 0x65]" "\<sigma> Password = Some [0x63, 0x64]"
  using demo_eval by (auto split: prod.splits)

text \<open>
  C38: Unless an allocation has failed, the credentials that \<open>WiFiAllocatedCredentials\<close> hands to the system are
  the bytes that were last set, whatever the caller has done with its memory since: pointer and length of
  every field describe a live block that the object owns.  A key set to a length that does not fit its length
  member is cut off.
\<close>

theorem credentials_hold_copies:
  assumes "pick_fresh pick" "cred_run pick junk ps (alloc_new security h) (\<lambda>_. Some []) = Some (s, \<sigma>)" "\<sigma> f = Some bs"
  shows "field_bytes s f = Some bs \<and> wc_ptr (as_creds s) f = as_owned s f \<and>
    (\<forall>a. as_owned s f = Some a \<longrightarrow> as_heap s a \<noteq> None \<and> (\<forall>g. g \<noteq> f \<longrightarrow> as_owned s g \<noteq> Some a))"
proof -
  have inv: "cred_inv s \<sigma>" by (rule cred_run_inv [OF new_inv assms(1,2)])
  then have "field_ok s f (Some bs)" using assms(3) by (metis cred_inv_def)
  moreover have "as_owned s g \<noteq> Some a" if "as_owned s f = Some a" "g \<noteq> f" for a g
    using inv that unfolding cred_inv_def by blast
  ultimately show ?thesis by (auto simp: field_ok_def)
qed

lemma credentials_hold_copies_witness:
  "\<exists>s \<sigma>. cred_run first_free (\<lambda>_. []) demo_ops (alloc_new 3 demo_heap) (\<lambda>_. Some []) = Some (s, \<sigma>) \<and>
     field_bytes s Ssid = Some [0x63, 0x64, 0x65] \<and> field_bytes s Password = Some [0x63, 0x64]"
proof -
  obtain s \<sigma> where run: "cred_run first_free (\<lambda>_. []) demo_ops (alloc_new 3 demo_heap) (\<lambda>_. Some []) = Some (s, \<sigma>)"
      and spec: "\<sigma> Ssid = Some [0x63, 0x64, 0x65]" "\<sigma> Password = Some [0x63, 0x64]"
    by (rule demo_result)
  show ?thesis
    using run conjunct1 [OF credentials_hold_copies [OF first_free_fresh run spec(1)]]
      conjunct1 [OF credentials_hold_copies [OF first_free_fresh run spec(2)]] by blast
qed

text \<open>
  When the memory for a new value cannot be allocated, the setters of \<open>WiFiAllocatedCredentials\<close> report
  nothing and leave the credentials with a pointer to the old buffer, which has been freed, and its old length.
\<close>

theorem failed_allocation_dangles:
  assumes "pick (as_heap s) (unat n) = None" "n \<noteq> 0" "as_owned s f = Some a" "wc_ptr (as_creds s) f = Some a"
  shows "\<exists>s1. run_cred_op pick junk (setter_op f source n) s = Some s1 \<and> as_creds s1 = as_creds s \<and>
    wc_ptr (as_creds s1) f = Some a \<and> as_heap s1 a = None \<and> field_bytes s1 f = None"
proof -
  let ?s1 = "s\<lparr>as_heap := (as_heap s)(a := None), as_owned := (as_owned s)(f := None)\<rparr>"
  have copy: "copy_into_member pick junk f source (unat n) sb s = Some ?s1" for sb
    using assms by (simp add: copy_into_member_def reset_member_def heap_free_def)
  have "run_cred_op pick junk (setter_op f source n) s = Some ?s1"
    using assms(2) copy by (cases f) (simp_all add: setter_defs alloc_set_string_def alloc_set_bytes_def unsigned_eq_0_iff)
  then show ?thesis using assms by (simp add: field_bytes_def heap_read_def)
qed

definition demo_state :: alloc_state where
  "demo_state = \<lparr>as_heap = (\<lambda>_. None)(5 := Some [0x61]), as_creds = set_len_field Ssid (Some 5) 1 creds_zero, as_owned = (\<lambda>_. None)(Ssid := Some 5)\<rparr>"

lemma failed_allocation_dangles_witness:
  "\<exists>s1. run_cred_op (\<lambda>_ _. None) (\<lambda>_. []) (setter_op Ssid 7 3) demo_state = Some s1 \<and> as_creds s1 = as_creds demo_state \<and>
    wc_ptr (as_creds s1) Ssid = Some 5 \<and> as_heap s1 5 = None \<and> field_bytes s1 Ssid = None"
  by (rule failed_allocation_dangles) (simp_all add: demo_state_def set_len_field_def)

text \<open>The constructor with a name keeps the caller's pointer; a key of \<open>2 ^ 16 - 1\<close> characters has size 0 and is not stored.\<close>

lemma named_constructor_borrows:
  "alloc_new_ssid (Some p) security h = Some s \<Longrightarrow> wc_ptr (as_creds s) Ssid = Some p \<and> as_owned s Ssid = None"
  by (auto simp: alloc_new_ssid_def creds_new_ssid_def set_ssid_def set_string_with_len_def set_len_field_def split: if_splits)

lemma long_key_ignored:
  assumes "heap_strlen (as_heap s) key = Some 65535"
  shows "alloc_set_private_key_string pick junk key s = Some s"
  using assms by (simp add: alloc_set_private_key_string_def string_size16_def alloc_set_private_key_def alloc_set_bytes_def)
end
