(* ===== verification/Diagnostics.thy ===== *)
theory Diagnostics
  imports Prelude
begin

text \<open>
  Diagnostic data sources (\<open>wiring/inc/spark_wiring_diagnostics.h\<close>) with the concurrency policies they are
  parametrised by (\<open>wiring/inc/spark_wiring_thread.h\<close>, \<open>wiring/inc/spark_wiring_interrupts.h\<close>) and the hash of
  \<open>wiring/inc/combine_hash.h\<close>.  An operation is a sequence of actions on the shared cell; interrupts arrive
  between any two of them and run to completion unless they are masked, in which case they stay pending until
  they are enabled again.
\<close>

section \<open>Interrupts and concurrency policies\<close>

record 'i cpu =
  cp_enabled :: bool
  cp_pending :: "'i list"

text \<open>\<open>isr\<close> is what an interrupt does to the cell.\<close>

definition arrive :: "('i \<Rightarrow> 'v \<Rightarrow> 'v) \<Rightarrow> 'i list \<Rightarrow> 'i cpu \<times> 'v \<Rightarrow> 'i cpu \<times> 'v" where
  "arrive isr is s =
     (if cp_enabled (fst s) then (fst s, fold isr is (snd s))
      else ((fst s)\<lparr>cp_pending := cp_pending (fst s) @ is\<rparr>, snd s))"

text \<open>\<open>HAL_disable_irq\<close> returns whether interrupts were enabled, \<open>HAL_enable_irq\<close> restores that.\<close>

definition disable_irq :: "'i cpu \<Rightarrow> bool \<times> 'i cpu" where
  "disable_irq c = (cp_enabled c, c\<lparr>cp_enabled := False\<rparr>)"

definition enable_irq :: "('i \<Rightarrow> 'v \<Rightarrow> 'v) \<Rightarrow> bool \<Rightarrow> 'i cpu \<times> 'v \<Rightarrow> 'i cpu \<times> 'v" where
  "enable_irq isr prev s =
     (if prev then ((fst s)\<lparr>cp_enabled := True, cp_pending := []\<rparr>, fold isr (cp_pending (fst s)) (snd s)) else s)"

text \<open>A policy: the interrupts it runs under, \<open>lock\<close> and \<open>unlock\<close>.\<close>

record ('l, 'i, 'v) concurrency =
  cc_isr :: "'i \<Rightarrow> 'v \<Rightarrow> 'v"
  cc_lock :: "'i cpu \<Rightarrow> 'l \<times> 'i cpu"
  cc_unlock :: "'l \<Rightarrow> 'i cpu \<times> 'v \<Rightarrow> 'i cpu \<times> 'v"

definition no_concurrency :: "('i \<Rightarrow> 'v \<Rightarrow> 'v) \<Rightarrow> (unit, 'i, 'v) concurrency" where
  "no_concurrency isr = \<lparr>cc_isr = isr, cc_lock = (\<lambda>c. ((), c)), cc_unlock = (\<lambda>_ s. s)\<rparr>"

definition atomic_concurrency :: "('i \<Rightarrow> 'v \<Rightarrow> 'v) \<Rightarrow> (bool, 'i, 'v) concurrency" where
  "atomic_concurrency isr = \<lparr>cc_isr = isr, cc_lock = disable_irq, cc_unlock = enable_irq isr\<rparr>"

text \<open>
  An operation: \<open>lock\<close>, a read of the cell, its writes (each a function of what was read and of the cell), \<open>unlock\<close>.
  \<open>g k\<close> are the interrupts that arrive before its action \<open>k\<close>.
\<close>

primrec run_writes ::
    "('i \<Rightarrow> 'v \<Rightarrow> 'v) \<Rightarrow> (nat \<Rightarrow> 'i list) \<Rightarrow> nat \<Rightarrow> 'v \<Rightarrow> ('v \<Rightarrow> 'v \<Rightarrow> 'v) list \<Rightarrow> 'i cpu \<times> 'v \<Rightarrow> 'i cpu \<times> 'v" where
  "run_writes isr g k t [] s = s"
| "run_writes isr g k t (w # ws) s = run_writes isr g (Suc k) t ws (arrive isr (g k) (fst s, w t (snd s)))"

definition guarded ::
    "('l, 'i, 'v) concurrency \<Rightarrow> (nat \<Rightarrow> 'i list) \<Rightarrow> ('v \<Rightarrow> 'r) \<Rightarrow> ('v \<Rightarrow> 'v \<Rightarrow> 'v) list \<Rightarrow> 'i cpu \<times> 'v \<Rightarrow> 'r \<times> 'i cpu \<times> 'v" where
  "guarded P g result ws s =
     (let s0 = arrive (cc_isr P) (g 0) s;
          (l, c) = cc_lock P (fst s0);
          s1 = arrive (cc_isr P) (g 1) (c, snd s0);
          t = snd s1;
          s2 = run_writes (cc_isr P) g 3 t ws (arrive (cc_isr P) (g 2) s1)
      in (result t, cc_unlock P l s2))"

section \<open>IntegerDiagnosticData\<close>

datatype int_op = PreInc | PostInc | PreDec | PostDec | AddAssign u32 | SubAssign u32 | Assign u32 | Read

text \<open>\<open>IntType\<close> is a 32-bit integer.\<close>

definition int_pre_inc :: "('l, 'i, u32) concurrency \<Rightarrow> (nat \<Rightarrow> 'i list) \<Rightarrow> 'i cpu \<times> u32 \<Rightarrow> u32 \<times> 'i cpu \<times> u32" where
  "int_pre_inc P g = guarded P g (\<lambda>t. t + 1) [\<lambda>t v. t + 1]"

definition int_post_inc :: "('l, 'i, u32) concurrency \<Rightarrow> (nat \<Rightarrow> 'i list) \<Rightarrow> 'i cpu \<times> u32 \<Rightarrow> u32 \<times> 'i cpu \<times> u32" where
  "int_post_inc P g = guarded P g (\<lambda>t. t) [\<lambda>t v. t + 1]"

definition int_pre_dec :: "('l, 'i, u32) concurrency \<Rightarrow> (nat \<Rightarrow> 'i list) \<Rightarrow> 'i cpu \<times> u32 \<Rightarrow> u32 \<times> 'i cpu \<times> u32" where
  "int_pre_dec P g = guarded P g (\<lambda>t. t - 1) [\<lambda>t v. t - 1]"

definition int_post_dec :: "('l, 'i, u32) concurrency \<Rightarrow> (nat \<Rightarrow> 'i list) \<Rightarrow> 'i cpu \<times> u32 \<Rightarrow> u32 \<times> 'i cpu \<times> u32" where
  "int_post_dec P g = guarded P g (\<lambda>t. t) [\<lambda>t v. t - 1]"

definition int_add_assign :: "u32 \<Rightarrow> ('l, 'i, u32) concurrency \<Rightarrow> (nat \<Rightarrow> 'i list) \<Rightarrow> 'i cpu \<times> u32 \<Rightarrow> u32 \<times> 'i cpu \<times> u32" where
  "int_add_assign d P g = guarded P g (\<lambda>t. t + d) [\<lambda>t v. t + d]"

definition int_sub_assign :: "u32 \<Rightarrow> ('l, 'i, u32) concurrency \<Rightarrow> (nat \<Rightarrow> 'i list) \<Rightarrow> 'i cpu \<times> u32 \<Rightarrow> u32 \<times> 'i cpu \<times> u32" where
  "int_sub_assign d P g = guarded P g (\<lambda>t. t - d) [\<lambda>t v. t - d]"

definition int_assign :: "u32 \<Rightarrow> ('l, 'i, u32) concurrency \<Rightarrow> (nat \<Rightarrow> 'i list) \<Rightarrow> 'i cpu \<times> u32 \<Rightarrow> u32 \<times> 'i cpu \<times> u32" where
  "int_assign d P g = guarded P g (\<lambda>t. d) [\<lambda>t v. d]"

definition int_read :: "('l, 'i, u32) concurrency \<Rightarrow> (nat \<Rightarrow> 'i list) \<Rightarrow> 'i cpu \<times> u32 \<Rightarrow> u32 \<times> 'i cpu \<times> u32" where
  "int_read P g = guarded P g (\<lambda>t. t) []"

fun run_int_op :: "('l, 'i, u32) concurrency \<Rightarrow> (nat \<Rightarrow> 'i list) \<Rightarrow> int_op \<Rightarrow> 'i cpu \<times> u32 \<Rightarrow> u32 \<times> 'i cpu \<times> u32" where
  "run_int_op P g PreInc = int_pre_inc P g"
| "run_int_op P g PostInc = int_post_inc P g"
| "run_int_op P g PreDec = int_pre_dec P g"
| "run_int_op P g PostDec = int_post_dec P g"
| "run_int_op P g (AddAssign d) = int_add_assign d P g"
| "run_int_op P g (SubAssign d) = int_sub_assign d P g"
| "run_int_op P g (Assign d) = int_assign d P g"
| "run_int_op P g Read = int_read P g"

text \<open>The specialization for \<open>AtomicConcurrency\<close>: \<open>std::atomic\<close>, one action each.\<close>

definition fetch_add :: "u32 \<Rightarrow> u32 \<Rightarrow> u32 \<times> u32" where
  "fetch_add d v = (v, v + d)"

definition fetch_sub :: "u32 \<Rightarrow> u32 \<Rightarrow> u32 \<times> u32" where
  "fetch_sub d v = (v, v - d)"

fun atomic_int_op :: "int_op \<Rightarrow> u32 \<Rightarrow> u32 \<times> u32" where
  "atomic_int_op PreInc v = (let (t, v1) = fetch_add 1 v in (t + 1, v1))"
| "atomic_int_op PostInc v = fetch_add 1 v"
| "atomic_int_op PreDec v = (let (t, v1) = fetch_sub 1 v in (t - 1, v1))"
| "atomic_int_op PostDec v = fetch_sub 1 v"
| "atomic_int_op (AddAssign d) v = (let (t, v1) = fetch_add d v in (t + d, v1))"
| "atomic_int_op (SubAssign d) v = (let (t, v1) = fetch_sub d v in (t - d, v1))"
| "atomic_int_op (Assign d) v = (d, d)"
| "atomic_int_op Read v = (v, v)"

section \<open>EnumDiagnosticData\<close>

text \<open>The casts between the enumeration and \<open>IntType\<close> are parameters.\<close>

definition enum_assign :: "('e \<Rightarrow> u32) \<Rightarrow> 'e \<Rightarrow> ('l, 'i, u32) concurrency \<Rightarrow> (nat \<Rightarrow> 'i list) \<Rightarrow> 'i cpu \<times> u32 \<Rightarrow> unit \<times> 'i cpu \<times> u32" where
  "enum_assign code x P g = guarded P g (\<lambda>t. ()) [\<lambda>t v. code x]"

definition enum_read :: "(u32 \<Rightarrow> 'e) \<Rightarrow> ('l, 'i, u32) concurrency \<Rightarrow> (nat \<Rightarrow> 'i list) \<Rightarrow> 'i cpu \<times> u32 \<Rightarrow> 'e \<times> 'i cpu \<times> u32" where
  "enum_read decode P g = guarded P g decode []"

definition enum_get :: "('l, 'i, u32) concurrency \<Rightarrow> (nat \<Rightarrow> 'i list) \<Rightarrow> 'i cpu \<times> u32 \<Rightarrow> u32 \<times> 'i cpu \<times> u32" where
  "enum_get P g = guarded P g (\<lambda>t. t) []"

definition atomic_enum_assign :: "('e \<Rightarrow> u32) \<Rightarrow> 'e \<Rightarrow> u32 \<Rightarrow> u32" where
  "atomic_enum_assign code x v = code x"

definition atomic_enum_read :: "(u32 \<Rightarrow> 'e) \<Rightarrow> u32 \<Rightarrow> 'e" where
  "atomic_enum_read decode v = decode v"

section \<open>Retained storage\<close>

definition combine_hash :: "u32 \<Rightarrow> u32 \<Rightarrow> u32" where
  "combine_hash h seed = seed XOR (h + 0x9E3779B9 + push_bit 6 seed + drop_bit 2 seed)"

record 'v storage =
  rs_val :: 'v
  rs_check :: u32

text \<open>\<open>hash_id\<close> and \<open>hash_val\<close> are \<open>std::hash\<close>.\<close>

definition rs_checksum :: "(u16 \<Rightarrow> u32) \<Rightarrow> ('v \<Rightarrow> u32) \<Rightarrow> u16 \<Rightarrow> 'v storage \<Rightarrow> u32" where
  "rs_checksum hash_id hash_val i st = combine_hash (hash_val (rs_val st)) (combine_hash (hash_id i) 0)"

definition rs_init :: "(u16 \<Rightarrow> u32) \<Rightarrow> ('v \<Rightarrow> u32) \<Rightarrow> u16 \<Rightarrow> 'v \<Rightarrow> 'v storage \<Rightarrow> 'v storage" where
  "rs_init hash_id hash_val i v st =
     (let check = rs_checksum hash_id hash_val i st
      in if rs_check st \<noteq> check then st\<lparr>rs_val := v, rs_check := check\<rparr> else st)"

definition rs_update :: "(u16 \<Rightarrow> u32) \<Rightarrow> ('v \<Rightarrow> u32) \<Rightarrow> u16 \<Rightarrow> 'v storage \<Rightarrow> 'v storage" where
  "rs_update hash_id hash_val i st = st\<lparr>rs_check := rs_checksum hash_id hash_val i st\<rparr>"

section \<open>PersistentIntegerDiagnosticData and PersistentEnumDiagnosticData\<close>

text \<open>\<open>upd\<close> is \<open>storage_.update(id())\<close>.\<close>

definition persistent_modify ::
    "('v storage \<Rightarrow> 'v storage) \<Rightarrow> ('v \<Rightarrow> 'r) \<Rightarrow> ('v \<Rightarrow> 'v) \<Rightarrow> ('l, 'i, 'v storage) concurrency \<Rightarrow> (nat \<Rightarrow> 'i list)
       \<Rightarrow> 'i cpu \<times> 'v storage \<Rightarrow> 'r \<times> 'i cpu \<times> 'v storage" where
  "persistent_modify upd result f P g =
     guarded P g (\<lambda>t. result (rs_val t)) [\<lambda>t st. st\<lparr>rs_val := f (rs_val t)\<rparr>, \<lambda>t st. upd st]"

fun persistent_op ::
    "(u32 storage \<Rightarrow> u32 storage) \<Rightarrow> int_op \<Rightarrow> ('l, 'i, u32 storage) concurrency \<Rightarrow> (nat \<Rightarrow> 'i list)
       \<Rightarrow> 'i cpu \<times> u32 storage \<Rightarrow> u32 \<times> 'i cpu \<times> u32 storage" where
  "persistent_op upd PreInc P g s = persistent_modify upd (\<lambda>t. t + 1) (\<lambda>t. t + 1) P g s"
| "persistent_op upd PostInc P g s = persistent_modify upd (\<lambda>t. t) (\<lambda>t. t + 1) P g s"
| "persistent_op upd PreDec P g s = persistent_modify upd (\<lambda>t. t - 1) (\<lambda>t. t - 1) P g s"
| "persistent_op upd PostDec P g s = persistent_modify upd (\<lambda>t. t) (\<lambda>t. t - 1) P g s"
| "persistent_op upd (AddAssign d) P g s = persistent_modify upd (\<lambda>t. t + d) (\<lambda>t. t + d) P g s"
| "persistent_op upd (SubAssign d) P g s = persistent_modify upd (\<lambda>t. t - d) (\<lambda>t. t - d) P g s"
| "persistent_op upd (Assign d) P g s = persistent_modify upd (\<lambda>t. d) (\<lambda>t. d) P g s"
| "persistent_op upd Read P g s = guarded P g rs_val [] s"

definition persistent_enum_assign ::
    "('v storage \<Rightarrow> 'v storage) \<Rightarrow> ('e \<Rightarrow> 'v) \<Rightarrow> 'e \<Rightarrow> ('l, 'i, 'v storage) concurrency \<Rightarrow> (nat \<Rightarrow> 'i list)
       \<Rightarrow> 'i cpu \<times> 'v storage \<Rightarrow> unit \<times> 'i cpu \<times> 'v storage" where
  "persistent_enum_assign upd code x P g = persistent_modify upd (\<lambda>t. ()) (\<lambda>t. code x) P g"

definition persistent_enum_read ::
    "('v \<Rightarrow> 'e) \<Rightarrow> ('l, 'i, 'v storage) concurrency \<Rightarrow> (nat \<Rightarrow> 'i list) \<Rightarrow> 'i cpu \<times> 'v storage \<Rightarrow> 'e \<times> 'i cpu \<times> 'v storage" where
  "persistent_enum_read decode P g = guarded P g (\<lambda>t. decode (rs_val t)) []"

section \<open>Data sources\<close>

definition DIAG_ERROR_NONE :: int where "DIAG_ERROR_NONE = 0"
definition DIAG_NOT_SUPPORTED :: int where "DIAG_NOT_SUPPORTED = - 120"
definition DIAG_TOO_LARGE :: int where "DIAG_TOO_LARGE = - 190"
definition DIAG_TYPE_INT :: nat where "DIAG_TYPE_INT = 1"
definition DIAG_SOURCE_CMD_GET :: int where "DIAG_SOURCE_CMD_GET = 1"

text \<open>
  A data source with the \<open>get\<close> of its class, which reports a value or an error.  A buffer is where the value is
  stored, \<open>None\<close> for a null pointer; the results are the error, the stored value and the size.
\<close>

record diag_source =
  ds_id :: u16
  ds_type :: nat
  ds_get :: "int \<times> u32"

definition int_data_get :: "int \<times> u32 \<Rightarrow> bool \<Rightarrow> nat \<Rightarrow> int \<times> u32 option \<times> nat" where
  "int_data_get get_value has_buffer sz =
     (if \<not> has_buffer then (DIAG_ERROR_NONE, None, 4)
      else if sz < 4 then (DIAG_TOO_LARGE, None, sz)
      else let (ret, val) = get_value in (ret, Some val, if ret = DIAG_ERROR_NONE then 4 else sz))"

definition diag_callback :: "diag_source \<Rightarrow> int \<Rightarrow> bool \<Rightarrow> nat \<Rightarrow> int \<times> u32 option \<times> nat" where
  "diag_callback src cmd has_buffer sz =
     (if cmd = DIAG_SOURCE_CMD_GET then int_data_get (ds_get src) has_buffer sz
      else (DIAG_NOT_SUPPORTED, None, sz))"

definition diag_get_src :: "diag_source \<Rightarrow> bool \<Rightarrow> nat \<Rightarrow> int \<times> u32 option \<times> nat" where
  "diag_get_src src has_buffer sz =
     (let (ret, val, data_size) = diag_callback src DIAG_SOURCE_CMD_GET has_buffer sz
      in (ret, val, if ret = DIAG_ERROR_NONE then data_size else sz))"

text \<open>\<open>lookup\<close> is \<open>diag_get_source\<close>: an error, or the source with the identifier.\<close>

definition diag_get :: "(u16 \<Rightarrow> int + diag_source) \<Rightarrow> u16 \<Rightarrow> bool \<Rightarrow> nat \<Rightarrow> int \<times> u32 option \<times> nat" where
  "diag_get lookup i has_buffer sz = (case lookup i of Inl ret \<Rightarrow> (ret, None, sz) | Inr src \<Rightarrow> diag_get_src src has_buffer sz)"

definition int_diag_get_src :: "diag_source \<Rightarrow> (int \<times> u32 option) option" where
  "int_diag_get_src src =
     (if ds_type src = DIAG_TYPE_INT then let (ret, val, n) = diag_get_src src True 4 in Some (ret, val) else None)"

definition int_diag_get :: "(u16 \<Rightarrow> int + diag_source) \<Rightarrow> u16 \<Rightarrow> (int \<times> u32 option) option" where
  "int_diag_get lookup i = (case lookup i of Inl ret \<Rightarrow> Some (ret, None) | Inr src \<Rightarrow> int_diag_get_src src)"

section \<open>What a policy guarantees\<close>

lemma arrive_enabled: "cp_enabled (fst (arrive isr is s)) = cp_enabled (fst s)"
  by (simp add: arrive_def)

lemma run_writes_enabled: "cp_enabled (fst (run_writes isr g k t ws s)) = cp_enabled (fst s)"
  by (induction ws arbitrary: k s) (simp_all add: arrive_enabled)

text \<open>Every policy leaves the mask as it found it.\<close>

locale policy =
  fixes P :: "('l, 'i, 'v) concurrency"
  assumes restores: "cc_lock P c = (l, c1) \<Longrightarrow> cp_enabled (fst s) = cp_enabled c1 \<Longrightarrow> cp_enabled (fst (cc_unlock P l s)) = cp_enabled c"
begin

lemma guarded_restores: "cp_enabled (fst (snd (guarded P g result ws s))) = cp_enabled (fst s)"
proof -
  obtain l c where lock: "cc_lock P (fst (arrive (cc_isr P) (g 0) s)) = (l, c)" by fastforce
  show ?thesis unfolding guarded_def Let_def lock
    by (simp add: restores [OF lock] run_writes_enabled arrive_enabled)
qed

end

text \<open>An excluding policy masks interrupts; \<open>unlock\<close> runs what has arrived if they were enabled before.\<close>

locale excluding = policy P for P :: "('l, 'i, 'v) concurrency" +
  assumes masks: "cc_lock P c = (l, c1) \<Longrightarrow> c1 = c\<lparr>cp_enabled := False\<rparr>"
    and unmasks: "cc_lock P c = (l, c1) \<Longrightarrow> cc_unlock P l s = enable_irq (cc_isr P) (cp_enabled c) s"
begin

lemma masked_arrive:
  "\<not> cp_enabled c \<Longrightarrow> arrive isr is (c, v) = (c\<lparr>cp_pending := cp_pending c @ is\<rparr>, v)"
  by (simp add: arrive_def)

lemma masked_writes:
  "\<not> cp_enabled c \<Longrightarrow> run_writes isr g k t ws (c, v)
     = (c\<lparr>cp_pending := cp_pending c @ concat (map g [k..<k + length ws])\<rparr>, fold (\<lambda>w. w t) ws v)"
proof (induction ws arbitrary: k c v)
  case (Cons w ws)
  have "[k..<k + length (w # ws)] = k # [Suc k..<Suc k + length ws]" by (simp add: upt_conv_Cons del: upt_Suc)
  then show ?case using Cons by (simp add: masked_arrive del: upt_Suc)
qed simp

lemma guarded_linear:
  fixes v :: 'v and g :: "nat \<Rightarrow> 'i list"
  assumes "cp_enabled c" "cp_pending c = []"
  defines "v0 \<equiv> fold (cc_isr P) (g 0) v"
  shows "guarded P g result ws (c, v)
     = (result v0, c, fold (cc_isr P) (concat (map g [1..<3 + length ws])) (fold (\<lambda>w. w v0) ws v0))"
proof -
  obtain l c1 where lock: "cc_lock P c = (l, c1)" by fastforce
  have c1: "c1 = c\<lparr>cp_enabled := False\<rparr>" by (rule masks [OF lock])
  have upt: "[Suc 0..<3 + length ws] = Suc 0 # 2 # [3..<3 + length ws]"
    by (simp add: upt_conv_Cons eval_nat_numeral del: upt_Suc)
  show ?thesis
    using assms(1,2) lock
    by (simp add: guarded_def arrive_def c1 masked_writes unmasks [OF lock] enable_irq_def Let_def v0_def upt)
qed

end

interpretation unlocked: policy "no_concurrency isr" for isr
  by unfold_locales (auto simp: no_concurrency_def)

interpretation critical: excluding "atomic_concurrency isr" for isr
  by unfold_locales (auto simp: atomic_concurrency_def disable_irq_def enable_irq_def)


lemma loses_updates:
  assumes "cp_enabled c"
  shows "guarded (no_concurrency isr) g result ws (c, v) =
    (let t = fold isr (g 0 @ g 1) v in (result t, run_writes isr g 3 t ws (c, fold isr (g 2) t)))"
  using assms by (simp add: guarded_def arrive_def no_concurrency_def Let_def)

section \<open>Properties\<close>

text \<open>
  C39: In a critical section every operation on an integer source behaves as the single action of the
  specialization with \<open>std::atomic\<close>: the interrupts before its lock have run, those that arrive later run after
  it, none is lost and none is seen half way.  Without a policy an increment that an interrupt makes between
  the read and the write of another increment is lost.
\<close>

theorem critical_section_is_atomic:
  fixes c :: "'i cpu" and g :: "nat \<Rightarrow> 'i list"
  assumes "cp_enabled c" "cp_pending c = []"
  defines "later \<equiv> \<lambda>op :: int_op. concat (map g [1..<(if op = Read then 3 else 4)])"
  shows "run_int_op (atomic_concurrency isr) g op (c, v) =
      (let (r, v1) = atomic_int_op op (fold isr (g 0) v) in (r, c, fold isr (later op) v1)) \<and>
    (g 0 = [] \<and> g 1 = [] \<and> g 3 = [] \<longrightarrow> snd (snd (run_int_op (no_concurrency isr) g PreInc (c, v))) = v + 1)"
proof -
  note linear = critical.guarded_linear [OF assms(1,2)]
  have isr: "cc_isr (atomic_concurrency isr) = isr" for isr :: "'i \<Rightarrow> 'v \<Rightarrow> 'v" by (simp add: atomic_concurrency_def)
  have "run_int_op (atomic_concurrency isr) g op (c, v) =
      (let (r, v1) = atomic_int_op op (fold isr (g 0) v) in (r, c, fold isr (later op) v1))"
    by (cases op) (simp_all add: int_pre_inc_def int_post_inc_def int_pre_dec_def int_post_dec_def int_add_assign_def
        int_sub_assign_def int_assign_def int_read_def linear isr later_def fetch_add_def fetch_sub_def)
  moreover have "snd (snd (run_int_op (no_concurrency isr) g PreInc (c, v))) = v + 1" if "g 0 = []" "g 1 = []" "g 3 = []"
    using that assms(1) by (simp add: int_pre_inc_def loses_updates Let_def arrive_def)
  ultimately show ?thesis by blast
qed

definition demo_cpu :: "nat cpu" where "demo_cpu = \<lparr>cp_enabled = True, cp_pending = []\<rparr>"

text \<open>Two increments by interrupts while the value is being incremented.\<close>

lemma critical_section_is_atomic_witness:
  "cp_enabled demo_cpu \<and>
   run_int_op (atomic_concurrency (\<lambda>n v. v + of_nat n)) (\<lambda>k. if k = 2 then [1, 1] else []) PreInc (demo_cpu, 5) = (6, demo_cpu, 8)"
  using critical_section_is_atomic [where c = demo_cpu and g = "\<lambda>k. if k = 2 then [1, 1] else []" and isr = "\<lambda>n v. v + of_nat n" and op = PreInc and v = 5]
  by (simp add: demo_cpu_def upt_rec fetch_add_def)

text \<open>The values of a persistent source, and its storage after operations without interruptions.\<close>

definition op_value :: "int_op \<Rightarrow> u32 \<Rightarrow> u32" where
  "op_value op v = snd (atomic_int_op op v)"

definition persistent_after :: "(u32 storage \<Rightarrow> u32 storage) \<Rightarrow> int_op \<Rightarrow> u32 storage \<Rightarrow> u32 storage" where
  "persistent_after upd op st =
     snd (snd (persistent_op upd op (no_concurrency (\<lambda>_ :: unit. \<lambda>v. v)) (\<lambda>_. []) (\<lparr>cp_enabled = True, cp_pending = []\<rparr>, st)))"

lemma persistent_after_step:
  "persistent_after upd op st = (if op = Read then st else upd (st\<lparr>rs_val := op_value op (rs_val st)\<rparr>))"
  by (cases op) (simp_all add: persistent_after_def persistent_modify_def loses_updates arrive_def Let_def op_value_def
      fetch_add_def fetch_sub_def)

definition rs_ok :: "(u16 \<Rightarrow> u32) \<Rightarrow> ('v \<Rightarrow> u32) \<Rightarrow> u16 \<Rightarrow> 'v storage \<Rightarrow> bool" where
  "rs_ok hash_id hash_val i st \<longleftrightarrow> rs_check st = rs_checksum hash_id hash_val i st"

lemma update_ok: "rs_ok hash_id hash_val i (rs_update hash_id hash_val i st)" "rs_val (rs_update hash_id hash_val i st) = rs_val st"
  by (simp_all add: rs_ok_def rs_update_def rs_checksum_def)

lemma init_ok: "rs_ok hash_id hash_val i st \<Longrightarrow> rs_init hash_id hash_val i v st = st"
  by (simp add: rs_ok_def rs_init_def)

lemma persistent_run:
  assumes "rs_ok hash_id hash_val i st"
  shows "rs_ok hash_id hash_val i (fold (persistent_after (rs_update hash_id hash_val i)) ops st) \<and>
    rs_val (fold (persistent_after (rs_update hash_id hash_val i)) ops st) = fold op_value ops (rs_val st)"
  using assms
proof (induction ops arbitrary: st)
  case (Cons op ops)
  have "rs_ok hash_id hash_val i (persistent_after (rs_update hash_id hash_val i) op st)"
    "rs_val (persistent_after (rs_update hash_id hash_val i) op st) = op_value op (rs_val st)"
    using Cons.prems by (simp_all add: update_ok persistent_after_step op_value_def)
  then show ?case using Cons.IH by simp
qed simp

text \<open>
  C40: The value of a persistent source survives a reset: whatever operations have been performed, initialising the
  storage again keeps the last value, and a reset between the two writes of an operation gives the new value
  or the initial one, never another.
\<close>

theorem retained_value_survives_reset:
  fixes hash_id :: "u16 \<Rightarrow> u32" and hash_val :: "u32 \<Rightarrow> u32" and ops :: "int_op list"
  assumes "rs_ok hash_id hash_val i st"
  defines "upd \<equiv> rs_update hash_id hash_val i"
  defines "final \<equiv> fold (persistent_after upd) ops st"
  shows "rs_val (rs_init hash_id hash_val i v0 final) = fold op_value ops (rs_val st) \<and>
    rs_ok hash_id hash_val i (rs_init hash_id hash_val i v0 final) \<and>
    rs_val (rs_init hash_id hash_val i v0 (final\<lparr>rs_val := x\<rparr>))
      = (if rs_checksum hash_id hash_val i (final\<lparr>rs_val := x\<rparr>) = rs_check final then x else v0)"
proof -
  have "rs_ok hash_id hash_val i final" "rs_val final = fold op_value ops (rs_val st)"
    using persistent_run [OF assms(1), of ops] by (simp_all add: final_def upd_def)
  then show ?thesis by (auto simp: rs_ok_def rs_init_def Let_def)
qed

definition demo_storage :: "u32 storage" where
  "demo_storage = rs_update (\<lambda>i. ucast i) (\<lambda>v. v) 7 \<lparr>rs_val = 3, rs_check = 0\<rparr>"

lemma retained_value_survives_reset_witness:
  "rs_val (rs_init (\<lambda>i. ucast i) (\<lambda>v. v) 7 0 (fold (persistent_after (rs_update (\<lambda>i. ucast i) (\<lambda>v. v) 7)) [PreInc, AddAssign 10] demo_storage)) = 14"
  using conjunct1 [OF retained_value_survives_reset [of "\<lambda>i. ucast i" "\<lambda>v. v" 7 demo_storage 0 "[PreInc, AddAssign 10]" 0]]
  by (simp add: demo_storage_def update_ok op_value_def fetch_add_def)

text \<open>
  The first initialisation stores the checksum of what the memory held before, so that the next reset does not
  recognise the value as valid.
\<close>

lemma first_init_not_recognised:
  assumes "\<not> rs_ok hash_id hash_val i st" "rs_checksum hash_id hash_val i (st\<lparr>rs_val := v\<rparr>) \<noteq> rs_checksum hash_id hash_val i st"
  shows "rs_val (rs_init hash_id hash_val i w (rs_init hash_id hash_val i v st)) = w"
  using assms by (simp add: rs_ok_def rs_init_def Let_def rs_checksum_def)

lemma int_diag_get_value:
  assumes "lookup i = Inr \<lparr>ds_id = i, ds_type = DIAG_TYPE_INT, ds_get = (DIAG_ERROR_NONE, v)\<rparr>"
  shows "int_diag_get lookup i = Some (DIAG_ERROR_NONE, Some v)"
  using assms by (simp add: int_diag_get_def int_diag_get_src_def diag_get_src_def diag_callback_def int_data_get_def)

end
