(* ===== verification/Mdns_Buffer.thy ===== *)
theory Mdns_Buffer
  imports Prelude
begin

text \<open>
  The packet buffer of the mDNS responder (\<open>Buffer.h\<close> and \<open>Buffer.cpp\<close> of the library
  \<open>RedBear_Duo\<close>).  The offsets are 16-bit words that wrap; \<open>bf_data\<close> is the memory that starts at
  \<open>data\<close>, so that a read at an offset of \<open>size\<close> or more finds whatever lies behind the allocated
  block.  The socket is a parameter: \<open>udp_read\<close> gives the result of \<open>UDP::read\<close>, the bytes it has
  stored and the new state of the socket, \<open>udp_write\<close> takes the bytes that are sent.
\<close>

section \<open>The buffer\<close>

definition INVALID_MARK_OFFSET :: u16 where "INVALID_MARK_OFFSET = 0xffff"

record buffer =
  bf_data :: "nat \<Rightarrow> u8"
  bf_size :: u16
  bf_limit :: u16
  bf_offset :: u16
  bf_mark :: u16

text \<open>\<open>alloc\<close> is \<open>malloc\<close>: the memory it returns, or nothing.\<close>

definition buffer_new :: "(u16 \<Rightarrow> (nat \<Rightarrow> u8) option) \<Rightarrow> u16 \<Rightarrow> buffer" where
  "buffer_new alloc capacity =
     (case alloc capacity of
        Some m \<Rightarrow> \<lparr>bf_data = m, bf_size = capacity, bf_limit = 0, bf_offset = 0, bf_mark = INVALID_MARK_OFFSET\<rparr>
      | None \<Rightarrow> \<lparr>bf_data = (\<lambda>_. 0), bf_size = 0, bf_limit = 0, bf_offset = 0, bf_mark = INVALID_MARK_OFFSET\<rparr>)"

definition available :: "buffer \<Rightarrow> u16" where
  "available b = (if bf_offset b < bf_limit b then bf_limit b - bf_offset b else bf_offset b - bf_limit b)"

definition buffer_mark :: "buffer \<Rightarrow> buffer" where
  "buffer_mark b = (if bf_mark b = INVALID_MARK_OFFSET then b\<lparr>bf_mark := bf_offset b\<rparr> else b)"

definition buffer_reset :: "buffer \<Rightarrow> buffer" where
  "buffer_reset b =
     (if bf_mark b \<noteq> INVALID_MARK_OFFSET then b\<lparr>bf_offset := bf_mark b, bf_mark := INVALID_MARK_OFFSET\<rparr> else b)"

definition setOffset :: "u16 \<Rightarrow> buffer \<Rightarrow> buffer" where
  "setOffset offset b = b\<lparr>bf_offset := offset\<rparr>"

definition getOffset :: "buffer \<Rightarrow> u16" where
  "getOffset b = bf_offset b"

type_synonym 'u udp_read = "'u \<Rightarrow> nat \<Rightarrow> int \<times> u8 list \<times> 'u"
type_synonym 'u udp_write = "u8 list \<Rightarrow> 'u \<Rightarrow> 'u"

definition buffer_read :: "'u udp_read \<Rightarrow> 'u \<Rightarrow> buffer \<Rightarrow> 'u \<times> buffer" where
  "buffer_read udp_read u b =
     (let (n, bs, u') = udp_read u (unat (bf_size b))
      in (u', b\<lparr>bf_offset := 0,
               bf_data := (\<lambda>i. if i < length bs then bs ! i else bf_data b i),
               bf_limit := word_of_int n\<rparr>))"

definition readUInt8 :: "buffer \<Rightarrow> u8 \<times> buffer" where
  "readUInt8 b = (bf_data b (unat (bf_offset b)), b\<lparr>bf_offset := bf_offset b + 1\<rparr>)"

text \<open>The operands of \<open>|\<close> are read from left to right.\<close>

definition readUInt16 :: "buffer \<Rightarrow> u16 \<times> buffer" where
  "readUInt16 b =
     (let (h, b1) = readUInt8 b; (l, b2) = readUInt8 b1 in (push_bit 8 (ucast h) OR ucast l, b2))"

definition buffer_write :: "'u udp_write \<Rightarrow> 'u \<Rightarrow> buffer \<Rightarrow> 'u \<times> buffer" where
  "buffer_write udp_write u b =
     (udp_write (map (bf_data b) [0..<unat (bf_offset b)]) u, b\<lparr>bf_offset := 0\<rparr>)"

definition writeUInt8 :: "u8 \<Rightarrow> buffer \<Rightarrow> buffer" where
  "writeUInt8 value b =
     (if bf_offset b < bf_size b
      then b\<lparr>bf_data := (bf_data b)(unat (bf_offset b) := value), bf_offset := bf_offset b + 1\<rparr>
      else b)"

definition writeUInt16 :: "u16 \<Rightarrow> buffer \<Rightarrow> buffer" where
  "writeUInt16 value b = writeUInt8 (ucast value) (writeUInt8 (ucast (drop_bit 8 value)) b)"

definition writeUInt32 :: "u32 \<Rightarrow> buffer \<Rightarrow> buffer" where
  "writeUInt32 value b =
     writeUInt8 (ucast value) (writeUInt8 (ucast (drop_bit 8 value))
       (writeUInt8 (ucast (drop_bit 16 value)) (writeUInt8 (ucast (drop_bit 24 value)) b)))"

definition buffer_clear :: "buffer \<Rightarrow> buffer" where
  "buffer_clear b = b\<lparr>bf_offset := 0, bf_limit := 0\<rparr>"

section \<open>Writing appends\<close>

definition content :: "buffer \<Rightarrow> u8 list" where
  "content b = map (bf_data b) [0..<unat (bf_offset b)]"

definition room :: "buffer \<Rightarrow> nat \<Rightarrow> bool" where
  "room b n \<longleftrightarrow> unat (bf_offset b) + n \<le> unat (bf_size b)"

text \<open>\<open>appends b bs b'\<close>: \<open>b'\<close> is \<open>b\<close> with the bytes \<open>bs\<close> behind what was written before.\<close>

definition appends :: "buffer \<Rightarrow> u8 list \<Rightarrow> buffer \<Rightarrow> bool" where
  "appends b bs b' \<longleftrightarrow> content b' = content b @ bs \<and> bf_size b' = bf_size b \<and> bf_limit b' = bf_limit b
     \<and> bf_mark b' = bf_mark b"

definition be16 :: "u16 \<Rightarrow> u8 list" where
  "be16 w = [ucast (drop_bit 8 w), ucast w]"

definition be32 :: "u32 \<Rightarrow> u8 list" where
  "be32 w = [ucast (drop_bit 24 w), ucast (drop_bit 16 w), ucast (drop_bit 8 w), ucast w]"

lemma length_be [simp]: "length (be16 w) = 2" "length (be32 x) = 4"
  by (simp_all add: be16_def be32_def)

lemma length_content: "length (content b) = unat (bf_offset b)"
  by (simp add: content_def)

lemma appends_refl [simp]: "appends b [] b"
  by (simp add: appends_def)

lemma appends_trans: "appends b xs b1 \<Longrightarrow> appends b1 ys b2 \<Longrightarrow> appends b (xs @ ys) b2"
  by (simp add: appends_def)

lemma appends_offset: "appends b bs b' \<Longrightarrow> unat (bf_offset b') = unat (bf_offset b) + length bs"
  by (metis appends_def length_append length_content)

lemma appends_room: "appends b bs b' \<Longrightarrow> room b (length bs + n) \<Longrightarrow> room b' n"
  using appends_offset [of b bs b'] by (simp add: appends_def room_def)

lemma room_mono: "room b n \<Longrightarrow> m \<le> n \<Longrightarrow> room b m"
  by (simp add: room_def)

lemma appends_data:
  assumes "appends b bs b'"
  shows appends_data_old: "i < unat (bf_offset b) \<Longrightarrow> bf_data b' i = bf_data b i"
    and appends_data_new: "i < length bs \<Longrightarrow> bf_data b' (unat (bf_offset b) + i) = bs ! i"
proof -
  have c: "content b' = content b @ bs" and off: "unat (bf_offset b') = unat (bf_offset b) + length bs"
    using assms appends_offset by (auto simp: appends_def)
  have nth: "content b' ! j = bf_data b' j" if "j < unat (bf_offset b) + length bs" for j
    using that off by (simp add: content_def)
  show "bf_data b' i = bf_data b i" if "i < unat (bf_offset b)"
    using nth [of i] that c by (simp add: nth_append length_content) (simp add: content_def)
  show "bf_data b' (unat (bf_offset b) + i) = bs ! i" if "i < length bs"
    using nth [of "unat (bf_offset b) + i"] that c by (simp add: nth_append length_content)
qed

lemma writeUInt8_appends: "room b 1 \<Longrightarrow> appends b [v] (writeUInt8 v b)"
proof -
  assume r: "room b 1"
  then have lt: "bf_offset b < bf_size b" by (simp add: room_def word_less_nat_alt)
  have "unat (bf_offset b + 1) = unat (bf_offset b) + 1"
    using r unat_u16_less [of "bf_size b"] unat_add_of_nat_u16 [of "bf_offset b" 1] by (simp add: room_def)
  with lt show ?thesis
    by (simp add: writeUInt8_def appends_def content_def)
qed

fun writeBytes :: "u8 list \<Rightarrow> buffer \<Rightarrow> buffer" where
  "writeBytes [] b = b"
| "writeBytes (v # vs) b = writeBytes vs (writeUInt8 v b)"

lemma writeBytes_appends: "room b (length vs) \<Longrightarrow> appends b vs (writeBytes vs b)"
proof (induction vs arbitrary: b)
  case (Cons v vs)
  have 1: "appends b [v] (writeUInt8 v b)"
    using Cons.prems by (intro writeUInt8_appends) (rule room_mono, auto)
  have "room (writeUInt8 v b) (length vs)"
    using appends_room [OF 1, of "length vs"] Cons.prems by simp
  from appends_trans [OF 1 Cons.IH [OF this]] show ?case by simp
qed simp

lemma writeUInt16_appends: "room b 2 \<Longrightarrow> appends b (be16 v) (writeUInt16 v b)"
  using writeBytes_appends [of b "be16 v"] by (simp add: writeUInt16_def be16_def numeral_eq_Suc)

lemma writeUInt32_appends: "room b 4 \<Longrightarrow> appends b (be32 v) (writeUInt32 v b)"
  using writeBytes_appends [of b "be32 v"] by (simp add: writeUInt32_def be32_def numeral_eq_Suc)

end
