(* ===== verification/Mdns_Labels.thy ===== *)
theory Mdns_Labels
  imports Mdns_Buffer "HOL-Library.Monad_Syntax"
begin

text \<open>
  The names of the mDNS responder (\<open>Label.h\<close> and \<open>Label.cpp\<close>).  The labels are objects that
  share their tails: a store is the list of the labels constructed so far and a pointer to a label is
  its index, or \<open>None\<close> for \<open>NULL\<close>.  \<open>lb_data\<close> is the memory that the member \<open>data\<close> points
  to.  \<open>EMPTY_DATA\<close> is a null pointer (the braces of its initialiser hold the pointer), so that a label
  whose \<open>malloc\<close> fails reads the memory at address 0, the parameter \<open>low\<close>.  \<open>null_size\<close> is the
  byte that is found through the null pointer \<open>label->data\<close> of a null label.

  The loops that may not end are partial functions: \<open>None\<close> means that the code does not return.
\<close>

section \<open>Labels\<close>

definition DOT :: u8 where "DOT = 0x2E"
definition END_OF_NAME :: u8 where "END_OF_NAME = 0"
definition LABEL_POINTER :: u8 where "LABEL_POINTER = 0xc0"
definition MAX_LABEL_SIZE :: nat where "MAX_LABEL_SIZE = 63"
definition INVALID_OFFSET :: u16 where "INVALID_OFFSET = - 1"
definition UNKNOWN_NAME :: int where "UNKNOWN_NAME = - 1"
definition BUFFER_UNDERFLOW :: int where "BUFFER_UNDERFLOW = - 2"

record label =
  lb_data :: "nat \<Rightarrow> u8"
  lb_case :: bool
  lb_next :: "nat option"
  lb_off :: u16

text \<open>The loop of the constructor has an 8-bit counter and a 32-bit bound.\<close>

partial_function (option) label_fill :: "u8 list \<Rightarrow> u8 \<Rightarrow> (nat \<Rightarrow> u8) \<Rightarrow> (nat \<Rightarrow> u8) option" where
  "label_fill name i data =
     (if unat i < length name then label_fill name (i + 1) (data(unat i + 1 := name ! unat i)) else Some data)"

definition label_new ::
  "(nat \<Rightarrow> u8) \<Rightarrow> (nat \<Rightarrow> (nat \<Rightarrow> u8) option) \<Rightarrow> u8 list \<Rightarrow> nat option \<Rightarrow> bool \<Rightarrow> label list \<Rightarrow> (nat \<times> label list) option" where
  "label_new low alloc name nextLabel caseSensitive ls = do {
     data \<leftarrow> (case alloc (length name + 1) of
               Some m \<Rightarrow> label_fill name 0 (m(0 := of_nat (length name)))
             | None \<Rightarrow> Some low);
     Some (length ls, ls @ [\<lparr>lb_data = data, lb_case = caseSensitive, lb_next = nextLabel, lb_off = INVALID_OFFSET\<rparr>])
   }"

definition getSize :: "label list \<Rightarrow> nat \<Rightarrow> u8" where
  "getSize ls l = lb_data (ls ! l) 0"

partial_function (option) getWriteSize :: "label list \<Rightarrow> nat option \<Rightarrow> u8 \<Rightarrow> u8 option" where
  "getWriteSize ls p n =
     (case p of
        None \<Rightarrow> Some n
      | Some l \<Rightarrow>
          if lb_off (ls ! l) = INVALID_OFFSET then getWriteSize ls (lb_next (ls ! l)) (n + (lb_data (ls ! l) 0 + 1))
          else getWriteSize ls None (n + 2))"

fun write_data :: "(nat \<Rightarrow> u8) \<Rightarrow> nat \<Rightarrow> nat \<Rightarrow> buffer \<Rightarrow> buffer" where
  "write_data data i 0 b = b"
| "write_data data i (Suc n) b = write_data data (i + 1) n (writeUInt8 (data i) b)"

partial_function (option) label_write :: "nat option \<Rightarrow> label list \<Rightarrow> buffer \<Rightarrow> (label list \<times> buffer) option" where
  "label_write p ls b =
     (case p of
        None \<Rightarrow> Some (ls, b)
      | Some l \<Rightarrow>
          if lb_off (ls ! l) = INVALID_OFFSET
          then label_write (lb_next (ls ! l)) (ls[l := (ls ! l)\<lparr>lb_off := getOffset b\<rparr>])
                 (write_data (lb_data (ls ! l)) 0 (unat (lb_data (ls ! l) 0 + 1)) b)
          else label_write None ls (writeUInt16 (push_bit 8 (ucast LABEL_POINTER) OR lb_off (ls ! l)) b))"

partial_function (option) label_reset :: "nat option \<Rightarrow> label list \<Rightarrow> label list option" where
  "label_reset p ls =
     (case p of
        None \<Rightarrow> Some ls
      | Some l \<Rightarrow> label_reset (lb_next (ls ! l)) (ls[l := (ls ! l)\<lparr>lb_off := INVALID_OFFSET\<rparr>]))"

section \<open>Reading a name\<close>

text \<open>The member \<open>c\<close> of the reader is an argument of its operations.\<close>

definition reader_hasNext :: "u8 \<Rightarrow> buffer \<Rightarrow> bool" where
  "reader_hasNext c b \<longleftrightarrow> c \<noteq> END_OF_NAME \<and> available b > 0"

partial_function (option) pointer_loop :: "u8 \<Rightarrow> buffer \<Rightarrow> (u8 \<times> buffer) option" where
  "pointer_loop c b =
     (if c AND LABEL_POINTER = LABEL_POINTER
      then if available b > 0
           then (let (c2, b1) = readUInt8 b;
                     pointerOffset = push_bit 8 (ucast (c AND NOT LABEL_POINTER)) OR ucast c2;
                     (c', b2) = readUInt8 (setOffset pointerOffset (buffer_mark b1))
                 in pointer_loop c' b2)
           else pointer_loop c b
      else Some (c, b))"

definition reader_next :: "buffer \<Rightarrow> (u8 \<times> buffer) option" where
  "reader_next b = (let (c, b1) = readUInt8 b in pointer_loop c b1)"

definition endOfName :: "u8 \<Rightarrow> bool" where
  "endOfName c \<longleftrightarrow> c = END_OF_NAME"

section \<open>Matching a name\<close>

record iterator =
  it_label :: "nat option"
  it_size :: u8
  it_offset :: u8
  it_matches :: bool

definition size_of :: "u8 \<Rightarrow> label list \<Rightarrow> nat option \<Rightarrow> u8" where
  "size_of null_size ls p = (case p of Some l \<Rightarrow> lb_data (ls ! l) 0 | None \<Rightarrow> null_size)"

definition iterator_new :: "u8 \<Rightarrow> label list \<Rightarrow> nat option \<Rightarrow> iterator" where
  "iterator_new null_size ls p =
     \<lparr>it_label = p, it_size = size_of null_size ls p, it_offset = 0, it_matches = True\<rparr>"

definition equalsIgnoreCase :: "u8 \<Rightarrow> u8 \<Rightarrow> bool" where
  "equalsIgnoreCase d c \<longleftrightarrow> (c \<ge> 0x61 \<and> c \<le> 0x7A \<and> d = c - 32) \<or> (c \<ge> 0x41 \<and> c \<le> 0x5A \<and> d = c + 32)"

text \<open>The loop of \<open>Iterator::match\<close> ends after one iteration, which sets the offset to 0.\<close>

definition iterator_step :: "u8 \<Rightarrow> label list \<Rightarrow> iterator \<Rightarrow> iterator" where
  "iterator_step null_size ls it =
     (case it_label it of
        Some l \<Rightarrow>
          if it_offset it > it_size it
          then it\<lparr>it_label := lb_next (ls ! l), it_size := size_of null_size ls (lb_next (ls ! l)), it_offset := 0\<rparr>
          else it
      | None \<Rightarrow> it)"

definition iterator_match :: "u8 \<Rightarrow> label list \<Rightarrow> u8 \<Rightarrow> iterator \<Rightarrow> iterator" where
  "iterator_match null_size ls c it =
     (if it_matches it
      then (let it1 = iterator_step null_size ls it
            in it1\<lparr>it_matches := it_offset it1 \<le> it_size it1
                     \<and> (case it_label it1 of
                          None \<Rightarrow> False
                        | Some l \<Rightarrow> lb_data (ls ! l) (unat (it_offset it1)) = c
                            \<or> \<not> lb_case (ls ! l) \<and> equalsIgnoreCase (lb_data (ls ! l) (unat (it_offset it1))) c),
                   it_offset := it_offset it1 + 1\<rparr>)
      else it)"

partial_function (option) match_label ::
  "u8 \<Rightarrow> label list \<Rightarrow> u8 \<Rightarrow> u8 \<Rightarrow> u8 \<Rightarrow> iterator list \<Rightarrow> u8 list \<Rightarrow> buffer \<Rightarrow>
     (u8 \<times> iterator list \<times> u8 list \<times> buffer) option" where
  "match_label null_size ls n idx c its name b =
     (if idx < n \<and> reader_hasNext c b
      then do {
        (c', b1) \<leftarrow> reader_next b;
        match_label null_size ls n (idx + 1) c' (map (iterator_match null_size ls c') its) (name @ [c']) b1
      }
      else Some (c, its, name, b))"

partial_function (option) match_loop ::
  "u8 \<Rightarrow> label list \<Rightarrow> u8 \<Rightarrow> iterator list \<Rightarrow> u8 list \<Rightarrow> buffer \<Rightarrow> (u8 \<times> iterator list \<times> u8 list \<times> buffer) option" where
  "match_loop null_size ls c its name b =
     (if reader_hasNext c b
      then do {
        (n, b1) \<leftarrow> reader_next b;
        (c', its1, name1, b2) \<leftarrow> match_label null_size ls n 0 n (map (iterator_match null_size ls n) its) name b1;
        match_loop null_size ls c' its1 (if n > 0 then name1 @ [DOT] else name1) b2
      }
      else Some (c, its, name, b))"

fun choose_name :: "iterator list \<Rightarrow> nat \<Rightarrow> int \<Rightarrow> int" where
  "choose_name [] idx nameIndex = nameIndex"
| "choose_name (it # its) idx nameIndex =
     (if nameIndex = UNKNOWN_NAME
      then (let nameIndex1 = (if it_matches it then int idx else nameIndex); nameIndex2 = 1
            in choose_name its (idx + 1) nameIndex2)
      else nameIndex)"

definition matcher_match ::
  "u8 \<Rightarrow> label list \<Rightarrow> nat option list \<Rightarrow> buffer \<Rightarrow> (int \<times> u8 list \<times> buffer) option" where
  "matcher_match null_size ls labels b = do {
     (c, its, lastName, b1) \<leftarrow> match_loop null_size ls 1 (map (iterator_new null_size ls) labels) [] b;
     Some (if endOfName c then choose_name its 0 UNKNOWN_NAME else BUFFER_UNDERFLOW, lastName, buffer_reset b1)
   }"

end
