(* ===== verification/Mdns_Names.thy ===== *)
theory Mdns_Names
  imports Mdns_Labels
begin

text \<open>
  What the labels of the mDNS responder write and read.  \<open>spells\<close> relates a label of the store to the
  name its chain stands for, \<open>stream\<close> the bytes of a packet to the logical bytes a reader finds in
  it when it follows the compression pointers.
\<close>

section \<open>Names of a store\<close>

definition text_of :: "label \<Rightarrow> u8 list" where
  "text_of l = map (lb_data l) [1..<unat (lb_data l 0) + 1]"

inductive spells :: "label list \<Rightarrow> nat option \<Rightarrow> nat list \<Rightarrow> u8 list list \<Rightarrow> bool" for ls where
  root: "l < length ls \<Longrightarrow> lb_data (ls ! l) 0 = 0 \<Longrightarrow> lb_next (ls ! l) = None \<Longrightarrow> spells ls (Some l) [l] []"
| label: "l < length ls \<Longrightarrow> lb_data (ls ! l) 0 \<noteq> 0 \<Longrightarrow> lb_data (ls ! l) 0 < 64
    \<Longrightarrow> (\<forall>x\<in>set (text_of (ls ! l)). x \<noteq> 0 \<and> x < 0xC0)
    \<Longrightarrow> spells ls (lb_next (ls ! l)) is ns \<Longrightarrow> spells ls (Some l) (l # is) (text_of (ls ! l) # ns)"

inductive_simps spells_Some: "spells ls (Some l) is ns"
inductive_simps spells_None [simp]: "spells ls None is ns"

definition label_image :: "u8 list \<Rightarrow> u8 list" where
  "label_image t = of_nat (length t) # t"

definition name_image :: "u8 list list \<Rightarrow> u8 list" where
  "name_image ns = concat (map label_image ns) @ [0]"

definition dotted :: "u8 list list \<Rightarrow> u8 list" where
  "dotted ns = concat (map (\<lambda>t. t @ [DOT]) ns)"

lemma length_text_of [simp]: "length (text_of l) = unat (lb_data l 0)"
  by (simp add: text_of_def)

lemma text_of_eq_Nil [simp]: "text_of l = [] \<longleftrightarrow> lb_data l 0 = 0"
  by (metis length_0_conv length_text_of unsigned_eq_0_iff)

lemma label_image_text: "label_image (text_of l) = map (lb_data l) [0..<unat (lb_data l 0) + 1]"
  by (simp add: label_image_def text_of_def upt_conv_Cons [of 0] del: upt_Suc)

lemma spells_unique: "spells ls p is ns \<Longrightarrow> spells ls p is' ns' \<Longrightarrow> is' = is \<and> ns' = ns"
proof (induction arbitrary: is' ns' rule: spells.induct)
  case (root l)
  then show ?case by (auto simp: spells_Some)
next
  case (label l "is" ns)
  from label.prems label.hyps obtain is1 ns1
    where 1: "is' = l # is1" "ns' = text_of (ls ! l) # ns1" "spells ls (lb_next (ls ! l)) is1 ns1"
    by (auto simp: spells_Some)
  from label.IH [OF 1(3)] 1 show ?case by simp
qed

lemma spells_member:
  "spells ls p is ns \<Longrightarrow> i \<in> set is \<Longrightarrow>
     i < length ls \<and> (\<exists>is' ns'. spells ls (Some i) is' ns' \<and> length is' \<le> length is)"
proof (induction rule: spells.induct)
  case (root l)
  then show ?case by (auto simp: spells_Some)
next
  case (label l "is" ns)
  show ?case
  proof (cases "i = l")
    case True
    with label.hyps have "spells ls (Some i) (l # is) (text_of (ls ! l) # ns)" by (simp add: spells_Some)
    with True label.hyps show ?thesis by blast
  next
    case False
    with label.prems label.IH show ?thesis by fastforce
  qed
qed

lemma spells_fresh:
  assumes "spells ls (lb_next (ls ! l)) is ns" and "spells ls (Some l) (l # is) ns'"
  shows "l \<notin> set is"
proof
  assume "l \<in> set is"
  from spells_member [OF assms(1) this] obtain is1 ns1
    where "spells ls (Some l) is1 ns1" "length is1 \<le> length is" by blast
  with spells_unique [OF assms(2)] show False by fastforce
qed

text \<open>Writing changes the offsets of the labels only.\<close>

definition stored :: "label \<Rightarrow> label" where
  "stored l = l\<lparr>lb_off := 0\<rparr>"

lemma stored_eq:
  "stored l = stored l' \<longleftrightarrow> lb_data l = lb_data l' \<and> lb_case l = lb_case l' \<and> lb_next l = lb_next l'"
  by (cases l; cases l') (auto simp: stored_def)

lemma stored_update [simp]: "map stored (ls[l := (ls ! l)\<lparr>lb_off := v\<rparr>]) = map stored ls"
proof (cases "l < length ls")
  case True
  then show ?thesis by (intro nth_equalityI) (auto simp: nth_list_update stored_eq)
qed (simp add: list_update_beyond)

lemma map_stored_eqD:
  assumes "map stored ls' = map stored ls" and "i < length ls"
  shows "lb_data (ls' ! i) = lb_data (ls ! i)" "lb_case (ls' ! i) = lb_case (ls ! i)"
    "lb_next (ls' ! i) = lb_next (ls ! i)" "text_of (ls' ! i) = text_of (ls ! i)"
proof -
  have "stored (ls' ! i) = stored (ls ! i)"
    using assms by (metis length_map nth_map)
  then show "lb_data (ls' ! i) = lb_data (ls ! i)" "lb_case (ls' ! i) = lb_case (ls ! i)"
    "lb_next (ls' ! i) = lb_next (ls ! i)" "text_of (ls' ! i) = text_of (ls ! i)"
    by (auto simp: stored_eq text_of_def)
qed

lemma spells_stored:
  assumes "spells ls p is ns" and same: "map stored ls' = map stored ls"
  shows "spells ls' p is ns"
  using assms(1)
proof (induction rule: spells.induct)
  case (root l)
  with map_stored_eqD [OF same root.hyps(1)] same show ?case
    by (auto intro!: spells.root dest: map_eq_imp_length_eq)
next
  case (label l "is" ns)
  with map_stored_eqD [OF same label.hyps(1)] same show ?case
    by (auto simp: spells_Some dest: map_eq_imp_length_eq)
qed

section \<open>The bytes of a packet\<close>

definition pointer_target :: "u8 \<Rightarrow> u8 \<Rightarrow> nat" where
  "pointer_target c c2 = unat (push_bit 8 (ucast (c AND NOT LABEL_POINTER)) OR ucast c2 :: u16)"

text \<open>\<open>stream d L o bs e\<close>: in the \<open>L\<close> bytes \<open>d\<close> a reader at offset \<open>o\<close> finds \<open>bs\<close> and ends at \<open>e\<close>.\<close>

inductive stream :: "(nat \<Rightarrow> u8) \<Rightarrow> nat \<Rightarrow> nat \<Rightarrow> u8 list \<Rightarrow> nat \<Rightarrow> bool" for d L where
  finished: "stream d L o1 [] o1"
| plain: "o1 < L \<Longrightarrow> d o1 < 0xC0 \<Longrightarrow> stream d L (o1 + 1) bs e \<Longrightarrow> stream d L o1 (d o1 # bs) e"
| pointer: "o1 + 1 < L \<Longrightarrow> \<not> d o1 < 0xC0 \<Longrightarrow> pointer_target (d o1) (d (o1 + 1)) < L
    \<Longrightarrow> d (pointer_target (d o1) (d (o1 + 1))) < 0xC0
    \<Longrightarrow> stream d L (pointer_target (d o1) (d (o1 + 1)) + 1) bs e'
    \<Longrightarrow> stream d L o1 (d (pointer_target (d o1) (d (o1 + 1))) # bs) (o1 + 2)"

inductive_simps stream_Nil: "stream d L o1 [] e"
inductive_simps stream_Cons: "stream d L o1 (x # bs) e"

lemma stream_mono:
  assumes "stream d L o1 bs e" and "\<And>i. i < L \<Longrightarrow> d' i = d i" and "L \<le> L'"
  shows "stream d' L' o1 bs e"
  using assms
proof (induction rule: stream.induct)
  case (finished o1)
  show ?case by (rule stream.finished)
next
  case (plain o1 bs e)
  then show ?case using stream.plain [of o1 L' d' bs e] by fastforce
next
  case (pointer o1 bs e')
  then show ?case using stream.pointer [of o1 L' d' bs e'] by fastforce
qed

lemma stream_plain_prefix:
  "stream d L (o1 + length ts) bs e \<Longrightarrow> (\<forall>i<length ts. d (o1 + i) = ts ! i \<and> ts ! i < 0xC0)
     \<Longrightarrow> o1 + length ts \<le> L \<Longrightarrow> stream d L o1 (ts @ bs) e"
proof (induction ts arbitrary: o1)
  case (Cons t ts)
  have "stream d L (o1 + 1) (ts @ bs) e"
  proof (rule Cons.IH)
    show "stream d L (o1 + 1 + length ts) bs e" using Cons.prems(1) by simp
    show "\<forall>i<length ts. d (o1 + 1 + i) = ts ! i \<and> ts ! i < 0xC0"
    proof (intro allI impI)
      fix i assume "i < length ts"
      then show "d (o1 + 1 + i) = ts ! i \<and> ts ! i < 0xC0"
        using Cons.prems(2) [rule_format, of "Suc i"] by simp
    qed
    show "o1 + 1 + length ts \<le> L" using Cons.prems(3) by simp
  qed
  moreover have "d o1 = t" "t < 0xC0"
    using Cons.prems(2) [rule_format, of 0] by simp_all
  ultimately show ?case using Cons.prems(3) stream.plain [of o1 L d "ts @ bs" e] by simp
qed simp


section \<open>Writing a name\<close>

lemma write_data_bytes: "write_data data i n b = writeBytes (map data [i..<i + n]) b"
  by (induction n arbitrary: i b) (simp_all add: upt_conv_Cons del: upt_Suc)

text \<open>The number of bytes \<open>label_write\<close> writes for the labels \<open>is\<close> of a chain.\<close>

fun wire_size :: "label list \<Rightarrow> nat list \<Rightarrow> nat" where
  "wire_size ls [] = 0"
| "wire_size ls (l # is) =
     (if lb_off (ls ! l) = INVALID_OFFSET then unat (lb_data (ls ! l) 0) + 1 + wire_size ls is else 2)"

definition placed_on :: "label list \<Rightarrow> buffer \<Rightarrow> nat set \<Rightarrow> bool" where
  "placed_on ls b A \<longleftrightarrow>
     (\<forall>i\<in>A. lb_off (ls ! i) \<noteq> INVALID_OFFSET \<longrightarrow>
        unat (lb_off (ls ! i)) < unat (bf_offset b) \<and> unat (lb_off (ls ! i)) < 0x4000 \<and>
        bf_data b (unat (lb_off (ls ! i))) < 0xC0 \<and>
        (\<forall>is ns. spells ls (Some i) is ns \<longrightarrow>
           (\<exists>e. stream (bf_data b) (unat (bf_offset b)) (unat (lb_off (ls ! i))) (name_image ns) e)))"

lemma name_image_Cons [simp]: "name_image (t # ns) = label_image t @ name_image ns"
  by (simp add: name_image_def)

lemma name_image_Nil [simp]: "name_image [] = [0]"
  by (simp add: name_image_def)

lemma stream_appends:
  assumes "stream (bf_data b) (unat (bf_offset b)) o1 bs e" and "appends b xs b'"
  shows "stream (bf_data b') (unat (bf_offset b')) o1 bs e"
  using assms(1) by (rule stream_mono) (simp_all add: appends_data_old [OF assms(2)] appends_offset [OF assms(2)])

lemma placed_on_appends:
  assumes "placed_on ls b A" and "appends b xs b'" and "map stored ls' = map stored ls"
    and off: "\<And>i. i \<in> A \<Longrightarrow> lb_off (ls' ! i) = lb_off (ls ! i)"
  shows "placed_on ls' b' A"
proof -
  have sp: "spells ls' p is ns \<longleftrightarrow> spells ls p is ns" for p "is" ns
    using spells_stored assms(3) by metis
  show ?thesis
    using assms(1) stream_appends [OF _ assms(2)] appends_offset [OF assms(2)] appends_data_old [OF assms(2)]
    unfolding placed_on_def sp by (fastforce simp: off)
qed

lemma pointer_bits: "bit LABEL_POINTER n \<longleftrightarrow> n = 6 \<or> n = 7"
proof -
  have shape: "LABEL_POINTER = push_bit 6 (mask 2)"
    by (simp add: LABEL_POINTER_def mask_eq_exp_minus_1 push_bit_eq_mult)
  show ?thesis unfolding shape by (auto simp: bit_simps)
qed

lemma is_pointer_iff: "c AND LABEL_POINTER = LABEL_POINTER \<longleftrightarrow> \<not> c < 0xC0"
proof
  assume "c AND LABEL_POINTER = LABEL_POINTER"
  then have "LABEL_POINTER \<le> c" by (metis word_and_le2)
  then show "\<not> c < 0xC0" by (simp add: LABEL_POINTER_def)
next
  assume "\<not> c < 0xC0"
  then have "192 \<le> unat c" by (simp add: word_less_nat_alt)
  then have "unat c div 2 ^ 6 = 3" "unat c div 2 ^ 7 = 1"
    using unat_u8_less [of c] by auto
  then have "bit (unat c) 6" "bit (unat c) 7"
    by (simp_all only: bit_iff_odd) simp_all
  then have "bit c 6" "bit c 7"
    by (simp_all add: bit_unsigned_iff)
  then show "c AND LABEL_POINTER = LABEL_POINTER"
    by (intro bit_word_eqI) (auto simp: bit_simps pointer_bits)
qed

lemma pointer_split:
  fixes v :: u16
  assumes "unat v < 0x4000"
  defines "w \<equiv> push_bit 8 (ucast LABEL_POINTER) OR v"
  shows "pointer_target (ucast (drop_bit 8 w)) (ucast w) = unat v" and "\<not> (ucast (drop_bit 8 w) :: u8) < 0xC0"
proof -
  have hi: "\<not> bit v n" if "14 \<le> n" for n
  proof -
    have "(2 :: nat) ^ 14 \<le> 2 ^ n" using that by (rule power_increasing) simp
    with assms(1) have "unat v div 2 ^ n = 0" by simp
    then have "\<not> bit (unat v) n" by (simp add: bit_iff_odd)
    then show ?thesis using bit_imp_le_length [of v n] by (auto simp: bit_unsigned_iff)
  qed
  have "push_bit 8 (ucast (ucast (drop_bit 8 w) AND NOT LABEL_POINTER)) OR ucast (ucast w :: u8) = v"
    by (rule bit_word_eqI) (auto simp: w_def bit_simps pointer_bits hi)
  then show "pointer_target (ucast (drop_bit 8 w)) (ucast w) = unat v"
    by (simp add: pointer_target_def)
  have "ucast (drop_bit 8 w) AND LABEL_POINTER = (LABEL_POINTER :: u8)"
    by (rule bit_word_eqI) (auto simp: w_def bit_simps pointer_bits)
  then show "\<not> (ucast (drop_bit 8 w) :: u8) < 0xC0"
    by (simp add: is_pointer_iff)
qed

lemma wire_size_other: "l \<notin> set is \<Longrightarrow> wire_size (ls[l := v]) is = wire_size ls is"
proof (induction "is")
  case (Cons i "is")
  then have "ls[l := v] ! i = ls ! i" by auto
  with Cons show ?case by simp
qed simp

lemma stream_pointer:
  assumes "appends b (be16 w) b'" and w: "w = push_bit 8 (ucast LABEL_POINTER) OR v" and "unat v < 0x4000"
    and "unat v < unat (bf_offset b)" and "stream (bf_data b) (unat (bf_offset b)) (unat v) (x # bs) e" and "x < 0xC0"
    and "bf_data b (unat v) < 0xC0"
  shows "stream (bf_data b') (unat (bf_offset b')) (unat (bf_offset b)) (x # bs) (unat (bf_offset b'))"
proof -
  let ?d = "bf_data b'" and ?L = "unat (bf_offset b')" and ?o = "unat (bf_offset b)"
  have L: "?L = ?o + 2" using appends_offset [OF assms(1)] by simp
  have d: "?d ?o = ucast (drop_bit 8 w)" "?d (?o + 1) = ucast w"
    using appends_data_new [OF assms(1), of 0] appends_data_new [OF assms(1), of 1] by (simp_all add: be16_def)
  have t: "pointer_target (?d ?o) (?d (?o + 1)) = unat v" and p: "\<not> ?d ?o < 0xC0"
    using pointer_split [OF assms(3)] unfolding d w by simp_all
  have v: "?d (unat v) = bf_data b (unat v)" using appends_data_old [OF assms(1)] assms(4) by simp
  have "stream ?d ?L (unat v) (x # bs) e" using stream_appends [OF assms(5,1)] .
  then obtain e' where "x = ?d (unat v)" "stream ?d ?L (unat v + 1) bs e'"
    using assms(7) v by (auto simp: stream_Cons)
  with stream.pointer [of ?o ?L ?d bs e'] L t p v assms show ?thesis by simp
qed

lemma name_image_hd: "spells ls (Some l) is ns \<Longrightarrow> \<exists>x bs. name_image ns = x # bs \<and> x < 0xC0"
  by (auto simp: spells_Some label_image_def word_less_nat_alt)

definition written :: "nat option \<Rightarrow> nat list \<Rightarrow> u8 list \<Rightarrow> label list \<Rightarrow> buffer \<Rightarrow> label list \<Rightarrow> buffer \<Rightarrow> bool" where
  "written p is im ls b ls' b' \<longleftrightarrow>
     (\<exists>bs. appends b bs b' \<and> length bs = wire_size ls is) \<and> map stored ls' = map stored ls
     \<and> (\<forall>i. i \<notin> set is \<longrightarrow> ls' ! i = ls ! i) \<and> placed_on ls' b' (set is)
     \<and> (\<forall>l. p = Some l \<longrightarrow> lb_off (ls' ! l) \<noteq> INVALID_OFFSET)
     \<and> stream (bf_data b') (unat (bf_offset b')) (unat (bf_offset b)) im (unat (bf_offset b'))"

lemma written_label:
  assumes sp: "spells ls (Some l) (l # is) ns" and n: "unat (lb_data (ls ! l) 0) < 64"
    and low: "\<forall>i < unat (lb_data (ls ! l) 0) + 1. lb_data (ls ! l) i < 0xC0"
    and fresh: "l \<notin> set is" and inv: "lb_off (ls ! l) = INVALID_OFFSET"
    and pl: "placed_on ls b (set is)" and rm: "room b (wire_size ls (l # is))" and sz: "unat (bf_size b) \<le> 0x4000"
    and im: "name_image ns = map (lb_data (ls ! l)) [0..<unat (lb_data (ls ! l) 0) + 1] @ rest"
  defines "ls1 \<equiv> ls[l := (ls ! l)\<lparr>lb_off := getOffset b\<rparr>]"
  defines "b1 \<equiv> write_data (lb_data (ls ! l)) 0 (unat (lb_data (ls ! l) 0 + 1)) b"
  shows "placed_on ls1 b1 (set is)" and "room b1 (wire_size ls1 is)" and "unat (bf_size b1) \<le> 0x4000"
    and "written q is rest ls1 b1 ls' b' \<Longrightarrow> written (Some l) (l # is) (name_image ns) ls b ls' b'"
proof -
  let ?ts = "map (lb_data (ls ! l)) [0..<unat (lb_data (ls ! l) 0) + 1]"
  have l: "l < length ls" using sp by (auto simp: spells_Some)
  have ts: "length ?ts = unat (lb_data (ls ! l) 0) + 1" by simp
  have ws: "wire_size ls (l # is) = length ?ts + wire_size ls1 is"
    using inv fresh by (simp add: ls1_def wire_size_other)
  have plus1: "unat (lb_data (ls ! l) 0 + 1) = unat (lb_data (ls ! l) 0) + 1"
    using n by (simp add: unat_word_ariths)
  have ap: "appends b ?ts b1"
    unfolding b1_def write_data_bytes plus1 add_0 using rm ws
    by (intro writeBytes_appends) (auto intro: room_mono)
  show "room b1 (wire_size ls1 is)" using appends_room [OF ap] rm ws by simp
  show "unat (bf_size b1) \<le> 0x4000" using ap sz by (simp add: appends_def)
  have st1: "map stored ls1 = map stored ls" by (simp add: ls1_def)
  show "placed_on ls1 b1 (set is)"
  proof (rule placed_on_appends [OF pl ap st1])
    fix i assume "i \<in> set is"
    with fresh have "l \<noteq> i" by auto
    then show "lb_off (ls1 ! i) = lb_off (ls ! i)" by (simp add: ls1_def)
  qed
  have off: "unat (bf_offset b) < 0x4000" "bf_offset b \<noteq> INVALID_OFFSET"
    using rm sz ws ts by (auto simp: room_def INVALID_OFFSET_def unsigned_minus_1_eq_mask mask_eq_exp_minus_1)
  assume w: "written q is rest ls1 b1 ls' b'"
  then obtain bs where bs: "appends b1 bs b'" "length bs = wire_size ls1 is"
    and st: "map stored ls' = map stored ls1" and other: "\<forall>i. i \<notin> set is \<longrightarrow> ls' ! i = ls1 ! i"
    and pl': "placed_on ls' b' (set is)"
    and str: "stream (bf_data b') (unat (bf_offset b')) (unat (bf_offset b1)) rest (unat (bf_offset b'))"
    by (auto simp: written_def)
  have all: "appends b (?ts @ bs) b'" using appends_trans [OF ap bs(1)] .
  have lo: "lb_off (ls' ! l) = bf_offset b" using other fresh l by (simp add: ls1_def getOffset_def)
  have data: "\<forall>i<length ?ts. bf_data b' (unat (bf_offset b) + i) = ?ts ! i \<and> ?ts ! i < 0xC0"
  proof (intro allI impI)
    fix i assume i: "i < length ?ts"
    show "bf_data b' (unat (bf_offset b) + i) = ?ts ! i \<and> ?ts ! i < 0xC0"
      using appends_data_new [OF all, of i] i low by (simp add: nth_append del: upt_Suc)
  qed
  have str': "stream (bf_data b') (unat (bf_offset b')) (unat (bf_offset b)) (name_image ns) (unat (bf_offset b'))"
    unfolding im
  proof (rule stream_plain_prefix)
    show "stream (bf_data b') (unat (bf_offset b')) (unat (bf_offset b) + length ?ts) rest (unat (bf_offset b'))"
      using str appends_offset [OF ap] by simp
    show "unat (bf_offset b) + length ?ts \<le> unat (bf_offset b')"
      using appends_offset [OF all] by simp
  qed (rule data)
  have "placed_on ls' b' (set (l # is))"
  proof -
    have sp': "spells ls' (Some l) (l # is) ns"
      using spells_stored [OF sp] st st1 by simp
    have "bf_data b' (unat (bf_offset b)) < 0xC0" using data [rule_format, of 0] ts by simp
    then show ?thesis
      using pl' str' lo off appends_offset [OF all] ts spells_unique [OF sp']
      unfolding placed_on_def by fastforce
  qed
  with all bs st st1 other fresh lo off str' ws show "written (Some l) (l # is) (name_image ns) ls b ls' b'"
    unfolding written_def by (fastforce simp: ls1_def)
qed

lemma label_write_None [simp]: "label_write None ls b = Some (ls, b)"
  by (simp add: label_write.simps)

lemma label_write_correct:
  "spells ls p is ns \<Longrightarrow> placed_on ls b (set is) \<Longrightarrow> room b (wire_size ls is) \<Longrightarrow> unat (bf_size b) \<le> 0x4000
     \<Longrightarrow> \<exists>ls' b'. label_write p ls b = Some (ls', b') \<and> written p is (name_image ns) ls b ls' b'"
proof (induction "is" arbitrary: p ns ls b)
  case Nil
  then show ?case by (cases p) (simp_all add: spells_Some)
next
  case (Cons l "is")
  then have p: "p = Some l" by (cases p) (auto simp: spells_Some)
  note sp = Cons.prems(1) [unfolded p]
  show ?case
  proof (cases "lb_off (ls ! l) = INVALID_OFFSET")
    case False
    let ?w = "push_bit 8 (ucast LABEL_POINTER) OR lb_off (ls ! l)"
    let ?b' = "writeUInt16 ?w b"
    have run: "label_write p ls b = Some (ls, ?b')"
      using False p by (simp add: label_write.simps [of "Some l"])
    from False Cons.prems have ap: "appends b (be16 ?w) ?b'"
      by (intro writeUInt16_appends) simp
    obtain x bs where im: "name_image ns = x # bs" "x < 0xC0" using name_image_hd [OF sp] by blast
    from Cons.prems(2) False sp obtain e where
      "unat (lb_off (ls ! l)) < unat (bf_offset b)" "unat (lb_off (ls ! l)) < 0x4000"
      "bf_data b (unat (lb_off (ls ! l))) < 0xC0"
      "stream (bf_data b) (unat (bf_offset b)) (unat (lb_off (ls ! l))) (name_image ns) e"
      unfolding placed_on_def by fastforce
    with stream_pointer [OF ap refl] im
    have "stream (bf_data ?b') (unat (bf_offset ?b')) (unat (bf_offset b)) (name_image ns) (unat (bf_offset ?b'))"
      by simp
    with False ap placed_on_appends [OF Cons.prems(2) ap] run p show ?thesis
      unfolding written_def by fastforce
  next
    case True
    let ?ls1 = "ls[l := (ls ! l)\<lparr>lb_off := getOffset b\<rparr>]"
    let ?b1 = "write_data (lb_data (ls ! l)) 0 (unat (lb_data (ls ! l) 0 + 1)) b"
    have run: "label_write p ls b = label_write (lb_next (ls ! l)) ?ls1 ?b1"
      using True p by (simp add: label_write.simps [of "Some l"])
    show ?thesis
    proof (cases "lb_data (ls ! l) 0 = 0")
      case root: True
      with sp have nil: "is = []" "ns = []" "lb_next (ls ! l) = None" by (auto simp: spells_Some)
      have "written None [] [] ?ls1 ?b1 ?ls1 ?b1"
        by (auto simp: written_def placed_on_def stream_Nil intro!: exI [of _ "[]"])
      moreover note written_label(4) [of ls l "is" ns b "[]" None ?ls1 ?b1]
      ultimately have "written (Some l) (l # is) (name_image ns) ls b ?ls1 ?b1"
        using Cons.prems sp True root nil by (simp add: placed_on_def)
      with run nil p show ?thesis by auto
    next
      case False
      with sp obtain ns' where rest: "spells ls (lb_next (ls ! l)) is ns'" and ns: "ns = text_of (ls ! l) # ns'"
        and n: "lb_data (ls ! l) 0 < 64" and low: "\<forall>x\<in>set (text_of (ls ! l)). x < 0xC0"
        by (auto simp: spells_Some)
      have fresh: "l \<notin> set is" using spells_fresh [OF rest sp] .
      have low': "\<forall>i < unat (lb_data (ls ! l) 0) + 1. lb_data (ls ! l) i < 0xC0"
      proof (intro allI impI)
        fix i assume i: "i < unat (lb_data (ls ! l) 0) + 1"
        show "lb_data (ls ! l) i < 0xC0"
        proof (cases i)
          case 0
          with n show ?thesis by (simp add: word_less_nat_alt)
        next
          case (Suc j)
          with i low show ?thesis by (auto simp: text_of_def simp del: upt_Suc)
        qed
      qed
      have n': "unat (lb_data (ls ! l) 0) < 64" using n by (simp add: word_less_nat_alt)
      have im: "name_image ns = map (lb_data (ls ! l)) [0..<unat (lb_data (ls ! l) 0) + 1] @ name_image ns'"
        unfolding ns name_image_Cons label_image_text ..
      have tail: "placed_on ls b (set is)" using Cons.prems(2) by (simp add: placed_on_def)
      note step = written_label [OF sp n' low' fresh True tail Cons.prems(3,4) im]
      have "spells ?ls1 (lb_next (ls ! l)) is ns'" using spells_stored [OF rest] by simp
      from Cons.IH [OF this step(1-3)] obtain ls' b'
        where "label_write (lb_next (ls ! l)) ?ls1 ?b1 = Some (ls', b')"
          "written (lb_next (ls ! l)) is (name_image ns') ?ls1 ?b1 ls' b'" by blast
      with step(4) run p show ?thesis by auto
    qed
  qed
qed

section \<open>Reading a name\<close>

definition same_packet :: "buffer \<Rightarrow> buffer \<Rightarrow> bool" where
  "same_packet b b' \<longleftrightarrow> bf_data b' = bf_data b \<and> bf_limit b' = bf_limit b \<and> bf_size b' = bf_size b"

text \<open>\<open>reading b bs e\<close>: a reader finds the bytes \<open>bs\<close>; \<open>reset\<close> then goes to the offset \<open>e\<close>.\<close>

definition reading :: "buffer \<Rightarrow> u8 list \<Rightarrow> nat \<Rightarrow> bool" where
  "reading b bs e \<longleftrightarrow> unat (bf_limit b) < 0xFFFF \<and>
     (\<exists>e'. stream (bf_data b) (unat (bf_limit b)) (unat (bf_offset b)) bs e'
        \<and> e = (if bf_mark b = INVALID_MARK_OFFSET then e' else unat (bf_mark b)))"

lemma same_packet_refl [simp]: "same_packet b b"
  by (simp add: same_packet_def)

lemma same_packet_trans: "same_packet b b1 \<Longrightarrow> same_packet b1 b2 \<Longrightarrow> same_packet b b2"
  by (simp add: same_packet_def)

lemma pointer_loop_plain: "c < 0xC0 \<Longrightarrow> pointer_loop c b = Some (c, b)"
  by (subst pointer_loop.simps) (simp add: is_pointer_iff)

lemma available_pos: "available b > 0 \<longleftrightarrow> bf_offset b \<noteq> bf_limit b"
  by (auto simp: available_def word_neq_0_conv [symmetric])

lemma unat_Suc_u16: "n < 0xFFFF \<Longrightarrow> unat (x :: u16) < n \<Longrightarrow> unat (x + 1) = unat x + 1"
  using unat_add_of_nat_u16 [of x 1] by simp

lemma reader_next_reading:
  assumes "reading b (x # bs) e"
  shows "available b > 0" and "x < 0xC0"
    and "\<exists>b'. reader_next b = Some (x, b') \<and> reading b' bs e \<and> same_packet b b'"
proof -
  let ?d = "bf_data b" and ?L = "unat (bf_limit b)" and ?o = "unat (bf_offset b)"
  from assms obtain e' where L: "?L < 0xFFFF" and str: "stream ?d ?L ?o (x # bs) e'"
    and e: "e = (if bf_mark b = INVALID_MARK_OFFSET then e' else unat (bf_mark b))"
    by (auto simp: reading_def)
  from str have oL: "?o < ?L" by (cases rule: stream.cases) auto
  then show "available b > 0" by (auto simp: available_pos)
  show "x < 0xC0" using str by (cases rule: stream.cases) auto
  have suc: "unat (bf_offset b + 1) = ?o + 1" using unat_Suc_u16 [OF L oL] .
  from str show "\<exists>b'. reader_next b = Some (x, b') \<and> reading b' bs e \<and> same_packet b b'"
  proof (cases rule: stream.cases)
    case plain
    then show ?thesis
      using L e suc
      by (auto simp: reader_next_def readUInt8_def pointer_loop_plain reading_def same_packet_def)
  next
    case (pointer e1)
    let ?t = "pointer_target (?d ?o) (?d (?o + 1))"
    let ?off = "push_bit 8 (ucast (?d ?o AND NOT LABEL_POINTER)) OR ucast (?d (?o + 1)) :: u16"
    define b1 where "b1 = b\<lparr>bf_offset := bf_offset b + 1 + 1\<rparr>"
    define b2 where "b2 = setOffset ?off (buffer_mark b1)"
    define b3 where "b3 = b2\<lparr>bf_offset := ?off + 1\<rparr>"
    have suc2: "unat (bf_offset b + 1 + 1) = ?o + 2"
      using unat_Suc_u16 [OF L, of "bf_offset b + 1"] suc pointer by simp
    have t: "unat ?off = ?t" by (simp add: pointer_target_def)
    have av: "available (b\<lparr>bf_offset := bf_offset b + 1\<rparr>) > 0"
      using suc pointer by (auto simp: available_pos)
    have sp: "bf_data b2 = ?d" "bf_limit b2 = bf_limit b" "bf_offset b2 = ?off" "bf_size b2 = bf_size b"
      by (auto simp: b2_def b1_def setOffset_def buffer_mark_def)
    have "reader_next b = pointer_loop (?d ?o) (b\<lparr>bf_offset := bf_offset b + 1\<rparr>)"
      by (simp add: reader_next_def readUInt8_def)
    also have "\<dots> = pointer_loop (?d ?t) b3"
      using pointer av suc sp t
      by (subst pointer_loop.simps)
        (simp add: is_pointer_iff readUInt8_def b3_def b2_def b1_def Let_def)
    also have "\<dots> = Some (x, b3)" using pointer by (simp add: pointer_loop_plain)
    finally have run: "reader_next b = Some (x, b3)" .
    have "bf_mark b3 = (if bf_mark b = INVALID_MARK_OFFSET then bf_offset b + 1 + 1 else bf_mark b)"
      by (simp add: b3_def b2_def b1_def setOffset_def buffer_mark_def)
    moreover have "bf_offset b + 1 + 1 \<noteq> INVALID_MARK_OFFSET"
      using suc2 pointer L by (auto simp: INVALID_MARK_OFFSET_def dest: arg_cong [of _ _ unat])
    moreover have "unat (?off + 1) = ?t + 1" using unat_Suc_u16 [OF L, of ?off] t pointer by simp
    ultimately have "reading b3 bs e"
      using pointer L e suc2 sp by (auto simp: reading_def b3_def)
    with run sp show ?thesis by (auto simp: same_packet_def b3_def)
  qed
qed

lemma match_label_reading:
  "reading b (ts @ rest) e \<Longrightarrow> length ts = unat n - unat idx \<Longrightarrow> unat idx \<le> unat n \<Longrightarrow> c \<noteq> 0 \<Longrightarrow> (\<forall>t\<in>set ts. t \<noteq> 0) \<Longrightarrow>
     \<exists>b'. match_label null_size ls n idx c its name b
            = Some (last (c # ts), map (fold (iterator_match null_size ls) ts) its, name @ ts, b')
          \<and> reading b' rest e \<and> same_packet b b'"
proof (induction ts arbitrary: b idx c its name)
  case Nil
  then have "\<not> idx < n" by (simp add: word_less_nat_alt)
  with Nil show ?case by (auto simp: match_label.simps [of _ _ n idx])
next
  case (Cons t ts)
  from Cons.prems have idx: "unat idx < unat n" by simp
  then have idx1: "unat (idx + 1) = unat idx + 1" using unat_u8_less [of n] by (simp add: unat_word_ariths)
  from Cons.prems(1) have r: "reading b (t # (ts @ rest)) e" by simp
  obtain b1 where b1: "reader_next b = Some (t, b1)" "reading b1 (ts @ rest) e" "same_packet b b1"
    using reader_next_reading(3) [OF r] by blast
  have "match_label null_size ls n idx c its name b
      = match_label null_size ls n (idx + 1) t (map (iterator_match null_size ls t) its) (name @ [t]) b1"
    using idx b1 reader_next_reading(1) [OF r] Cons.prems(4)
    by (subst match_label.simps) (simp add: reader_hasNext_def END_OF_NAME_def word_less_nat_alt)
  moreover have "\<exists>b'. match_label null_size ls n (idx + 1) t (map (iterator_match null_size ls t) its) (name @ [t]) b1
      = Some (last (t # ts), map (fold (iterator_match null_size ls) ts) (map (iterator_match null_size ls t) its),
          (name @ [t]) @ ts, b')
      \<and> reading b' rest e \<and> same_packet b1 b'"
    using Cons.prems idx idx1 by (intro Cons.IH [OF b1(2)]) auto
  ultimately show ?case
    using b1(3) by (auto simp: comp_def intro: same_packet_trans)
qed

text \<open>The text of a label as it can stand in a packet.\<close>

definition label_text :: "u8 list \<Rightarrow> bool" where
  "label_text t \<longleftrightarrow> 0 < length t \<and> length t < 64 \<and> (\<forall>x\<in>set t. x \<noteq> 0)"

lemma match_loop_reading:
  "reading b (name_image ns) e \<Longrightarrow> c \<noteq> 0 \<Longrightarrow> (\<forall>t\<in>set ns. label_text t) \<Longrightarrow>
     \<exists>b'. match_loop null_size ls c its name b
            = Some (0, map (fold (iterator_match null_size ls) (name_image ns)) its, name @ dotted ns, b')
          \<and> reading b' [] e \<and> same_packet b b'"
proof (induction ns arbitrary: b c its name)
  case Nil
  then have r: "reading b [0] e" by simp
  obtain b1 where b1: "reader_next b = Some (0, b1)" "reading b1 [] e" "same_packet b b1"
    using reader_next_reading(3) [OF r] by blast
  have ml: "match_label null_size ls 0 0 0 its' name b1 = Some (0, its', name, b1)" for its'
    by (simp add: match_label.simps)
  have "match_loop null_size ls c its name b
      = match_loop null_size ls 0 (map (iterator_match null_size ls 0) its) name b1"
    using b1 ml reader_next_reading(1) [OF r] Nil.prems(2)
    by (subst match_loop.simps) (simp add: reader_hasNext_def END_OF_NAME_def)
  also have "\<dots> = Some (0, map (iterator_match null_size ls 0) its, name, b1)"
    by (subst match_loop.simps) (simp add: reader_hasNext_def END_OF_NAME_def)
  finally show ?case using b1 by (simp add: dotted_def)
next
  case (Cons t ns)
  let ?n = "of_nat (length t) :: u8"
  let ?m = "fold (iterator_match null_size ls)"
  have t: "label_text t" and n: "unat ?n = length t"
    using Cons.prems by (auto simp: label_text_def unat_of_nat_u8)
  from Cons.prems(1) have r: "reading b (?n # (t @ name_image ns)) e" by (simp add: label_image_def)
  obtain b1 where b1: "reader_next b = Some (?n, b1)" "reading b1 (t @ name_image ns) e" "same_packet b b1"
    using reader_next_reading(3) [OF r] by blast
  have pos: "?n \<noteq> 0" using n t by (metis label_text_def less_irrefl unat_0)
  have "\<exists>b2. match_label null_size ls ?n 0 ?n (map (iterator_match null_size ls ?n) its) name b1
      = Some (last (?n # t), map (?m t) (map (iterator_match null_size ls ?n) its), name @ t, b2)
      \<and> reading b2 (name_image ns) e \<and> same_packet b1 b2"
    using t n pos by (intro match_label_reading [OF b1(2)]) (auto simp: label_text_def)
  then obtain b2 where b2: "match_label null_size ls ?n 0 ?n (map (iterator_match null_size ls ?n) its) name b1
      = Some (last (?n # t), map (?m t) (map (iterator_match null_size ls ?n) its), name @ t, b2)"
      "reading b2 (name_image ns) e" "same_packet b1 b2" by blast
  have "last (?n # t) \<noteq> 0" using t by (auto simp: label_text_def)
  from Cons.IH [OF b2(2) this, of "map (?m t) (map (iterator_match null_size ls ?n) its)" "(name @ t) @ [DOT]"] Cons.prems(3)
  obtain b3 where b3: "match_loop null_size ls (last (?n # t)) (map (?m t) (map (iterator_match null_size ls ?n) its)) ((name @ t) @ [DOT]) b2
      = Some (0, map (?m (name_image ns)) (map (?m t) (map (iterator_match null_size ls ?n) its)), ((name @ t) @ [DOT]) @ dotted ns, b3)"
      "reading b3 [] e" "same_packet b2 b3" by auto
  have gt: "?n > 0" using pos by (simp add: word_neq_0_conv)
  have "match_loop null_size ls c its name b
      = match_loop null_size ls (last (?n # t)) (map (?m t) (map (iterator_match null_size ls ?n) its)) ((name @ t) @ [DOT]) b2"
    using b1 b2 reader_next_reading(1) [OF r] Cons.prems(2) gt
    by (subst match_loop.simps) (simp add: reader_hasNext_def END_OF_NAME_def)
  with b1 b2 b3 show ?case
    by (auto simp: dotted_def label_image_def fold_append comp_def intro: same_packet_trans)
qed

theorem matcher_match_reading:
  assumes "reading b (name_image ns) e" and "\<forall>t\<in>set ns. label_text t"
  shows "\<exists>b'. matcher_match null_size ls labels b
            = Some (choose_name (map (\<lambda>p. fold (iterator_match null_size ls) (name_image ns) (iterator_new null_size ls p)) labels)
                      0 UNKNOWN_NAME, dotted ns, b')
          \<and> same_packet b b' \<and> unat (bf_offset b') = e \<and> bf_mark b' = INVALID_MARK_OFFSET"
proof -
  from match_loop_reading [OF assms(1), of 1 null_size ls "map (iterator_new null_size ls) labels" "[]"] assms(2)
  obtain b1 where "match_loop null_size ls 1 (map (iterator_new null_size ls) labels) [] b
      = Some (0, map (fold (iterator_match null_size ls) (name_image ns)) (map (iterator_new null_size ls) labels), dotted ns, b1)"
    and b1: "reading b1 [] e" "same_packet b b1" by auto
  then have "matcher_match null_size ls labels b
      = Some (choose_name (map (\<lambda>p. fold (iterator_match null_size ls) (name_image ns) (iterator_new null_size ls p)) labels)
                0 UNKNOWN_NAME, dotted ns, buffer_reset b1)"
    by (simp add: matcher_match_def endOfName_def END_OF_NAME_def comp_def)
  with b1 show ?thesis
    by (auto simp: reading_def stream_Nil buffer_reset_def same_packet_def split: if_splits)
qed

section \<open>Names written and read back\<close>

lemma spells_label_text: "spells ls p is ns \<Longrightarrow> t \<in> set ns \<Longrightarrow> label_text t"
  by (induction rule: spells.induct) (auto simp: label_text_def word_less_nat_alt)

lemma wire_size_le: "spells ls p is ns \<Longrightarrow> wire_size ls is \<le> length (name_image ns) + 1"
proof (induction rule: spells.induct)
  case (label l "is" ns)
  have "0 < unat (lb_data (ls ! l) 0)" using label.hyps(2) by (simp add: unat_gt_0)
  with label.IH show ?case by (simp add: label_image_def)
qed simp

lemma placed_on_Un: "placed_on ls b (A \<union> B) \<longleftrightarrow> placed_on ls b A \<and> placed_on ls b B"
  by (auto simp: placed_on_def)

lemma written_placed:
  assumes "written p is im ls b ls' b'" and "placed_on ls b A"
  shows "placed_on ls' b' A"
proof -
  from assms(1) obtain bs where w: "appends b bs b'" "map stored ls' = map stored ls"
    "\<forall>i. i \<notin> set is \<longrightarrow> ls' ! i = ls ! i" "placed_on ls' b' (set is)"
    by (auto simp: written_def)
  have "placed_on ls b (A - set is)" using assms(2) by (simp add: placed_on_def)
  from placed_on_appends [OF this w(1,2)] w(3) have "placed_on ls' b' (A - set is)" by auto
  with w(4) have "placed_on ls' b' ((A - set is) \<union> set is)" by (simp only: placed_on_Un)
  then show ?thesis by (simp add: placed_on_def)
qed

fun write_names :: "nat list \<Rightarrow> label list \<Rightarrow> buffer \<Rightarrow> (u16 list \<times> label list \<times> buffer) option" where
  "write_names [] ls b = Some ([], ls, b)"
| "write_names (p # ps) ls b = do {
     (ls1, b1) \<leftarrow> label_write (Some p) ls b;
     (offsets, ls2, b2) \<leftarrow> write_names ps ls1 b1;
     Some (getOffset b # offsets, ls2, b2)
   }"

definition read_back ::
  "u8 \<Rightarrow> label list \<Rightarrow> nat option list \<Rightarrow> buffer \<Rightarrow> u16 \<Rightarrow> (u8 list \<times> u16) option" where
  "read_back null_size ls labels b offset =
     map_option (\<lambda>(r, name, b'). (name, bf_offset b'))
       (matcher_match null_size ls labels (b\<lparr>bf_limit := bf_offset b, bf_offset := offset, bf_mark := INVALID_MARK_OFFSET\<rparr>))"

lemma write_names_correct:
  "placed_on ls b {..<length ls} \<Longrightarrow> (\<forall>p\<in>set ps. \<exists>is. spells ls (Some p) is (N p)) \<Longrightarrow>
     room b (\<Sum>p\<leftarrow>ps. length (name_image (N p)) + 1) \<Longrightarrow> unat (bf_size b) \<le> 0x4000 \<Longrightarrow>
     \<exists>os ls' b' bs. write_names ps ls b = Some (os, ls', b') \<and> appends b bs b' \<and> length os = length ps
       \<and> unat (bf_offset b') \<le> unat (bf_size b)
       \<and> (\<forall>k<length ps. (os @ [bf_offset b']) ! 0 = bf_offset b
            \<and> stream (bf_data b') (unat (bf_offset b')) (unat (os ! k)) (name_image (N (ps ! k)))
                (unat ((os @ [bf_offset b']) ! Suc k)))"
proof (induction ps arbitrary: ls b)
  case Nil
  then show ?case by (auto simp: room_def intro: exI [of _ "[]"])
next
  case (Cons p ps)
  then obtain "is" where sp: "spells ls (Some p) is (N p)" by auto
  have ws: "wire_size ls is \<le> length (name_image (N p)) + 1" by (rule wire_size_le [OF sp])
  have rm: "room b (wire_size ls is)" using Cons.prems(3) ws by (auto intro: room_mono)
  have "placed_on ls b (set is)"
    using Cons.prems(1) spells_member [OF sp] by (auto simp: placed_on_def)
  from label_write_correct [OF sp this rm Cons.prems(4)] obtain ls1 b1
    where run: "label_write (Some p) ls b = Some (ls1, b1)"
      and w: "written (Some p) is (name_image (N p)) ls b ls1 b1" by blast
  from w obtain bs1 where ap: "appends b bs1 b1" "length bs1 = wire_size ls is" "map stored ls1 = map stored ls"
    and str: "stream (bf_data b1) (unat (bf_offset b1)) (unat (bf_offset b)) (name_image (N p)) (unat (bf_offset b1))"
    by (auto simp: written_def)
  have "room b1 (\<Sum>p\<leftarrow>ps. length (name_image (N p)) + 1)"
    using ap(2) ws by (intro appends_room [OF ap(1)] room_mono [OF Cons.prems(3)]) simp
  moreover have "\<forall>p\<in>set ps. \<exists>is. spells ls1 (Some p) is (N p)"
    using Cons.prems(2) spells_stored [OF _ ap(3)] by (metis list.set_intros(2))
  moreover have "placed_on ls1 b1 {..<length ls1}"
    using written_placed [OF w Cons.prems(1)] map_eq_imp_length_eq [OF ap(3)] by simp
  moreover have "unat (bf_size b1) \<le> 0x4000" using ap(1) Cons.prems(4) by (simp add: appends_def)
  ultimately obtain os ls' b' bs where ih: "write_names ps ls1 b1 = Some (os, ls', b')" "appends b1 bs b'"
    "length os = length ps" "unat (bf_offset b') \<le> unat (bf_size b1)"
    "\<forall>k<length ps. (os @ [bf_offset b']) ! 0 = bf_offset b1 \<and>
        stream (bf_data b') (unat (bf_offset b')) (unat (os ! k)) (name_image (N (ps ! k))) (unat ((os @ [bf_offset b']) ! Suc k))"
    using Cons.IH [of ls1 b1] by blast
  have first: "(os @ [bf_offset b']) ! 0 = bf_offset b1"
  proof (cases ps)
    case Nil
    with ih(1,3) show ?thesis by auto
  next
    case (Cons q qs)
    with ih(5) show ?thesis by auto
  qed
  have "\<forall>k<length (p # ps). ((bf_offset b # os) @ [bf_offset b']) ! 0 = bf_offset b \<and>
      stream (bf_data b') (unat (bf_offset b')) (unat ((bf_offset b # os) ! k)) (name_image (N ((p # ps) ! k)))
        (unat (((bf_offset b # os) @ [bf_offset b']) ! Suc k))"
  proof (intro allI impI conjI)
    fix k assume "k < length (p # ps)"
    then show "stream (bf_data b') (unat (bf_offset b')) (unat ((bf_offset b # os) ! k)) (name_image (N ((p # ps) ! k)))
        (unat (((bf_offset b # os) @ [bf_offset b']) ! Suc k))"
      using stream_appends [OF str ih(2)] ih(5) first by (cases k) auto
  qed simp
  moreover have "bf_size b1 = bf_size b" using ap(1) by (simp add: appends_def)
  ultimately show ?case
    using run ih(1,3,4) appends_trans [OF ap(1) ih(2)] by (auto simp: getOffset_def)
qed

text \<open>
  C23: The names of the responder survive their compression: write any sequence of names into the packet, the labels
  being freshly reset and the buffer large enough.  Then a receiver whose \<open>Matcher\<close> starts at the offset where
  a name was written reads exactly that name, whatever pointers stand in it, and goes on at the byte where the next name
  was written.
\<close>

theorem names_roundtrip:
  assumes "\<forall>l \<in> set ls. lb_off l = INVALID_OFFSET" and "\<forall>p \<in> set ps. \<exists>is. spells ls (Some p) is (N p)"
    and "room b (\<Sum>p\<leftarrow>ps. length (name_image (N p)) + 1)" and "unat (bf_size b) \<le> 0x4000"
  shows "\<exists>os ls' b'. write_names ps ls b = Some (os, ls', b') \<and> length os = length ps
     \<and> (\<forall>k<length ps. read_back null_size store labels b' (os ! k)
            = Some (dotted (N (ps ! k)), (os @ [bf_offset b']) ! Suc k))"
proof -
  have "placed_on ls b {..<length ls}" using assms(1) by (simp add: placed_on_def)
  from write_names_correct [OF this assms(2-4)] obtain os ls' b' bs
    where run: "write_names ps ls b = Some (os, ls', b')" and len: "length os = length ps"
      and le: "unat (bf_offset b') \<le> unat (bf_size b)"
      and str: "\<forall>k<length ps. stream (bf_data b') (unat (bf_offset b')) (unat (os ! k)) (name_image (N (ps ! k)))
                  (unat ((os @ [bf_offset b']) ! Suc k))" by auto
  have bound: "unat (bf_offset b') < 0xFFFF"
    using le assms(4) by simp
  have "read_back null_size store labels b' (os ! k) = Some (dotted (N (ps ! k)), (os @ [bf_offset b']) ! Suc k)"
    if k: "k < length ps" for k
  proof -
    let ?b = "b'\<lparr>bf_limit := bf_offset b', bf_offset := os ! k, bf_mark := INVALID_MARK_OFFSET\<rparr>"
    have "reading ?b (name_image (N (ps ! k))) (unat ((os @ [bf_offset b']) ! Suc k))"
      using str k bound by (simp add: reading_def)
    moreover have "\<forall>t\<in>set (N (ps ! k)). label_text t"
      using assms(2) k spells_label_text by (metis nth_mem)
    ultimately show ?thesis
      using matcher_match_reading [of ?b "N (ps ! k)" _ null_size store labels]
      by (fastforce simp: read_back_def word_unat_eq_iff)
  qed
  with run len show ?thesis by blast
qed

lemma names_roundtrip_witness:
  defines "lab \<equiv> \<lambda>bs n. \<lparr>lb_data = (\<lambda>i. if i < length bs then bs ! i else 0), lb_case = False, lb_next = n, lb_off = INVALID_OFFSET\<rparr>"
  defines "ls \<equiv> [lab [0] None, lab [5, 0x6C, 0x6F, 0x63, 0x61, 0x6C] (Some 0), lab [1, 0x68] (Some 1), lab [2, 0x5F, 0x78] (Some 1)]"
  defines "N \<equiv> \<lambda>p. [if p = 2 then [0x68] else [0x5F, 0x78], [0x6C, 0x6F, 0x63, 0x61, 0x6C]]"
  defines "b \<equiv> \<lparr>bf_data = (\<lambda>_. 0), bf_size = 512, bf_limit = 0, bf_offset = 12, bf_mark = INVALID_MARK_OFFSET\<rparr>"
  shows "\<exists>os ls' b'. write_names [2, 3, 2] ls b = Some (os, ls', b') \<and> length os = length [2, 3, 2 :: nat]
     \<and> (\<forall>k<length [2, 3, 2 :: nat]. read_back 0 ls [Some 2, Some 3] b' (os ! k)
            = Some (dotted (N ([2, 3, 2 :: nat] ! k)), (os @ [bf_offset b']) ! Suc k))"
proof (rule names_roundtrip)
  have up: "[Suc 0..<6] = [1, 2, 3, 4, 5]" "[Suc 0..<3] = [1, 2]" "[Suc 0..<2] = [1]" by (simp_all add: upt_conv_Cons)
  have 0: "spells ls (Some 0) [0] []" by (simp add: spells_Some ls_def lab_def)
  have 1: "spells ls (Some 1) [1, 0] [[0x6C, 0x6F, 0x63, 0x61, 0x6C]]"
    using 0 by (simp add: spells_Some [of _ "Suc 0"] ls_def lab_def text_of_def up)
  have "spells ls (Some 2) [2, 1, 0] (N 2)" "spells ls (Some 3) [3, 1, 0] (N 3)"
    using 1 by (simp_all add: spells_Some [of _ 2] spells_Some [of _ 3] ls_def lab_def text_of_def up N_def)
  then show "\<forall>p\<in>set [2, 3, 2]. \<exists>is. spells ls (Some p) is (N p)" by auto
qed (simp_all add: ls_def lab_def b_def room_def N_def label_image_def)

section \<open>Deciding equality of names\<close>

definition same_char :: "bool \<Rightarrow> u8 \<Rightarrow> u8 \<Rightarrow> bool" where
  "same_char cs d c \<longleftrightarrow> d = c \<or> \<not> cs \<and> equalsIgnoreCase d c"

definition same_label :: "label \<Rightarrow> u8 list \<Rightarrow> bool" where
  "same_label l t \<longleftrightarrow> list_all2 (same_char (lb_case l)) (text_of l) t"

lemma iterator_stuck [simp]: "\<not> it_matches it \<Longrightarrow> iterator_match null_size ls c it = it"
  by (simp add: iterator_match_def)

lemma fold_stuck: "\<not> it_matches it \<Longrightarrow> fold (iterator_match null_size ls) bs it = it"
  by (induction bs) simp_all

definition inside :: "label list \<Rightarrow> nat \<Rightarrow> nat \<Rightarrow> iterator \<Rightarrow> bool" where
  "inside ls l i it \<longleftrightarrow> it_matches it \<and> it_label it = Some l \<and> it_size it = lb_data (ls ! l) 0 \<and> unat (it_offset it) = i"

lemma inside_match:
  assumes "inside ls l i it" and "i \<le> unat (lb_data (ls ! l) 0)" and "lb_data (ls ! l) 0 < 64"
  shows "if same_char (lb_case (ls ! l)) (lb_data (ls ! l) i) c
         then inside ls l (i + 1) (iterator_match null_size ls c it)
         else \<not> it_matches (iterator_match null_size ls c it)"
proof -
  from assms have le: "it_offset it \<le> it_size it" by (simp add: inside_def word_le_nat_alt)
  then have step: "iterator_step null_size ls it = it"
    by (auto simp: iterator_step_def not_less split: option.splits)
  have "unat (it_offset it + 1) = i + 1"
    using assms by (simp add: inside_def unat_word_ariths word_less_nat_alt)
  with assms(1) le step show ?thesis
    by (auto simp: iterator_match_def inside_def same_char_def Let_def)
qed

lemma inside_fold:
  "inside ls l i it \<Longrightarrow> i + length ts = unat (lb_data (ls ! l) 0) + 1 \<Longrightarrow> lb_data (ls ! l) 0 < 64 \<Longrightarrow>
     (if list_all2 (same_char (lb_case (ls ! l))) (map (lb_data (ls ! l)) [i..<i + length ts]) ts
      then inside ls l (i + length ts) (fold (iterator_match null_size ls) ts it)
      else \<not> it_matches (fold (iterator_match null_size ls) ts it))"
proof (induction ts arbitrary: i it)
  case (Cons t ts)
  have up: "[i..<i + length (t # ts)] = i # [i + 1..<i + length (t # ts)]"
    by (simp add: upt_conv_Cons del: upt_Suc)
  from Cons.prems inside_match [of ls l i it t null_size]
  have step: "if same_char (lb_case (ls ! l)) (lb_data (ls ! l) i) t
         then inside ls l (i + 1) (iterator_match null_size ls t it)
         else \<not> it_matches (iterator_match null_size ls t it)" by simp
  show ?case
  proof (cases "same_char (lb_case (ls ! l)) (lb_data (ls ! l) i) t")
    case True
    have eq: "i + 1 + length ts = i + length (t # ts)" by simp
    have in1: "inside ls l (i + 1) (iterator_match null_size ls t it)" using step True by simp
    note ih = Cons.IH [OF in1 _ Cons.prems(3), unfolded eq, OF Cons.prems(2)]
    show ?thesis using ih True unfolding up by (simp only: list.map list_all2_Cons fold_simps simp_thms)
  next
    case False
    with step show ?thesis unfolding up by (simp add: fold_stuck)
  qed
qed simp

definition boundary :: "u8 \<Rightarrow> label list \<Rightarrow> nat option \<Rightarrow> iterator \<Rightarrow> bool" where
  "boundary null_size ls p it \<longleftrightarrow> it_matches it \<and>
     (it_label it = p \<and> it_offset it = 0 \<and> it_size it = size_of null_size ls p
      \<or> (\<exists>l. it_label it = Some l \<and> it_size it < it_offset it \<and> lb_next (ls ! l) = p))"

lemma boundary_step:
  assumes "boundary null_size ls (Some l) it"
  shows "inside ls l 0 (iterator_step null_size ls it)"
  using assms by (auto simp: boundary_def inside_def iterator_step_def size_of_def)

lemma boundary_match:
  assumes "boundary null_size ls (Some l) it"
  shows "iterator_match null_size ls c it = iterator_match null_size ls c (iterator_step null_size ls it)"
proof -
  let ?it = "iterator_step null_size ls it"
  have "iterator_step null_size ls ?it = ?it" "it_matches ?it"
    using boundary_step [OF assms] by (auto simp: inside_def iterator_step_def split: option.splits)
  moreover have "it_matches it" using assms by (simp add: boundary_def)
  ultimately show ?thesis by (simp add: iterator_match_def)
qed

lemma same_char_size: "c < 64 \<Longrightarrow> same_char cs d c \<longleftrightarrow> d = c"
  by (auto simp: same_char_def equalsIgnoreCase_def word_le_nat_alt word_less_nat_alt)

lemma iterator_decides:
  "spells ls p is ms \<Longrightarrow> boundary null_size ls p it \<Longrightarrow> (\<forall>t\<in>set ns. label_text t) \<Longrightarrow>
     it_matches (fold (iterator_match null_size ls) (name_image ns) it)
       = list_all2 same_label (map ((!) ls) (butlast is)) ns"
proof (induction arbitrary: it ns rule: spells.induct)
  case (root l)
  note b = boundary_step [OF root.prems(1)] and m = boundary_match [OF root.prems(1)]
  show ?case
  proof (cases ns)
    case Nil
    with inside_match [OF b, of 0 null_size] root.hyps show ?thesis by (simp add: m same_char_def inside_def)
  next
    case (Cons t ns')
    then have "(of_nat (length t) :: u8) \<noteq> 0" "(of_nat (length t) :: u8) < 64"
      using root.prems(2) by (auto simp: label_text_def word_less_nat_alt unat_of_nat_u8 dest: arg_cong [of _ 0 unat])
    with inside_match [OF b, of "of_nat (length t)" null_size] root.hyps Cons show ?thesis
      by (simp add: m label_image_def same_char_size fold_stuck)
  qed
next
  case (label l "is" ms)
  note b = boundary_step [OF label.prems(1)] and m = boundary_match [OF label.prems(1)]
  have bl: "butlast (l # is) = l # butlast is"
    using label.hyps(5) by (cases rule: spells.cases) auto
  show ?case
  proof (cases ns)
    case Nil
    with inside_match [OF b, of 0 null_size] label.hyps show ?thesis
      unfolding bl by (simp add: m same_char_size)
  next
    case (Cons t ns')
    let ?c = "of_nat (length t) :: u8"
    let ?it = "iterator_match null_size ls ?c it"
    have t: "unat ?c = length t" "?c < 64"
      using label.prems(2) Cons by (auto simp: label_text_def word_less_nat_alt unat_of_nat_u8)
    have size: "if lb_data (ls ! l) 0 = ?c then inside ls l 1 ?it else \<not> it_matches ?it"
      using inside_match [OF b, of ?c null_size] label.hyps t
      by (cases "lb_data (ls ! l) 0 = ?c") (simp_all add: m same_char_size)
    show ?thesis
    proof (cases "lb_data (ls ! l) 0 = ?c")
      case False
      then have "length (text_of (ls ! l)) \<noteq> length t" using t by (metis length_text_of word_unat_eq_iff)
      then have "\<not> same_label (ls ! l) t" by (auto simp: same_label_def dest: list_all2_lengthD)
      with False size Cons show ?thesis unfolding bl by (simp add: label_image_def fold_stuck)
    next
      case True
      then have n: "unat (lb_data (ls ! l) 0) = length t" using t by simp
      have up: "map (lb_data (ls ! l)) [1..<1 + length t] = text_of (ls ! l)" by (simp add: text_of_def n add.commute)
      have chars: "if same_label (ls ! l) t
        then inside ls l (1 + length t) (fold (iterator_match null_size ls) t ?it)
        else \<not> it_matches (fold (iterator_match null_size ls) t ?it)"
      proof -
        have in1: "inside ls l 1 ?it" using size True by simp
        have "1 + length t = unat (lb_data (ls ! l) 0) + 1" using n by simp
        from inside_fold [OF in1 this label.hyps(3), of null_size] show ?thesis
          by (simp only: up same_label_def)
      qed
      show ?thesis
      proof (cases "same_label (ls ! l) t")
        case False
        with chars Cons show ?thesis unfolding bl by (simp add: label_image_def fold_stuck)
      next
        case same: True
        then have "boundary null_size ls (lb_next (ls ! l)) (fold (iterator_match null_size ls) t ?it)"
          using chars n by (auto simp: boundary_def inside_def word_less_nat_alt)
        from label.IH [OF this] label.prems(2) Cons same show ?thesis
          unfolding bl by (simp add: label_image_def)
      qed
    qed
  qed
qed

end
