(* ===== verification/Mdns_Matching.thy ===== *)
theory Mdns_Matching
  imports Mdns_Names
begin

text \<open>
  What \<open>Matcher::match\<close> decides, when it returns and which bytes it depends on.
\<close>

section \<open>The result of a match\<close>

definition same_name :: "label list \<Rightarrow> nat list \<Rightarrow> u8 list list \<Rightarrow> bool" where
  "same_name ls is ns \<longleftrightarrow> list_all2 same_label (map ((!) ls) (butlast is)) ns"

text \<open>
  C25: The iterators of a match decide the equality of names: when the packet holds a complete name, possibly compressed,
  the iterator of a label still matches at the end exactly if the name has the labels of its chain, upper and lower case
  being distinguished only in the labels constructed as case sensitive.
\<close>

theorem iterators_decide_names:
  assumes "reading b (name_image ns) e" and "\<forall>t\<in>set ns. label_text t"
    and "\<forall>p\<in>set ps. \<exists>ms. spells ls (Some p) (I p) ms"
  shows "\<exists>its b'. match_loop null_size ls 1 (map (iterator_new null_size ls \<circ> Some) ps) [] b = Some (0, its, dotted ns, b')
     \<and> map it_matches its = map (\<lambda>p. same_name ls (I p) ns) ps"
proof -
  have new: "boundary null_size ls (Some p) (iterator_new null_size ls (Some p))" for p
    by (simp add: boundary_def iterator_new_def)
  let ?its = "map (fold (iterator_match null_size ls) (name_image ns)) (map (iterator_new null_size ls \<circ> Some) ps)"
  have "map it_matches ?its = map (\<lambda>p. same_name ls (I p) ns) ps"
    using assms(2,3) iterator_decides [OF _ new] by (auto simp: same_name_def)
  with match_loop_reading [OF assms(1), of 1 null_size ls "map (iterator_new null_size ls \<circ> Some) ps" "[]"] assms(2)
  show ?thesis by auto
qed

lemma choose_name_nonempty: "its \<noteq> [] \<Longrightarrow> choose_name its 0 UNKNOWN_NAME = 1"
proof -
  have "choose_name its idx 1 = 1" for its idx by (cases its) (simp_all add: UNKNOWN_NAME_def)
  then show "its \<noteq> [] \<Longrightarrow> choose_name its 0 UNKNOWN_NAME = 1" by (cases its) simp_all
qed

text \<open>
  The result of \<open>match\<close> ignores what the iterators decided: for every complete name, whether or not a label has it,
  \<open>match\<close> returns the index 1 (the statement \<open>nameIndex = 1\<close> at the end of the search loop), which the responder takes
  for the name of its service.
\<close>

theorem matcher_names_the_service:
  assumes "reading b (name_image ns) e" and "\<forall>t\<in>set ns. label_text t" and "labels \<noteq> []"
  shows "map_option fst (matcher_match null_size ls labels b) = Some 1"
  using matcher_match_reading [OF assms(1,2), of null_size ls labels] assms(3) choose_name_nonempty by fastforce

section \<open>Names that end the responder\<close>

definition endless_pointer :: "buffer \<Rightarrow> bool" where
  "endless_pointer b \<longleftrightarrow> \<not> bf_data b (unat (bf_offset b)) < 0xC0 \<and> available b > 0 \<and>
     (pointer_target (bf_data b (unat (bf_offset b))) (bf_data b (unat (bf_offset b + 1))) = unat (bf_offset b)
      \<or> bf_offset b + 1 = bf_limit b)"

lemma pointer_loop_truncated:
  assumes "pointer_loop c b = Some r"
  shows "\<not> (\<not> c < 0xC0 \<and> bf_offset b = bf_limit b)"
  using assms
proof (rule pointer_loop.raw_induct [rotated, where P = "\<lambda>c b r. \<not> (\<not> c < 0xC0 \<and> bf_offset b = bf_limit b)"])
  fix f c b r
  assume rec: "\<And>c b r. f c b = Some r \<Longrightarrow> \<not> (\<not> c < 0xC0 \<and> bf_offset b = bf_limit b)"
    and body: "(if c AND LABEL_POINTER = LABEL_POINTER
          then if 0 < available b
               then let (c2, b1) = readUInt8 b;
                        pointerOffset = push_bit 8 (ucast (c AND NOT LABEL_POINTER)) OR ucast c2;
                        (c', b2) = readUInt8 (setOffset pointerOffset (buffer_mark b1))
                    in f c' b2
               else f c b
          else Some (c, b)) = Some r"
  show "\<not> (\<not> c < 0xC0 \<and> bf_offset b = bf_limit b)"
  proof
    assume stuck: "\<not> c < 0xC0 \<and> bf_offset b = bf_limit b"
    with body have "f c b = Some r" by (simp add: is_pointer_iff available_def)
    from rec [OF this] stuck show False by blast
  qed
qed

definition self_pointer :: "u16 \<Rightarrow> u8 \<Rightarrow> buffer \<Rightarrow> bool" where
  "self_pointer v c b \<longleftrightarrow> c = bf_data b (unat v) \<and> \<not> c < 0xC0 \<and> bf_offset b = v + 1
     \<and> pointer_target c (bf_data b (unat (v + 1))) = unat v"

lemma pointer_loop_self:
  assumes "pointer_loop c b = Some r"
  shows "\<not> self_pointer v c b"
  using assms
proof (rule pointer_loop.raw_induct [rotated, where P = "\<lambda>c b r. \<not> self_pointer v c b"])
  fix f c b r
  assume rec: "\<And>c b r. f c b = Some r \<Longrightarrow> \<not> self_pointer v c b"
    and body: "(if c AND LABEL_POINTER = LABEL_POINTER
          then if 0 < available b
               then let (c2, b1) = readUInt8 b;
                        pointerOffset = push_bit 8 (ucast (c AND NOT LABEL_POINTER)) OR ucast c2;
                        (c', b2) = readUInt8 (setOffset pointerOffset (buffer_mark b1))
                    in f c' b2
               else f c b
          else Some (c, b)) = Some r"
  show "\<not> self_pointer v c b"
  proof
    assume self: "self_pointer v c b"
    let ?b' = "(buffer_mark (b\<lparr>bf_offset := v + 1 + 1\<rparr>))\<lparr>bf_offset := v + 1\<rparr>"
    have t: "push_bit 8 (ucast (c AND NOT LABEL_POINTER)) OR ucast (bf_data b (unat (v + 1))) = v"
      using self unfolding self_pointer_def pointer_target_def word_unat_eq_iff by simp
    have data: "bf_data (buffer_mark b2) = bf_data b2" for b2 by (simp add: buffer_mark_def)
    from body self t have "f c ?b' = Some r \<or> f c b = Some r"
      by (auto simp: self_pointer_def is_pointer_iff readUInt8_def setOffset_def data Let_def split: if_splits)
    moreover have "self_pointer v c ?b'" using self unfolding self_pointer_def by (auto simp: data)
    ultimately show False using rec self by blast
  qed
qed

text \<open>
  One packet stops the responder for ever: when a name starts with a compression pointer to itself, or its last byte
  is the first byte of a pointer, the reader loops without end and \<open>match\<close> does not return.
\<close>

theorem endless_pointer_hangs:
  assumes "endless_pointer b"
  shows "matcher_match null_size ls labels b = None"
proof -
  let ?v = "bf_offset b" and ?b1 = "b\<lparr>bf_offset := bf_offset b + 1\<rparr>"
  let ?c = "bf_data b (unat ?v)"
  have "pointer_loop ?c ?b1 = None"
  proof (cases "pointer_loop ?c ?b1")
    case (Some r)
    then show ?thesis
      using assms pointer_loop_truncated [OF Some] pointer_loop_self [OF Some, of ?v]
      by (auto simp: endless_pointer_def self_pointer_def)
  qed
  then have "reader_next b = None" by (simp add: reader_next_def readUInt8_def)
  moreover have "reader_hasNext 1 b"
    using assms by (simp add: endless_pointer_def reader_hasNext_def END_OF_NAME_def)
  ultimately show ?thesis by (simp add: matcher_match_def match_loop.simps [of _ _ 1])
qed

lemma endless_pointer_hangs_witness:
  defines "b \<equiv> \<lparr>bf_data = (\<lambda>i. if i = 12 then 0xC0 else 12), bf_size = 512, bf_limit = 18, bf_offset = 12,
     bf_mark = INVALID_MARK_OFFSET\<rparr>"
  shows "matcher_match 0 [] [] b = None"
proof (rule endless_pointer_hangs)
  have "LABEL_POINTER AND NOT LABEL_POINTER = 0" by simp
  then show "endless_pointer b"
    by (simp add: endless_pointer_def b_def available_def pointer_target_def LABEL_POINTER_def)
qed

section \<open>Names without pointers\<close>

definition agree :: "buffer \<Rightarrow> (nat \<Rightarrow> u8) \<Rightarrow> bool" where
  "agree b d \<longleftrightarrow> (\<forall>i<unat (bf_limit b). d i = bf_data b i)"

definition plain_rest :: "buffer \<Rightarrow> bool" where
  "plain_rest b \<longleftrightarrow> bf_offset b \<le> bf_limit b \<and>
     (\<forall>i. unat (bf_offset b) \<le> i \<and> i < unat (bf_limit b) \<longrightarrow> bf_data b i < 0xC0)"

lemma plain_rest_next:
  assumes "plain_rest b" and "reader_hasNext c b"
  defines "b1 \<equiv> b\<lparr>bf_offset := bf_offset b + 1\<rparr>"
  shows "plain_rest b1" and "bf_offset b < bf_offset b1"
    and "unat (bf_limit b) - unat (bf_offset b1) < unat (bf_limit b) - unat (bf_offset b)"
    and "agree b d \<Longrightarrow> reader_next (b\<lparr>bf_data := d\<rparr>) = Some (bf_data b (unat (bf_offset b)), b1\<lparr>bf_data := d\<rparr>)"
proof -
  have lt: "unat (bf_offset b) < unat (bf_limit b)"
    using assms(1,2) by (auto simp: plain_rest_def reader_hasNext_def available_pos word_le_nat_alt word_unat_eq_iff)
  then have suc: "unat (bf_offset b + 1) = unat (bf_offset b) + 1"
    using unat_u16_less [of "bf_limit b"] unat_add_of_nat_u16 [of "bf_offset b" 1] by simp
  show "plain_rest b1" "bf_offset b < bf_offset b1"
    "unat (bf_limit b) - unat (bf_offset b1) < unat (bf_limit b) - unat (bf_offset b)"
    using assms(1) lt suc by (auto simp: plain_rest_def b1_def word_le_nat_alt word_less_nat_alt)
  assume d: "agree b d"
  then have "d (unat (bf_offset b)) = bf_data b (unat (bf_offset b))" using lt by (simp add: agree_def)
  moreover have "bf_data b (unat (bf_offset b)) < 0xC0" using assms(1) lt by (simp add: plain_rest_def)
  ultimately show "reader_next (b\<lparr>bf_data := d\<rparr>) = Some (bf_data b (unat (bf_offset b)), b1\<lparr>bf_data := d\<rparr>)"
    by (simp add: reader_next_def readUInt8_def pointer_loop_plain b1_def)
qed

lemma hasNext_data [simp]: "reader_hasNext c (b\<lparr>bf_data := d\<rparr>) = reader_hasNext c b"
  by (simp add: reader_hasNext_def available_def)

lemma match_label_plain:
  "plain_rest b \<Longrightarrow> \<exists>c' its' name' o1. bf_offset b \<le> o1 \<and> plain_rest (b\<lparr>bf_offset := o1\<rparr>)
     \<and> (\<forall>d. agree b d \<longrightarrow> match_label null_size ls n idx c its name (b\<lparr>bf_data := d\<rparr>)
            = Some (c', its', name', b\<lparr>bf_data := d, bf_offset := o1\<rparr>))"
proof (induction "unat (bf_limit b) - unat (bf_offset b)" arbitrary: b idx c its name rule: less_induct)
  case less
  show ?case
  proof (cases "idx < n \<and> reader_hasNext c b")
    case False
    then have "match_label null_size ls n idx c its name (b\<lparr>bf_data := d\<rparr>) = Some (c, its, name, b\<lparr>bf_data := d\<rparr>)" for d
      by (subst match_label.simps) auto
    with less.prems show ?thesis by (intro exI [of _ c] exI [of _ its] exI [of _ name] exI [of _ "bf_offset b"]) simp
  next
    case True
    let ?x = "bf_data b (unat (bf_offset b))" and ?b1 = "b\<lparr>bf_offset := bf_offset b + 1\<rparr>"
    note next1 = plain_rest_next [OF less.prems True [THEN conjunct2]]
    have run: "match_label null_size ls n idx c its name (b\<lparr>bf_data := d\<rparr>)
        = match_label null_size ls n (idx + 1) ?x (map (iterator_match null_size ls ?x) its) (name @ [?x]) (?b1\<lparr>bf_data := d\<rparr>)"
      if "agree b d" for d
      using True next1(4) [OF that] by (subst match_label.simps) simp
    from less.hyps [of ?b1, OF _ next1(1), of "idx + 1" ?x "map (iterator_match null_size ls ?x) its" "name @ [?x]"] next1(3)
    obtain c' its' name' o1 where "bf_offset ?b1 \<le> o1" "plain_rest (?b1\<lparr>bf_offset := o1\<rparr>)"
      and ih: "\<forall>d. agree ?b1 d \<longrightarrow> match_label null_size ls n (idx + 1) ?x (map (iterator_match null_size ls ?x) its) (name @ [?x]) (?b1\<lparr>bf_data := d\<rparr>)
        = Some (c', its', name', ?b1\<lparr>bf_data := d, bf_offset := o1\<rparr>)" by auto
    moreover have "bf_offset b \<le> o1" using calculation(1) next1(2) by simp
    ultimately show ?thesis
      using run by (intro exI [of _ c'] exI [of _ its'] exI [of _ name'] exI [of _ o1]) (simp add: agree_def)
  qed
qed

lemma match_loop_plain:
  "plain_rest b \<Longrightarrow> \<exists>c' its' name' o1. bf_offset b \<le> o1 \<and> plain_rest (b\<lparr>bf_offset := o1\<rparr>)
     \<and> (\<forall>d. agree b d \<longrightarrow> match_loop null_size ls c its name (b\<lparr>bf_data := d\<rparr>)
            = Some (c', its', name', b\<lparr>bf_data := d, bf_offset := o1\<rparr>))"
proof (induction "unat (bf_limit b) - unat (bf_offset b)" arbitrary: b c its name rule: less_induct)
  case less
  show ?case
  proof (cases "reader_hasNext c b")
    case False
    then have "match_loop null_size ls c its name (b\<lparr>bf_data := d\<rparr>) = Some (c, its, name, b\<lparr>bf_data := d\<rparr>)" for d
      by (subst match_loop.simps) auto
    with less.prems show ?thesis by (intro exI [of _ c] exI [of _ its] exI [of _ name] exI [of _ "bf_offset b"]) simp
  next
    case True
    let ?n = "bf_data b (unat (bf_offset b))" and ?b1 = "b\<lparr>bf_offset := bf_offset b + 1\<rparr>"
    let ?its = "map (iterator_match null_size ls ?n) its"
    note next1 = plain_rest_next [OF less.prems True]
    from match_label_plain [OF next1(1), of null_size ls ?n 0 ?n ?its name]
    obtain c1 its1 name1 o1 where o1: "bf_offset ?b1 \<le> o1" "plain_rest (?b1\<lparr>bf_offset := o1\<rparr>)"
      and ml: "\<forall>d. agree ?b1 d \<longrightarrow> match_label null_size ls ?n 0 ?n ?its name (?b1\<lparr>bf_data := d\<rparr>)
        = Some (c1, its1, name1, ?b1\<lparr>bf_data := d, bf_offset := o1\<rparr>)" by auto
    let ?b2 = "b\<lparr>bf_offset := o1\<rparr>" and ?name1 = "if ?n > 0 then name1 @ [DOT] else name1"
    have b2: "plain_rest ?b2" using o1(2) by simp
    have run: "match_loop null_size ls c its name (b\<lparr>bf_data := d\<rparr>)
        = match_loop null_size ls c1 its1 ?name1 (?b2\<lparr>bf_data := d\<rparr>)" if "agree b d" for d
    proof -
      have "agree ?b1 d" using that by (simp add: agree_def)
      with ml have "match_label null_size ls ?n 0 ?n ?its name (?b1\<lparr>bf_data := d\<rparr>)
        = Some (c1, its1, name1, ?b1\<lparr>bf_data := d, bf_offset := o1\<rparr>)" by blast
      moreover have "?b1\<lparr>bf_data := d, bf_offset := o1\<rparr> = ?b2\<lparr>bf_data := d\<rparr>" by simp
      ultimately show ?thesis using True next1(4) [OF that] by (subst match_loop.simps) (simp del: buffer.update_convs)
    qed
    have o1b: "unat (bf_offset b) < unat o1" using o1(1) next1(2) by (simp add: word_le_nat_alt word_less_nat_alt)
    have o1l: "unat o1 \<le> unat (bf_limit b)" using b2 by (simp add: plain_rest_def word_le_nat_alt)
    have "unat (bf_limit ?b2) - unat (bf_offset ?b2) < unat (bf_limit b) - unat (bf_offset b)"
      using o1b o1l by simp
    from less.hyps [OF this b2, of c1 its1 ?name1]
    obtain c' its' name' o2 where o2: "bf_offset ?b2 \<le> o2" "plain_rest (?b2\<lparr>bf_offset := o2\<rparr>)"
      and ih: "\<forall>d. agree ?b2 d \<longrightarrow> match_loop null_size ls c1 its1 ?name1 (?b2\<lparr>bf_data := d\<rparr>)
        = Some (c', its', name', ?b2\<lparr>bf_data := d, bf_offset := o2\<rparr>)" by blast
    moreover have "bf_offset b \<le> o2" using o1b o2(1) by (simp add: word_le_nat_alt)
    ultimately show ?thesis
      using run by (intro exI [of _ c'] exI [of _ its'] exI [of _ name'] exI [of _ o2]) (simp add: agree_def)
  qed
qed

text \<open>
  A packet in which no byte at or behind the reader's offset starts a pointer is safe, however long or broken its
  names are: \<open>match\<close> returns, its result depends only on the bytes of the packet, not on the memory behind it, and
  the offset stays inside the packet.
\<close>

theorem plain_names_stay_inside:
  assumes "plain_rest b" and "bf_mark b = INVALID_MARK_OFFSET"
  shows "\<exists>r name o1. o1 \<le> bf_limit b \<and> (\<forall>d. agree b d \<longrightarrow>
     map_option (\<lambda>(r, name, b'). (r, name, bf_offset b')) (matcher_match null_size ls labels (b\<lparr>bf_data := d\<rparr>))
       = Some (r, name, o1))"
proof -
  from match_loop_plain [OF assms(1), of null_size ls 1 "map (iterator_new null_size ls) labels" "[]"]
  obtain c its name o1 where o1: "plain_rest (b\<lparr>bf_offset := o1\<rparr>)"
    and run: "\<forall>d. agree b d \<longrightarrow> match_loop null_size ls 1 (map (iterator_new null_size ls) labels) [] (b\<lparr>bf_data := d\<rparr>)
        = Some (c, its, name, b\<lparr>bf_data := d, bf_offset := o1\<rparr>)" by blast
  from o1 have "o1 \<le> bf_limit b" by (simp add: plain_rest_def)
  moreover have "map_option (\<lambda>(r, name, b'). (r, name, bf_offset b')) (matcher_match null_size ls labels (b\<lparr>bf_data := d\<rparr>))
      = Some (if endOfName c then choose_name its 0 UNKNOWN_NAME else BUFFER_UNDERFLOW, name, o1)" if "agree b d" for d
    using run that assms(2) by (simp add: matcher_match_def buffer_reset_def)
  ultimately show ?thesis by blast
qed

lemma plain_names_stay_inside_witness:
  defines "b \<equiv> \<lparr>bf_data = (\<lambda>_. 65), bf_size = 512, bf_limit = 18, bf_offset = 12, bf_mark = INVALID_MARK_OFFSET\<rparr>"
  shows "\<exists>r name o1. o1 \<le> bf_limit b \<and> (\<forall>d. agree b d \<longrightarrow>
     map_option (\<lambda>(r, name, b'). (r, name, bf_offset b')) (matcher_match 0 [] [] (b\<lparr>bf_data := d\<rparr>)) = Some (r, name, o1))"
  by (rule plain_names_stay_inside) (simp_all add: b_def plain_rest_def)

section \<open>A packet for the witnesses\<close>

definition host_packet :: buffer where
  "host_packet = \<lparr>bf_data = (\<lambda>i. if i = 12 then 1 else if i = 13 then 0x68 else 0), bf_size = 512, bf_limit = 15,
     bf_offset = 12, bf_mark = INVALID_MARK_OFFSET\<rparr>"

definition host_label :: "label list" where
  "host_label = [\<lparr>lb_data = (\<lambda>i. 0), lb_case = False, lb_next = None, lb_off = INVALID_OFFSET\<rparr>,
     \<lparr>lb_data = (\<lambda>i. if i = 0 then 1 else 0x48), lb_case = False, lb_next = Some 0, lb_off = INVALID_OFFSET\<rparr>]"

lemma host_packet_reading: "reading host_packet (name_image [[0x68]]) 15"
proof -
  have "stream (bf_data host_packet) 15 12 ([1, 0x68, 0] @ []) 15"
    by (rule stream_plain_prefix) (simp_all add: host_packet_def stream_Nil All_less_Suc)
  then show ?thesis by (simp add: reading_def host_packet_def label_image_def)
qed

lemma host_label_spells: "spells host_label (Some 0) [0] []" "spells host_label (Some 1) [1, 0] [[0x48]]"
proof -
  have u: "[Suc 0..<2] = [1]" by (simp add: upt_conv_Cons)
  show 0: "spells host_label (Some 0) [0] []" by (simp add: spells_Some host_label_def)
  show "spells host_label (Some 1) [1, 0] [[0x48]]"
    using 0 by (simp add: spells_Some [of _ "Suc 0"] host_label_def text_of_def)
qed

lemma iterators_decide_names_witness:
  "\<exists>its b'. match_loop 0 host_label 1 (map (iterator_new 0 host_label \<circ> Some) [1]) [] host_packet
       = Some (0, its, dotted [[0x68]], b')
     \<and> map it_matches its = map (\<lambda>p. same_name host_label [1, 0] [[0x68]]) [1 :: nat]"
  using host_label_spells
  by (intro iterators_decide_names [OF host_packet_reading, where I = "\<lambda>_. [1, 0]"]) (auto simp: label_text_def)

lemma matcher_names_the_service_witness:
  "map_option fst (matcher_match 0 host_label [Some 1, Some 0] host_packet) = Some 1"
  by (rule matcher_names_the_service [OF host_packet_reading]) (simp_all add: label_text_def)

end
