(* ===== verification/Mdns_Responder.thy ===== *)
theory Mdns_Responder
  imports Mdns_Matching
begin

text \<open>
  The mDNS responder itself: \<open>QuerySet\<close>, \<open>TxtData\<close> and the class \<open>MDNS\<close> (\<open>QuerySet.cpp\<close>,
  \<open>TxtData.cpp\<close>, \<open>MDNS.cpp\<close>).  A \<open>String\<close> is the list of its bytes.  Parameters are the allocator
  \<open>alloc\<close> (by size: the memory it returns, or nothing), the memory \<open>low\<close> that a null pointer reads, the
  decimal text of a number (a \<open>String\<close> constructor) and the socket.  \<open>None\<close> means that the code does not return.
\<close>

section \<open>The set of queries\<close>

record dns_query =
  q_matchedName :: int
  q_name :: "u8 list"
  q_type :: u16
  q_cls :: u16

record query_set =
  qs_id :: u16
  qs_flags :: u16
  qs_qdcount :: u16
  qs_ancount :: u16
  qs_nscount :: u16
  qs_arcount :: u16
  qs_entryCount :: u8
  qs_queries :: "(nat \<Rightarrow> dns_query) option"
  qs_responses :: u16
  qs_status :: string

definition query_set_new :: query_set where
  "query_set_new = \<lparr>qs_id = 0, qs_flags = 0, qs_qdcount = 0, qs_ancount = 0, qs_nscount = 0, qs_arcount = 0,
     qs_entryCount = 0, qs_queries = None, qs_responses = 0, qs_status = ''ok''\<rparr>"

text \<open>\<open>new_queries\<close> is the block that \<open>malloc\<close> returns for so many queries.\<close>

definition readHeader :: "(u16 \<Rightarrow> (nat \<Rightarrow> dns_query) option) \<Rightarrow> buffer \<Rightarrow> query_set \<Rightarrow> bool \<times> buffer \<times> query_set" where
  "readHeader new_queries b qs =
     (if available b \<ge> 12
      then (let (i, b1) = readUInt16 b; (f, b2) = readUInt16 b1; (qd, b3) = readUInt16 b2;
                (an, b4) = readUInt16 b3; (ns, b5) = readUInt16 b4; (ar, b6) = readUInt16 b5
            in (new_queries qd \<noteq> None, b6,
                qs\<lparr>qs_id := i, qs_flags := f, qs_qdcount := qd, qs_ancount := an, qs_nscount := ns, qs_arcount := ar,
                  qs_entryCount := 0, qs_queries := new_queries qd\<rparr>))
      else (False, b, qs))"

definition isQuery :: "query_set \<Rightarrow> bool" where
  "isQuery qs \<longleftrightarrow> qs_flags qs AND 0x8000 = 0"

definition addEntry :: "dns_query \<Rightarrow> query_set \<Rightarrow> bool \<times> query_set" where
  "addEntry q qs =
     (case qs_queries qs of
        Some m \<Rightarrow>
          if ucast (qs_entryCount qs) < qs_qdcount qs
          then (True, qs\<lparr>qs_queries := Some (m(unat (qs_entryCount qs) := q)), qs_entryCount := qs_entryCount qs + 1\<rparr>)
          else (False, qs)
      | None \<Rightarrow> (False, qs))"

definition getQuery :: "u8 \<Rightarrow> query_set \<Rightarrow> dns_query option" where
  "getQuery index qs = map_option (\<lambda>m. m (unat index)) (qs_queries qs)"

section \<open>The text record\<close>

record txt_data =
  tx_data :: "(nat \<Rightarrow> u8) option"
  tx_size :: u16

text \<open>The loops that copy a string have an 8-bit counter.\<close>

partial_function (option) copy_chars :: "u8 list \<Rightarrow> u8 \<Rightarrow> nat \<Rightarrow> (nat \<Rightarrow> u8) \<Rightarrow> (nat \<times> (nat \<Rightarrow> u8)) option" where
  "copy_chars s i idx data =
     (if unat i < length s then copy_chars s (i + 1) (idx + 1) (data(idx := s ! unat i)) else Some (idx, data))"

definition txt_addEntry ::
  "(u16 \<Rightarrow> (nat \<Rightarrow> u8) option) \<Rightarrow> u8 list \<Rightarrow> u8 list \<Rightarrow> txt_data \<Rightarrow> (bool \<times> txt_data) option" where
  "txt_addEntry alloc key value t =
     (let addedSize = of_nat (length key + length value + 2) :: u8; new_size = tx_size t + ucast addedSize
      in case alloc new_size of
           None \<Rightarrow> Some (False, \<lparr>tx_data = None, tx_size = new_size\<rparr>)
         | Some m \<Rightarrow>
             (let m1 = (case tx_data t of
                          Some old \<Rightarrow> (\<lambda>i. if i < unat (tx_size t) then old i else m i)
                        | None \<Rightarrow> m);
                  idx = unat (tx_size t)
              in do {
                (idx1, m2) \<leftarrow> copy_chars key 0 (idx + 1) (m1(idx := addedSize - 1));
                (idx2, m3) \<leftarrow> copy_chars value 0 (idx1 + 1) (m2(idx1 := 0x3D));
                Some (True, \<lparr>tx_data = Some m3, tx_size = new_size\<rparr>)
              }))"

definition txt_write :: "(nat \<Rightarrow> u8) \<Rightarrow> txt_data \<Rightarrow> buffer \<Rightarrow> buffer" where
  "txt_write low t b =
     write_data (case tx_data t of Some m \<Rightarrow> m | None \<Rightarrow> low) 0 (unat (tx_size t)) (writeUInt16 (tx_size t) b)"

section \<open>The responder\<close>

definition MDNS_PORT :: u16 where "MDNS_PORT = 5353"
definition BUFFER_SIZE :: u16 where "BUFFER_SIZE = 512"
definition HOST_NAME :: nat where "HOST_NAME = 0"
definition SERVICE_NAME :: nat where "SERVICE_NAME = 1"
definition INSTANCE_NAME :: nat where "INSTANCE_NAME = 2"
definition NAME_COUNT :: nat where "NAME_COUNT = 3"

definition A_TYPE :: u16 where "A_TYPE = 0x01"
definition PTR_TYPE :: u16 where "PTR_TYPE = 0x0c"
definition TXT_TYPE :: u16 where "TXT_TYPE = 0x10"
definition AAAA_TYPE :: u16 where "AAAA_TYPE = 0x1c"
definition SRV_TYPE :: u16 where "SRV_TYPE = 0x21"
definition NSEC_TYPE :: u16 where "NSEC_TYPE = 0x2f"
definition ANY_TYPE :: u16 where "ANY_TYPE = 0xFF"

definition IN_CLASS :: u16 where "IN_CLASS = 1"
definition TTL_2MIN :: u32 where "TTL_2MIN = 120"
definition TTL_75MIN :: u32 where "TTL_75MIN = 4500"

definition A_FLAG :: u16 where "A_FLAG = 0x01"
definition PTR_FLAG :: u16 where "PTR_FLAG = 0x02"
definition SRV_FLAG :: u16 where "SRV_FLAG = 0x04"
definition TXT_FLAG :: u16 where "TXT_FLAG = 0x08"
definition NSEC_HOST_FLAG :: u16 where "NSEC_HOST_FLAG = 0x10"
definition NSEC_INSTANCE_FLAG :: u16 where "NSEC_INSTANCE_FLAG = 0x20"
definition FLAG_COUNT :: nat where "FLAG_COUNT = 6"

definition ADDITIONAL :: "u16 \<Rightarrow> u16" where "ADDITIONAL a = push_bit 6 a"

record mdns =
  md_buffer :: buffer
  md_store :: "label list"
  md_labels :: "nat option list"
  md_querySet :: "query_set option"
  md_port :: u16
  md_txt :: txt_data

text \<open>The indices of the labels \<open>ROOT\<close> and \<open>LOCAL\<close>, the first two to be constructed.\<close>

definition ROOT :: nat where "ROOT = 0"
definition LOCAL :: nat where "LOCAL = 1"

definition local_text :: "u8 list" where "local_text = [0x6C, 0x6F, 0x63, 0x61, 0x6C]"

definition mdns_new ::
  "(nat \<Rightarrow> u8) \<Rightarrow> (nat \<Rightarrow> (nat \<Rightarrow> u8) option) \<Rightarrow> (u16 \<Rightarrow> (nat \<Rightarrow> u8) option) \<Rightarrow> mdns option" where
  "mdns_new low alloc alloc16 = do {
     (r, ls1) \<leftarrow> label_new low alloc [] None False [];
     (l, ls2) \<leftarrow> label_new low alloc local_text (Some r) False ls1;
     Some \<lparr>md_buffer = buffer_new alloc16 BUFFER_SIZE, md_store = ls2, md_labels = replicate NAME_COUNT None,
       md_querySet = None, md_port = 0, md_txt = \<lparr>tx_data = None, tx_size = 0\<rparr>\<rparr>
   }"

partial_function (option) alpha_loop :: "bool \<Rightarrow> u8 \<Rightarrow> u8 list \<Rightarrow> bool option" where
  "alpha_loop result idx s =
     (if result \<and> unat idx < length s
      then (let c = s ! unat idx
            in alpha_loop ((c \<ge> 0x61 \<and> c \<le> 0x7A) \<or> (c \<ge> 0x41 \<and> c \<le> 0x5A) \<or> (c \<ge> 0x30 \<and> c \<le> 0x39) \<or> c = 0x2D) (idx + 1) s)
      else Some result)"

definition isAlphaDigitHyphen :: "u8 list \<Rightarrow> bool option" where
  "isAlphaDigitHyphen s = alpha_loop True 0 s"

partial_function (option) unicode_loop :: "bool \<Rightarrow> u8 \<Rightarrow> u8 list \<Rightarrow> bool option" where
  "unicode_loop result idx s =
     (if result \<and> unat idx < length s
      then (let c = s ! unat idx in unicode_loop (c \<ge> 0x1f \<and> c \<noteq> 0x7f) (idx + 1) s)
      else Some result)"

definition isNetUnicode :: "u8 list \<Rightarrow> bool option" where
  "isNetUnicode s = unicode_loop True 0 s"

definition setHostname ::
  "(nat \<Rightarrow> u8) \<Rightarrow> (nat \<Rightarrow> (nat \<Rightarrow> u8) option) \<Rightarrow> u8 list \<Rightarrow> mdns \<Rightarrow> (bool \<times> mdns) option" where
  "setHostname low alloc hostname d = do {
     success \<leftarrow> (if length hostname < MAX_LABEL_SIZE then isAlphaDigitHyphen hostname else Some False);
     if success
     then do {
       (l, ls) \<leftarrow> label_new low alloc hostname (Some LOCAL) False (md_store d);
       Some (unat (getSize ls l) = length hostname,
             d\<lparr>md_store := ls, md_labels := (md_labels d)[HOST_NAME := Some l]\<rparr>)
     }
     else Some (False, d)
   }"

definition setService ::
  "(nat \<Rightarrow> u8) \<Rightarrow> (nat \<Rightarrow> (nat \<Rightarrow> u8) option) \<Rightarrow> u8 list \<Rightarrow> u8 list \<Rightarrow> u16 \<Rightarrow> u8 list \<Rightarrow> mdns \<Rightarrow> (bool \<times> mdns) option" where
  "setService low alloc protocol service port inst d = do {
     s0 \<leftarrow> (if length protocol < MAX_LABEL_SIZE - 1 \<and> length service < MAX_LABEL_SIZE - 1 \<and> length inst < MAX_LABEL_SIZE
            then do {
              a \<leftarrow> isAlphaDigitHyphen protocol;
              if a then do { b \<leftarrow> isAlphaDigitHyphen service; if b then isNetUnicode inst else Some False } else Some False
            }
            else Some False);
     (s3, d3) \<leftarrow> (if s0
       then do {
         (lp, ls1) \<leftarrow> label_new low alloc (0x5F # protocol) (Some LOCAL) False (md_store d);
         let d1 = d\<lparr>md_store := ls1\<rparr>;
         if unat (getSize ls1 lp) = length protocol + 1
         then do {
           (l2, ls2) \<leftarrow> label_new low alloc (0x5F # service) (Some lp) False ls1;
           let d2 = d1\<lparr>md_store := ls2, md_labels := (md_labels d1)[SERVICE_NAME := Some l2]\<rparr>;
           if unat (getSize ls2 l2) = length service + 1
           then do {
             (l3, ls3) \<leftarrow> label_new low alloc inst (Some l2) True ls2;
             Some (unat (getSize ls3 l3) = length inst,
                   d2\<lparr>md_store := ls3, md_labels := (md_labels d2)[INSTANCE_NAME := Some l3]\<rparr>)
           }
           else Some (False, d2)
         }
         else Some (False, d1)
       }
       else Some (False, d));
     Some (s3, d3\<lparr>md_port := port\<rparr>)
   }"

definition addTXTEntry ::
  "(u16 \<Rightarrow> (nat \<Rightarrow> u8) option) \<Rightarrow> u8 list \<Rightarrow> u8 list \<Rightarrow> mdns \<Rightarrow> (bool \<times> mdns) option" where
  "addTXTEntry alloc key value d = do {
     (r, t) \<leftarrow> txt_addEntry alloc key value (md_txt d);
     Some (r, d\<lparr>md_txt := t\<rparr>)
   }"

section \<open>Reading the queries\<close>

text \<open>The answers to one query: the name matched and the type asked for.\<close>

definition answers :: "int \<Rightarrow> u16 \<Rightarrow> u16" where
  "answers matchedName type =
     (if matchedName = int HOST_NAME
      then if type = A_TYPE \<or> type = ANY_TYPE then A_FLAG OR ADDITIONAL NSEC_HOST_FLAG
           else if type = AAAA_TYPE then NSEC_HOST_FLAG else 0
      else if matchedName = int SERVICE_NAME
      then if type = PTR_TYPE \<or> type = ANY_TYPE
           then PTR_FLAG OR ADDITIONAL SRV_FLAG OR ADDITIONAL TXT_FLAG OR ADDITIONAL A_FLAG else 0
      else if matchedName = int INSTANCE_NAME
      then if type = SRV_TYPE then SRV_FLAG OR ADDITIONAL A_FLAG OR ADDITIONAL NSEC_INSTANCE_FLAG
           else if type = TXT_TYPE then TXT_FLAG OR ADDITIONAL NSEC_INSTANCE_FLAG
           else if type = ANY_TYPE then SRV_FLAG OR TXT_FLAG OR ADDITIONAL A_FLAG OR NSEC_INSTANCE_FLAG
           else 0
      else 0)"

text \<open>The loop over the queries; its counter has 8 bits, the number of queries 16.\<close>

partial_function (option) query_loop ::
  "u8 \<Rightarrow> (u8 \<Rightarrow> string) \<Rightarrow> label list \<Rightarrow> nat option list \<Rightarrow> u8 \<Rightarrow> buffer \<Rightarrow> query_set \<Rightarrow> u16 \<Rightarrow>
     (buffer \<times> query_set \<times> u16) option" where
  "query_loop null_size decimal ls labels count b qs responses =
     (if ucast count < qs_qdcount qs
      then do {
        (matchedName, name, b1) \<leftarrow> matcher_match null_size ls labels b;
        let (type, b2) = readUInt16 b1;
        let (cls, b3) = readUInt16 b2;
        if matchedName \<ge> 0
        then query_loop null_size decimal ls labels (count + 1) b3 qs (responses OR answers matchedName type)
        else if matchedName = BUFFER_UNDERFLOW
        then query_loop null_size decimal ls labels (ucast (qs_qdcount qs)) b3
               (qs\<lparr>qs_status := ''query '' @ decimal (count + 1) @ '' buffer underflow''\<rparr>) responses
        else query_loop null_size decimal ls labels (count + 1) b3 qs responses
      }
      else Some (b, qs, responses))"

definition getResponses ::
  "u8 \<Rightarrow> (u8 \<Rightarrow> string) \<Rightarrow> (u16 \<Rightarrow> (nat \<Rightarrow> dns_query) option) \<Rightarrow> mdns \<Rightarrow> (u16 \<times> mdns) option" where
  "getResponses null_size decimal new_queries d =
     (let (ok, b, qs) = readHeader new_queries (md_buffer d) query_set_new
      in do {
        (b', qs', responses) \<leftarrow>
          (if ok
           then if isQuery qs then query_loop null_size decimal (md_store d) (md_labels d) 0 b qs 0 else Some (b, qs, 0)
           else Some (b, qs\<lparr>qs_status := ''header buffer underflow''\<rparr>, 0));
        Some (responses, d\<lparr>md_buffer := b', md_querySet := Some (qs'\<lparr>qs_responses := responses\<rparr>)\<rparr>)
      })"

section \<open>Writing the responses\<close>

text \<open>The number of the lower \<open>FLAG_COUNT\<close> bits that are set.\<close>

fun count_loop :: "nat \<Rightarrow> u16 \<Rightarrow> u8 \<Rightarrow> u8" where
  "count_loop 0 bits c = c"
| "count_loop (Suc n) bits c = count_loop n (drop_bit 1 bits) (c + ucast (bits AND 1))"

definition mdns_count :: "u16 \<Rightarrow> u8" where
  "mdns_count bits = count_loop FLAG_COUNT bits 0"

type_synonym out = "label list \<times> buffer"

definition writeRecord :: "nat option list \<Rightarrow> nat \<Rightarrow> u16 \<Rightarrow> u32 \<Rightarrow> out \<Rightarrow> out option" where
  "writeRecord labels nameIndex type ttl s = do {
     (ls, b) \<leftarrow> label_write (labels ! nameIndex) (fst s) (snd s);
     Some (ls, writeUInt32 ttl (writeUInt16 IN_CLASS (writeUInt16 type b)))
   }"

text \<open>\<open>ip\<close> holds the four bytes of \<open>WiFi.localIP()\<close>.\<close>

definition writeARecord :: "(nat \<Rightarrow> u8) \<Rightarrow> nat option list \<Rightarrow> out \<Rightarrow> out option" where
  "writeARecord ip labels s = do {
     (ls, b) \<leftarrow> writeRecord labels HOST_NAME A_TYPE TTL_2MIN s;
     Some (ls, write_data ip 0 4 (writeUInt16 4 b))
   }"

definition writePTRRecord :: "nat option list \<Rightarrow> out \<Rightarrow> out option" where
  "writePTRRecord labels s = do {
     (ls, b) \<leftarrow> writeRecord labels SERVICE_NAME PTR_TYPE TTL_75MIN s;
     n \<leftarrow> getWriteSize ls (labels ! INSTANCE_NAME) 0;
     label_write (labels ! INSTANCE_NAME) ls (writeUInt16 (ucast n) b)
   }"

definition writeSRVRecord :: "u16 \<Rightarrow> nat option list \<Rightarrow> out \<Rightarrow> out option" where
  "writeSRVRecord port labels s = do {
     (ls, b) \<leftarrow> writeRecord labels INSTANCE_NAME SRV_TYPE TTL_2MIN s;
     n \<leftarrow> getWriteSize ls (labels ! HOST_NAME) 0;
     label_write (labels ! HOST_NAME) ls (writeUInt16 port (writeUInt16 0 (writeUInt16 0 (writeUInt16 (6 + ucast n) b))))
   }"

definition writeTXTRecord :: "(nat \<Rightarrow> u8) \<Rightarrow> txt_data \<Rightarrow> nat option list \<Rightarrow> out \<Rightarrow> out option" where
  "writeTXTRecord low t labels s = do {
     (ls, b) \<leftarrow> writeRecord labels INSTANCE_NAME TXT_TYPE TTL_75MIN s;
     Some (ls, txt_write low t b)
   }"

definition writeNSECHostRecord :: "nat option list \<Rightarrow> out \<Rightarrow> out option" where
  "writeNSECHostRecord labels s = do {
     (ls, b) \<leftarrow> writeRecord labels HOST_NAME NSEC_TYPE TTL_2MIN s;
     (ls1, b1) \<leftarrow> label_write (labels ! HOST_NAME) ls (writeUInt16 5 b);
     Some (ls1, writeBytes [0, 1, 0x40] b1)
   }"

definition writeNSECInstanceRecord :: "nat option list \<Rightarrow> out \<Rightarrow> out option" where
  "writeNSECInstanceRecord labels s = do {
     (ls, b) \<leftarrow> writeRecord labels INSTANCE_NAME NSEC_TYPE TTL_2MIN s;
     (ls1, b1) \<leftarrow> label_write (labels ! INSTANCE_NAME) ls (writeUInt16 9 b);
     Some (ls1, writeBytes [0, 5, 0, 0, 0x80, 0, 0x40] b1)
   }"

definition when_flag :: "u16 \<Rightarrow> u16 \<Rightarrow> (out \<Rightarrow> out option) \<Rightarrow> out \<Rightarrow> out option" where
  "when_flag responses flag f s = (if responses AND flag \<noteq> 0 then f s else Some s)"

definition write_section ::
  "(nat \<Rightarrow> u8) \<Rightarrow> (nat \<Rightarrow> u8) \<Rightarrow> u16 \<Rightarrow> txt_data \<Rightarrow> nat option list \<Rightarrow> u16 \<Rightarrow> out \<Rightarrow> out option" where
  "write_section low ip port t labels responses s0 = do {
     s1 \<leftarrow> when_flag responses A_FLAG (writeARecord ip labels) s0;
     s2 \<leftarrow> when_flag responses PTR_FLAG (writePTRRecord labels) s1;
     s3 \<leftarrow> when_flag responses SRV_FLAG (writeSRVRecord port labels) s2;
     s4 \<leftarrow> when_flag responses TXT_FLAG (writeTXTRecord low t labels) s3;
     s5 \<leftarrow> when_flag responses NSEC_HOST_FLAG (writeNSECHostRecord labels) s4;
     when_flag responses NSEC_INSTANCE_FLAG (writeNSECInstanceRecord labels) s5
   }"

partial_function (option) section_loop :: "(u16 \<Rightarrow> out \<Rightarrow> out option) \<Rightarrow> u16 \<Rightarrow> out \<Rightarrow> out option" where
  "section_loop f responses s =
     (if responses > 0 then do { s1 \<leftarrow> f responses s; section_loop f (drop_bit 6 responses) s1 } else Some s)"

fun reset_labels :: "nat option list \<Rightarrow> label list \<Rightarrow> label list option" where
  "reset_labels [] ls = Some ls"
| "reset_labels (p # ps) ls = do { ls1 \<leftarrow> label_reset p ls; reset_labels ps ls1 }"

definition writeResponses :: "(nat \<Rightarrow> u8) \<Rightarrow> (nat \<Rightarrow> u8) \<Rightarrow> u16 \<Rightarrow> mdns \<Rightarrow> mdns option" where
  "writeResponses low ip responses0 d = do {
     ls \<leftarrow> reset_labels (md_labels d) (md_store d);
     let responses = responses0 AND NOT (push_bit 6 responses0);
     let answerCount = mdns_count responses;
     let additionalCount = mdns_count (drop_bit 6 responses);
     let b = writeUInt16 (ucast additionalCount) (writeUInt16 0 (writeUInt16 (ucast answerCount)
               (writeUInt16 0 (writeUInt16 0x8400 (writeUInt16 0 (md_buffer d))))));
     (ls', b') \<leftarrow> section_loop (write_section low ip (md_port d) (md_txt d) (md_labels d)) responses (ls, b);
     Some (d\<lparr>md_store := ls', md_buffer := b'\<rparr>)
   }"

section \<open>Processing a packet\<close>

text \<open>The operations of the class \<open>UDP\<close> that the responder calls.\<close>

record 'u socket =
  so_parsePacket :: "'u \<Rightarrow> int \<times> 'u"
  so_read :: "'u udp_read"
  so_flush :: "'u \<Rightarrow> 'u"
  so_beginPacket :: "'u \<Rightarrow> 'u"
  so_write :: "'u udp_write"
  so_endPacket :: "'u \<Rightarrow> 'u"

definition processQueries ::
  "'u socket \<Rightarrow> u8 \<Rightarrow> (u8 \<Rightarrow> string) \<Rightarrow> (u16 \<Rightarrow> (nat \<Rightarrow> dns_query) option) \<Rightarrow> (nat \<Rightarrow> u8) \<Rightarrow> (nat \<Rightarrow> u8) \<Rightarrow> 'u \<Rightarrow> mdns \<Rightarrow>
     (bool \<times> 'u \<times> mdns) option" where
  "processQueries so null_size decimal new_queries low ip u d =
     (let (k, u0) = so_parsePacket so u; n = word_of_int k :: u16
      in if n > 0
         then (let (u1, b1) = buffer_read (so_read so) u0 (md_buffer d); u2 = so_flush so u1
               in do {
                 (responses, d2) \<leftarrow> getResponses null_size decimal new_queries (d\<lparr>md_buffer := b1\<rparr>);
                 let d3 = d2\<lparr>md_buffer := buffer_clear (md_buffer d2)\<rparr>;
                 d4 \<leftarrow> (if responses > 0 then writeResponses low ip responses d3 else Some d3);
                 let (u3, d5) = (if available (md_buffer d4) > 0
                   then (let (u', b') = buffer_write (so_write so) (so_beginPacket so u2) (md_buffer d4)
                         in (so_endPacket so u', d4\<lparr>md_buffer := b'\<rparr>))
                   else (u2, d4));
                 Some (True, u3, d5)
               })
         else Some (False, u0, d))"

end
