(* ===== verification/Mdns_Setup.thy ===== *)
theory Mdns_Setup
  imports Mdns_Responder
begin

text \<open>
  Configuring the mDNS responder: the host name, and the entries of the text record.
\<close>

section \<open>Loops with an 8-bit counter\<close>

lemma unat_Suc_u8: "unat i < n \<Longrightarrow> n < 256 \<Longrightarrow> unat (i + 1 :: u8) = unat i + 1"
  by (simp add: unat_word_ariths)

definition host_char :: "u8 \<Rightarrow> bool" where
  "host_char c \<longleftrightarrow> (c \<ge> 0x61 \<and> c \<le> 0x7A) \<or> (c \<ge> 0x41 \<and> c \<le> 0x5A) \<or> (c \<ge> 0x30 \<and> c \<le> 0x39) \<or> c = 0x2D"

lemma alpha_loop_returns:
  "length s < 256 \<Longrightarrow> unat i \<le> length s \<Longrightarrow> alpha_loop r i s = Some (r \<and> (\<forall>c \<in> set (drop (unat i) s). host_char c))"
proof (induction "length s - unat i" arbitrary: r i rule: less_induct)
  case less
  show ?case
  proof (cases "r \<and> unat i < length s")
    case False
    with less.prems show ?thesis by (auto simp: alpha_loop.simps [of r i])
  next
    case True
    then have i: "unat (i + 1) = unat i + 1" using unat_Suc_u8 less.prems by blast
    have "alpha_loop r i s = alpha_loop (host_char (s ! unat i)) (i + 1) s"
      using True by (subst alpha_loop.simps) (simp add: Let_def host_char_def)
    also have "\<dots> = Some (host_char (s ! unat i) \<and> (\<forall>c \<in> set (drop (unat i + 1) s). host_char c))"
    proof -
      have "length s - unat (i + 1) < length s - unat i" using True i by auto
      from less.hyps [OF this] less.prems True i show ?thesis by simp
    qed
    finally show ?thesis using True by (simp add: Cons_nth_drop_Suc [of "unat i" s, symmetric])
  qed
qed

lemma isAlphaDigitHyphen_returns: "length s < 256 \<Longrightarrow> isAlphaDigitHyphen s = Some (\<forall>c \<in> set s. host_char c)"
  using alpha_loop_returns [of s 0 True] by (simp add: isAlphaDigitHyphen_def)

lemma label_fill_returns:
  "length name < 256 \<Longrightarrow> unat i \<le> length name \<Longrightarrow>
     label_fill name i data = Some (\<lambda>k. if unat i < k \<and> k \<le> length name then name ! (k - 1) else data k)"
proof (induction "length name - unat i" arbitrary: i data rule: less_induct)
  case less
  show ?case
  proof (cases "unat i < length name")
    case False
    with less.prems show ?thesis by (subst label_fill.simps) (auto simp: fun_eq_iff)
  next
    case True
    then have i: "unat (i + 1) = unat i + 1" using unat_Suc_u8 less.prems by blast
    have "label_fill name i data = label_fill name (i + 1) (data(unat i + 1 := name ! unat i))"
      using True by (subst label_fill.simps) simp
    also have "\<dots> = Some (\<lambda>k. if unat i + 1 < k \<and> k \<le> length name then name ! (k - 1)
        else (data(unat i + 1 := name ! unat i)) k)"
      using less.hyps [of "i + 1"] less.prems True i by (simp add: fun_eq_iff)
    also have "\<dots> = Some (\<lambda>k. if unat i < k \<and> k \<le> length name then name ! (k - 1) else data k)"
      using True by (auto simp: fun_eq_iff)
    finally show ?thesis .
  qed
qed

lemma copy_chars_returns:
  "length s < 256 \<Longrightarrow> unat i \<le> length s \<Longrightarrow>
     copy_chars s i idx data = Some (idx + (length s - unat i),
       \<lambda>k. if idx \<le> k \<and> k < idx + (length s - unat i) then s ! (unat i + (k - idx)) else data k)"
proof (induction "length s - unat i" arbitrary: i idx data rule: less_induct)
  case less
  show ?case
  proof (cases "unat i < length s")
    case False
    with less.prems show ?thesis by (subst copy_chars.simps) (auto simp: fun_eq_iff)
  next
    case True
    then have i: "unat (i + 1) = unat i + 1" using unat_Suc_u8 less.prems by blast
    have "copy_chars s i idx data = copy_chars s (i + 1) (idx + 1) (data(idx := s ! unat i))"
      using True by (subst copy_chars.simps) simp
    also have "\<dots> = Some (idx + 1 + (length s - (unat i + 1)),
        \<lambda>k. if idx + 1 \<le> k \<and> k < idx + 1 + (length s - (unat i + 1)) then s ! (unat i + 1 + (k - (idx + 1)))
            else (data(idx := s ! unat i)) k)"
      using less.hyps [of "i + 1" "idx + 1"] less.prems True i by (simp add: fun_eq_iff)
    also have "\<dots> = Some (idx + (length s - unat i),
       \<lambda>k. if idx \<le> k \<and> k < idx + (length s - unat i) then s ! (unat i + (k - idx)) else data k)"
      using True by (auto simp: fun_eq_iff le_less Suc_le_eq Suc_diff_Suc intro!: arg_cong [of _ _ "(!) s"])
    finally show ?thesis .
  qed
qed

section \<open>The host name\<close>

lemma spells_append: "spells ls p is ns \<Longrightarrow> spells (ls @ xs) p is ns"
proof (induction rule: spells.induct)
  case (root l)
  then show ?case by (intro spells.root) (auto simp: nth_append)
next
  case (label l "is" ns)
  then have "ls ! l = (ls @ xs) ! l" by (simp add: nth_append)
  with label show ?case by (auto simp: spells_Some)
qed

lemma label_new_spells:
  assumes "alloc (length name + 1) = Some m" and "label_text name" and "\<forall>c\<in>set name. c < 0xC0"
    and "spells ls (Some p) is ns"
  shows "\<exists>ls'. label_new low alloc name (Some p) cs ls = Some (length ls, ls') \<and> length ls' = length ls + 1
     \<and> spells ls' (Some (length ls)) (length ls # is) (name # ns) \<and> (\<forall>q is' ns'. spells ls q is' ns' \<longrightarrow> spells ls' q is' ns')"
proof -
  let ?d = "\<lambda>k. if 0 < k \<and> k \<le> length name then name ! (k - 1) else (m(0 := of_nat (length name))) k"
  let ?l = "\<lparr>lb_data = ?d, lb_case = cs, lb_next = Some p, lb_off = INVALID_OFFSET\<rparr>"
  have len: "0 < length name" "length name < 64" "\<forall>c\<in>set name. c \<noteq> 0" using assms(2) by (auto simp: label_text_def)
  then have "label_fill name 0 (m(0 := of_nat (length name))) = Some ?d"
    using label_fill_returns [of name 0] by simp
  then have new: "label_new low alloc name (Some p) cs ls = Some (length ls, ls @ [?l])"
    using assms(1) by (simp add: label_new_def)
  have n: "unat (of_nat (length name) :: u8) = length name" using len by (simp add: unat_of_nat_u8)
  have "text_of ?l = map ?d [1..<length name + 1]" by (simp add: text_of_def n del: upt_Suc)
  also have "\<dots> = name"
  proof (rule nth_equalityI)
    fix k assume "k < length (map ?d [1..<length name + 1])"
    then show "map ?d [1..<length name + 1] ! k = name ! k" by (simp del: upt_Suc)
  qed (use len in \<open>auto simp: Suc_le_eq\<close>)
  finally have text_l: "text_of ?l = name" .
  have "lb_data ?l 0 < 64" "lb_data ?l 0 \<noteq> 0"
    using len n by (auto simp: word_less_nat_alt dest: arg_cong [of _ 0 unat])
  then have "spells (ls @ [?l]) (Some (length ls)) (length ls # is) (name # ns)"
    using text_l len assms(3) spells_append [OF assms(4)] by (auto simp: spells_Some [of _ "length ls"])
  with new spells_append show ?thesis by auto
qed

text \<open>
  \<open>setHostname\<close> returns for every string and accepts exactly the strings of fewer than 63 letters, digits and hyphens;
  the label of the host then spells the name in front of \<open>local\<close>, and every other label of the store spells what it
  spelt before.  (The empty string, which the code accepts as well, is excluded.)
\<close>

theorem setHostname_names_host:
  assumes "spells (md_store d) (Some LOCAL) is ns" and "md_labels d \<noteq> []" and "hostname \<noteq> []"
    and "alloc (length hostname + 1) = Some m"
  shows "\<exists>ok d'. setHostname low alloc hostname d = Some (ok, d')
     \<and> (ok \<longleftrightarrow> length hostname < 63 \<and> (\<forall>c\<in>set hostname. host_char c))
     \<and> (ok \<longrightarrow> (\<exists>l ks. md_labels d' ! HOST_NAME = Some l \<and> spells (md_store d') (Some l) ks (hostname # ns)))
     \<and> (\<forall>q ks ms. spells (md_store d) q ks ms \<longrightarrow> spells (md_store d') q ks ms)"
proof (cases "length hostname < 63 \<and> (\<forall>c\<in>set hostname. host_char c)")
  case False
  then have "setHostname low alloc hostname d = Some (False, d)"
    using isAlphaDigitHyphen_returns [of hostname] by (auto simp: setHostname_def MAX_LABEL_SIZE_def)
  with False show ?thesis by blast
next
  case True
  have char: "c \<noteq> 0 \<and> c < 0xC0" if "host_char c" for c
    using that by (auto simp: host_char_def word_le_nat_alt word_less_nat_alt)
  have "label_text hostname" using True assms(3) char by (auto simp: label_text_def)
  moreover have "\<forall>c\<in>set hostname. c < 0xC0" using True char by blast
  ultimately obtain ls' where new: "label_new low alloc hostname (Some LOCAL) False (md_store d) = Some (length (md_store d), ls')"
    and sp: "spells ls' (Some (length (md_store d))) (length (md_store d) # is) (hostname # ns)"
    and keep: "\<forall>q ks ms. spells (md_store d) q ks ms \<longrightarrow> spells ls' q ks ms"
    using label_new_spells [of alloc hostname m "md_store d" LOCAL "is" ns low False] assms(1,4) by blast
  have "unat (getSize ls' (length (md_store d))) = length hostname"
    using sp by (auto simp: spells_Some [of _ "length (md_store d)"] getSize_def dest: arg_cong [of _ _ length])
  then have "setHostname low alloc hostname d
      = Some (True, d\<lparr>md_store := ls', md_labels := (md_labels d)[HOST_NAME := Some (length (md_store d))]\<rparr>)"
    using True new isAlphaDigitHyphen_returns [of hostname] by (simp add: setHostname_def MAX_LABEL_SIZE_def)
  with True sp keep assms(2) show ?thesis
    by (intro exI [of _ True] exI) (auto simp: HOST_NAME_def)
qed

lemma setHostname_names_host_witness:
  defines "root \<equiv> \<lparr>lb_data = (\<lambda>_. 0), lb_case = False, lb_next = None, lb_off = INVALID_OFFSET\<rparr>"
  defines "d \<equiv> \<lparr>md_buffer = buffer_new (\<lambda>_. None) 512, md_store = [root, root], md_labels = [None, None, None],
     md_querySet = None, md_port = 0, md_txt = \<lparr>tx_data = None, tx_size = 0\<rparr>\<rparr>"
  shows "\<exists>ok d'. setHostname (\<lambda>_. 0) (\<lambda>_. Some (\<lambda>_. 0)) [0x61] d = Some (ok, d')
     \<and> (ok \<longleftrightarrow> length [0x61 :: u8] < 63 \<and> (\<forall>c\<in>set [0x61]. host_char c))
     \<and> (ok \<longrightarrow> (\<exists>l ks. md_labels d' ! HOST_NAME = Some l \<and> spells (md_store d') (Some l) ks ([0x61] # [])))
     \<and> (\<forall>q ks ms. spells (md_store d) q ks ms \<longrightarrow> spells (md_store d') q ks ms)"
  by (rule setHostname_names_host) (simp_all add: d_def root_def LOCAL_def spells_Some)

text \<open>A byte that a reader takes for a compression pointer is accepted in the name of an instance.\<close>

lemma isNetUnicode_accepts_pointers: "isNetUnicode [0x42, 0xC3, 0xBC] = Some True"
  by (simp add: isNetUnicode_def unicode_loop.simps [of _ 0] unicode_loop.simps [of _ 1] unicode_loop.simps [of _ 2]
      unicode_loop.simps [of _ 3])

text \<open>The empty host name is accepted; its label ends the name in front of \<open>local\<close>.\<close>

lemma setHostname_accepts_empty:
  "alloc 1 = Some m \<Longrightarrow> \<exists>d'. setHostname low alloc [] d = Some (True, d')"
  by (simp add: setHostname_def MAX_LABEL_SIZE_def isAlphaDigitHyphen_returns label_new_def label_fill_returns getSize_def)

section \<open>The entries of the text record\<close>

definition txt_bytes :: "(nat \<Rightarrow> u8) \<Rightarrow> txt_data \<Rightarrow> u8 list" where
  "txt_bytes low t = map (case tx_data t of Some m \<Rightarrow> m | None \<Rightarrow> low) [0..<unat (tx_size t)]"

text \<open>
  \<open>addEntry\<close> appends one entry to the text record, a length byte and \<open>key=value\<close>, and keeps the entries added before,
  as long as the allocation succeeds, the entry has at most 255 bytes with its length byte, and the record fits its
  16-bit size.
\<close>

theorem txt_addEntry_appends:
  assumes "length key + length value + 2 \<le> 255" and "unat (tx_size t) + (length key + length value + 2) < 65536"
    and "tx_data t = None \<Longrightarrow> tx_size t = 0" and "\<And>n. alloc n \<noteq> None"
  shows "\<exists>t'. txt_addEntry alloc key value t = Some (True, t') \<and>
     txt_bytes low t' = txt_bytes low t @ [of_nat (length key + length value + 1)] @ key @ [0x3D] @ value"
proof -
  let ?k = "length key" and ?v = "length value" and ?o = "unat (tx_size t)"
  let ?added = "of_nat (?k + ?v + 2) :: u8" and ?size = "tx_size t + ucast (of_nat (?k + ?v + 2) :: u8)"
  have added: "unat ?added = ?k + ?v + 2" using assms(1) by (intro unat_of_nat_u8) simp
  have wide: "unat (ucast ?added :: u16) = ?k + ?v + 2"
    using assms(1) by (simp only: unsigned_ucast_eq added) (simp add: take_bit_nat_eq_self_iff)
  define sz where "sz = ?size"
  have size: "unat sz = ?o + (?k + ?v + 2)"
    unfolding sz_def using assms(2) by (subst unat_add_u16) (simp_all only: wide)
  obtain m where m: "alloc sz = Some m" using assms(4) by blast
  define m0 where "m0 = (case tx_data t of Some old \<Rightarrow> (\<lambda>i. if i < ?o then old i else m i) | None \<Rightarrow> m)"
  define m1 where "m1 = m0(?o := ?added - 1)"
  define m2 where "m2 = (\<lambda>j. if ?o + 1 \<le> j \<and> j < ?o + 1 + ?k then key ! (j - (?o + 1)) else m1 j)"
  define m3 where "m3 = m2(?o + 1 + ?k := 0x3D)"
  define m4 where "m4 = (\<lambda>j. if ?o + 1 + ?k + 1 \<le> j \<and> j < ?o + 1 + ?k + 1 + ?v then value ! (j - (?o + 1 + ?k + 1)) else m3 j)"
  have k: "copy_chars key 0 (?o + 1) m1 = Some (?o + 1 + ?k, m2)"
    using copy_chars_returns [of key 0 "?o + 1" m1] assms(1) by (simp add: m2_def fun_eq_iff)
  have v: "copy_chars value 0 (?o + 1 + ?k + 1) m3 = Some (?o + 1 + ?k + 1 + ?v, m4)"
    using copy_chars_returns [of "value" 0 "?o + 1 + ?k + 1" m3] assms(1) by (simp add: m4_def fun_eq_iff)
  let ?t = "\<lparr>tx_data = Some m4, tx_size = sz\<rparr>"
  have "txt_addEntry alloc key value t = Some (True, ?t)"
    using m k v unfolding txt_addEntry_def m0_def m1_def m3_def sz_def by (simp add: Let_def)
  moreover have "txt_bytes low ?t = txt_bytes low t @ [of_nat (?k + ?v + 1)] @ key @ [0x3D] @ value"
    (is "?l = ?r")
  proof (rule nth_equalityI)
    show "length ?l = length ?r" by (simp add: txt_bytes_def size)
    fix j assume "j < length ?l"
    then have j: "j < ?o + (?k + ?v + 2)" by (simp add: txt_bytes_def size)
    have l: "?l ! j = m4 j" using j by (simp add: txt_bytes_def size del: upt_Suc)
    consider "j < ?o" | "j = ?o" | "?o < j" "j < ?o + 1 + ?k" | "j = ?o + 1 + ?k" | "?o + 1 + ?k < j" by linarith
    then show "?l ! j = ?r ! j"
    proof cases
      case 1
      then have "m4 j = m0 j" by (simp add: m4_def m3_def m2_def m1_def)
      moreover have "tx_data t \<noteq> None" using assms(3) 1 by (cases "tx_data t = None") simp_all
      ultimately show ?thesis using 1 l by (auto simp: nth_append txt_bytes_def m0_def)
    next
      case 2
      then have "m4 j = of_nat (?k + ?v + 1)" by (simp add: m4_def m3_def m2_def m1_def)
      with 2 l show ?thesis by (simp add: nth_append txt_bytes_def)
    next
      case 3
      then have "m4 j = key ! (j - (?o + 1))" by (simp add: m4_def m3_def m2_def)
      moreover have "j - (?o + 1) < ?k" using 3 by linarith
      ultimately show ?thesis using 3 l by (simp add: nth_append txt_bytes_def nth_Cons')
    next
      case 4
      then have "m4 j = 0x3D" by (simp add: m4_def m3_def)
      with 4 l show ?thesis by (simp add: nth_append txt_bytes_def)
    next
      case 5
      with j have "m4 j = value ! (j - (?o + 1 + ?k + 1))" by (simp add: m4_def)
      moreover have "\<not> j - (?o + 1) < ?k" "j - (?o + 1) - ?k \<noteq> 0" using 5 by linarith+
      ultimately show ?thesis using 5 l by (simp add: nth_append txt_bytes_def nth_Cons')
    qed
  qed
  ultimately show ?thesis by blast
qed

lemma txt_addEntry_appends_witness:
  "\<exists>t'. txt_addEntry (\<lambda>_. Some (\<lambda>_. 0)) [0x61] [0x62] \<lparr>tx_data = None, tx_size = 0\<rparr> = Some (True, t') \<and>
     txt_bytes (\<lambda>_. 0) t' = txt_bytes (\<lambda>_. 0) \<lparr>tx_data = None, tx_size = 0\<rparr>
       @ [of_nat (length [0x61 :: u8] + length [0x62 :: u8] + 1)] @ [0x61] @ [0x3D] @ [0x62]"
  by (rule txt_addEntry_appends) simp_all

text \<open>With 254 characters the 8-bit size of the entry wraps to 0: the block is not made larger for them.\<close>

lemma txt_entry_size_wraps:
  assumes "length key + length value = 254" and "txt_addEntry alloc key value t = Some (r, t')"
  shows "tx_size t' = tx_size t"
proof -
  have "(of_nat (length key + length value + 2) :: u8) = 0" by (simp only: assms(1)) simp
  with assms(2) show ?thesis
    by (auto simp: txt_addEntry_def Let_def split: option.splits bind_splits)
qed

end
