(* ===== verification/Mdns_Properties.thy ===== *)
theory Mdns_Properties
  imports Mdns_Setup
begin

text \<open>
  Properties of the mDNS responder as a whole: which packets it answers, when it does not return, and the form of the
  packets it sends.
\<close>

section \<open>Answering queries\<close>

lemma choose_name_one: "choose_name its idx 1 = 1"
  by (cases its) (simp_all add: UNKNOWN_NAME_def)




text \<open>The flags of a response to a query for the service.\<close>

definition SERVICE_RESPONSE :: u16 where
  "SERVICE_RESPONSE = PTR_FLAG OR ADDITIONAL SRV_FLAG OR ADDITIONAL TXT_FLAG OR ADDITIONAL A_FLAG"





text \<open>
  A packet that announces 256 or more queries stops the responder for ever: the 8-bit counter of the loop never
  reaches the count, and \<open>getResponses\<close> does not return.
\<close>

theorem many_queries_hang:
  assumes "readHeader new_queries (md_buffer d) query_set_new = (True, b, qs)" and "isQuery qs"
    and "256 \<le> qs_qdcount qs"
  shows "getResponses null_size decimal new_queries d = None"
proof -
  have "query_loop null_size decimal ls labels count b qs responses \<noteq> Some y" for ls labels count b responses y
  proof
    assume run: "query_loop null_size decimal ls labels count b qs responses = Some y"
    have "\<not> 256 \<le> qs_qdcount qs"
    proof (rule query_loop.raw_induct [OF _ run, where P = "\<lambda>_ _ _ _ _ _ qs _ _. \<not> 256 \<le> qs_qdcount qs"], goal_cases)
      case (1 f null_size decimal ls labels count b qs responses y)
      show ?case
      proof
        assume q: "256 \<le> qs_qdcount qs"
        have "unat (ucast count :: u16) = unat count"
          using unat_u8_less [of count] by (simp add: unsigned_ucast_eq take_bit_nat_eq_self_iff)
        with unat_u8_less [of count] q have "ucast count < qs_qdcount qs"
          by (simp add: word_less_nat_alt word_le_nat_alt)
        with 1(2) obtain count' b' qs' r where "f null_size decimal ls labels count' b' qs' r = Some y"
          and "qs_qdcount qs' = qs_qdcount qs"
          by (fastforce simp: split_def Let_def split: bind_splits if_splits)
        with 1(1) q show False by metis
      qed
    qed
    with assms(3) show False by blast
  qed
  then have "query_loop null_size decimal (md_store d) (md_labels d) 0 b qs 0 = None"
    by (metis not_Some_eq)
  with assms(1,2) show ?thesis by (simp add: getResponses_def)
qed

section \<open>Packets for the witnesses\<close>

text \<open>A packet of 12 bytes that announces \<open>k\<close> queries in the high byte of the count, and a responder that has received it.\<close>

definition count_packet :: "u8 \<Rightarrow> mdns" where
  "count_packet k = \<lparr>md_buffer = \<lparr>bf_data = (\<lambda>i. if i = 4 then k else 0), bf_size = 512, bf_limit = 12, bf_offset = 0,
       bf_mark = INVALID_MARK_OFFSET\<rparr>,
     md_store = [], md_labels = [None], md_querySet = None, md_port = 0, md_txt = \<lparr>tx_data = None, tx_size = 0\<rparr>\<rparr>"

definition no_queries :: "u16 \<Rightarrow> (nat \<Rightarrow> dns_query) option" where
  "no_queries = (\<lambda>_. Some (\<lambda>_. \<lparr>q_matchedName = 0, q_name = [], q_type = 0, q_cls = 0\<rparr>))"

lemma many_queries_hang_witness: "getResponses 0 (\<lambda>_. []) no_queries (count_packet 1) = None"
proof (rule many_queries_hang)
  let ?x = "readHeader no_queries (md_buffer (count_packet 1)) query_set_new"
  note eval = readHeader_def readUInt16_def readUInt8_def count_packet_def no_queries_def available_def isQuery_def
    query_set_new_def
  show "?x = (True, fst (snd ?x), snd (snd ?x))" by (simp add: eval)
  show "isQuery (snd (snd ?x))" by (simp add: eval)
  show "256 \<le> qs_qdcount (snd (snd ?x))" by (simp add: eval)
qed


section \<open>The records of a response\<close>

definition is_record :: "u16 \<times> u32 \<Rightarrow> u8 list \<Rightarrow> bool" where
  "is_record tt rec \<longleftrightarrow>
     (\<exists>name rdata. rec = name @ be16 (fst tt) @ be16 IN_CLASS @ be32 (snd tt) @ be16 (of_nat (length rdata)) @ rdata
        \<and> name \<noteq> [] \<and> length rdata < 65536)"

text \<open>The state of the writer: labels of the store \<open>ls0\<close>, those with an offset standing in the packet.\<close>

definition placed :: "label list \<Rightarrow> nat set \<Rightarrow> out \<Rightarrow> bool" where
  "placed ls0 R s \<longleftrightarrow> map stored (fst s) = map stored ls0 \<and> placed_on (fst s) (snd s) R
     \<and> unat (bf_size (snd s)) \<le> 0x4000"

text \<open>\<open>writes ls0 R n tts f\<close>: with room for \<open>n\<close> bytes \<open>f\<close> appends records of these types and lifetimes.\<close>

definition writes :: "label list \<Rightarrow> nat set \<Rightarrow> nat \<Rightarrow> (u16 \<times> u32) list \<Rightarrow> (out \<Rightarrow> out option) \<Rightarrow> bool" where
  "writes ls0 R n tts f \<longleftrightarrow> (\<forall>s. placed ls0 R s \<and> room (snd s) n \<longrightarrow>
     (\<exists>s' recs. f s = Some s' \<and> placed ls0 R s' \<and> appends (snd s) (concat recs) (snd s')
        \<and> length (concat recs) \<le> n \<and> list_all2 is_record tts recs))"

lemma room_behind: "appends b bs b' \<Longrightarrow> room b N \<Longrightarrow> length bs + n \<le> N \<Longrightarrow> room b' n"
  using appends_room room_mono by blast

lemma writes_nothing: "writes ls0 R 0 [] Some"
  by (auto simp: writes_def)

lemma writes_seq:
  assumes "writes ls0 R n1 tts1 f" and "writes ls0 R n2 tts2 g"
  shows "writes ls0 R (n1 + n2) (tts1 @ tts2) (\<lambda>s. Option.bind (f s) g)"
  unfolding writes_def
proof (intro allI impI)
  fix s assume s: "placed ls0 R s \<and> room (snd s) (n1 + n2)"
  then have "room (snd s) n1" by (auto intro: room_mono)
  with s assms(1) obtain s1 recs1 where 1: "f s = Some s1" "placed ls0 R s1" "appends (snd s) (concat recs1) (snd s1)"
    "length (concat recs1) \<le> n1" "list_all2 is_record tts1 recs1" unfolding writes_def by blast
  have "room (snd s) (length (concat recs1) + n2)" using s 1(4) by (auto intro: room_mono)
  from appends_room [OF 1(3) this] 1(2) assms(2) obtain s2 recs2 where 2: "g s1 = Some s2" "placed ls0 R s2"
    "appends (snd s1) (concat recs2) (snd s2)" "length (concat recs2) \<le> n2" "list_all2 is_record tts2 recs2"
    unfolding writes_def by blast
  from appends_trans [OF 1(3) 2(3)] have "appends (snd s) (concat (recs1 @ recs2)) (snd s2)" by simp
  with 1 2 show "\<exists>s' recs. Option.bind (f s) g = Some s' \<and> placed ls0 R s' \<and> appends (snd s) (concat recs) (snd s')
      \<and> length (concat recs) \<le> n1 + n2 \<and> list_all2 is_record (tts1 @ tts2) recs"
    by (intro exI [of _ s2] exI [of _ "recs1 @ recs2"]) (auto intro: list_all2_appendI)
qed

lemma writes_when:
  assumes "writes ls0 R n [tt] f"
  shows "writes ls0 R (if responses AND flag \<noteq> 0 then n else 0) (if responses AND flag \<noteq> 0 then [tt] else [])
     (when_flag responses flag f)"
proof (cases "responses AND flag \<noteq> 0")
  case True
  then have "when_flag responses flag f = f" by (simp add: when_flag_def fun_eq_iff)
  with assms True show ?thesis by simp
next
  case False
  then have "when_flag responses flag f = Some" by (simp add: when_flag_def fun_eq_iff)
  with writes_nothing False show ?thesis by simp
qed

lemma placed_appends:
  assumes "placed ls0 R (ls, b)" and "appends b bs b'"
  shows "placed ls0 R (ls, b')"
  using assms placed_on_appends [OF _ assms(2), of ls R ls]
  by (auto simp: placed_def appends_def)

lemma put_name:
  assumes "placed ls0 R (ls, b)" and "spells ls0 (Some l) is ns" and "set is \<subseteq> R"
    and "room b (length (name_image ns) + 1)"
  shows "\<exists>ls' b' bs. label_write (Some l) ls b = Some (ls', b') \<and> placed ls0 R (ls', b') \<and> appends b bs b'
     \<and> length bs = wire_size ls is \<and> bs \<noteq> [] \<and> length bs \<le> length (name_image ns) + 1 \<and> lb_off (ls' ! l) \<noteq> INVALID_OFFSET"
proof -
  from assms(1) have st: "map stored ls = map stored ls0" and pl: "placed_on ls b R"
    and sz: "unat (bf_size b) \<le> 0x4000" by (auto simp: placed_def)
  have sp: "spells ls (Some l) is ns" using spells_stored [OF assms(2) st] .
  have "placed_on ls b (set is)" using pl assms(3) by (auto simp: placed_on_def)
  moreover have "room b (wire_size ls is)" using wire_size_le [OF sp] assms(4) by (auto intro: room_mono)
  ultimately obtain ls' b' where run: "label_write (Some l) ls b = Some (ls', b')"
    and w: "written (Some l) is (name_image ns) ls b ls' b'"
    using label_write_correct [OF sp _ _ sz] by blast
  from w obtain bs where bs: "appends b bs b'" "length bs = wire_size ls is" "map stored ls' = map stored ls"
    "lb_off (ls' ! l) \<noteq> INVALID_OFFSET" by (auto simp: written_def)
  have "placed ls0 R (ls', b')"
    using written_placed [OF w pl] bs st sz by (simp add: placed_def appends_def)
  moreover have "wire_size ls is > 0" using sp by (auto simp: spells_Some)
  ultimately show ?thesis using run bs wire_size_le [OF sp] by fastforce
qed

lemma put_name_again:
  assumes "placed ls0 R (ls, b)" and "spells ls0 (Some l) is ns" and "room b 2" and "lb_off (ls ! l) \<noteq> INVALID_OFFSET"
  shows "\<exists>b' bs. label_write (Some l) ls b = Some (ls, b') \<and> placed ls0 R (ls, b') \<and> appends b bs b' \<and> length bs = 2"
proof -
  let ?w = "push_bit 8 (ucast LABEL_POINTER) OR lb_off (ls ! l)"
  have "label_write (Some l) ls b = Some (ls, writeUInt16 ?w b)"
    using assms(4) by (simp add: label_write.simps [of "Some l"])
  with writeUInt16_appends [OF assms(3), of ?w] placed_appends [OF assms(1)] show ?thesis by fastforce
qed

lemma getWriteSize_correct:
  "spells ls p is ns \<Longrightarrow> getWriteSize ls p n = Some (n + of_nat (wire_size ls is))"
proof (induction arbitrary: n rule: spells.induct)
  case (root l)
  have "getWriteSize ls None m = Some m" for m by (simp add: getWriteSize.simps)
  with root show ?case by (simp add: getWriteSize.simps [of _ "Some l"])
next
  case (label l "is" ns)
  have "getWriteSize ls None m = Some m" for m by (simp add: getWriteSize.simps)
  with label.IH show ?case by (simp add: getWriteSize.simps [of _ "Some l"] algebra_simps)
qed

lemma writeBytes_append: "writeBytes ys (writeBytes xs b) = writeBytes (xs @ ys) b"
  by (induction xs arbitrary: b) simp_all

lemma writeUInt_bytes:
  "writeUInt16 v b = writeBytes (be16 v) b" "writeUInt32 x b = writeBytes (be32 x) b"
  by (simp_all add: writeUInt16_def be16_def writeUInt32_def be32_def)

lemma put_bytes:
  "placed ls0 R (ls, b) \<Longrightarrow> room b (length vs) \<Longrightarrow> placed ls0 R (ls, writeBytes vs b) \<and> appends b vs (writeBytes vs b)"
  using placed_appends writeBytes_appends by blast

definition named :: "label list \<Rightarrow> nat set \<Rightarrow> nat option list \<Rightarrow> nat \<Rightarrow> u8 list list \<Rightarrow> bool" where
  "named ls0 R labels k ns \<longleftrightarrow>
     (\<exists>l is. labels ! k = Some l \<and> spells ls0 (Some l) is ns \<and> set is \<subseteq> R) \<and> length (name_image ns) < 255"

definition record_head :: "u8 list \<Rightarrow> u16 \<Rightarrow> u32 \<Rightarrow> u8 list" where
  "record_head name type ttl = name @ be16 type @ be16 IN_CLASS @ be32 ttl"

lemma writeRecord_correct:
  assumes "placed ls0 R (ls, b)" and "named ls0 R labels k ns" and "room b (length (name_image ns) + 9)"
  shows "\<exists>ls' b' name l. writeRecord labels k type ttl (ls, b) = Some (ls', b') \<and> placed ls0 R (ls', b')
     \<and> appends b (record_head name type ttl) b' \<and> name \<noteq> [] \<and> length name \<le> length (name_image ns) + 1
     \<and> labels ! k = Some l \<and> lb_off (ls' ! l) \<noteq> INVALID_OFFSET"
proof -
  from assms(2) obtain l "is" where l: "labels ! k = Some l" "spells ls0 (Some l) is ns" "set is \<subseteq> R" by (auto simp: named_def)
  have "room b (length (name_image ns) + 1)" using assms(3) by (auto intro: room_mono)
  from put_name [OF assms(1) l(2,3) this] obtain ls' b1 name
    where n: "label_write (Some l) ls b = Some (ls', b1)" "placed ls0 R (ls', b1)" "appends b name b1" "name \<noteq> []"
      "length name \<le> length (name_image ns) + 1" "lb_off (ls' ! l) \<noteq> INVALID_OFFSET" by blast
  let ?vs = "be16 type @ be16 IN_CLASS @ be32 ttl"
  have "room b1 (length ?vs)" using n(5) by (intro room_behind [OF n(3) assms(3)]) simp
  note tail = put_bytes [OF n(2) this]
  have "writeRecord labels k type ttl (ls, b) = Some (ls', writeBytes ?vs b1)"
    using n(1) l(1) by (simp add: writeRecord_def writeUInt_bytes writeBytes_append)
  with n l tail appends_trans [OF n(3)] show ?thesis by (auto simp: record_head_def)
qed

text \<open>A record whose data is written in one go.\<close>

lemma writes_plain_record:
  assumes "named ls0 R labels k ns" and "length rdata < 65536"
    and f: "\<And>s ls b. writeRecord labels k type ttl s = Some (ls, b)
              \<Longrightarrow> f s = Some (ls, writeBytes (be16 (of_nat (length rdata)) @ rdata) b)"
  shows "writes ls0 R (length (name_image ns) + 11 + length rdata) [(type, ttl)] f"
  unfolding writes_def
proof (intro allI impI)
  fix s :: out
  assume s: "placed ls0 R s \<and> room (snd s) (length (name_image ns) + 11 + length rdata)"
  obtain ls b where sb: "s = (ls, b)" by (cases s)
  have p: "placed ls0 R (ls, b)" using s sb by simp
  have "room b (length (name_image ns) + 9)" using s sb by (auto intro: room_mono)
  from writeRecord_correct [OF p assms(1) this, of type ttl] obtain ls' b1 name
    where r: "writeRecord labels k type ttl (ls, b) = Some (ls', b1)" "placed ls0 R (ls', b1)"
      "appends b (record_head name type ttl) b1" "name \<noteq> []" "length name \<le> length (name_image ns) + 1" by blast
  let ?vs = "be16 (of_nat (length rdata)) @ rdata"
  have rmb: "room b (length (name_image ns) + 11 + length rdata)" using s sb by simp
  have "room b1 (length ?vs)"
    using r(5) by (intro room_behind [OF r(3) rmb]) (simp add: record_head_def)
  note tail = put_bytes [OF r(2) this]
  let ?rec = "record_head name type ttl @ ?vs"
  have "is_record (type, ttl) ?rec" using r(4) assms(2) by (auto simp: is_record_def record_head_def)
  moreover have "length ?rec \<le> length (name_image ns) + 11 + length rdata"
    using r(5) by (simp add: record_head_def)
  ultimately show "\<exists>s' recs. f s = Some s' \<and> placed ls0 R s' \<and> appends (snd s) (concat recs) (snd s')
      \<and> length (concat recs) \<le> length (name_image ns) + 11 + length rdata \<and> list_all2 is_record [(type, ttl)] recs"
    using f [OF r(1)] tail appends_trans [OF r(3)] sb
    by (intro exI [of _ "(ls', writeBytes ?vs b1)"] exI [of _ "[?rec]"]) simp
qed

text \<open>A record whose data ends in another name, or in the name just written.\<close>

lemma writes_name_record:
  assumes "named ls0 R labels k ns" and "named ls0 R labels j ms" and "length before < 100"
    and f: "\<And>s ls b. writeRecord labels k type ttl s = Some (ls, b) \<Longrightarrow>
      f s = do {
        n \<leftarrow> getWriteSize ls (labels ! j) 0;
        label_write (labels ! j) ls (writeBytes (be16 (of_nat (length before) + ucast n) @ before) b)
      }"
  shows "writes ls0 R (length (name_image ns) + 11 + length before + (length (name_image ms) + 1)) [(type, ttl)] f"
  unfolding writes_def
proof (intro allI impI)
  fix s :: out
  let ?N = "length (name_image ns) + 11 + length before + (length (name_image ms) + 1)"
  assume s: "placed ls0 R s \<and> room (snd s) ?N"
  obtain ls b where sb: "s = (ls, b)" by (cases s)
  have p: "placed ls0 R (ls, b)" using s sb by simp
  have "room b (length (name_image ns) + 9)" using s sb by (auto intro: room_mono)
  from writeRecord_correct [OF p assms(1) this, of type ttl] obtain ls1 b1 name
    where r: "writeRecord labels k type ttl (ls, b) = Some (ls1, b1)" "placed ls0 R (ls1, b1)"
      "appends b (record_head name type ttl) b1" "name \<noteq> []" "length name \<le> length (name_image ns) + 1" by blast
  from assms(2) obtain l "is" where l: "labels ! j = Some l" "spells ls0 (Some l) is ms" "set is \<subseteq> R"
    and len: "length (name_image ms) < 255" by (auto simp: named_def)
  let ?w = "wire_size ls1 is"
  have sp: "spells ls1 (Some l) is ms"
    using spells_stored [OF l(2)] r(2) by (simp add: placed_def)
  have w: "?w \<le> length (name_image ms) + 1" using wire_size_le [OF sp] .
  then have w8: "ucast (of_nat ?w :: u8) = (of_nat ?w :: u16)"
    using len by (simp add: word_unat_eq_iff unsigned_ucast_eq unat_of_nat_u8 unat_of_nat_u16 take_bit_nat_eq_self_iff)
  let ?vs = "be16 (of_nat (length before + ?w)) @ before"
  have rmb: "room b ?N" using s sb by simp
  have "room b1 (length ?vs)"
    using r(5) by (intro room_behind [OF r(3) rmb]) (simp add: record_head_def)
  note mid = put_bytes [OF r(2) this]
  have all: "appends b (record_head name type ttl @ ?vs) (writeBytes ?vs b1)"
    using appends_trans [OF r(3)] mid by blast
  have "room (writeBytes ?vs b1) (length (name_image ms) + 1)"
    using r(5) by (intro room_behind [OF all rmb]) (simp add: record_head_def)
  from put_name [OF mid [THEN conjunct1] l(2,3) this] obtain ls2 b2 nm
    where n: "label_write (Some l) ls1 (writeBytes ?vs b1) = Some (ls2, b2)" "placed ls0 R (ls2, b2)"
      "appends (writeBytes ?vs b1) nm b2" "length nm = ?w" by blast
  let ?rec = "record_head name type ttl @ be16 (of_nat (length (before @ nm))) @ before @ nm"
  have "is_record (type, ttl) ?rec"
    using r(4) w len assms(3) n(4) unfolding is_record_def record_head_def
    by (intro exI [of _ name] exI [of _ "before @ nm"]) simp
  moreover have "length ?rec \<le> ?N" using r(5) w n(4) by (simp add: record_head_def)
  moreover have "appends b ?rec b2" using appends_trans [OF all n(3)] n(4) by simp
  moreover have "f s = Some (ls2, b2)"
    using f [of s ls1 b1] r(1) n(1) sb l(1) getWriteSize_correct [OF sp, of 0] w8 by simp
  ultimately show "\<exists>s' recs. f s = Some s' \<and> placed ls0 R s' \<and> appends (snd s) (concat recs) (snd s')
      \<and> length (concat recs) \<le> ?N \<and> list_all2 is_record [(type, ttl)] recs"
    using n(2) sb by (intro exI [of _ "(ls2, b2)"] exI [of _ "[?rec]"]) simp
qed

lemma writes_nsec_record:
  assumes "named ls0 R labels k ns" and "length tail < 100"
    and f: "\<And>s ls b. writeRecord labels k type ttl s = Some (ls, b) \<Longrightarrow>
      f s = do {
        (ls1, b1) \<leftarrow> label_write (labels ! k) ls (writeBytes (be16 (of_nat (2 + length tail))) b);
        Some (ls1, writeBytes tail b1)
      }"
  shows "writes ls0 R (length (name_image ns) + 13 + length tail) [(type, ttl)] f"
  unfolding writes_def
proof (intro allI impI)
  fix s :: out
  let ?N = "length (name_image ns) + 13 + length tail"
  assume s: "placed ls0 R s \<and> room (snd s) ?N"
  obtain ls b where sb: "s = (ls, b)" by (cases s)
  have p: "placed ls0 R (ls, b)" and rmb: "room b ?N" using s sb by auto
  from rmb have "room b (length (name_image ns) + 9)" by (auto intro: room_mono)
  from writeRecord_correct [OF p assms(1) this, of type ttl] obtain ls1 b1 name l
    where r: "writeRecord labels k type ttl (ls, b) = Some (ls1, b1)" "placed ls0 R (ls1, b1)"
      "appends b (record_head name type ttl) b1" "name \<noteq> []" "length name \<le> length (name_image ns) + 1"
      "labels ! k = Some l" "lb_off (ls1 ! l) \<noteq> INVALID_OFFSET" by blast
  from assms(1) r(6) obtain "is" where sp: "spells ls0 (Some l) is ns" by (auto simp: named_def)
  let ?len = "be16 (of_nat (2 + length tail))"
  have "room b1 (length ?len)"
    using r(5) by (intro room_behind [OF r(3) rmb]) (simp add: record_head_def)
  note mid = put_bytes [OF r(2) this]
  have all: "appends b (record_head name type ttl @ ?len) (writeBytes ?len b1)"
    using appends_trans [OF r(3)] mid by blast
  have "room (writeBytes ?len b1) 2"
    using r(5) by (intro room_behind [OF all rmb]) (simp add: record_head_def)
  from put_name_again [OF mid [THEN conjunct1] sp this r(7)] obtain b2 nm
    where n: "label_write (Some l) ls1 (writeBytes ?len b1) = Some (ls1, b2)" "placed ls0 R (ls1, b2)"
      "appends (writeBytes ?len b1) nm b2" "length nm = 2" by blast
  have all2: "appends b ((record_head name type ttl @ ?len) @ nm) b2" using appends_trans [OF all n(3)] .
  have "room b2 (length tail)"
    using r(5) n(4) by (intro room_behind [OF all2 rmb]) (simp add: record_head_def)
  note fin = put_bytes [OF n(2) this]
  let ?rec = "record_head name type ttl @ be16 (of_nat (length (nm @ tail))) @ nm @ tail"
  have "is_record (type, ttl) ?rec"
    using r(4) assms(2) n(4) unfolding is_record_def record_head_def
    by (intro exI [of _ name] exI [of _ "nm @ tail"]) simp
  moreover have "length ?rec \<le> ?N" using r(5) n(4) by (simp add: record_head_def)
  moreover have "appends b ?rec (writeBytes tail b2)"
    using appends_trans [OF all2] fin n(4) by fastforce
  moreover have "f s = Some (ls1, writeBytes tail b2)"
    using f [of s ls1 b1] r(1,6) n(1) sb by simp
  ultimately show "\<exists>s' recs. f s = Some s' \<and> placed ls0 R s' \<and> appends (snd s) (concat recs) (snd s')
      \<and> length (concat recs) \<le> ?N \<and> list_all2 is_record [(type, ttl)] recs"
    using fin sb by (intro exI [of _ "(ls1, writeBytes tail b2)"] exI [of _ "[?rec]"]) simp
qed

section \<open>The six kinds of records\<close>

definition image_length :: "u8 list list \<Rightarrow> nat" where
  "image_length ns = length (name_image ns)"

lemma writes_A:
  "named ls0 R labels HOST_NAME hn \<Longrightarrow> writes ls0 R (image_length hn + 15) [(A_TYPE, TTL_2MIN)] (writeARecord ip labels)"
  using writes_plain_record [of ls0 R labels HOST_NAME hn "map ip [0..<4]" A_TYPE TTL_2MIN "writeARecord ip labels"]
  by (simp add: writeARecord_def image_length_def write_data_bytes writeUInt_bytes writeBytes_append add.commute del: upt_rec_numeral)

lemma writes_TXT:
  "named ls0 R labels INSTANCE_NAME n \<Longrightarrow>
     writes ls0 R (image_length n + 11 + unat (tx_size t)) [(TXT_TYPE, TTL_75MIN)] (writeTXTRecord low t labels)"
  using writes_plain_record [of ls0 R labels INSTANCE_NAME n "txt_bytes low t" TXT_TYPE TTL_75MIN "writeTXTRecord low t labels"]
    unat_u16_less [of "tx_size t"]
  by (simp add: writeTXTRecord_def image_length_def txt_write_def txt_bytes_def write_data_bytes writeUInt_bytes writeBytes_append)

lemma writes_PTR:
  "named ls0 R labels SERVICE_NAME sn \<Longrightarrow> named ls0 R labels INSTANCE_NAME n \<Longrightarrow>
     writes ls0 R (image_length sn + 11 + (image_length n + 1)) [(PTR_TYPE, TTL_75MIN)] (writePTRRecord labels)"
  using writes_name_record [of ls0 R labels SERVICE_NAME sn INSTANCE_NAME n "[]" PTR_TYPE TTL_75MIN "writePTRRecord labels"]
  by (simp add: writePTRRecord_def image_length_def writeUInt_bytes)

lemma writes_SRV:
  "named ls0 R labels INSTANCE_NAME n \<Longrightarrow> named ls0 R labels HOST_NAME hn \<Longrightarrow>
     writes ls0 R (image_length n + 17 + (image_length hn + 1)) [(SRV_TYPE, TTL_2MIN)] (writeSRVRecord port labels)"
  using writes_name_record [of ls0 R labels INSTANCE_NAME n HOST_NAME hn "be16 0 @ be16 0 @ be16 port" SRV_TYPE TTL_2MIN
      "writeSRVRecord port labels"]
  by (simp add: writeSRVRecord_def image_length_def writeUInt_bytes writeBytes_append)

lemma writes_NSEC_host:
  "named ls0 R labels HOST_NAME hn \<Longrightarrow> writes ls0 R (image_length hn + 16) [(NSEC_TYPE, TTL_2MIN)] (writeNSECHostRecord labels)"
  using writes_nsec_record [of ls0 R labels HOST_NAME hn "[0, 1, 0x40]" NSEC_TYPE TTL_2MIN "writeNSECHostRecord labels"]
  by (simp add: writeNSECHostRecord_def image_length_def writeUInt_bytes add.commute)

lemma writes_NSEC_instance:
  "named ls0 R labels INSTANCE_NAME n \<Longrightarrow>
     writes ls0 R (image_length n + 20) [(NSEC_TYPE, TTL_2MIN)] (writeNSECInstanceRecord labels)"
  using writes_nsec_record [of ls0 R labels INSTANCE_NAME n "[0, 5, 0, 0, 0x80, 0, 0x40]" NSEC_TYPE TTL_2MIN
      "writeNSECInstanceRecord labels"]
  by (simp add: writeNSECInstanceRecord_def image_length_def writeUInt_bytes add.commute)

section \<open>The sections of a response\<close>

definition record_kinds :: "(u16 \<times> u16 \<times> u32) list" where
  "record_kinds = [(A_FLAG, A_TYPE, TTL_2MIN), (PTR_FLAG, PTR_TYPE, TTL_75MIN), (SRV_FLAG, SRV_TYPE, TTL_2MIN),
     (TXT_FLAG, TXT_TYPE, TTL_75MIN), (NSEC_HOST_FLAG, NSEC_TYPE, TTL_2MIN), (NSEC_INSTANCE_FLAG, NSEC_TYPE, TTL_2MIN)]"

definition section_records :: "u16 \<Rightarrow> (u16 \<times> u32) list" where
  "section_records responses =
     concat (map (\<lambda>(flag, tt). if responses AND flag \<noteq> 0 then [tt] else []) record_kinds)"

text \<open>An upper bound of the bytes of a section, for names of these lengths and a text record of \<open>t\<close> bytes.\<close>

definition section_size :: "nat \<Rightarrow> nat \<Rightarrow> nat \<Rightarrow> nat \<Rightarrow> u16 \<Rightarrow> nat" where
  "section_size h s n t responses =
     sum_list (map (\<lambda>(flag, size). if responses AND flag \<noteq> 0 then size else 0)
       [(A_FLAG, h + 15), (PTR_FLAG, s + n + 12), (SRV_FLAG, n + h + 18), (TXT_FLAG, n + 11 + t),
        (NSEC_HOST_FLAG, h + 16), (NSEC_INSTANCE_FLAG, n + 20)])"

lemma writes_section:
  assumes "named ls0 R labels HOST_NAME hn" and "named ls0 R labels SERVICE_NAME sn" and "named ls0 R labels INSTANCE_NAME n"
  shows "writes ls0 R (section_size (image_length hn) (image_length sn) (image_length n) (unat (tx_size t)) r)
           (section_records r) (write_section low ip port t labels r)"
proof -
  note all = writes_seq [OF writes_when [OF writes_A [OF assms(1), of ip]]
    writes_seq [OF writes_when [OF writes_PTR [OF assms(2,3)]]
    writes_seq [OF writes_when [OF writes_SRV [OF assms(3,1), of port]]
    writes_seq [OF writes_when [OF writes_TXT [OF assms(3), of t low]]
    writes_seq [OF writes_when [OF writes_NSEC_host [OF assms(1)]]
                   writes_when [OF writes_NSEC_instance [OF assms(3)]]]]]]]
  have eq: "write_section low ip port t labels r = (\<lambda>s. Option.bind (when_flag r A_FLAG (writeARecord ip labels) s)
      (\<lambda>s. Option.bind (when_flag r PTR_FLAG (writePTRRecord labels) s)
      (\<lambda>s. Option.bind (when_flag r SRV_FLAG (writeSRVRecord port labels) s)
      (\<lambda>s. Option.bind (when_flag r TXT_FLAG (writeTXTRecord low t labels) s)
      (\<lambda>s. Option.bind (when_flag r NSEC_HOST_FLAG (writeNSECHostRecord labels) s)
        (when_flag r NSEC_INSTANCE_FLAG (writeNSECInstanceRecord labels)))))))"
    by (simp add: fun_eq_iff write_section_def)
  have size: "section_size (image_length hn) (image_length sn) (image_length n) (unat (tx_size t)) r =
      (if r AND A_FLAG \<noteq> 0 then image_length hn + 15 else 0) +
      ((if r AND PTR_FLAG \<noteq> 0 then image_length sn + 11 + (image_length n + 1) else 0) +
      ((if r AND SRV_FLAG \<noteq> 0 then image_length n + 17 + (image_length hn + 1) else 0) +
      ((if r AND TXT_FLAG \<noteq> 0 then image_length n + 11 + unat (tx_size t) else 0) +
      ((if r AND NSEC_HOST_FLAG \<noteq> 0 then image_length hn + 16 else 0) +
       (if r AND NSEC_INSTANCE_FLAG \<noteq> 0 then image_length n + 20 else 0)))))"
    by (simp add: section_size_def)
  have records: "section_records r =
      (if r AND A_FLAG \<noteq> 0 then [(A_TYPE, TTL_2MIN)] else []) @
      (if r AND PTR_FLAG \<noteq> 0 then [(PTR_TYPE, TTL_75MIN)] else []) @
      (if r AND SRV_FLAG \<noteq> 0 then [(SRV_TYPE, TTL_2MIN)] else []) @
      (if r AND TXT_FLAG \<noteq> 0 then [(TXT_TYPE, TTL_75MIN)] else []) @
      (if r AND NSEC_HOST_FLAG \<noteq> 0 then [(NSEC_TYPE, TTL_2MIN)] else []) @
      (if r AND NSEC_INSTANCE_FLAG \<noteq> 0 then [(NSEC_TYPE, TTL_2MIN)] else [])"
    by (simp add: section_records_def record_kinds_def)
  show ?thesis unfolding eq size records by (rule all)
qed

lemma flag_bit: "r AND A_FLAG \<noteq> 0 \<longleftrightarrow> bit r 0" "r AND PTR_FLAG \<noteq> 0 \<longleftrightarrow> bit r 1" "r AND SRV_FLAG \<noteq> 0 \<longleftrightarrow> bit r 2"
  "r AND TXT_FLAG \<noteq> 0 \<longleftrightarrow> bit r 3" "r AND NSEC_HOST_FLAG \<noteq> 0 \<longleftrightarrow> bit r 4" "r AND NSEC_INSTANCE_FLAG \<noteq> 0 \<longleftrightarrow> bit r 5"
  using and_exp_eq_0_iff_not_bit [of r 0] and_exp_eq_0_iff_not_bit [of r 1] and_exp_eq_0_iff_not_bit [of r 2]
    and_exp_eq_0_iff_not_bit [of r 3] and_exp_eq_0_iff_not_bit [of r 4] and_exp_eq_0_iff_not_bit [of r 5]
  by (simp_all add: A_FLAG_def PTR_FLAG_def SRV_FLAG_def TXT_FLAG_def NSEC_HOST_FLAG_def NSEC_INSTANCE_FLAG_def)

lemma mdns_count_records: "mdns_count r = of_nat (length (section_records r))"
proof -
  have one: "(ucast (x AND 1) :: u8) = of_bool (bit x 0)" for x :: u16
    by (simp add: and_one_eq bit_0 mod_2_eq_odd)
  have "mdns_count r = of_bool (bit r 0) + of_bool (bit r 1) + of_bool (bit r 2) + of_bool (bit r 3)
      + of_bool (bit r 4) + of_bool (bit r 5)"
    by (simp add: mdns_count_def FLAG_COUNT_def numeral_eq_Suc one bit_simps)
  then show ?thesis
    by (simp add: section_records_def record_kinds_def flag_bit)
qed

lemma length_section_records: "length (section_records r) \<le> 6"
  by (simp add: section_records_def record_kinds_def)

lemma ucast_of_nat_u8: "n \<le> 6 \<Longrightarrow> ucast (of_nat n :: u8) = (of_nat n :: u16)"
  by (simp add: word_unat_eq_iff unsigned_ucast_eq unat_of_nat_u8 unat_of_nat_u16 take_bit_nat_eq_self_iff)

lemma section_records_cong:
  assumes "\<And>k. k < 6 \<Longrightarrow> bit r k = bit r' k"
  shows "section_records r = section_records r'" and "section_size h s n t r = section_size h s n t r'"
  using assms [of 0] assms [of 1] assms [of 2] assms [of 3] assms [of 4] assms [of 5]
  by (simp_all add: section_records_def section_size_def record_kinds_def flag_bit)

lemma section_loop_two:
  assumes "r < 4096" and f0: "\<And>s. f 0 s = Some s"
  shows "section_loop f r s = Option.bind (f r s) (f (drop_bit 6 r))"
proof -
  have zero: "section_loop f 0 s = Some s" for s by (simp add: section_loop.simps)
  have "unat (drop_bit 6 (drop_bit 6 r)) = unat r div 4096"
    using div_mult2_eq [of "unat r" 64 64] by (simp add: drop_bit_eq_div unat_div)
  with assms(1) have "unat (drop_bit 6 (drop_bit 6 r)) = 0" by (simp add: word_less_nat_alt)
  then have twelve: "drop_bit 6 (drop_bit 6 r) = 0" by (simp only: unsigned_eq_0_iff)
  have bind_loop: "Option.bind x (section_loop f 0) = x" for x by (cases x) (simp_all add: zero)
  have second: "section_loop f (drop_bit 6 r) s = f (drop_bit 6 r) s" for s
  proof (cases "drop_bit 6 r = 0")
    case True
    then show ?thesis by (simp add: zero f0)
  next
    case False
    then show ?thesis
      by (subst section_loop.simps) (simp only: twelve word_neq_0_conv if_True bind_loop)
  qed
  have eta: "section_loop f (drop_bit 6 r) = f (drop_bit 6 r)" by (rule ext) (rule second)
  show ?thesis
  proof (cases "r = 0")
    case True
    then show ?thesis by (simp add: zero f0)
  next
    case False
    then show ?thesis
      by (subst section_loop.simps) (simp only: word_neq_0_conv if_True eta)
  qed
qed

lemma label_reset_correct:
  "spells ls p is ns \<Longrightarrow> map stored ls' = map stored ls \<Longrightarrow>
     \<exists>ls''. label_reset p ls' = Some ls'' \<and> map stored ls'' = map stored ls
       \<and> (\<forall>i. lb_off (ls'' ! i) \<noteq> INVALID_OFFSET \<longrightarrow> lb_off (ls' ! i) \<noteq> INVALID_OFFSET \<and> i \<notin> set is)"
proof (induction arbitrary: ls' rule: spells.induct)
  case (root l)
  have len: "l < length ls'" using root map_eq_imp_length_eq by metis
  have nxt: "lb_next (ls' ! l) = None" using map_stored_eqD(3) [OF root.prems root.hyps(1)] root.hyps(3) by simp
  have none: "label_reset None m = Some m" for m by (simp add: label_reset.simps)
  show ?case
    using len nxt none root.prems
    by (auto simp: label_reset.simps [of "Some l"] nth_list_update)
next
  case (label l "is" ns)
  let ?ls1 = "ls'[l := (ls' ! l)\<lparr>lb_off := INVALID_OFFSET\<rparr>]"
  have len: "l < length ls'" using label map_eq_imp_length_eq by metis
  have nxt: "lb_next (ls' ! l) = lb_next (ls ! l)" using map_stored_eqD(3) [OF label.prems label.hyps(1)] .
  have "map stored ?ls1 = map stored ls" using label.prems by simp
  from label.IH [OF this] obtain ls'' where
    ih: "label_reset (lb_next (ls ! l)) ?ls1 = Some ls''" "map stored ls'' = map stored ls"
      "\<forall>i. lb_off (ls'' ! i) \<noteq> INVALID_OFFSET \<longrightarrow> lb_off (?ls1 ! i) \<noteq> INVALID_OFFSET \<and> i \<notin> set is" by blast
  have "label_reset (Some l) ls' = Some ls''"
    using ih(1) nxt by (simp add: label_reset.simps [of "Some l"])
  moreover have "lb_off (ls'' ! i) \<noteq> INVALID_OFFSET \<longrightarrow> lb_off (ls' ! i) \<noteq> INVALID_OFFSET \<and> i \<notin> set (l # is)" for i
    using ih(3) [rule_format, of i] len by (cases "i = l") auto
  ultimately show ?case using ih(2) by blast
qed

lemma reset_labels_correct:
  assumes "labels = [Some h, Some s, Some i]" and "spells ls (Some h) hs hn" and "spells ls (Some s) ss sn"
    and "spells ls (Some i) iss n"
  shows "\<exists>ls'. reset_labels labels ls = Some ls' \<and> map stored ls' = map stored ls
     \<and> (\<forall>k \<in> set hs \<union> set ss \<union> set iss. lb_off (ls' ! k) = INVALID_OFFSET)"
proof -
  obtain l1 where 1: "label_reset (Some h) ls = Some l1" "map stored l1 = map stored ls"
    "\<forall>k. lb_off (l1 ! k) \<noteq> INVALID_OFFSET \<longrightarrow> lb_off (ls ! k) \<noteq> INVALID_OFFSET \<and> k \<notin> set hs"
    using label_reset_correct [OF assms(2) refl] by blast
  obtain l2 where 2: "label_reset (Some s) l1 = Some l2" "map stored l2 = map stored ls"
    "\<forall>k. lb_off (l2 ! k) \<noteq> INVALID_OFFSET \<longrightarrow> lb_off (l1 ! k) \<noteq> INVALID_OFFSET \<and> k \<notin> set ss"
    using label_reset_correct [OF assms(3) 1(2)] by blast
  obtain l3 where 3: "label_reset (Some i) l2 = Some l3" "map stored l3 = map stored ls"
    "\<forall>k. lb_off (l3 ! k) \<noteq> INVALID_OFFSET \<longrightarrow> lb_off (l2 ! k) \<noteq> INVALID_OFFSET \<and> k \<notin> set iss"
    using label_reset_correct [OF assms(4) 2(2)] by blast
  have "reset_labels labels ls = Some l3" using 1 2 3 by (simp add: assms(1))
  then show ?thesis using 1(3) 2(3) 3(2,3) by blast
qed

definition configured :: "mdns \<Rightarrow> u8 list list \<Rightarrow> u8 list list \<Rightarrow> u8 list list \<Rightarrow> bool" where
  "configured d hn sn n \<longleftrightarrow>
     (\<exists>h s i hs ss iss. md_labels d = [Some h, Some s, Some i] \<and> spells (md_store d) (Some h) hs hn
        \<and> spells (md_store d) (Some s) ss sn \<and> spells (md_store d) (Some i) iss n)
     \<and> image_length hn < 255 \<and> image_length sn < 255 \<and> image_length n < 255"

definition response_size :: "mdns \<Rightarrow> u8 list list \<Rightarrow> u8 list list \<Rightarrow> u8 list list \<Rightarrow> u16 \<Rightarrow> nat" where
  "response_size d hn sn n r =
     (let f = section_size (image_length hn) (image_length sn) (image_length n) (unat (tx_size (md_txt d)))
      in 12 + f r + f (drop_bit 6 r AND NOT r))"

text \<open>
  C24: The packets the responder sends are well formed: once a host name and a service are set, \<open>writeResponses\<close>
  appends a header whose two counts are the numbers of records that follow, then one record for every answer flag and
  one for every additional flag that is not an answer already, in the order of the flags; each record is a name, its
  type, its class, its lifetime and data of exactly the length that its length field states.
\<close>

theorem response_packet_wellformed:
  assumes "configured d hn sn n" and "r < 4096"
    and "room (md_buffer d) (response_size d hn sn n r)" and "unat (bf_size (md_buffer d)) \<le> 0x4000"
  defines "an \<equiv> section_records r" and "ar \<equiv> section_records (drop_bit 6 r AND NOT r)"
  shows "\<exists>d' recs. writeResponses low ip r d = Some d' \<and> list_all2 is_record (an @ ar) recs
     \<and> content (md_buffer d') = content (md_buffer d) @ be16 0 @ be16 0x8400 @ be16 0 @ be16 (of_nat (length an))
         @ be16 0 @ be16 (of_nat (length ar)) @ concat recs"
proof -
  obtain h s i hs ss iss where lab: "md_labels d = [Some h, Some s, Some i]"
    and sp: "spells (md_store d) (Some h) hs hn" "spells (md_store d) (Some s) ss sn" "spells (md_store d) (Some i) iss n"
    using assms(1) by (auto simp: configured_def)
  let ?R = "set hs \<union> set ss \<union> set iss" and ?b = "md_buffer d"
  let ?r = "r AND NOT (push_bit 6 r)"
  obtain ls where ls: "reset_labels (md_labels d) (md_store d) = Some ls" "map stored ls = map stored (md_store d)"
    "\<forall>k \<in> ?R. lb_off (ls ! k) = INVALID_OFFSET"
    using reset_labels_correct [OF lab sp] by blast
  have nm: "named (md_store d) ?R (md_labels d) HOST_NAME hn" "named (md_store d) ?R (md_labels d) SERVICE_NAME sn"
    "named (md_store d) ?R (md_labels d) INSTANCE_NAME n"
    using lab sp assms(1)
    by (auto simp: named_def configured_def image_length_def HOST_NAME_def SERVICE_NAME_def INSTANCE_NAME_def)
  have small: "?r < 4096"
    using assms(2) word_and_le2 [of r "NOT (push_bit 6 r)"] by (meson le_less_trans)
  have bits: "bit ?r k = bit r k" "bit (drop_bit 6 ?r) k = bit (drop_bit 6 r AND NOT r) k" if "k < 6" for k
    using that by (auto simp: bit_simps)
  have recs: "section_records ?r = an" "section_records (drop_bit 6 ?r) = ar"
    using section_records_cong(1) [OF bits(1)] section_records_cong(1) [OF bits(2)] by (auto simp: an_def ar_def)
  let ?size = "section_size (image_length hn) (image_length sn) (image_length n) (unat (tx_size (md_txt d)))"
  have sizes: "?size ?r = ?size r" "?size (drop_bit 6 ?r) = ?size (drop_bit 6 r AND NOT r)"
    using section_records_cong(2) [OF bits(1)] section_records_cong(2) [OF bits(2)] by auto
  let ?f = "write_section low ip (md_port d) (md_txt d) (md_labels d)"
  have f0: "?f 0 s = Some s" for s by (simp add: write_section_def when_flag_def)
  have loop: "section_loop ?f ?r s = Option.bind (?f ?r s) (?f (drop_bit 6 ?r))" for s
    using small f0 by (rule section_loop_two)
  note both = writes_seq [OF writes_section [OF nm, of "md_txt d" ?r low ip "md_port d"]
      writes_section [OF nm, of "md_txt d" "drop_bit 6 ?r" low ip "md_port d"], unfolded recs sizes]
  let ?hd = "be16 0 @ be16 0x8400 @ be16 0 @ be16 (of_nat (length an)) @ be16 0 @ be16 (of_nat (length ar))"
  have c8: "ucast (of_nat (length an) :: u8) = (of_nat (length an) :: u16)"
      "ucast (of_nat (length ar) :: u8) = (of_nat (length ar) :: u16)"
    by (simp_all add: an_def ar_def length_section_records ucast_of_nat_u8)
  have rm: "room ?b (12 + (?size r + ?size (drop_bit 6 r AND NOT r)))"
    using assms(3) by (simp add: response_size_def Let_def add.assoc)
  have hd: "appends ?b ?hd (writeBytes ?hd ?b)"
    by (rule writeBytes_appends, rule room_mono [OF rm]) simp
  have rm2: "room (writeBytes ?hd ?b) (?size r + ?size (drop_bit 6 r AND NOT r))"
    by (rule room_behind [OF hd rm]) simp
  have pl: "placed (md_store d) ?R (ls, writeBytes ?hd ?b)"
    using ls hd assms(4) by (simp add: placed_def placed_on_def appends_def)
  from both [unfolded writes_def, rule_format, of "(ls, writeBytes ?hd ?b)"] pl rm2
  obtain s' recs where s': "Option.bind (?f ?r (ls, writeBytes ?hd ?b)) (?f (drop_bit 6 ?r)) = Some s'"
    "appends (writeBytes ?hd ?b) (concat recs) (snd s')" "list_all2 is_record (an @ ar) recs" by auto
  from s'(1) obtain s1 where s1: "?f ?r (ls, writeBytes ?hd ?b) = Some s1" "?f (drop_bit 6 ?r) s1 = Some s'"
    by (auto simp only: bind_eq_Some_conv)
  have "writeResponses low ip r d = Some (d\<lparr>md_store := fst s', md_buffer := snd s'\<rparr>)"
    using ls(1) s1 c8
    by (simp add: writeResponses_def mdns_count_records recs loop writeUInt_bytes
        writeBytes_append split_def del: drop_bit_and)
  moreover have "content (snd s') = content ?b @ ?hd @ concat recs"
    using appends_trans [OF hd s'(2)] by (simp add: appends_def)
  ultimately show ?thesis using s'(3)
    by (intro exI [of _ "d\<lparr>md_store := fst s', md_buffer := snd s'\<rparr>"] exI [of _ recs]) simp
qed

lemma response_packet_wellformed_witness:
  defines "d \<equiv> \<lparr>md_buffer = \<lparr>bf_data = (\<lambda>_. 0), bf_size = 512, bf_limit = 0, bf_offset = 0, bf_mark = INVALID_MARK_OFFSET\<rparr>,
     md_store = host_label, md_labels = [Some 1, Some 1, Some 1], md_querySet = None, md_port = 80,
     md_txt = \<lparr>tx_data = None, tx_size = 0\<rparr>\<rparr>"
  shows "\<exists>d' recs. writeResponses (\<lambda>_. 0) (\<lambda>_. 1) SERVICE_RESPONSE d = Some d'
     \<and> list_all2 is_record (section_records SERVICE_RESPONSE
         @ section_records (drop_bit 6 SERVICE_RESPONSE AND NOT SERVICE_RESPONSE)) recs
     \<and> content (md_buffer d') = content (md_buffer d) @ be16 0 @ be16 0x8400 @ be16 0
         @ be16 (of_nat (length (section_records SERVICE_RESPONSE))) @ be16 0
         @ be16 (of_nat (length (section_records (drop_bit 6 SERVICE_RESPONSE AND NOT SERVICE_RESPONSE)))) @ concat recs"
proof (rule response_packet_wellformed)
  have len: "image_length [[0x48]] = 3" by (simp add: image_length_def label_image_def)
  show "configured d [[0x48]] [[0x48]] [[0x48]]"
    unfolding configured_def len using host_label_spells(2)
    by (auto simp: d_def intro!: exI [of _ "1 :: nat"] exI [of _ "[1, 0] :: nat list"])
  show "SERVICE_RESPONSE < 4096"
    by (simp add: SERVICE_RESPONSE_def PTR_FLAG_def SRV_FLAG_def TXT_FLAG_def A_FLAG_def ADDITIONAL_def push_bit_eq_mult)
  have b: "section_size 3 3 3 0 r \<le> 120" for r by (simp add: section_size_def)
  have "response_size d [[0x48]] [[0x48]] [[0x48]] SERVICE_RESPONSE \<le> 252"
    using add_mono [OF b [of SERVICE_RESPONSE] b [of "drop_bit 6 SERVICE_RESPONSE AND NOT SERVICE_RESPONSE"]]
    by (simp add: response_size_def len d_def Let_def)
  then show "room (md_buffer d) (response_size d [[0x48]] [[0x48]] [[0x48]] SERVICE_RESPONSE)"
    by (simp add: room_def d_def)
  show "unat (bf_size (md_buffer d)) \<le> 0x4000" by (simp add: d_def)
qed

end
