(* ===== verification/Active_Objects.thy ===== *)
theory Active_Objects
  imports Prelude
begin

text \<open>
  Active objects (\<open>system/inc/active_object.h\<close>) and the calls into the system thread that go through them
  (\<open>system/inc/system_threading.h\<close>).  A thread that calls a function of the system puts a message into the queue of the
  active object, whose thread takes the messages and invokes them; a synchronous call waits on the semaphore of
  its promise.  The objects are in a heap; a run interleaves the actions of the callers and of the thread of the
  active object in any order, each action one access to the shared state.

  The operations of the operating system are modelled by what \<open>concurrent_hal.h\<close> declares them for: a queue of
  bounded capacity that a \<open>put\<close> may give up on, binary semaphores, and an allocator that may fail.  \<open>run_work\<close>, a
  parameter, is the function that is called: it computes a result and changes the state of the system.
\<close>

section \<open>Objects and state\<close>

datatype ao_task_kind = AsyncTask | SystemPromise

text \<open>\<open>t_call\<close> is not in the code: it names the call that created the object.\<close>

record ('w, 'r) ao_task =
  t_kind :: ao_task_kind
  t_work :: 'w
  t_result :: "'r option"
  t_complete :: "nat option"
  t_call :: nat

text \<open>Where a caller is, and where the thread of the active object is, in the code.\<close>

datatype 'r ao_pc = At_started | At_thread | At_direct | At_new | At_put nat | At_drop nat
  | At_wait nat | At_read nat | At_delete nat 'r | Returned "'r option"

datatype 'r ao_exec = Taking | Invoking nat | Storing nat 'r | Completing nat

record ('w, 'r) ao_call =
  c_thread :: nat
  c_work :: 'w
  c_sync :: bool
  c_pc :: "'r ao_pc"

text \<open>
  The log holds each invocation of a function: for which call, whether the message came through the queue, the
  function and its result.  \<open>ao_fault\<close> says that the code has used an object that does not exist.
\<close>

record ('e, 'w, 'r) ao_state =
  ao_started :: bool
  ao_thread_id :: nat
  ao_queue :: "nat list"
  ao_heap :: "nat \<Rightarrow> ('w, 'r) ao_task option"
  ao_exec :: "'r ao_exec"
  ao_calls :: "nat \<Rightarrow> ('w, 'r) ao_call option"
  ao_world :: 'e
  ao_log :: "(nat \<times> bool \<times> 'w \<times> 'r) list"
  ao_fault :: bool

definition ao_init :: "'e \<Rightarrow> ('e, 'w, 'r) ao_state" where
  "ao_init e = \<lparr>ao_started = False, ao_thread_id = 0, ao_queue = [], ao_heap = \<lambda>a. None, ao_exec = Taking,
     ao_calls = \<lambda>c. None, ao_world = e, ao_log = [], ao_fault = False\<rparr>"

definition ao_fail :: "('e, 'w, 'r) ao_state \<Rightarrow> ('e, 'w, 'r) ao_state" where
  "ao_fail s = s\<lparr>ao_fault := True\<rparr>"

definition goto :: "nat \<Rightarrow> 'r ao_pc \<Rightarrow> ('e, 'w, 'r) ao_state \<Rightarrow> ('e, 'w, 'r) ao_state" where
  "goto c p s = s\<lparr>ao_calls := (ao_calls s)(c := map_option (\<lambda>k. k\<lparr>c_pc := p\<rparr>) (ao_calls s c))\<rparr>"

definition put_task :: "nat \<Rightarrow> ('w, 'r) ao_task \<Rightarrow> ('e, 'w, 'r) ao_state \<Rightarrow> ('e, 'w, 'r) ao_state" where
  "put_task a t s = s\<lparr>ao_heap := (ao_heap s)(a \<mapsto> t)\<rparr>"

definition delete_task :: "nat \<Rightarrow> ('e, 'w, 'r) ao_state \<Rightarrow> ('e, 'w, 'r) ao_state" where
  "delete_task a s = s\<lparr>ao_heap := (ao_heap s)(a := None)\<rparr>"

definition invoke_work :: "('w \<Rightarrow> 'e \<Rightarrow> 'r \<times> 'e) \<Rightarrow> nat \<Rightarrow> bool \<Rightarrow> 'w \<Rightarrow> ('e, 'w, 'r) ao_state \<Rightarrow> 'r \<times> ('e, 'w, 'r) ao_state" where
  "invoke_work run_work c queued w s =
     (let (r, e) = run_work w (ao_world s) in (r, s\<lparr>ao_world := e, ao_log := ao_log s @ [(c, queued, w, r)]\<rparr>))"

section \<open>The two sides of the queue\<close>

text \<open>
  The constructors \<open>AsyncTask(fn)\<close> and \<open>SystemPromise(fn)\<close>; the second creates a semaphore with
  the count 0, or leaves \<open>complete\<close> null when that fails.
\<close>

definition new_task :: "bool \<Rightarrow> bool \<Rightarrow> 'w \<Rightarrow> nat \<Rightarrow> ('w, 'r) ao_task" where
  "new_task sync sem_ok w c = \<lparr>t_kind = (if sync then SystemPromise else AsyncTask), t_work = w, t_result = None,
     t_complete = (if sync \<and> sem_ok then Some 0 else None), t_call = c\<rparr>"

text \<open>
  One action of a call.  The environment decides which memory \<open>new\<close> returns, if any, whether the semaphore is created, and
  whether the queue accepts the message within the time the code waits.  The actions are those of
  \<open>SYSTEM_THREAD_CONTEXT_SYNC\<close> and \<open>SYSTEM_THREAD_CONTEXT_ASYNC\<close>, followed by the function itself, with \<open>invoke_future\<close>,
  \<open>invoke_async\<close> and \<open>SystemPromise::get\<close>.
\<close>

record ao_env =
  e_alloc :: "nat option"
  e_semaphore :: bool
  e_put :: bool

definition call_result :: "bool \<Rightarrow> 'r \<Rightarrow> 'r option" where
  "call_result sync r = (if sync then Some r else None)"

definition wait_complete :: "nat \<Rightarrow> nat \<Rightarrow> ('e, 'w, 'r) ao_state \<Rightarrow> ('e, 'w, 'r) ao_state" where
  "wait_complete c a s = (case ao_heap s a of None \<Rightarrow> ao_fail s
     | Some t \<Rightarrow> (case t_complete t of None \<Rightarrow> ao_fail s
       | Some n \<Rightarrow> if n = 0 then s else goto c (At_read a) (put_task a (t\<lparr>t_complete := Some (n - 1)\<rparr>) s)))"

definition read_result :: "nat \<Rightarrow> nat \<Rightarrow> ('e, 'w, 'r) ao_state \<Rightarrow> ('e, 'w, 'r) ao_state" where
  "read_result c a s = (case ao_heap s a of None \<Rightarrow> ao_fail s
     | Some t \<Rightarrow> (case t_result t of None \<Rightarrow> ao_fail s | Some r \<Rightarrow> goto c (At_delete a r) s))"

definition delete_object :: "nat \<Rightarrow> 'r ao_pc \<Rightarrow> nat \<Rightarrow> ('e, 'w, 'r) ao_state \<Rightarrow> ('e, 'w, 'r) ao_state" where
  "delete_object c p a s = (case ao_heap s a of None \<Rightarrow> ao_fail s | Some t \<Rightarrow> goto c p (delete_task a s))"

definition new_object :: "nat \<Rightarrow> ('w, 'r :: zero) ao_call \<Rightarrow> ao_env \<Rightarrow> ('e, 'w, 'r) ao_state \<Rightarrow> ('e, 'w, 'r) ao_state" where
  "new_object c k env s = (case e_alloc env of None \<Rightarrow> goto c (Returned (call_result (c_sync k) 0)) s
     | Some a \<Rightarrow> if ao_heap s a \<noteq> None then s
         else goto c (At_put a) (put_task a (new_task (c_sync k) (e_semaphore env) (c_work k) c) s))"

definition put_message :: "nat \<Rightarrow> nat \<Rightarrow> ('w, 'r) ao_call \<Rightarrow> ao_env \<Rightarrow> nat \<Rightarrow> ('e, 'w, 'r) ao_state \<Rightarrow> ('e, 'w, 'r) ao_state" where
  "put_message queue_size c k env a s = (if e_put env \<and> length (ao_queue s) < queue_size
     then goto c (if c_sync k then At_wait a else Returned None) (s\<lparr>ao_queue := ao_queue s @ [a]\<rparr>)
     else goto c (At_drop a) s)"

definition call_step :: "nat \<Rightarrow> ('w \<Rightarrow> 'e \<Rightarrow> 'r :: zero \<times> 'e) \<Rightarrow> nat \<Rightarrow> ao_env \<Rightarrow> ('e, 'w, 'r) ao_state \<Rightarrow> ('e, 'w, 'r) ao_state" where
  "call_step queue_size run_work c env s = (case ao_calls s c of None \<Rightarrow> s | Some k \<Rightarrow>
     (case c_pc k of
       At_started \<Rightarrow> goto c (if ao_started s then At_thread else At_direct) s
     | At_thread \<Rightarrow> goto c (if ao_thread_id s = c_thread k then At_direct else At_new) s
     | At_direct \<Rightarrow> (let (r, s') = invoke_work run_work c False (c_work k) s in goto c (Returned (call_result (c_sync k) r)) s')
     | At_new \<Rightarrow> new_object c k env s
     | At_put a \<Rightarrow> put_message queue_size c k env a s
     | At_drop a \<Rightarrow> delete_object c (Returned (call_result (c_sync k) 0)) a s
     | At_wait a \<Rightarrow> wait_complete c a s
     | At_read a \<Rightarrow> read_result c a s
     | At_delete a r \<Rightarrow> delete_object c (Returned (Some r)) a s
     | Returned x \<Rightarrow> s))"

text \<open>
  One action of the thread of the active object, once it is started: it takes a message and calls its \<open>operator()\<close>,
  which invokes the function, stores the result of a promise, and completes the task: a promise
  gives its semaphore, an asynchronous task deletes itself.
\<close>

definition task_invoke :: "('w \<Rightarrow> 'e \<Rightarrow> 'r \<times> 'e) \<Rightarrow> nat \<Rightarrow> ('e, 'w, 'r) ao_state \<Rightarrow> ('e, 'w, 'r) ao_state" where
  "task_invoke run_work a s = (case ao_heap s a of None \<Rightarrow> ao_fail s
     | Some t \<Rightarrow> (let (r, s') = invoke_work run_work (t_call t) True (t_work t) s in s'\<lparr>ao_exec := Storing a r\<rparr>))"

definition task_store :: "nat \<Rightarrow> 'r \<Rightarrow> ('e, 'w, 'r) ao_state \<Rightarrow> ('e, 'w, 'r) ao_state" where
  "task_store a r s = (case ao_heap s a of None \<Rightarrow> ao_fail s
     | Some t \<Rightarrow> (if t_kind t = SystemPromise then put_task a (t\<lparr>t_result := Some r\<rparr>) s else s)\<lparr>ao_exec := Completing a\<rparr>)"

definition task_complete :: "nat \<Rightarrow> ('e, 'w, 'r) ao_state \<Rightarrow> ('e, 'w, 'r) ao_state" where
  "task_complete a s = (case ao_heap s a of None \<Rightarrow> ao_fail s
     | Some t \<Rightarrow> (case t_kind t of
         AsyncTask \<Rightarrow> (delete_task a s)\<lparr>ao_exec := Taking\<rparr>
       | SystemPromise \<Rightarrow> (case t_complete t of None \<Rightarrow> ao_fail s
           | Some n \<Rightarrow> (put_task a (t\<lparr>t_complete := Some 1\<rparr>) s)\<lparr>ao_exec := Taking\<rparr>)))"

definition exec_step :: "('w \<Rightarrow> 'e \<Rightarrow> 'r \<times> 'e) \<Rightarrow> ('e, 'w, 'r) ao_state \<Rightarrow> ('e, 'w, 'r) ao_state" where
  "exec_step run_work s = (if \<not> ao_started s then s else (case ao_exec s of
       Taking \<Rightarrow> (case ao_queue s of [] \<Rightarrow> s | a # q \<Rightarrow> s\<lparr>ao_queue := q, ao_exec := Invoking a\<rparr>)
     | Invoking a \<Rightarrow> task_invoke run_work a s
     | Storing a r \<Rightarrow> task_store a r s
     | Completing a \<Rightarrow> task_complete a s))"

section \<open>Runs\<close>

datatype 'w ao_event = Start nat | Call nat nat 'w bool | Act nat ao_env | Exec

definition new_call :: "nat \<Rightarrow> 'w \<Rightarrow> bool \<Rightarrow> ('w, 'r) ao_call" where
  "new_call th w sync = \<lparr>c_thread = th, c_work = w, c_sync = sync, c_pc = At_started\<rparr>"

fun ao_step :: "nat \<Rightarrow> ('w \<Rightarrow> 'e \<Rightarrow> 'r :: zero \<times> 'e) \<Rightarrow> 'w ao_event \<Rightarrow> ('e, 'w, 'r) ao_state \<Rightarrow> ('e, 'w, 'r) ao_state" where
  "ao_step n rw (Start th) s = (if ao_started s then s else s\<lparr>ao_thread_id := th, ao_started := True\<rparr>)"
| "ao_step n rw (Call c th w sync) s =
     (if ao_calls s c = None then s\<lparr>ao_calls := (ao_calls s)(c \<mapsto> new_call th w sync)\<rparr> else s)"
| "ao_step n rw (Act c env) s = call_step n rw c env s"
| "ao_step n rw Exec s = exec_step rw s"

definition ao_run :: "nat \<Rightarrow> ('w \<Rightarrow> 'e \<Rightarrow> 'r :: zero \<times> 'e) \<Rightarrow> 'w ao_event list \<Rightarrow> ('e, 'w, 'r) ao_state \<Rightarrow> ('e, 'w, 'r) ao_state" where
  "ao_run n rw es s = fold (ao_step n rw) es s"

text \<open>Every semaphore that is asked for is created.\<close>

fun semaphore_created :: "'w ao_event \<Rightarrow> bool" where
  "semaphore_created (Act c env) = e_semaphore env"
| "semaphore_created _ = True"

end
