(* ===== verification/Active_Object_Calls.thy ===== *)
theory Active_Object_Calls
  imports Active_Objects
begin

text \<open>
  What a call into the thread of an active object gives its caller: the invariant \<open>ao_inv\<close> of every interleaving says for each
  object who may use it and how far its function has been executed; \<open>pending\<close> counts the steps until a
  waiting call is answered.
\<close>

section \<open>The invariant\<close>

definition log_of :: "nat \<Rightarrow> ('e, 'w, 'r) ao_state \<Rightarrow> (bool \<times> 'w \<times> 'r) list" where
  "log_of c s = map snd (filter (\<lambda>e. fst e = c) (ao_log s))"

fun exec_objects :: "'r ao_exec \<Rightarrow> nat list" where
  "exec_objects Taking = []"
| "exec_objects (Invoking a) = [a]"
| "exec_objects (Storing a r) = [a]"
| "exec_objects (Completing a) = [a]"

definition in_flight :: "('e, 'w, 'r) ao_state \<Rightarrow> nat list" where
  "in_flight s = exec_objects (ao_exec s) @ ao_queue s"

definition call_of :: "('e, 'w, 'r) ao_state \<Rightarrow> nat \<Rightarrow> nat" where
  "call_of s a = t_call (the (ao_heap s a))"

text \<open>How far the thread of the active object is with an object.\<close>

definition stage_ok :: "'r ao_exec \<Rightarrow> nat \<Rightarrow> ('w, 'r) ao_task \<Rightarrow> (bool \<times> 'w \<times> 'r) list \<Rightarrow> bool" where
  "stage_ok ex a t l \<longleftrightarrow> (case ex of
       Storing b r \<Rightarrow> if a = b then l = [(True, t_work t, r)] else l = [] \<and> t_result t = None
     | Completing b \<Rightarrow> if a = b then (\<exists>r. l = [(True, t_work t, r)] \<and> (t_kind t = SystemPromise \<longrightarrow> t_result t = Some r))
         else l = [] \<and> t_result t = None
     | _ \<Rightarrow> l = [] \<and> t_result t = None)"

definition made_by :: "('w, 'r) ao_task \<Rightarrow> nat \<Rightarrow> ('w, 'r) ao_call \<Rightarrow> bool" where
  "made_by t c k \<longleftrightarrow> t_call t = c \<and> t_work t = c_work k \<and> (t_kind t = SystemPromise \<longleftrightarrow> c_sync k)"

definition fresh_semaphore :: "('w, 'r) ao_task \<Rightarrow> bool" where
  "fresh_semaphore t \<longleftrightarrow> (t_kind t = SystemPromise \<longrightarrow> t_complete t = Some 0)"

definition flight_ok :: "('e, 'w, 'r) ao_state \<Rightarrow> nat \<Rightarrow> bool" where
  "flight_ok s a \<longleftrightarrow> (\<exists>t k. ao_heap s a = Some t \<and> ao_calls s (t_call t) = Some k \<and> made_by t (t_call t) k \<and>
     c_pc k = (if c_sync k then At_wait a else Returned None) \<and> fresh_semaphore t \<and>
     stage_ok (ao_exec s) a t (log_of (t_call t) s))"

definition held :: "('e, 'w, 'r) ao_state \<Rightarrow> nat \<Rightarrow> ('w, 'r) ao_call \<Rightarrow> nat \<Rightarrow> (('w, 'r) ao_task \<Rightarrow> bool) \<Rightarrow> bool" where
  "held s c k a P \<longleftrightarrow> a \<notin> set (in_flight s) \<and> (\<exists>t. ao_heap s a = Some t \<and> made_by t c k \<and> P t)"

definition served :: "('e, 'w, 'r) ao_state \<Rightarrow> nat \<Rightarrow> ('w, 'r) ao_call \<Rightarrow> 'r \<Rightarrow> bool" where
  "served s c k r \<longleftrightarrow> log_of c s = [(True, c_work k, r)]"

definition returned_ok :: "('e, 'w, 'r :: zero) ao_state \<Rightarrow> nat \<Rightarrow> ('w, 'r) ao_call \<Rightarrow> 'r option \<Rightarrow> bool" where
  "returned_ok s c k x \<longleftrightarrow> (if c_sync k
     then (log_of c s = [] \<and> x = Some 0) \<or> (\<exists>q r. log_of c s = [(q, c_work k, r)] \<and> x = Some r)
     else x = None \<and> (log_of c s = [] \<or> (\<exists>q r. log_of c s = [(q, c_work k, r)])))"

definition call_ok :: "('e, 'w, 'r :: zero) ao_state \<Rightarrow> nat \<Rightarrow> ('w, 'r) ao_call \<Rightarrow> bool" where
  "call_ok s c k \<longleftrightarrow> (case c_pc k of
       At_put a \<Rightarrow> log_of c s = [] \<and> held s c k a (\<lambda>t. t_result t = None \<and> fresh_semaphore t)
     | At_drop a \<Rightarrow> log_of c s = [] \<and> held s c k a (\<lambda>t. True)
     | At_wait a \<Rightarrow> c_sync k \<and> (a \<in> set (in_flight s) \<and> call_of s a = c \<or>
         (\<exists>r. held s c k a (\<lambda>t. t_complete t = Some 1 \<and> t_result t = Some r) \<and> served s c k r))
     | At_read a \<Rightarrow> c_sync k \<and> (\<exists>r. held s c k a (\<lambda>t. t_result t = Some r) \<and> served s c k r)
     | At_delete a r \<Rightarrow> c_sync k \<and> held s c k a (\<lambda>t. True) \<and> served s c k r
     | Returned x \<Rightarrow> returned_ok s c k x
     | _ \<Rightarrow> log_of c s = [])"

fun holds :: "nat \<Rightarrow> 'r ao_pc \<Rightarrow> bool" where
  "holds a (At_put b) = (a = b)"
| "holds a (At_drop b) = (a = b)"
| "holds a (At_wait b) = (a = b)"
| "holds a (At_read b) = (a = b)"
| "holds a (At_delete b r) = (a = b)"
| "holds a _ = False"

definition heap_ok :: "('e, 'w, 'r) ao_state \<Rightarrow> bool" where
  "heap_ok s \<longleftrightarrow> (\<forall>a t. ao_heap s a = Some t \<longrightarrow> a \<in> set (in_flight s) \<or>
     (\<exists>k. ao_calls s (t_call t) = Some k \<and> holds a (c_pc k)))"

definition ao_inv :: "('e, 'w, 'r :: zero) ao_state \<Rightarrow> bool" where
  "ao_inv s \<longleftrightarrow> \<not> ao_fault s \<and> heap_ok s \<and> distinct (map (call_of s) (in_flight s)) \<and>
     (\<forall>a \<in> set (in_flight s). flight_ok s a) \<and> (\<forall>c k. ao_calls s c = Some k \<longrightarrow> call_ok s c k) \<and>
     (\<forall>c. ao_calls s c = None \<longrightarrow> log_of c s = [])"

lemma ao_invD:
  assumes "ao_inv s"
  shows "\<not> ao_fault s" "heap_ok s" "distinct (map (call_of s) (in_flight s))"
    "a \<in> set (in_flight s) \<Longrightarrow> flight_ok s a" "ao_calls s c = Some k \<Longrightarrow> call_ok s c k" "ao_calls s c = None \<Longrightarrow> log_of c s = []"
  using assms unfolding ao_inv_def by blast+

lemma flight_okI:
  assumes "ao_heap s a = Some t" "ao_calls s (t_call t) = Some k" "made_by t (t_call t) k"
    "c_pc k = (if c_sync k then At_wait a else Returned None)" "fresh_semaphore t" "stage_ok (ao_exec s) a t (log_of (t_call t) s)"
  shows "flight_ok s a"
  using assms unfolding flight_ok_def by blast

lemma flight_okE:
  assumes "flight_ok s a"
  obtains t k where "ao_heap s a = Some t" "call_of s a = t_call t" "ao_calls s (t_call t) = Some k" "made_by t (t_call t) k"
    "c_pc k = (if c_sync k then At_wait a else Returned None)" "fresh_semaphore t" "stage_ok (ao_exec s) a t (log_of (t_call t) s)"
  using assms unfolding flight_ok_def call_of_def by fastforce

text \<open>What is in flight for other calls stays as it is.\<close>

lemma flight_ok_frame:
  fixes s :: "('e, 'w, 'r) ao_state"
  assumes f: "flight_ok s a" and heap: "ao_heap s' a = ao_heap s a"
    and calls: "ao_calls s' (call_of s a) = ao_calls s (call_of s a)" and log: "log_of (call_of s a) s' = log_of (call_of s a) s"
    and stage: "\<And>(t :: ('w, 'r) ao_task) l. stage_ok (ao_exec s) a t l \<Longrightarrow> stage_ok (ao_exec s') a t l"
  shows "flight_ok s' a"
proof -
  from f obtain t k where t: "ao_heap s a = Some t" "call_of s a = t_call t" "ao_calls s (t_call t) = Some k" "made_by t (t_call t) k"
    "c_pc k = (if c_sync k then At_wait a else Returned None)" "fresh_semaphore t" "stage_ok (ao_exec s) a t (log_of (t_call t) s)"
    by (rule flight_okE)
  show ?thesis
    by (rule flight_okI [where t = t and k = k]) (use t heap calls log stage [OF t(7)] in simp_all)
qed

lemma ao_inv_init: "ao_inv (ao_init e)"
  by (simp add: ao_inv_def ao_init_def heap_ok_def in_flight_def log_of_def)

text \<open>A step of a call that none of the messages in flight belongs to.\<close>

lemma ao_inv_own_step:
  assumes inv: "ao_inv s" and c: "ao_calls s c = Some k" and free: "\<forall>a \<in> set (in_flight s). call_of s a \<noteq> c"
    and same: "ao_queue s' = ao_queue s" "ao_exec s' = ao_exec s" "\<not> ao_fault s'" "ao_calls s' = (ao_calls s)(c \<mapsto> k\<lparr>c_pc := p\<rparr>)"
    and heap: "\<And>b. ao_heap s' b \<noteq> ao_heap s b \<Longrightarrow> b \<notin> set (in_flight s) \<and> (\<forall>t. ao_heap s b = Some t \<longrightarrow> t_call t = c)"
    and owned: "\<And>b t. ao_heap s' b = Some t \<Longrightarrow> ao_heap s' b \<noteq> ao_heap s b \<or> t_call t = c \<Longrightarrow> t_call t = c \<and> holds b p"
    and log: "\<And>d. d \<noteq> c \<Longrightarrow> log_of d s' = log_of d s" and ok: "call_ok s' c (k\<lparr>c_pc := p\<rparr>)"
  shows "ao_inv s'"
proof -
  have fl [simp]: "in_flight s' = in_flight s" by (simp add: in_flight_def same)
  have hp: "ao_heap s' a = ao_heap s a" if "a \<in> set (in_flight s)" for a using heap [of a] that by blast
  have co: "call_of s' a = call_of s a" if "a \<in> set (in_flight s)" for a using hp [OF that] by (simp add: call_of_def)
  have "flight_ok s' a" if "a \<in> set (in_flight s)" for a
    by (rule flight_ok_frame [OF ao_invD(4) [OF inv that] hp [OF that]]) (use free that same log in simp_all)
  moreover have "heap_ok s'" unfolding heap_ok_def
  proof (intro allI impI)
    fix a t assume a: "ao_heap s' a = Some t"
    show "a \<in> set (in_flight s') \<or> (\<exists>k. ao_calls s' (t_call t) = Some k \<and> holds a (c_pc k))"
    proof (cases "ao_heap s' a \<noteq> ao_heap s a \<or> t_call t = c")
      case True then show ?thesis using owned [OF a True] by (simp add: same)
    next
      case False then show ?thesis using ao_invD(2) [OF inv] a unfolding heap_ok_def by (auto simp: same)
    qed
  qed
  moreover have "call_ok s' d j" if "ao_calls s' d = Some j" for d j
  proof (cases "d = c")
    case True then show ?thesis using ok that by (simp add: same)
  next
    case False
    then have j: "ao_calls s d = Some j" using that by (simp add: same)
    have h: "held s' d j b P" if "held s d j b P" for b P
      using that heap [of b] False unfolding held_def by (auto simp: made_by_def) (metis)+
    show ?thesis using ao_invD(5) [OF inv j] h co
      unfolding call_ok_def by (cases "c_pc j") (auto simp: log [OF False] served_def returned_ok_def)
  qed
  moreover have "distinct (map (call_of s') (in_flight s'))" 
    using ao_invD(3) [OF inv] co by (simp add: distinct_map inj_on_def)
  ultimately show ?thesis using same log ao_invD(6) [OF inv] unfolding ao_inv_def by (auto split: if_splits)
qed


lemma goto_fields [simp]:
  "ao_queue (goto c p s) = ao_queue s" "ao_exec (goto c p s) = ao_exec s" "ao_fault (goto c p s) = ao_fault s"
  "ao_heap (goto c p s) = ao_heap s" "ao_log (goto c p s) = ao_log s" "ao_started (goto c p s) = ao_started s"
  "ao_calls (goto c p s) = (ao_calls s)(c := map_option (\<lambda>k. k\<lparr>c_pc := p\<rparr>) (ao_calls s c))"
  by (simp_all add: goto_def)

lemma task_fields [simp]:
  "ao_queue (put_task a t s) = ao_queue s" "ao_exec (put_task a t s) = ao_exec s" "ao_fault (put_task a t s) = ao_fault s"
  "ao_heap (put_task a t s) = (ao_heap s)(a \<mapsto> t)" "ao_log (put_task a t s) = ao_log s" "ao_calls (put_task a t s) = ao_calls s"
  "ao_started (put_task a t s) = ao_started s" "ao_started (delete_task a s) = ao_started s"
  "ao_queue (delete_task a s) = ao_queue s" "ao_exec (delete_task a s) = ao_exec s" "ao_fault (delete_task a s) = ao_fault s"
  "ao_heap (delete_task a s) = (ao_heap s)(a := None)" "ao_log (delete_task a s) = ao_log s" "ao_calls (delete_task a s) = ao_calls s"
  by (simp_all add: put_task_def delete_task_def)

lemma log_of_cong: "ao_log s' = ao_log s \<Longrightarrow> log_of c s' = log_of c s"
  by (simp add: log_of_def)

lemma log_of_append: "ao_log s' = ao_log s @ [(d, e)] \<Longrightarrow> log_of c s' = (if c = d then log_of c s @ [e] else log_of c s)"
  by (simp add: log_of_def)

lemma in_flight_cong: "ao_queue s' = ao_queue s \<Longrightarrow> ao_exec s' = ao_exec s \<Longrightarrow> in_flight s' = in_flight s"
  by (simp add: in_flight_def)

lemma not_in_flight:
  assumes "ao_inv s" "ao_calls s c = Some k" "a \<in> set (in_flight s)"
    and "c_pc k \<noteq> At_wait a" "c_pc k \<noteq> Returned None"
  shows "call_of s a \<noteq> c"
  using ao_invD(4) [OF assms(1,3)] assms(2-) by (auto elim!: flight_okE split: if_splits)

lemma held_by_call:
  assumes "ao_inv s" "ao_calls s c = Some k" "\<forall>a \<in> set (in_flight s). call_of s a \<noteq> c" "ao_heap s b = Some t" "t_call t = c"
  shows "holds b (c_pc k)"
  using ao_invD(2) [OF assms(1)] assms(2-) unfolding heap_ok_def call_of_def by force

lemma log_of_goto [simp]: "log_of d (goto c p s) = log_of d s"
  by (simp add: log_of_def)

lemma in_flight_goto [simp]: "in_flight (goto c p s) = in_flight s"
  by (simp add: in_flight_def)

lemma held_goto [simp]: "held (goto c p s) c (k\<lparr>c_pc := q\<rparr>) a P = held s c k a P"
  by (simp add: held_def made_by_def)

lemma queue_update [simp]:
  "in_flight (s\<lparr>ao_queue := ao_queue s @ [a]\<rparr>) = in_flight s @ [a]" "log_of d (s\<lparr>ao_queue := q\<rparr>) = log_of d s"
  "call_of (s\<lparr>ao_queue := q\<rparr>) = call_of s" "call_of (goto c p s) = call_of s"
  by (auto simp: in_flight_def log_of_def call_of_def)

text \<open>Moving on without touching an object.\<close>

lemma ao_inv_goto:
  assumes inv: "ao_inv s" and c: "ao_calls s c = Some k" and free: "\<forall>a \<in> set (in_flight s). call_of s a \<noteq> c"
    and keep: "\<And>b. holds b (c_pc k) \<Longrightarrow> holds b p" and ok: "call_ok (goto c p s) c (k\<lparr>c_pc := p\<rparr>)"
  shows "ao_inv (goto c p s)"
proof (rule ao_inv_own_step [OF inv c free])
  show "ao_calls (goto c p s) = (ao_calls s)(c \<mapsto> k\<lparr>c_pc := p\<rparr>)" using c by simp
  show "t_call t = c \<and> holds b p" if "ao_heap (goto c p s) b = Some t" "ao_heap (goto c p s) b \<noteq> ao_heap s b \<or> t_call t = c" for b t
    using that held_by_call [OF inv c free] keep by auto
  show "call_ok (goto c p s) c (k\<lparr>c_pc := p\<rparr>)" by (rule ok)
qed (use ao_invD(1) [OF inv] in simp_all)

text \<open>Deleting, changing or creating the object of a call.\<close>

lemma ao_inv_heap:
  assumes inv: "ao_inv s" and c: "ao_calls s c = Some k" and free: "\<forall>a \<in> set (in_flight s). call_of s a \<noteq> c"
    and a: "a \<notin> set (in_flight s)" "\<And>t. ao_heap s a = Some t \<Longrightarrow> t_call t = c"
    and same: "ao_queue s' = ao_queue s" "ao_exec s' = ao_exec s" "\<not> ao_fault s'" "ao_calls s' = ao_calls s" "ao_log s' = ao_log s"
    and heap: "ao_heap s' = (ao_heap s)(a := x)"
    and x: "\<And>t. x = Some t \<Longrightarrow> t_call t = c \<and> holds a p" and only: "\<And>b. holds b (c_pc k) \<Longrightarrow> b = a"
    and ok: "call_ok (goto c p s') c (k\<lparr>c_pc := p\<rparr>)"
  shows "ao_inv (goto c p s')"
proof (rule ao_inv_own_step [OF inv c free])
  show "ao_calls (goto c p s') = (ao_calls s)(c \<mapsto> k\<lparr>c_pc := p\<rparr>)" using c same by simp
  show "t_call t = c \<and> holds b p" if "ao_heap (goto c p s') b = Some t" "ao_heap (goto c p s') b \<noteq> ao_heap s b \<or> t_call t = c" for b t
  proof (cases "b = a")
    case True then show ?thesis using x that(1) by (simp add: heap)
  next
    case False
    then have h: "ao_heap s b = Some t" "t_call t = c" using that by (simp_all add: heap)
    then have "b = a" by (rule only [OF held_by_call [OF inv c free]])
    with False show ?thesis by simp
  qed
  show "call_ok (goto c p s') c (k\<lparr>c_pc := p\<rparr>)" by (rule ok)
  show "b \<notin> set (in_flight s) \<and> (\<forall>t. ao_heap s b = Some t \<longrightarrow> t_call t = c)" if "ao_heap (goto c p s') b \<noteq> ao_heap s b" for b
    using that a by (auto simp: heap split: if_splits)
qed (use same log_of_cong [OF same(5)] in simp_all)

lemma heldD: "held s c k a P \<Longrightarrow> a \<notin> set (in_flight s) \<and> (\<exists>t. ao_heap s a = Some t \<and> made_by t c k \<and> P t)"
  by (simp add: held_def)

lemma made_by_call: "made_by t c k \<Longrightarrow> t_call t = c"
  by (simp add: made_by_def)

lemma ao_inv_delete:
  assumes inv: "ao_inv s" and c: "ao_calls s c = Some k" and pc: "c_pc k \<noteq> Returned None" "\<And>b. holds b (c_pc k) \<Longrightarrow> b = a"
    and a: "held s c k a P" and ok: "call_ok (goto c p (delete_task a s)) c (k\<lparr>c_pc := p\<rparr>)"
  shows "ao_inv (delete_object c p a s)"
proof -
  from a obtain t where t: "a \<notin> set (in_flight s)" "ao_heap s a = Some t" "made_by t c k" by (auto simp: held_def)
  have free: "\<forall>b \<in> set (in_flight s). call_of s b \<noteq> c"
  proof
    fix b assume b: "b \<in> set (in_flight s)"
    have "c_pc k \<noteq> At_wait b"
    proof
      assume "c_pc k = At_wait b"
      then have "b = a" using pc(2) [of b] by simp
      then show False using b t(1) by simp
    qed
    then show "call_of s b \<noteq> c" by (rule not_in_flight [OF inv c b _ pc(1)])
  qed
  have "ao_inv (goto c p (delete_task a s))"
    by (rule ao_inv_heap [OF inv c free t(1) _ _ _ _ _ _ _ _ pc(2), where x = None]) (use t made_by_call [OF t(3)] ok ao_invD(1) [OF inv] in simp_all)
  then show ?thesis using t by (simp add: delete_object_def)
qed


lemma no_flight:
  assumes "ao_inv s" "ao_calls s c = Some k" "\<And>a. c_pc k \<noteq> At_wait a" "c_pc k \<noteq> Returned None"
  shows "\<forall>a \<in> set (in_flight s). call_of s a \<noteq> c"
  using not_in_flight [OF assms(1,2) _ assms(3,4)] by blast

lemma ao_inv_step_goto:
  assumes "ao_inv s" "ao_calls s c = Some k" "c_pc k \<in> {At_started, At_thread}" "p \<in> {At_thread, At_direct, At_new}"
  shows "ao_inv (goto c p s)"
  by (rule ao_inv_goto [OF assms(1,2)])
    (use assms(3,4) no_flight [OF assms(1,2)] ao_invD(5) [OF assms(1,2)] in \<open>auto simp: call_ok_def\<close>)

lemma ao_inv_direct:
  assumes inv: "ao_inv s" and c: "ao_calls s c = Some k" and pc: "c_pc k = At_direct"
    and rw: "invoke_work rw c False (c_work k) s = (r, s')"
  shows "ao_inv (goto c (Returned (call_result (c_sync k) r)) s')"
proof -
  have free: "\<forall>a \<in> set (in_flight s). call_of s a \<noteq> c" using no_flight [OF inv c] pc by simp
  have s': "ao_queue s' = ao_queue s" "ao_exec s' = ao_exec s" "ao_heap s' = ao_heap s" "ao_calls s' = ao_calls s" "\<not> ao_fault s'"
    and l: "ao_log s' = ao_log s @ [(c, False, c_work k, r)]"
    using rw ao_invD(1) [OF inv] by (auto simp: invoke_work_def split: prod.splits)
  have "log_of c s = []" using ao_invD(5) [OF inv c] pc by (simp add: call_ok_def)
  then show ?thesis
    by (intro ao_inv_own_step [OF inv c free])
      (use s' c log_of_append [OF l] held_by_call [OF inv c free] pc in
        \<open>auto simp: call_ok_def returned_ok_def call_result_def\<close>)
qed

lemma made_by_new_task [simp]: "made_by (new_task (c_sync k) sem (c_work k) c) c (k\<lparr>c_pc := p\<rparr>)"
  by (simp add: made_by_def new_task_def)

lemma made_by_pc [simp]: "made_by t c (k\<lparr>c_pc := p\<rparr>) = made_by t c k"
  by (simp add: made_by_def)

lemma ao_inv_new:
  assumes inv: "ao_inv s" and c: "ao_calls s c = Some k" and pc: "c_pc k = At_new" and sem: "e_semaphore env"
  shows "ao_inv (new_object c k env s)"
proof -
  have free: "\<forall>a \<in> set (in_flight s). call_of s a \<noteq> c" using no_flight [OF inv c] pc by simp
  have l: "log_of c s = []" using ao_invD(5) [OF inv c] pc by (simp add: call_ok_def)
  show ?thesis
  proof (cases "e_alloc env")
    case None
    have "ao_inv (goto c (Returned (call_result (c_sync k) 0)) s)"
      by (rule ao_inv_goto [OF inv c free]) (simp_all add: pc call_ok_def returned_ok_def call_result_def l)
    then show ?thesis by (simp add: new_object_def None)
  next
    case (Some a)
    let ?t = "new_task (c_sync k) (e_semaphore env) (c_work k) c"
    have "ao_inv (goto c (At_put a) (put_task a ?t s))" if a: "ao_heap s a = None"
    proof (rule ao_inv_heap [OF inv c free, where a = a and x = "Some ?t"])
      show n: "a \<notin> set (in_flight s)" using ao_invD(4) [OF inv, of a] a by (auto simp: flight_ok_def)
      have "in_flight (put_task a ?t s) = in_flight s" by (simp add: in_flight_def)
      then show "call_ok (goto c (At_put a) (put_task a ?t s)) c (k\<lparr>c_pc := At_put a\<rparr>)"
        using n l log_of_cong [of "put_task a ?t s" s c]
        by (simp add: call_ok_def held_def) (simp add: new_task_def fresh_semaphore_def sem made_by_def)
    qed (use a ao_invD(1) [OF inv] pc in \<open>simp_all add: new_task_def\<close>)
    then show ?thesis using inv by (simp add: new_object_def Some)
  qed
qed

text \<open>Handing the object over to the queue.\<close>

lemma ao_inv_put:
  assumes inv: "ao_inv s" and c: "ao_calls s c = Some k" and pc: "c_pc k = At_put a"
  shows "ao_inv (goto c (if c_sync k then At_wait a else Returned None) (s\<lparr>ao_queue := ao_queue s @ [a]\<rparr>))" (is "ao_inv ?s")
proof -
  have free: "\<forall>b \<in> set (in_flight s). call_of s b \<noteq> c" using no_flight [OF inv c] pc by simp
  from ao_invD(5) [OF inv c] pc obtain t where l: "log_of c s = []" and a: "a \<notin> set (in_flight s)" and t: "ao_heap s a = Some t"
    "made_by t c k" "t_result t = None" "fresh_semaphore t" by (auto simp: call_ok_def held_def)
  have fl: "in_flight ?s = in_flight s @ [a]" and l': "\<And>d. log_of d ?s = log_of d s" and co: "call_of ?s = call_of s"
    by simp_all
  have tc: "t_call t = c" using t(2) by (rule made_by_call)
  then have ca: "call_of s a = c" using t by (simp add: call_of_def)
  have "flight_ok ?s a"
  proof (rule flight_okI [where t = t and k = "k\<lparr>c_pc := if c_sync k then At_wait a else Returned None\<rparr>"])
    have "a \<notin> set (exec_objects (ao_exec s))" using a by (simp add: in_flight_def)
    then show "stage_ok (ao_exec ?s) a t (log_of (t_call t) ?s)" using l l' t tc by (cases "ao_exec s") (simp_all add: stage_ok_def)
  qed (use t c tc in simp_all)
  moreover have "flight_ok ?s b" if "b \<in> set (in_flight s)" for b
    by (rule flight_ok_frame [OF ao_invD(4) [OF inv that]]) (use free that l' in simp_all)
  moreover have "heap_ok ?s" unfolding heap_ok_def fl
  proof (intro allI impI)
    fix b u assume "ao_heap ?s b = Some u"
    then have "b \<in> set (in_flight s) \<or> (\<exists>j. ao_calls s (t_call u) = Some j \<and> holds b (c_pc j))"
      using ao_invD(2) [OF inv] by (simp add: heap_ok_def)
    then show "b \<in> set (in_flight s @ [a]) \<or> (\<exists>j. ao_calls ?s (t_call u) = Some j \<and> holds b (c_pc j))"
      using c pc by (cases "t_call u = c") auto
  qed
  moreover have "call_ok ?s d j" if "ao_calls ?s d = Some j" for d j
  proof (cases "d = c")
    case True then show ?thesis using that c l by (auto simp: call_ok_def returned_ok_def ca)
  next
    case False
    then have j: "ao_calls s d = Some j" using that by simp
    have "held ?s d j b P" if "held s d j b P" for b P
      using that t False unfolding held_def fl by (auto simp: made_by_def)
    then show ?thesis using ao_invD(5) [OF inv j] unfolding call_ok_def fl
      by (cases "c_pc j") (auto simp: l' co served_def returned_ok_def)
  qed
  moreover have "distinct (map (call_of ?s) (in_flight ?s))"
    using ao_invD(3) [OF inv] free ca by (auto simp: fl co)
  ultimately show ?thesis using ao_invD(1,6) [OF inv] l' unfolding ao_inv_def fl by auto
qed


lemma ao_inv_put_message:
  assumes inv: "ao_inv s" and c: "ao_calls s c = Some k" and pc: "c_pc k = At_put a"
  shows "ao_inv (put_message n c k env a s)"
proof (cases "e_put env \<and> length (ao_queue s) < n")
  case True then show ?thesis using ao_inv_put [OF assms] by (simp add: put_message_def)
next
  case False
  have "call_ok s c k" by (rule ao_invD(5) [OF inv c])
  then have "ao_inv (goto c (At_drop a) s)"
    by (intro ao_inv_goto [OF inv c no_flight [OF inv c]]) (auto simp: pc call_ok_def held_def)
  then show ?thesis using False by (auto simp: put_message_def)
qed

lemma ao_inv_wait:
  assumes inv: "ao_inv s" and c: "ao_calls s c = Some k" and pc: "c_pc k = At_wait a"
  shows "ao_inv (wait_complete c a s)"
proof -
  have ok: "c_sync k" "a \<in> set (in_flight s) \<or> (\<exists>r. held s c k a (\<lambda>t. t_complete t = Some 1 \<and> t_result t = Some r) \<and> served s c k r)"
    using ao_invD(5) [OF inv c] pc by (auto simp: call_ok_def)
  show ?thesis
  proof (cases "a \<in> set (in_flight s)")
    case True
    then have "wait_complete c a s = s" if "call_of s a = c"
      using ao_invD(4) [OF inv True] that c ok(1)
      by (auto elim!: flight_okE simp: wait_complete_def fresh_semaphore_def made_by_def)
    moreover have "call_of s a = c" using ao_invD(5) [OF inv c] pc True by (auto simp: call_ok_def held_def)
    ultimately show ?thesis using inv by simp
  next
    case False
    then obtain r t where t: "ao_heap s a = Some t" "made_by t c k" "t_complete t = Some 1" "t_result t = Some r" and r: "served s c k r"
      using ok by (auto simp: held_def)
    let ?s = "put_task a (t\<lparr>t_complete := Some 0\<rparr>) s"
    have free: "\<forall>b \<in> set (in_flight s). call_of s b \<noteq> c"
      using not_in_flight [OF inv c] pc False by fastforce
    have fl: "in_flight ?s = in_flight s" by (simp add: in_flight_def)
    have "ao_inv (goto c (At_read a) ?s)"
      by (rule ao_inv_heap [OF inv c free, where a = a and x = "Some (t\<lparr>t_complete := Some 0\<rparr>)"])
        (use t r False ok(1) pc ao_invD(1) [OF inv] log_of_cong [of ?s s c] fl
          in \<open>simp_all add: made_by_def call_ok_def held_def served_def\<close>)
    then show ?thesis using t by (simp add: wait_complete_def)
  qed
qed

lemma ao_inv_read:
  assumes inv: "ao_inv s" and c: "ao_calls s c = Some k" and pc: "c_pc k = At_read a"
  shows "ao_inv (read_result c a s)"
proof -
  from ao_invD(5) [OF inv c] pc obtain r t where t: "c_sync k" "a \<notin> set (in_flight s)" "ao_heap s a = Some t" "made_by t c k"
    "t_result t = Some r" "served s c k r" by (auto simp: call_ok_def held_def)
  have "ao_inv (goto c (At_delete a r) s)"
    by (rule ao_inv_goto [OF inv c no_flight [OF inv c]]) (use pc t in \<open>simp_all add: call_ok_def served_def\<close>, simp add: held_def)
  then show ?thesis using t by (simp add: read_result_def)
qed

lemma in_flight_delete [simp]: "in_flight (delete_task a s) = in_flight s"
  by (simp add: in_flight_def)

lemma log_of_delete [simp]: "log_of d (delete_task a s) = log_of d s"
  by (simp add: log_of_def)

lemma ao_inv_drop:
  assumes inv: "ao_inv s" and c: "ao_calls s c = Some k" and pc: "c_pc k = At_drop a"
  shows "ao_inv (delete_object c (Returned (call_result (c_sync k) 0)) a s)"
proof -
  have "log_of c s = []" "held s c k a (\<lambda>t. True)" using ao_invD(5) [OF inv c] pc by (simp_all add: call_ok_def)
  then show ?thesis
    by (intro ao_inv_delete [OF inv c]) (auto simp: pc call_ok_def returned_ok_def call_result_def)
qed

lemma ao_inv_delete_result:
  assumes inv: "ao_inv s" and c: "ao_calls s c = Some k" and pc: "c_pc k = At_delete a r"
  shows "ao_inv (delete_object c (Returned (Some r)) a s)"
proof -
  have "served s c k r" "held s c k a (\<lambda>t. True)" "c_sync k" using ao_invD(5) [OF inv c] pc by (simp_all add: call_ok_def)
  then show ?thesis
    by (intro ao_inv_delete [OF inv c]) (auto simp: pc call_ok_def returned_ok_def served_def)
qed

lemma ao_inv_call_step:
  assumes inv: "ao_inv s" and sem: "e_semaphore env"
  shows "ao_inv (call_step n rw c env s)"
proof (cases "ao_calls s c")
  case None then show ?thesis using inv by (simp add: call_step_def)
next
  case (Some k)
  note step = ao_inv_step_goto [OF inv Some] ao_inv_direct [OF inv Some] ao_inv_new [OF inv Some _ sem] ao_inv_put_message [OF inv Some]
    ao_inv_wait [OF inv Some] ao_inv_read [OF inv Some] ao_inv_drop [OF inv Some] ao_inv_delete_result [OF inv Some]
  show ?thesis unfolding call_step_def Some
    by (cases "c_pc k") (auto intro: step inv split: prod.split)
qed


text \<open>A step of the thread of the active object with the message \<open>a\<close> that it is busy with.\<close>

lemma ao_inv_exec:
  fixes s :: "('e, 'w, 'r :: zero) ao_state"
  assumes inv: "ao_inv s" and a: "in_flight s = a # ao_queue s" and c: "call_of s a = c" "ao_calls s c = Some k"
    and same: "ao_queue s' = ao_queue s" "ao_calls s' = ao_calls s" "\<not> ao_fault s'"
    and heap: "\<And>b. b \<noteq> a \<Longrightarrow> ao_heap s' b = ao_heap s b" and log: "\<And>d. d \<noteq> c \<Longrightarrow> log_of d s' = log_of d s"
    and fl: "in_flight s' = a # ao_queue s \<and> flight_ok s' a \<or> in_flight s' = ao_queue s \<and> (\<forall>t. ao_heap s' a = Some t \<longrightarrow> t_call t = c \<and> holds a (c_pc k))"
    and stage: "\<And>b (t :: ('w, 'r) ao_task) l. b \<noteq> a \<Longrightarrow> stage_ok (ao_exec s) b t l \<Longrightarrow> stage_ok (ao_exec s') b t l"
    and hc: "\<And>t. ao_heap s' a = Some t \<Longrightarrow> t_call t = c" and ok: "call_ok s' c k"
  shows "ao_inv s'"
proof -
  have d: "distinct (map (call_of s) (in_flight s))" by (rule ao_invD(3) [OF inv])
  have q: "b \<noteq> a" "call_of s b \<noteq> c" if "b \<in> set (ao_queue s)" for b
  proof -
    have "call_of s b \<in> call_of s ` set (ao_queue s)" "c \<notin> call_of s ` set (ao_queue s)"
      using that d c(1) by (simp_all add: a)
    then show "call_of s b \<noteq> c" by metis
    then show "b \<noteq> a" using c(1) by auto
  qed
  have co: "call_of s' b = call_of s b" if "b \<in> set (ao_queue s)" for b using heap q [OF that] by (simp add: call_of_def)
  have sub: "set (in_flight s') \<subseteq> insert a (set (ao_queue s))" "set (ao_queue s) \<subseteq> set (in_flight s')" using fl by auto
  have fok: "flight_ok s' b" if "b \<in> set (ao_queue s)" for b
    by (rule flight_ok_frame [OF ao_invD(4) [OF inv]]) (use that q [OF that] heap same log stage in \<open>simp_all add: a\<close>)
  have "flight_ok s' b" if "b \<in> set (in_flight s')" for b
    using fok fl that q by (cases "b = a") auto
  moreover have "heap_ok s'" unfolding heap_ok_def
  proof (intro allI impI)
    fix b t assume t: "ao_heap s' b = Some t"
    show "b \<in> set (in_flight s') \<or> (\<exists>j. ao_calls s' (t_call t) = Some j \<and> holds b (c_pc j))"
    proof (cases "b = a")
      case True then show ?thesis using fl t c same by auto
    next
      case False
      then have "b \<in> set (in_flight s) \<or> (\<exists>j. ao_calls s (t_call t) = Some j \<and> holds b (c_pc j))"
        using ao_invD(2) [OF inv] t heap [OF False] by (simp add: heap_ok_def)
      then show ?thesis using False sub by (auto simp: a same)
    qed
  qed
  moreover have "call_ok s' d j" if "ao_calls s' d = Some j" for d j
  proof (cases "d = c")
    case True then show ?thesis using ok that c same by simp
  next
    case False
    then have j: "ao_calls s d = Some j" using that by (simp add: same)
    have h: "held s' d j b P" if "held s d j b P" for b P
      using that heap [of b] sub(1) unfolding held_def by (auto simp: a)
    have w: "b \<in> set (in_flight s') \<and> call_of s' b = d" if "b \<in> set (in_flight s)" "call_of s b = d" for b
      using that False c co sub(2) by (auto simp: a)
    show ?thesis using ao_invD(5) [OF inv j] h w
      unfolding call_ok_def by (cases "c_pc j") (auto simp: log [OF False] served_def returned_ok_def)
  qed
  moreover have "distinct (map (call_of s') (in_flight s'))"
  proof -
    have m: "map (call_of s') (ao_queue s) = map (call_of s) (ao_queue s)" using co by simp
    have q': "distinct (map (call_of s') (ao_queue s))" unfolding m using d by (simp add: a)
    have i: "call_of s' ` set (ao_queue s) = call_of s ` set (ao_queue s)" using co by (simp add: image_def)
    have "c \<notin> call_of s' ` set (ao_queue s)" unfolding i using d by (simp add: a c(1))
    moreover have "in_flight s' = a # ao_queue s \<Longrightarrow> call_of s' a = c"
      using fl hc by (auto elim!: flight_okE)
    ultimately show ?thesis using q' fl by auto
  qed
  ultimately show ?thesis using same log ao_invD(6) [OF inv] c unfolding ao_inv_def
    by (metis option.distinct(1))
qed

lemma ao_inv_take:
  assumes inv: "ao_inv s" and e: "ao_exec s = Taking" "ao_queue s = a # q"
  shows "ao_inv (s\<lparr>ao_queue := q, ao_exec := Invoking a\<rparr>)" (is "ao_inv ?s")
proof -
  have fl: "in_flight ?s = in_flight s" by (simp add: in_flight_def e)
  have l: "log_of d ?s = log_of d s" for d by (simp add: log_of_def)
  have f: "flight_ok ?s b" if "b \<in> set (in_flight s)" for b
    by (rule flight_ok_frame [OF ao_invD(4) [OF inv that]]) (simp_all add: l e stage_ok_def)
  have h: "held ?s = held s" by (intro ext) (simp add: held_def fl)
  have co: "call_of ?s = call_of s" by (rule ext) (simp add: call_of_def)
  have "call_ok ?s d j = call_ok s d j" for d j
    unfolding call_ok_def by (cases "c_pc j") (simp_all add: l h co fl served_def returned_ok_def)
  then show ?thesis using inv f l unfolding ao_inv_def heap_ok_def by (simp add: fl co)
qed

lemma busy_object:
  assumes inv: "ao_inv s" and e: "exec_objects (ao_exec s) = [a]"
  obtains t k where "in_flight s = a # ao_queue s" "ao_heap s a = Some t" "call_of s a = t_call t" "ao_calls s (t_call t) = Some k"
    "made_by t (t_call t) k" "c_pc k = (if c_sync k then At_wait a else Returned None)" "fresh_semaphore t"
    "stage_ok (ao_exec s) a t (log_of (t_call t) s)" "a \<notin> set (ao_queue s)"
proof -
  have fl: "in_flight s = a # ao_queue s" using e by (simp add: in_flight_def)
  have "a \<notin> set (ao_queue s)" using ao_invD(3) [OF inv] by (auto simp: fl)
  moreover have "flight_ok s a" using ao_invD(4) [OF inv] by (simp add: fl)
  ultimately show ?thesis using that fl by (auto elim!: flight_okE)
qed

lemma ao_inv_task_invoke:
  assumes inv: "ao_inv s" and e: "ao_exec s = Invoking a"
  shows "ao_inv (task_invoke rw a s)"
proof -
  from e have "exec_objects (ao_exec s) = [a]" by simp
  from inv this obtain t k where t: "in_flight s = a # ao_queue s" "ao_heap s a = Some t" "call_of s a = t_call t" "ao_calls s (t_call t) = Some k"
    "made_by t (t_call t) k" "c_pc k = (if c_sync k then At_wait a else Returned None)" "fresh_semaphore t"
    "stage_ok (ao_exec s) a t (log_of (t_call t) s)" "a \<notin> set (ao_queue s)" by (rule busy_object)
  obtain r s1 where rw: "invoke_work rw (t_call t) True (t_work t) s = (r, s1)" by fastforce
  let ?s = "s1\<lparr>ao_exec := Storing a r\<rparr>"
  have s1: "ao_queue ?s = ao_queue s" "ao_heap ?s = ao_heap s" "ao_calls ?s = ao_calls s" "\<not> ao_fault ?s"
    and l: "ao_log ?s = ao_log s @ [(t_call t, True, t_work t, r)]"
    using rw ao_invD(1) [OF inv] by (auto simp: invoke_work_def split: prod.splits)
  have l0: "log_of (t_call t) s = []" and r0: "t_result t = None" using t(8) e by (simp_all add: stage_ok_def)
  note ll = log_of_append [OF l]
  have fl: "in_flight ?s = a # ao_queue s" using s1 by (simp add: in_flight_def)
  have "flight_ok ?s a"
    by (rule flight_okI [where t = t and k = k]) (use t s1 ll l0 r0 in \<open>simp_all add: stage_ok_def\<close>)
  moreover have "call_ok ?s (t_call t) k"
    using t ll l0 fl s1(2) by (auto simp: call_ok_def returned_ok_def call_of_def made_by_def)
  ultimately have "ao_inv ?s"
    by (intro ao_inv_exec [OF inv t(1,3,4)])
      (use t s1 ll fl e in \<open>auto simp: stage_ok_def split: if_splits\<close>)
  then show ?thesis by (simp add: task_invoke_def t(2) rw)
qed


lemma ao_inv_task_store:
  assumes inv: "ao_inv s" and e: "ao_exec s = Storing a r"
  shows "ao_inv (task_store a r s)"
proof -
  from e have "exec_objects (ao_exec s) = [a]" by simp
  from inv this obtain t k where t: "in_flight s = a # ao_queue s" "ao_heap s a = Some t" "call_of s a = t_call t" "ao_calls s (t_call t) = Some k"
    "made_by t (t_call t) k" "c_pc k = (if c_sync k then At_wait a else Returned None)" "fresh_semaphore t"
    "stage_ok (ao_exec s) a t (log_of (t_call t) s)" "a \<notin> set (ao_queue s)" by (rule busy_object)
  let ?t = "if t_kind t = SystemPromise then t\<lparr>t_result := Some r\<rparr> else t"
  let ?s = "(if t_kind t = SystemPromise then put_task a (t\<lparr>t_result := Some r\<rparr>) s else s)\<lparr>ao_exec := Completing a\<rparr>"
  have s1: "ao_queue ?s = ao_queue s" "ao_heap ?s = (ao_heap s)(a \<mapsto> ?t)" "ao_calls ?s = ao_calls s" "\<not> ao_fault ?s" "ao_log ?s = ao_log s"
    using ao_invD(1) [OF inv] t(2) by (auto simp: fun_upd_idem)
  have l: "log_of (t_call t) s = [(True, t_work t, r)]" using t(8) e by (simp add: stage_ok_def)
  note ll = log_of_cong [OF s1(5)]
  have fl: "in_flight ?s = a # ao_queue s" by (simp add: in_flight_def)
  have tt: "t_call ?t = t_call t" "t_work ?t = t_work t" "made_by ?t c k = made_by t c k" "fresh_semaphore ?t = fresh_semaphore t" for c
    by (simp_all add: made_by_def fresh_semaphore_def)
  have "stage_ok (Completing a) a ?t (log_of (t_call t) ?s)"
    unfolding ll l by (simp add: stage_ok_def)
  then have "flight_ok ?s a"
    by (intro flight_okI [where t = ?t and k = k]) (use t tt in \<open>simp_all add: fun_upd_idem split: if_splits\<close>)
  moreover have "call_ok ?s (t_call t) k"
    using t ll l fl s1(2) tt by (auto simp: call_ok_def returned_ok_def call_of_def made_by_def split: if_splits)
  ultimately have "ao_inv ?s"
    by (intro ao_inv_exec [OF inv t(1,3,4)]) (use t s1 ll fl e tt in \<open>auto simp: stage_ok_def split: if_splits\<close>)
  then show ?thesis by (simp add: task_store_def t(2))
qed

lemma ao_inv_task_complete:
  assumes inv: "ao_inv s" and e: "ao_exec s = Completing a"
  shows "ao_inv (task_complete a s)"
proof -
  from e have "exec_objects (ao_exec s) = [a]" by simp
  from inv this obtain t k where t: "in_flight s = a # ao_queue s" "ao_heap s a = Some t" "call_of s a = t_call t" "ao_calls s (t_call t) = Some k"
    "made_by t (t_call t) k" "c_pc k = (if c_sync k then At_wait a else Returned None)" "fresh_semaphore t"
    "stage_ok (ao_exec s) a t (log_of (t_call t) s)" "a \<notin> set (ao_queue s)" by (rule busy_object)
  from t(8) e obtain r where l: "log_of (t_call t) s = [(True, t_work t, r)]" "t_kind t = SystemPromise \<longrightarrow> t_result t = Some r"
    by (auto simp: stage_ok_def)
  show ?thesis
  proof (cases "t_kind t")
    case AsyncTask
    let ?s = "(delete_task a s)\<lparr>ao_exec := Taking\<rparr>"
    have s1: "ao_queue ?s = ao_queue s" "ao_heap ?s = (ao_heap s)(a := None)" "ao_calls ?s = ao_calls s" "\<not> ao_fault ?s" "ao_log ?s = ao_log s"
      using ao_invD(1) [OF inv] by simp_all
    note ll = log_of_cong [OF s1(5)]
    have fl: "in_flight ?s = ao_queue s" by (simp add: in_flight_def)
    have "\<not> c_sync k" using AsyncTask t(5) by (simp add: made_by_def)
    then have "call_ok ?s (t_call t) k"
      using t(6) ao_invD(5) [OF inv t(4)] by (simp add: call_ok_def returned_ok_def ll)
    then have "ao_inv ?s"
      by (intro ao_inv_exec [OF inv t(1,3,4)]) (use s1 ll fl e in \<open>auto simp: stage_ok_def split: if_splits\<close>)
    then show ?thesis by (simp add: task_complete_def t(2) AsyncTask)
  next
    case SystemPromise
    let ?t = "t\<lparr>t_complete := Some 1\<rparr>"
    let ?s = "(put_task a ?t s)\<lparr>ao_exec := Taking\<rparr>"
    have s1: "ao_queue ?s = ao_queue s" "ao_heap ?s = (ao_heap s)(a \<mapsto> ?t)" "ao_calls ?s = ao_calls s" "\<not> ao_fault ?s" "ao_log ?s = ao_log s"
      using ao_invD(1) [OF inv] by simp_all
    note ll = log_of_cong [OF s1(5)]
    have fl: "in_flight ?s = ao_queue s" by (simp add: in_flight_def)
    have sync: "c_sync k" "t_work t = c_work k" using SystemPromise t(5) by (simp_all add: made_by_def)
    have "held ?s (t_call t) k a (\<lambda>t. t_complete t = Some 1 \<and> t_result t = Some r)"
      using t(5,9) l(2) SystemPromise fl by (simp add: held_def made_by_def)
    moreover have "served ?s (t_call t) k r" unfolding served_def ll l(1) sync(2) ..
    ultimately have "call_ok ?s (t_call t) k" using t(6) sync(1) by (auto simp: call_ok_def)
    then have "ao_inv ?s"
      by (intro ao_inv_exec [OF inv t(1,3,4)]) (use s1 ll fl e t(6) sync in \<open>auto simp: stage_ok_def split: if_splits\<close>)
    then show ?thesis using t(7) by (simp add: task_complete_def t(2) SystemPromise fresh_semaphore_def)
  qed
qed

lemma ao_inv_exec_step:
  assumes inv: "ao_inv s"
  shows "ao_inv (exec_step rw s)"
  using inv ao_inv_take [OF inv] ao_inv_task_invoke [OF inv] ao_inv_task_store [OF inv] ao_inv_task_complete [OF inv]
  unfolding exec_step_def by (auto split: ao_exec.split list.split)

lemma ao_inv_step:
  assumes inv: "ao_inv s" and sem: "semaphore_created e"
  shows "ao_inv (ao_step n rw e s)"
proof (cases e)
  case (Start th)
  let ?s = "s\<lparr>ao_thread_id := th, ao_started := True\<rparr>"
  have f: "in_flight ?s = in_flight s" "log_of d ?s = log_of d s" for d by (simp_all add: in_flight_def log_of_def)
  have h: "held ?s = held s" by (intro ext) (simp add: held_def f)
  have co: "call_of ?s = call_of s" by (rule ext) (simp add: call_of_def)
  have "call_ok ?s d j = call_ok s d j" for d j
    unfolding call_ok_def by (cases "c_pc j") (simp_all add: h co f served_def returned_ok_def)
  moreover have "flight_ok ?s b = flight_ok s b" for b by (simp add: flight_ok_def f)
  ultimately show ?thesis using inv unfolding ao_inv_def heap_ok_def by (simp add: Start f co)
next
  case (Call c th w sync)
  show ?thesis
  proof (cases "ao_calls s c")
    case None
    let ?k = "new_call th w sync"
    let ?s = "s\<lparr>ao_calls := (ao_calls s)(c \<mapsto> ?k)\<rparr>"
    have f: "in_flight ?s = in_flight s" "log_of d ?s = log_of d s" for d by (simp_all add: in_flight_def log_of_def)
    have h: "held ?s = held s" by (intro ext) (simp add: held_def f)
    have co: "call_of ?s = call_of s" by (rule ext) (simp add: call_of_def)
    have ck: "call_ok ?s d j = call_ok s d j" for d j
      unfolding call_ok_def by (cases "c_pc j") (simp_all add: h co f served_def returned_ok_def)
    have "call_ok s c ?k" using ao_invD(6) [OF inv None] by (simp add: call_ok_def new_call_def)
    moreover have "flight_ok ?s b" if "flight_ok s b" for b
      using that None by (rule_tac flight_ok_frame) (auto elim!: flight_okE simp: f)
    moreover have "heap_ok ?s" using ao_invD(2) [OF inv] None unfolding heap_ok_def f by fastforce
    ultimately show ?thesis using inv None unfolding ao_inv_def by (simp add: Call f co ck)
  qed (use inv Call in simp)
qed (use ao_inv_call_step [OF inv] sem ao_inv_exec_step [OF inv] in auto)

lemma ao_inv_run: "ao_inv s \<Longrightarrow> list_all semaphore_created es \<Longrightarrow> ao_inv (ao_run n rw es s)"
  by (induction es arbitrary: s) (simp_all add: ao_run_def ao_inv_step)


section \<open>How long a call waits\<close>

text \<open>\<open>pending s a\<close> counts the steps the thread of the active object needs until it has completed \<open>a\<close>.\<close>

fun exec_left :: "'r ao_exec \<Rightarrow> nat" where
  "exec_left Taking = 0"
| "exec_left (Invoking a) = 3"
| "exec_left (Storing a r) = 2"
| "exec_left (Completing a) = 1"

fun steps_to :: "nat \<Rightarrow> nat list \<Rightarrow> nat" where
  "steps_to a [] = 0"
| "steps_to a (b # q) = (if a = b then 4 else 4 + steps_to a q)"

definition pending :: "('e, 'w, 'r) ao_state \<Rightarrow> nat \<Rightarrow> nat" where
  "pending s a = exec_left (ao_exec s) + (if a \<in> set (exec_objects (ao_exec s)) then 0 else steps_to a (ao_queue s))"

fun early :: "'r ao_pc \<Rightarrow> bool" where
  "early At_started = True"
| "early At_direct = True"
| "early (Returned x) = True"
| "early _ = False"

definition started_ok :: "nat \<Rightarrow> ('e, 'w, 'r) ao_state \<Rightarrow> bool" where
  "started_ok n s \<longleftrightarrow> length (ao_queue s) \<le> n \<and>
     (ao_started s \<or> (\<forall>c k. ao_calls s c = Some k \<longrightarrow> early (c_pc k)))"

definition answered :: "('e, 'w, 'r) ao_state \<Rightarrow> nat \<Rightarrow> bool" where
  "answered s c \<longleftrightarrow> (\<exists>k. ao_calls s c = Some k \<and> (case c_pc k of At_wait a \<Rightarrow> a \<notin> set (in_flight s)
     | At_read a \<Rightarrow> True | At_delete a r \<Rightarrow> True | Returned (Some r) \<Rightarrow> log_of c s \<noteq> [] | _ \<Rightarrow> False))"

definition waits_for :: "('e, 'w, 'r) ao_state \<Rightarrow> nat \<Rightarrow> nat \<Rightarrow> bool" where
  "waits_for s c a \<longleftrightarrow> (\<exists>k. ao_calls s c = Some k \<and> c_pc k = At_wait a) \<and> a \<in> set (in_flight s)"

lemma started_ok_init: "started_ok n (ao_init e)"
  by (simp add: started_ok_def ao_init_def)

lemma started_ok_call_step:
  assumes ok: "started_ok n s"
  shows "started_ok n (call_step n rw c env s)"
proof (cases "ao_calls s c")
  case None then show ?thesis using ok by (simp add: call_step_def)
next
  case (Some k)
  have "ao_started s \<or> early (c_pc k)" using ok Some by (auto simp: started_ok_def)
  then show ?thesis using ok unfolding started_ok_def call_step_def Some
    by (cases "c_pc k")
      (auto simp: new_object_def put_message_def delete_object_def wait_complete_def read_result_def ao_fail_def invoke_work_def
        split: option.splits prod.splits)
qed

lemma started_ok_exec_step: "started_ok n s \<Longrightarrow> started_ok n (exec_step rw s)"
  unfolding started_ok_def exec_step_def
  by (auto simp: task_invoke_def task_store_def task_complete_def ao_fail_def invoke_work_def
      split: option.splits ao_exec.splits prod.splits list.splits ao_task_kind.splits)

lemma started_ok_step: "started_ok n s \<Longrightarrow> started_ok n (ao_step n rw e s)"
proof (cases e)
  case (Call c th w sync)
  then show "started_ok n s \<Longrightarrow> ?thesis" by (auto simp: started_ok_def new_call_def)
qed (simp_all add: started_ok_call_step started_ok_exec_step, simp add: started_ok_def)

lemma started_ok_run: "started_ok n s \<Longrightarrow> started_ok n (ao_run n rw es s)"
  by (induction es arbitrary: s) (simp_all add: ao_run_def started_ok_step)


lemma call_step_frame:
  shows "ao_exec (call_step n rw c env s) = ao_exec s"
    and "d \<noteq> c \<Longrightarrow> ao_calls (call_step n rw c env s) d = ao_calls s d"
    and "ao_queue (call_step n rw c env s) = ao_queue s \<or>
      (\<exists>k b. ao_calls s c = Some k \<and> c_pc k = At_put b \<and> ao_queue (call_step n rw c env s) = ao_queue s @ [b])"
  unfolding call_step_def
  by (auto simp: new_object_def put_message_def delete_object_def wait_complete_def read_result_def ao_fail_def invoke_work_def
      split: option.splits prod.splits ao_pc.splits)

lemma steps_to_append [simp]: "a \<in> set q \<Longrightarrow> steps_to a (q @ r) = steps_to a q"
  by (induction q) auto

lemma steps_to_le: "steps_to a q \<le> 4 * length q"
  by (induction q) auto

lemma pending_le: "pending s a \<le> 4 * length (ao_queue s) + 3"
  using steps_to_le [of a "ao_queue s"] unfolding pending_def by (cases "ao_exec s") auto

lemma waits_sync:
  assumes inv: "ao_inv s" and c: "ao_calls s c = Some k" "c_pc k = At_wait a" "a \<in> set (in_flight s)"
  shows "wait_complete c a s = s"
proof -
  have "c_sync k" "call_of s a = c" using ao_invD(5) [OF inv c(1)] c by (auto simp: call_ok_def held_def)
  then show ?thesis using ao_invD(4) [OF inv c(3)] c
    by (auto elim!: flight_okE simp: wait_complete_def fresh_semaphore_def made_by_def)
qed

lemma pending_act:
  assumes inv: "ao_inv s" and w: "waits_for s c a" and e: "e \<noteq> Exec"
  shows "waits_for (ao_step n rw e s) c a" "pending (ao_step n rw e s) a = pending s a"
proof -
  from w obtain k where k: "ao_calls s c = Some k" "c_pc k = At_wait a" "a \<in> set (in_flight s)" by (auto simp: waits_for_def)
  have "waits_for (ao_step n rw e s) c a \<and> pending (ao_step n rw e s) a = pending s a"
  proof (cases e)
    case (Act d env)
    show ?thesis
    proof (cases "d = c")
      case True
      then show ?thesis using w k waits_sync [OF inv k] by (simp add: Act call_step_def)
    next
      case False
      then have "ao_calls (call_step n rw d env s) c = ao_calls s c" by (simp add: call_step_frame(2))
      moreover have "a \<in> set (exec_objects (ao_exec s)) \<or> a \<in> set (ao_queue s)" using k(3) by (auto simp: in_flight_def)
      ultimately show ?thesis using call_step_frame(1,3) [of n rw d env s] w
        by (auto simp: Act waits_for_def pending_def in_flight_def)
    qed
  qed (use w e k in \<open>auto simp: waits_for_def pending_def in_flight_def\<close>)
  then show "waits_for (ao_step n rw e s) c a" "pending (ao_step n rw e s) a = pending s a" by simp_all
qed

lemma exec_busy:
  assumes inv: "ao_inv s" and e: "exec_objects (ao_exec s) = [b]"
  shows "ao_heap s b \<noteq> None" "b \<notin> set (ao_queue s)" "t_kind (the (ao_heap s b)) = SystemPromise \<longrightarrow> t_complete (the (ao_heap s b)) \<noteq> None"
proof -
  from inv e obtain t k where "ao_heap s b = Some t" "fresh_semaphore t" "b \<notin> set (ao_queue s)" by (rule busy_object)
  then show "ao_heap s b \<noteq> None" "b \<notin> set (ao_queue s)" "t_kind (the (ao_heap s b)) = SystemPromise \<longrightarrow> t_complete (the (ao_heap s b)) \<noteq> None"
    by (auto simp: fresh_semaphore_def)
qed

lemma pending_exec:
  assumes inv: "ao_inv s" and w: "waits_for s c a" and st: "ao_started s"
  shows "0 < pending s a" "waits_for (exec_step rw s) c a \<and> pending (exec_step rw s) a = pending s a - 1 \<or> answered (exec_step rw s) c"
proof -
  from w obtain k where k: "ao_calls s c = Some k" "c_pc k = At_wait a" "a \<in> set (in_flight s)" by (auto simp: waits_for_def)
  have sp: "a \<in> set q \<Longrightarrow> 0 < steps_to a q" for q by (cases q) auto
  have "0 < pending s a \<and> (waits_for (exec_step rw s) c a \<and> pending (exec_step rw s) a = pending s a - 1 \<or> answered (exec_step rw s) c)"
  proof (cases "ao_exec s")
    case Taking
    with k(3) obtain b q where q: "ao_queue s = b # q" by (cases "ao_queue s") (auto simp: in_flight_def)
    show ?thesis using k by (auto simp: exec_step_def st Taking q waits_for_def pending_def in_flight_def)
  next
    case (Invoking b)
    from exec_busy [OF inv, of b] Invoking obtain t where "ao_heap s b = Some t" by auto
    then show ?thesis using k Invoking
      by (auto simp: exec_step_def st task_invoke_def invoke_work_def waits_for_def pending_def in_flight_def split: prod.split)
  next
    case (Storing b r)
    from exec_busy [OF inv, of b] Storing obtain t where "ao_heap s b = Some t" by auto
    then show ?thesis using k Storing
      by (auto simp: exec_step_def st task_store_def waits_for_def pending_def in_flight_def)
  next
    case (Completing b)
    from exec_busy [OF inv, of b] Completing obtain t where t: "ao_heap s b = Some t" "b \<notin> set (ao_queue s)" "t_kind t = SystemPromise \<longrightarrow> t_complete t \<noteq> None" by auto
    have s': "ao_exec (exec_step rw s) = Taking" "ao_queue (exec_step rw s) = ao_queue s" "ao_calls (exec_step rw s) = ao_calls s"
      using Completing t by (auto simp: exec_step_def st task_complete_def split: ao_task_kind.split option.split)
    show ?thesis using k t(2) sp [of "ao_queue s"]
      by (auto simp: s' Completing waits_for_def pending_def in_flight_def answered_def)
  qed
  then show "0 < pending s a" "waits_for (exec_step rw s) c a \<and> pending (exec_step rw s) a = pending s a - 1 \<or> answered (exec_step rw s) c" by simp_all
qed

lemma in_flight_exec: "ao_inv s \<Longrightarrow> set (in_flight (exec_step rw s)) \<subseteq> set (in_flight s)"
  unfolding exec_step_def
  by (auto simp: in_flight_def task_invoke_def task_store_def task_complete_def ao_fail_def invoke_work_def
      split: ao_exec.splits list.splits option.splits prod.splits ao_task_kind.splits if_splits)

lemma exec_calls [simp]: "ao_calls (exec_step rw s) = ao_calls s"
  unfolding exec_step_def
  by (auto simp: task_invoke_def task_store_def task_complete_def ao_fail_def invoke_work_def
      split: ao_exec.splits list.splits option.splits prod.splits ao_task_kind.splits)

text \<open>From the answer to the return: the rest of the caller's own way.\<close>

fun steps_left :: "'r ao_pc \<Rightarrow> nat" where
  "steps_left (At_wait a) = 3"
| "steps_left (At_read a) = 2"
| "steps_left (At_delete a r) = 1"
| "steps_left _ = 0"

definition rest_of :: "('e, 'w, 'r) ao_state \<Rightarrow> nat \<Rightarrow> nat" where
  "rest_of s c = steps_left (c_pc (the (ao_calls s c)))"

lemma held_heap: "held s c k a P \<Longrightarrow> \<exists>t. ao_heap s a = Some t \<and> P t"
  by (auto simp: held_def)

lemma answered_step:
  assumes inv: "ao_inv s" and a: "answered s c"
  shows "answered (call_step n rw c env s) c \<and> rest_of (call_step n rw c env s) c \<le> rest_of s c - 1"
proof -
  from a obtain k where k: "ao_calls s c = Some k" by (auto simp: answered_def)
  note ok = ao_invD(5) [OF inv k]
  show ?thesis
  proof (cases "c_pc k")
    case (At_wait a)
    then have "a \<notin> set (in_flight s)" using assms k by (simp add: answered_def)
    then obtain t where "ao_heap s a = Some t" "t_complete t = Some 1" using ok At_wait by (auto simp: call_ok_def held_def)
    then show ?thesis using k At_wait by (simp add: call_step_def wait_complete_def answered_def rest_of_def)
  next
    case (At_read a)
    then obtain t r where "ao_heap s a = Some t" "t_result t = Some r" using ok by (auto simp: call_ok_def held_def)
    then show ?thesis using k At_read by (simp add: call_step_def read_result_def answered_def rest_of_def)
  next
    case (At_delete a r)
    then obtain t where "ao_heap s a = Some t" "log_of c s \<noteq> []" using ok by (auto simp: call_ok_def held_def served_def)
    then show ?thesis using k At_delete by (simp add: call_step_def delete_object_def answered_def rest_of_def)
  next
    case (Returned x) then show ?thesis using k a by (simp add: call_step_def answered_def rest_of_def)
  qed (use a k in \<open>simp_all add: answered_def\<close>)
qed

lemma answered_cong:
  assumes "answered s c" "ao_calls s' c = ao_calls s c" "set (in_flight s') \<subseteq> set (in_flight s)"
    and "log_of c s \<noteq> [] \<Longrightarrow> log_of c s' \<noteq> []"
  shows "answered s' c"
proof -
  from assms obtain k where "ao_calls s' c = Some k" "ao_calls s c = Some k" by (auto simp: answered_def)
  with assms(1,3,4) show ?thesis by (cases "c_pc k") (auto simp: answered_def split: option.splits)
qed

lemma log_grows: "\<exists>l. ao_log (ao_step n rw e s) = ao_log s @ l"
proof (cases e)
  case (Act c env)
  show ?thesis unfolding Act ao_step.simps call_step_def
    by (auto simp: new_object_def put_message_def delete_object_def wait_complete_def read_result_def ao_fail_def invoke_work_def
        split: option.splits prod.splits ao_pc.splits)
next
  case Exec
  show ?thesis unfolding Exec ao_step.simps exec_step_def
    by (auto simp: task_invoke_def task_store_def task_complete_def ao_fail_def invoke_work_def
        split: option.splits prod.splits ao_exec.splits list.splits ao_task_kind.splits)
qed auto

lemma log_mono: "log_of c s \<noteq> [] \<Longrightarrow> log_of c (ao_step n rw e s) \<noteq> []"
  using log_grows [of n rw e s] by (auto simp: log_of_def)

lemma answered_mono:
  assumes inv: "ao_inv s" and a: "answered s c"
  shows "answered (ao_step n rw e s) c"
proof (cases e)
  case (Act d env)
  show ?thesis
  proof (cases "d = c")
    case True then show ?thesis using answered_step [OF inv a] by (simp add: Act)
  next
    case False
    from a obtain k where k: "ao_calls s c = Some k" by (auto simp: answered_def)
    have c: "ao_calls (call_step n rw d env s) c = ao_calls s c" using False by (simp add: call_step_frame(2))
    have "b \<notin> set (in_flight (call_step n rw d env s))" if b: "c_pc k = At_wait b" "b \<notin> set (in_flight s)" for b
    proof -
      have h: "\<exists>t. ao_heap s b = Some t \<and> t_call t = c" using ao_invD(5) [OF inv k] b by (auto simp: call_ok_def held_def made_by_def)
      have "b \<noteq> b'" if "ao_calls s d = Some j" "c_pc j = At_put b'" for j b'
        using ao_invD(5) [OF inv that(1)] that(2) h False by (auto simp: call_ok_def held_def made_by_def)
      then show ?thesis using call_step_frame(1,3) [of n rw d env s] b(2) by (auto simp: in_flight_def)
    qed
    then show ?thesis using a k c log_mono [of c s n rw e] by (cases "c_pc k") (auto simp: Act answered_def split: option.splits)
  qed
next
  case Exec
  then show ?thesis using in_flight_exec [OF inv, of rw] using log_mono [of c s n rw e] by (simp add: answered_cong [OF a])
next
  case (Call d th w sync)
  from a have "ao_calls s c \<noteq> None" by (auto simp: answered_def)
  then show ?thesis by (intro answered_cong [OF a] log_mono) (auto simp: Call in_flight_def)
next
  case (Start th) then show ?thesis by (intro answered_cong [OF a] log_mono) (auto simp: in_flight_def)
qed

lemma answered_returned:
  assumes inv: "ao_inv s" and a: "answered s c" "rest_of s c = 0"
  shows "\<exists>r q k. ao_calls s c = Some k \<and> c_pc k = Returned (Some r) \<and> log_of c s = [(q, c_work k, r)]"
proof -
  from a obtain k where k: "ao_calls s c = Some k" by (auto simp: answered_def)
  with a obtain r where r: "c_pc k = Returned (Some r)" "log_of c s \<noteq> []"
    by (cases "c_pc k") (auto simp: answered_def rest_of_def split: option.splits)
  then show ?thesis using ao_invD(5) [OF inv k] k by (auto simp: call_ok_def returned_ok_def split: if_splits)
qed

lemma answered_run: "ao_inv s \<Longrightarrow> answered s c \<Longrightarrow> list_all semaphore_created es \<Longrightarrow> answered (ao_run n rw es s) c"
  by (induction es arbitrary: s) (simp_all add: ao_run_def ao_inv_step answered_mono)

lemma started_mono: "ao_started s \<Longrightarrow> ao_started (ao_step n rw e s)"
  by (cases e) (auto simp: call_step_def new_object_def put_message_def delete_object_def wait_complete_def read_result_def ao_fail_def
      exec_step_def task_invoke_def task_store_def task_complete_def invoke_work_def
      split: option.splits prod.splits ao_pc.splits ao_exec.splits list.splits ao_task_kind.splits)

text \<open>Enough steps of the thread of the active object answer a call, whatever happens in between.\<close>

lemma answered_eventually:
  assumes "ao_inv s" "waits_for s c a" "ao_started s" "list_all semaphore_created es" "pending s a \<le> length (filter ((=) Exec) es)"
  shows "answered (ao_run n rw es s) c"
  using assms
proof (induction es arbitrary: s)
  case Nil then show ?case using pending_exec(1) by fastforce
next
  case (Cons e es)
  let ?s = "ao_step n rw e s"
  have inv: "ao_inv ?s" and st: "ao_started ?s" using Cons.prems by (simp_all add: ao_inv_step started_mono)
  have run: "ao_run n rw (e # es) s = ao_run n rw es ?s" by (simp add: ao_run_def)
  show ?case
  proof (cases "e = Exec")
    case False
    then show ?thesis unfolding run using pending_act [OF Cons.prems(1,2) False, of n rw] Cons.IH [OF inv _ st] Cons.prems(4,5) by auto
  next
    case True
    from pending_exec(2) [OF Cons.prems(1-3), of rw] show ?thesis
    proof
      assume "waits_for (exec_step rw s) c a \<and> pending (exec_step rw s) a = pending s a - 1"
      then show ?thesis unfolding run using Cons.IH [OF inv _ st] Cons.prems(4,5) True by simp
    next
      assume "answered (exec_step rw s) c"
      then show ?thesis unfolding run using answered_run [OF inv] Cons.prems(4) True by simp
    qed
  qed
qed


section \<open>Properties\<close>

definition calls_served :: "('e, 'w, 'r :: zero) ao_state \<Rightarrow> bool" where
  "calls_served s \<longleftrightarrow> (\<forall>c k x. ao_calls s c = Some k \<longrightarrow> c_pc k = Returned x \<longrightarrow> returned_ok s c k x)"

definition no_task_left :: "('e, 'w, 'r) ao_state \<Rightarrow> bool" where
  "no_task_left s \<longleftrightarrow> ((in_flight s = [] \<and> (\<forall>c k. ao_calls s c = Some k \<longrightarrow> (\<exists>x. c_pc k = Returned x))) \<longrightarrow> ao_heap s = (\<lambda>a. None))"

text \<open>
  C27: Whatever threads call synchronously or asynchronously and in whatever order their actions and those of the
  system thread interleave, no task is used after it has been deleted, every function is executed at most once, a synchronous
  call returns the result of exactly its function, or 0 when the call was refused and the function never executed, and once
  all calls have returned and the queue is empty no task is left.
\<close>

theorem system_calls_served:
  assumes "list_all semaphore_created es"
  shows "\<not> ao_fault (ao_run n run_work es (ao_init e)) \<and> calls_served (ao_run n run_work es (ao_init e)) \<and>
    no_task_left (ao_run n run_work es (ao_init e))"
proof -
  let ?s = "ao_run n run_work es (ao_init e)"
  have inv: "ao_inv ?s" by (rule ao_inv_run [OF ao_inv_init assms])
  have "calls_served ?s" using ao_invD(5) [OF inv] by (fastforce simp: calls_served_def call_ok_def)
  moreover have "no_task_left ?s" unfolding no_task_left_def
  proof
    assume quiet: "in_flight ?s = [] \<and> (\<forall>c k. ao_calls ?s c = Some k \<longrightarrow> (\<exists>x. c_pc k = Returned x))"
    show "ao_heap ?s = (\<lambda>a. None)"
    proof
      fix a
      show "ao_heap ?s a = None" using ao_invD(2) [OF inv] quiet unfolding heap_ok_def
        by (cases "ao_heap ?s a") fastforce+
    qed
  qed
  ultimately show ?thesis using ao_invD(1) [OF inv] by simp
qed

text \<open>Two calls, a synchronous one from thread 1 and an asynchronous one from thread 2, to a function that counts.\<close>

definition go :: ao_env where
  "go = \<lparr>e_alloc = Some 0, e_semaphore = True, e_put = True\<rparr>"

definition two_calls :: "nat ao_event list" where
  "two_calls = [Start 7, Call 0 1 5 True, Call 1 2 6 False] @ replicate 4 (Act 0 go) @ replicate 4 (Act 1 (go\<lparr>e_alloc := Some 1\<rparr>)) @
     replicate 8 Exec @ replicate 3 (Act 0 go)"

definition count_work :: "nat \<Rightarrow> nat list \<Rightarrow> nat \<times> nat list" where
  "count_work w ws = (w + length ws, ws @ [w])"

lemmas ao_eval = ao_run_def ao_init_def call_step_def exec_step_def goto_def put_task_def delete_task_def new_object_def new_task_def
  put_message_def wait_complete_def read_result_def delete_object_def task_invoke_def task_store_def task_complete_def
  invoke_work_def new_call_def call_result_def go_def count_work_def numeral_eq_Suc

lemma system_calls_served_witness:
  "calls_served (ao_run 3 count_work two_calls (ao_init [])) \<and>
   map_option c_pc (ao_calls (ao_run 3 count_work two_calls (ao_init [])) 0) = Some (Returned (Some 5)) \<and>
   ao_world (ao_run 3 count_work two_calls (ao_init [])) = [5, 6]"
proof -
  have "list_all semaphore_created two_calls" by (simp add: two_calls_def go_def numeral_eq_Suc)
  then have "calls_served (ao_run 3 count_work two_calls (ao_init []))" by (rule system_calls_served [THEN conjunct2, THEN conjunct1])
  moreover have "map_option c_pc (ao_calls (ao_run 3 count_work two_calls (ao_init [])) 0) = Some (Returned (Some 5)) \<and>
   ao_world (ao_run 3 count_work two_calls (ao_init [])) = [5, 6]"
    by (simp add: two_calls_def ao_eval)
  ultimately show ?thesis by simp
qed

text \<open>
  C28: A synchronous call that waits for its promise is answered after at most four steps of the system thread for each place of the queue and
  three more, whatever the other threads do in between; three actions of its own then make it return the result
  of the one execution of its function.
\<close>

theorem system_call_returns:
  assumes "list_all semaphore_created (es @ es')" "ao_calls (ao_run n run_work es (ao_init e)) c = Some k" "c_pc k = At_wait a"
    and "4 * n + 3 \<le> length (filter ((=) Exec) es')" "e_semaphore env"
  shows "\<exists>r q k'. ao_calls (ao_run n run_work (es @ es' @ replicate 3 (Act c env)) (ao_init e)) c = Some k' \<and>
    c_pc k' = Returned (Some r) \<and>
    log_of c (ao_run n run_work (es @ es' @ replicate 3 (Act c env)) (ao_init e)) = [(q, c_work k', r)]"
proof -
  let ?s = "ao_run n run_work es (ao_init e)" and ?t = "ao_run n run_work (es @ es') (ao_init e)"
  have sem: "list_all semaphore_created es" "list_all semaphore_created es'" using assms(1) by simp_all
  have inv: "ao_inv ?s" "ao_inv ?t" by (rule ao_inv_run [OF ao_inv_init sem(1)], rule ao_inv_run [OF ao_inv_init assms(1)])
  have ok: "started_ok n ?s" by (rule started_ok_run [OF started_ok_init])
  have run: "?t = ao_run n run_work es' ?s" by (simp add: ao_run_def)
  have "answered ?t c"
  proof (cases "a \<in> set (in_flight ?s)")
    case True
    moreover have "ao_started ?s" using ok assms(2,3) by (force simp: started_ok_def)
    moreover have "pending ?s a \<le> 4 * n + 3"
      using pending_le [of ?s a] ok by (simp add: started_ok_def)
    ultimately show ?thesis unfolding run
      using assms answered_eventually [OF inv(1) _ _ sem(2)] by (simp add: waits_for_def)
  next
    case False
    then have "answered ?s c" using assms(2,3) by (simp add: answered_def)
    then show ?thesis unfolding run by (rule answered_run [OF inv(1) _ sem(2)])
  qed
  moreover define st where "st = call_step n run_work c env"
  have step: "ao_inv (st u) \<and> answered (st u) c \<and> rest_of (st u) c \<le> rest_of u c - 1" if "ao_inv u" "answered u c" for u
    using answered_step [OF that] ao_inv_call_step [OF that(1) assms(5)] by (simp add: st_def)
  have "rest_of ?t c \<le> 3" by (cases "c_pc (the (ao_calls ?t c))") (simp_all add: rest_of_def)
  ultimately have "ao_inv (st (st (st ?t))) \<and> answered (st (st (st ?t))) c \<and> rest_of (st (st (st ?t))) c = 0"
    using step [OF inv(2)] step [of "st ?t"] step [of "st (st ?t)"] by auto
  moreover have "ao_run n run_work (es @ es' @ replicate 3 (Act c env)) (ao_init e) = st (st (st ?t))"
    by (simp add: ao_run_def st_def numeral_eq_Suc)
  ultimately show ?thesis using answered_returned by metis
qed

lemma system_call_returns_witness:
  "\<exists>r q k'. ao_calls (ao_run 1 count_work ([Start 7, Call 0 1 5 True] @ replicate 4 (Act 0 go) @ replicate 7 Exec @ replicate 3 (Act 0 go)) (ao_init [])) 0
     = Some k' \<and> c_pc k' = Returned (Some r) \<and>
     log_of 0 (ao_run 1 count_work ([Start 7, Call 0 1 5 True] @ replicate 4 (Act 0 go) @ replicate 7 Exec @ replicate 3 (Act 0 go)) (ao_init [])) = [(q, c_work k', r)]"
proof -
  let ?es = "[Start 7, Call 0 1 5 True] @ replicate 4 (Act 0 go) :: nat ao_event list"
  have "list_all semaphore_created (?es @ replicate 7 Exec)" by (simp add: go_def numeral_eq_Suc)
  moreover have "\<exists>k. ao_calls (ao_run 1 count_work ?es (ao_init [])) 0 = Some k \<and> c_pc k = At_wait 0"
    by (simp add: ao_eval)
  moreover have "4 * 1 + 3 \<le> length (filter ((=) Exec) (replicate 7 (Exec :: nat ao_event)))" by (simp add: numeral_eq_Suc)
  moreover have "e_semaphore go" by (simp add: go_def)
  ultimately show ?thesis using system_call_returns [of ?es "replicate 7 Exec" 1 count_work "[]" 0 _ 0 go] by fastforce
qed

text \<open>A call that the queue refuses returns 0 like a function that has the result 0, but the function has not been executed.\<close>

lemma refused_call_returns_zero:
  "map_option c_pc (ao_calls (ao_run 3 count_work ([Start 7, Call 0 1 5 True] @ replicate 5 (Act 0 (go\<lparr>e_put := False\<rparr>))) (ao_init [])) 0) = Some (Returned (Some 0))
   \<and> ao_log (ao_run 3 count_work ([Start 7, Call 0 1 5 True] @ replicate 5 (Act 0 (go\<lparr>e_put := False\<rparr>))) (ao_init [])) = []"
  by (simp add: ao_eval)

text \<open>When the semaphore of a promise cannot be created, the call waits on a null semaphore.\<close>

lemma null_semaphore_used:
  "ao_fault (ao_run 3 count_work ([Start 7, Call 0 1 5 True] @ replicate 5 (Act 0 (go\<lparr>e_semaphore := False\<rparr>))) (ao_init []))"
  by (simp add: ao_eval ao_fail_def)

end
