(* ===== verification/Server_Address.thy ===== *)
theory Server_Address
  imports Prelude
begin

text \<open>
  The address of the cloud server as it is kept in flash (\<open>hal/shared/parse_server_address.h\<close>, the structure
  \<open>ServerAddress\<close> of \<open>hal/inc/ota_flash_hal.h\<close>).  The structure is packed and its fields overlap, so it is the list of its 128
  bytes, followed by whatever memory comes behind it; the target stores integers with the low byte first.
\<close>

section \<open>The structure\<close>

definition IP_ADDRESS :: u8 where "IP_ADDRESS = 0"
definition DOMAIN_NAME :: u8 where "DOMAIN_NAME = 1"
definition INVALID_INTERNET_ADDRESS :: u8 where "INVALID_INTERNET_ADDRESS = 0xFF"

definition ERROR_TOO_LARGE :: int where "ERROR_TOO_LARGE = - 190"

definition poke :: "u8 list \<Rightarrow> nat \<Rightarrow> u8 list \<Rightarrow> u8 list" where
  "poke m p bs = take p m @ bs @ drop (p + length bs) m"

definition addr_type :: "u8 list \<Rightarrow> u8" where "addr_type m = m ! 0"
definition addr_length :: "u8 list \<Rightarrow> u8" where "addr_length m = m ! 1"
definition addr_domain :: "u8 list \<Rightarrow> u8 list" where "addr_domain m = take 64 (drop 2 m)"
definition addr_ip :: "u8 list \<Rightarrow> u32" where "addr_ip m = of_le32 (take 4 (drop 2 m))"
definition addr_port :: "u8 list \<Rightarrow> u16" where "addr_port m = of_le16 (take 2 (drop 66 m))"

text \<open>\<open>sizeof(ServerAddress)\<close> and the same without the field \<open>padding\<close>.\<close>

definition server_address_size :: nat where "server_address_size = 128"
definition address_data_size :: nat where "address_data_size = server_address_size - 60"

section \<open>Parsing and encoding\<close>

definition be32_at :: "u8 list \<Rightarrow> nat \<Rightarrow> u32" where
  "be32_at buf p = push_bit 24 (ucast (buf ! p)) OR push_bit 16 (ucast (buf ! (p + 1))) OR
     push_bit 8 (ucast (buf ! (p + 2))) OR ucast (buf ! (p + 3))"

definition be16_at :: "u8 list \<Rightarrow> nat \<Rightarrow> u16" where
  "be16_at buf p = push_bit 8 (ucast (buf ! p)) OR ucast (buf ! (p + 1))"

definition parse_port :: "u8 list \<Rightarrow> u8 list \<Rightarrow> u8 list" where
  "parse_port buf m = (if addr_type m \<noteq> INVALID_INTERNET_ADDRESS then poke m 66 (le16 (be16_at buf 66)) else m)"

definition parseServerAddressData :: "u8 list \<Rightarrow> u8 list \<Rightarrow> int \<Rightarrow> u8 list" where
  "parseServerAddressData m buf maxLength = parse_port buf (
     if buf ! 0 = IP_ADDRESS then poke (m[0 := IP_ADDRESS, 1 := 4]) 2 (le32 (be32_at buf 2))
     else if buf ! 0 = DOMAIN_NAME \<and> uint (buf ! 1) \<le> maxLength - 2 then
       poke (m[0 := DOMAIN_NAME, 1 := buf ! 1]) 2 (take (unat (buf ! 1)) (drop 2 buf) @ [0])
     else m[0 := INVALID_INTERNET_ADDRESS])"

definition bswap32 :: "u32 \<Rightarrow> u32" where "bswap32 w = of_le32 (rev (le32 w))"
definition bswap16 :: "u16 \<Rightarrow> u16" where "bswap16 w = of_le16 (rev (le16 w))"

definition swap_ip :: "u8 list \<Rightarrow> u8 list" where
  "swap_ip buf = poke buf 2 (le32 (bswap32 (of_le32 (take 4 (drop 2 buf)))))"

definition swap_port :: "u8 list \<Rightarrow> u8 list" where
  "swap_port buf = poke buf 66 (le16 (bswap16 (of_le16 (take 2 (drop 66 buf)))))"

definition encodeServerAddressData :: "u8 list \<Rightarrow> u8 list \<Rightarrow> nat \<Rightarrow> int \<times> u8 list" where
  "encodeServerAddressData m buf bufSize = (if bufSize < address_data_size then (ERROR_TOO_LARGE, buf)
     else if addr_type m = IP_ADDRESS \<or> addr_type m = DOMAIN_NAME then
       if address_data_size - 4 < unat (addr_length m) then (ERROR_TOO_LARGE, buf)
       else let copy = poke buf 0 (take address_data_size m) in
         (0, swap_port (if addr_type m = IP_ADDRESS then swap_ip copy else copy))
     else (0, buf[0 := INVALID_INTERNET_ADDRESS]))"

section \<open>Bytes\<close>

lemma poke_length [simp]: "p + length bs \<le> length m \<Longrightarrow> length (poke m p bs) = length m"
  by (simp add: poke_def)

lemma poke_nth:
  assumes "p + length bs \<le> length m" "i < length m"
  shows "poke m p bs ! i = (if p \<le> i \<and> i < p + length bs then bs ! (i - p) else m ! i)"
  using assms by (auto simp: poke_def nth_append min_def)

lemma take_drop_poke: "p + length bs \<le> length m \<Longrightarrow> take (length bs) (drop p (poke m p bs)) = bs"
  by (simp add: poke_def)

lemma take4: "p + 4 \<le> length m \<Longrightarrow> take 4 (drop p m) = [m ! p, m ! (p + 1), m ! (p + 2), m ! (p + 3)]"
  by (rule nth_equalityI) (auto simp: less_Suc_eq numeral_eq_Suc)

lemma take2: "p + 2 \<le> length m \<Longrightarrow> take 2 (drop p m) = [m ! p, m ! (p + 1)]"
  by (rule nth_equalityI) (auto simp: less_Suc_eq numeral_eq_Suc)

lemma bswap32_bytes: "le32 (bswap32 (of_le32 [a, b, c, d])) = [d, c, b, a]"
  by (simp add: bswap32_def le32_of_le32)

lemma bswap16_bytes: "le16 (bswap16 (of_le16 [a, b])) = [b, a]"
  by (simp add: bswap16_def le16_of_le16)

lemma swap_ip_nth:
  assumes "6 \<le> length buf" "i < length buf"
  shows "swap_ip buf ! i = (if 2 \<le> i \<and> i < 6 then buf ! (7 - i) else buf ! i)"
proof -
  have "le32 (bswap32 (of_le32 (take 4 (drop 2 buf)))) = [buf ! 5, buf ! 4, buf ! 3, buf ! 2]"
    using assms by (simp add: take4 bswap32_bytes)
  moreover have "i = 2 \<or> i = 3 \<or> i = 4 \<or> i = 5" if "2 \<le> i" "i < 6" using that by auto
  ultimately show ?thesis using assms by (auto simp: swap_ip_def poke_nth)
qed

lemma swap_ip_length [simp]: "6 \<le> length buf \<Longrightarrow> length (swap_ip buf) = length buf"
  by (simp add: swap_ip_def)

lemma swap_port_nth:
  assumes "68 \<le> length buf" "i < length buf"
  shows "swap_port buf ! i = (if i = 66 then buf ! 67 else if i = 67 then buf ! 66 else buf ! i)"
proof -
  have "le16 (bswap16 (of_le16 (take 2 (drop 66 buf)))) = [buf ! 67, buf ! 66]"
    using assms by (simp add: take2 bswap16_bytes)
  then show ?thesis using assms by (auto simp: swap_port_def poke_nth)
qed

lemma swap_port_length [simp]: "68 \<le> length buf \<Longrightarrow> length (swap_port buf) = length buf"
  by (simp add: swap_port_def)

lemma be32_of_le32: "be32_at buf p = of_le32 [buf ! (p + 3), buf ! (p + 2), buf ! (p + 1), buf ! p]"
  by (simp add: be32_at_def of_le32_def or.commute or.left_commute)

lemma be16_of_le16: "be16_at buf p = of_le16 [buf ! (p + 1), buf ! p]"
  by (simp add: be16_at_def of_le16_def or.commute)


definition encodable :: "u8 list \<Rightarrow> bool" where
  "encodable m \<longleftrightarrow> addr_type m \<in> {IP_ADDRESS, DOMAIN_NAME} \<and> unat (addr_length m) \<le> 64 \<and> server_address_size \<le> length m"

definition encoded :: "u8 list \<Rightarrow> u8 list \<Rightarrow> u8 list" where
  "encoded m buf = (let copy = poke buf 0 (take address_data_size m) in
     swap_port (if addr_type m = IP_ADDRESS then swap_ip copy else copy))"

lemma encode_result:
  assumes "encodable m" "68 \<le> bufSize"
  shows "encodeServerAddressData m buf bufSize = (0, encoded m buf)"
  using assms by (auto simp: encodeServerAddressData_def encodable_def encoded_def address_data_size_def server_address_size_def Let_def)

lemma encoded_nth:
  assumes "128 \<le> length m" "68 \<le> length buf" "i < length buf"
  shows "encoded m buf ! i = (if i = 66 then m ! 67 else if i = 67 then m ! 66 else if 68 \<le> i then buf ! i
    else if addr_type m = IP_ADDRESS \<and> 2 \<le> i \<and> i < 6 then m ! (7 - i) else m ! i)"
proof -
  let ?c = "poke buf 0 (take 68 m)"
  have l: "length ?c = length buf" using assms by simp
  have c: "?c ! j = (if j < 68 then m ! j else buf ! j)" if "j < length buf" for j
    using that assms by (simp add: poke_nth)
  show ?thesis using assms
    by (auto simp: encoded_def address_data_size_def server_address_size_def Let_def swap_port_nth swap_ip_nth l c)
qed

lemma encoded_length [simp]: "128 \<le> length m \<Longrightarrow> 68 \<le> length buf \<Longrightarrow> length (encoded m buf) = length buf"
  by (simp add: encoded_def address_data_size_def server_address_size_def Let_def)

text \<open>The address that a structure describes: the unused part of the union does not count.\<close>

definition same_address :: "u8 list \<Rightarrow> u8 list \<Rightarrow> bool" where
  "same_address a b \<longleftrightarrow> addr_type a = addr_type b \<and> addr_port a = addr_port b \<and>
     (if addr_type b = IP_ADDRESS then addr_ip a = addr_ip b \<and> addr_length a = 4
      else addr_length a = addr_length b \<and>
        take (unat (addr_length b)) (addr_domain a) = take (unat (addr_length b)) (addr_domain b))"

lemma address_types [simp]:
  "IP_ADDRESS \<noteq> INVALID_INTERNET_ADDRESS" "DOMAIN_NAME \<noteq> INVALID_INTERNET_ADDRESS" "DOMAIN_NAME \<noteq> IP_ADDRESS" "IP_ADDRESS \<noteq> DOMAIN_NAME"
  by (simp_all add: IP_ADDRESS_def DOMAIN_NAME_def INVALID_INTERNET_ADDRESS_def)

lemma parse_ip:
  assumes "128 \<le> length m" "buf ! 0 = IP_ADDRESS"
  shows "addr_type (parseServerAddressData m buf n) = IP_ADDRESS" "addr_length (parseServerAddressData m buf n) = 4"
    "addr_ip (parseServerAddressData m buf n) = be32_at buf 2" "addr_port (parseServerAddressData m buf n) = be16_at buf 66"
proof -
  let ?m = "poke (m[0 := IP_ADDRESS, 1 := 4]) 2 (le32 (be32_at buf 2))"
  have m: "m \<noteq> []" using assms(1) by auto
  have p: "parseServerAddressData m buf n = poke ?m 66 (le16 (be16_at buf 66))"
    using assms m by (simp add: parseServerAddressData_def parse_port_def addr_type_def poke_nth)
  show "addr_type (parseServerAddressData m buf n) = IP_ADDRESS" "addr_length (parseServerAddressData m buf n) = 4"
    using assms m by (simp_all add: p addr_type_def addr_length_def poke_nth)
  have "take 4 (drop 2 (poke ?m 66 (le16 (be16_at buf 66)))) = take 4 (drop 2 ?m)"
    using assms by (simp add: take4 poke_nth)
  then show "addr_ip (parseServerAddressData m buf n) = be32_at buf 2"
    using assms take_drop_poke [of 2 "le32 (be32_at buf 2)" "m[0 := IP_ADDRESS, 1 := 4]"] by (simp add: p addr_ip_def)
  show "addr_port (parseServerAddressData m buf n) = be16_at buf 66"
    using assms take_drop_poke [of 66 "le16 (be16_at buf 66)" ?m] by (simp add: p addr_port_def)
qed

lemma parse_domain:
  assumes m: "128 \<le> length m" and buf: "buf ! 0 = DOMAIN_NAME" "68 \<le> length buf" "unat (buf ! 1) \<le> 64" and n: "66 \<le> n"
  shows "addr_type (parseServerAddressData m buf n) = DOMAIN_NAME" "addr_length (parseServerAddressData m buf n) = buf ! 1"
    "take (unat (buf ! 1)) (addr_domain (parseServerAddressData m buf n)) = take (unat (buf ! 1)) (drop 2 buf)"
    "addr_port (parseServerAddressData m buf n) = be16_at buf 66"
proof -
  let ?len = "unat (buf ! 1)"
  let ?b = "take ?len (drop 2 buf) @ [0]"
  let ?m = "poke (m[0 := DOMAIN_NAME, 1 := buf ! 1]) 2 ?b"
  have m0: "m \<noteq> []" using m by auto
  have lb: "length ?b = ?len + 1" using buf by simp
  have "uint (buf ! 1) \<le> n - 2" using buf(3) n uint_nat [of "buf ! 1"] by linarith
  moreover have "addr_type ?m = DOMAIN_NAME" using m m0 lb buf(3) unfolding addr_type_def by (subst poke_nth) auto
  ultimately have p: "parseServerAddressData m buf n = poke ?m 66 (le16 (be16_at buf 66))"
    using buf(1) by (simp add: parseServerAddressData_def parse_port_def)
  have lm: "length ?m = length m" using m buf by simp
  show "addr_type (parseServerAddressData m buf n) = DOMAIN_NAME" "addr_length (parseServerAddressData m buf n) = buf ! 1"
    unfolding p addr_type_def addr_length_def using m m0 lb lm buf(3) by (auto simp: poke_nth)
  have "take ?len (drop 2 (poke ?m 66 (le16 (be16_at buf 66)))) = take ?len (drop 2 buf)"
    by (rule nth_equalityI) (use m buf lb lm in \<open>auto simp: poke_nth nth_append\<close>)
  then show "take ?len (addr_domain (parseServerAddressData m buf n)) = take ?len (drop 2 buf)"
    using buf(3) by (simp add: p addr_domain_def min_absorb1)
  show "addr_port (parseServerAddressData m buf n) = be16_at buf 66"
    using m lm take_drop_poke [of 66 "le16 (be16_at buf 66)" ?m] by (simp add: p addr_port_def)
qed


text \<open>
  C29: A server address that is encoded into a buffer and parsed again is the same address: the type, the port, and the IP
  address or the domain name with its length.
\<close>

theorem server_address_roundtrip:
  assumes "encodable m" "68 \<le> bufSize" "68 \<le> length buf" "128 \<le> length m'" "66 \<le> maxLength"
  shows "same_address (parseServerAddressData m' (snd (encodeServerAddressData m buf bufSize)) maxLength) m"
proof -
  let ?b = "encoded m buf"
  have m: "128 \<le> length m" "unat (addr_length m) \<le> 64" using assms(1) by (simp_all add: encodable_def server_address_size_def)
  have b: "?b ! i = (if i = 66 then m ! 67 else if i = 67 then m ! 66 else if 68 \<le> i then buf ! i
      else if addr_type m = IP_ADDRESS \<and> 2 \<le> i \<and> i < 6 then m ! (7 - i) else m ! i)" if "i < 68" for i
    using encoded_nth [OF m(1) assms(3)] that assms(3) by simp
  have port: "be16_at ?b 66 = addr_port m" using m by (simp add: be16_of_le16 b addr_port_def take2)
  have ty: "?b ! 0 = addr_type m" "?b ! 1 = addr_length m" by (simp_all add: b addr_type_def addr_length_def)
  have lb: "68 \<le> length ?b" using m assms(3) by simp
  show ?thesis
  proof (cases "addr_type m = IP_ADDRESS")
    case True
    have "be32_at ?b 2 = addr_ip m" using True m by (simp add: be32_of_le32 b addr_ip_def take4)
    then show ?thesis using parse_ip [OF assms(4), of ?b maxLength] True ty port
      by (simp add: encode_result [OF assms(1,2)] same_address_def)
  next
    case False
    then have d: "addr_type m = DOMAIN_NAME" using assms(1) by (simp add: encodable_def)
    have "take (unat (addr_length m)) (drop 2 ?b) = take (unat (addr_length m)) (addr_domain m)"
      by (rule nth_equalityI) (use m lb False in \<open>auto simp: addr_domain_def b\<close>)
    then show ?thesis using parse_domain [OF assms(4) _ lb _ assms(5)] False d ty port m
      by (simp add: encode_result [OF assms(1,2)] same_address_def)
  qed
qed

definition sample_address :: "u8 list" where
  "sample_address = [1, 3, 97, 46, 98] @ replicate 61 0 @ le16 5683 @ replicate 60 0"

lemma server_address_roundtrip_witness:
  "encodable sample_address \<and>
   same_address (parseServerAddressData (replicate 128 0) (snd (encodeServerAddressData sample_address (replicate 128 255) 128)) 128) sample_address"
proof -
  have "encodable sample_address"
    by (simp add: encodable_def sample_address_def addr_type_def addr_length_def DOMAIN_NAME_def server_address_size_def)
  then show ?thesis using server_address_roundtrip [of sample_address 128 "replicate 128 255" "replicate 128 0" 128] by simp
qed

text \<open>The results of encoding on every branch; an error leaves the buffer as it was.\<close>

lemma encode_branches:
  "encodeServerAddressData m buf bufSize =
     (if bufSize < 68 \<or> addr_type m \<in> {IP_ADDRESS, DOMAIN_NAME} \<and> 64 < unat (addr_length m) then (ERROR_TOO_LARGE, buf)
      else if addr_type m \<in> {IP_ADDRESS, DOMAIN_NAME} then (0, encoded m buf)
      else (0, buf[0 := INVALID_INTERNET_ADDRESS]))"
  by (auto simp: encodeServerAddressData_def encoded_def address_data_size_def server_address_size_def Let_def)

text \<open>
  A stored length above 64 is only compared with the length of the stored data: with the 128 bytes that are
  reserved for an address, the length 126 makes the parser write a zero behind the structure.
\<close>

lemma parse_writes_behind_structure:
  assumes "buf = [1, 126] @ replicate 126 7" "m = replicate 129 9"
  shows "parseServerAddressData m buf 128 ! 128 = 0"
proof -
  have "addr_type (poke (m[0 := DOMAIN_NAME, 1 := 126]) 2 (replicate 126 7 @ [0])) = DOMAIN_NAME"
    by (simp add: assms addr_type_def poke_nth)
  then have "parseServerAddressData m buf 128 = poke (poke (m[0 := DOMAIN_NAME, 1 := 126]) 2 (replicate 126 7 @ [0])) 66 (le16 (be16_at buf 66))"
    by (simp add: parseServerAddressData_def assms(1) parse_port_def DOMAIN_NAME_def IP_ADDRESS_def INVALID_INTERNET_ADDRESS_def)
  then show ?thesis by (simp add: assms(2) poke_nth nth_append)
qed

text \<open>The zero behind a domain name of 64 characters is overwritten by the port.\<close>

lemma parse_long_domain_unterminated:
  assumes "buf = [1, 64] @ replicate 64 7 @ [0x16, 0x33] @ replicate 60 0" "m = replicate 128 0"
  shows "0 \<notin> set (take 66 (drop 2 (parseServerAddressData m buf 128)))"
  unfolding assms by code_simp

end
