(* ===== verification/Timers.thy ===== *)
theory Timers
  imports Prelude
begin

text \<open>
  Software timers (\<open>wiring/inc/spark_wiring_timer.h\<close>).  The operations forward to the timer of the operating system;
  what the class does itself is to keep the object alive while the timer thread executes its callback.  A step relation has
  the actions of the timer thread, which calls \<open>invoke_timer\<close>, and of the thread that uses the object and destroys it.
\<close>

section \<open>Requests to the operating system\<close>

datatype os_timer_change = OS_TIMER_CHANGE_START | OS_TIMER_CHANGE_RESET | OS_TIMER_CHANGE_STOP | OS_TIMER_CHANGE_PERIOD

record timer_request =
  tr_change :: os_timer_change
  tr_from_isr :: bool
  tr_period :: nat
  tr_block :: nat

definition default_wait :: nat where "default_wait = 0x7FFFFFFF"

text \<open>
  The requests an operation makes, in their order, for a timer with or without a handle; the operation returns
  whether the last request was accepted, and false without a handle.
\<close>

definition timer_request_if :: "bool \<Rightarrow> timer_request \<Rightarrow> timer_request list" where
  "timer_request_if handle r = (if handle then [r] else [])"

definition timer_do_stop :: "bool \<Rightarrow> nat \<Rightarrow> bool \<Rightarrow> timer_request list" where
  "timer_do_stop handle block fromISR =
     timer_request_if handle \<lparr>tr_change = OS_TIMER_CHANGE_STOP, tr_from_isr = fromISR, tr_period = 0, tr_block = block\<rparr>"

definition timer_stop :: "bool \<Rightarrow> nat \<Rightarrow> timer_request list" where
  "timer_stop handle block = timer_do_stop handle block False"

text \<open>\<open>_start\<close> calls \<open>stop(fromISR)\<close>, whose parameter is the time to block.\<close>

definition timer_do_start :: "bool \<Rightarrow> nat \<Rightarrow> bool \<Rightarrow> timer_request list" where
  "timer_do_start handle block fromISR = timer_stop handle (of_bool fromISR) @
     timer_request_if handle \<lparr>tr_change = OS_TIMER_CHANGE_START, tr_from_isr = fromISR, tr_period = 0, tr_block = block\<rparr>"

definition timer_do_reset :: "bool \<Rightarrow> nat \<Rightarrow> bool \<Rightarrow> timer_request list" where
  "timer_do_reset handle block fromISR =
     timer_request_if handle \<lparr>tr_change = OS_TIMER_CHANGE_RESET, tr_from_isr = fromISR, tr_period = 0, tr_block = block\<rparr>"

definition timer_do_change_period :: "bool \<Rightarrow> nat \<Rightarrow> nat \<Rightarrow> bool \<Rightarrow> timer_request list" where
  "timer_do_change_period handle period block fromISR =
     timer_request_if handle \<lparr>tr_change = OS_TIMER_CHANGE_PERIOD, tr_from_isr = fromISR, tr_period = period, tr_block = block\<rparr>"

definition timer_start :: "bool \<Rightarrow> timer_request list" where "timer_start handle = timer_do_start handle default_wait False"
definition startFromISR :: "bool \<Rightarrow> timer_request list" where "startFromISR handle = timer_do_start handle 0 True"
definition stopFromISR :: "bool \<Rightarrow> timer_request list" where "stopFromISR handle = timer_do_stop handle 0 True"
definition resetFromISR :: "bool \<Rightarrow> timer_request list" where "resetFromISR handle = timer_do_reset handle 0 True"
definition changePeriodFromISR :: "bool \<Rightarrow> nat \<Rightarrow> timer_request list" where
  "changePeriodFromISR handle period = timer_do_change_period handle period 0 True"

text \<open>Three of the four operations for interrupt handlers only make requests that an interrupt handler may make.\<close>

lemma isr_requests:
  "\<forall>r \<in> set (stopFromISR h @ resetFromISR h @ changePeriodFromISR h p). tr_from_isr r \<and> tr_block r = 0"
  by (cases h) (simp_all add: stopFromISR_def resetFromISR_def changePeriodFromISR_def timer_do_stop_def timer_do_reset_def
      timer_do_change_period_def timer_request_if_def)

text \<open>\<open>startFromISR\<close> first makes the request to stop that is meant for threads, with permission to block.\<close>

lemma start_from_isr_blocks: "\<exists>r \<in> set (startFromISR True). \<not> tr_from_isr r \<and> tr_block r = 1"
  by (simp add: startFromISR_def timer_do_start_def timer_stop_def timer_do_stop_def timer_request_if_def)

section \<open>Callbacks and disposal\<close>

text \<open>Where the timer thread is in \<open>invoke_timer\<close> and \<open>timeout\<close>, and the owner of the object in its destructor.\<close>

datatype service_pc = S_idle | S_lookup | S_entry | S_callback | S_exit

datatype owner_pc = O_use | O_check | O_stop | O_poll | O_destroy | O_null | O_gone

text \<open>
  \<open>tm_os\<close> and \<open>tm_active\<close> describe the timer of the operating system, \<open>tm_object\<close> whether the object still exists, \<open>tm_fault\<close>
  that one of the two was used after its end.
\<close>

record timer =
  tm_running :: bool
  tm_handle :: bool
  tm_os :: bool
  tm_active :: bool
  tm_object :: bool
  tm_service :: service_pc
  tm_owner :: owner_pc
  tm_fault :: bool

definition timer_new :: "bool \<Rightarrow> timer" where
  "timer_new created = \<lparr>tm_running = False, tm_handle = created, tm_os = created, tm_active = False, tm_object = True,
     tm_service = S_idle, tm_owner = O_use, tm_fault = False\<rparr>"

text \<open>
  How the threads are scheduled: whether the owner may run while the timer thread is between the expiry of the timer and the callback or
  behind the callback, whether callbacks start their own timer, and whether the callback destroys its timer.
\<close>

record timer_env =
  preempts :: bool
  restarts :: bool
  inside :: bool

fun service_step :: "service_pc \<Rightarrow> timer \<Rightarrow> timer" where
  "service_step S_lookup t = (if tm_os t then t\<lparr>tm_service := S_entry\<rparr> else t\<lparr>tm_fault := True\<rparr>)"
| "service_step S_entry t = (if tm_object t then t\<lparr>tm_running := True, tm_service := S_callback\<rparr> else t\<lparr>tm_fault := True\<rparr>)"
| "service_step S_callback t = t\<lparr>tm_service := S_exit\<rparr>"
| "service_step S_exit t = (if tm_object t then t\<lparr>tm_running := False, tm_service := S_idle\<rparr> else t\<lparr>tm_fault := True\<rparr>)"
| "service_step S_idle t = t"

fun dispose_step :: "owner_pc \<Rightarrow> timer \<Rightarrow> timer" where
  "dispose_step O_use t = t\<lparr>tm_owner := O_check\<rparr>"
| "dispose_step O_check t = (if tm_handle t then t\<lparr>tm_owner := O_stop\<rparr> else t\<lparr>tm_owner := O_gone, tm_object := False\<rparr>)"
| "dispose_step O_stop t = t\<lparr>tm_active := False, tm_owner := O_poll\<rparr>"
| "dispose_step O_poll t = (if tm_running t then t else t\<lparr>tm_owner := O_destroy\<rparr>)"
| "dispose_step O_destroy t = t\<lparr>tm_os := False, tm_active := False, tm_owner := O_null\<rparr>"
| "dispose_step O_null t = t\<lparr>tm_handle := False, tm_owner := O_gone, tm_object := False\<rparr>"
| "dispose_step O_gone t = t"

definition owner_runs :: "timer_env \<Rightarrow> timer \<Rightarrow> bool" where
  "owner_runs env t \<longleftrightarrow> (if inside env then tm_service t = S_callback else preempts env \<or> tm_service t \<in> {S_idle, S_callback})"

inductive timer_step :: "timer_env \<Rightarrow> timer \<Rightarrow> timer \<Rightarrow> bool" for env where
  expire: "tm_service t = S_idle \<Longrightarrow> tm_active t \<Longrightarrow> tm_os t \<Longrightarrow> timer_step env t (t\<lparr>tm_service := S_lookup, tm_active := again\<rparr>)"
| service: "tm_service t \<noteq> S_idle \<Longrightarrow> \<not> (inside env \<and> tm_service t = S_callback \<and> tm_owner t \<notin> {O_use, O_gone}) \<Longrightarrow>
    timer_step env t (service_step (tm_service t) t)"
| use: "tm_owner t = O_use \<Longrightarrow> tm_handle t \<Longrightarrow> timer_step env t (t\<lparr>tm_active := active\<rparr>)"
| restart: "restarts env \<Longrightarrow> tm_service t = S_callback \<Longrightarrow> tm_handle t \<Longrightarrow> tm_os t \<Longrightarrow> timer_step env t (t\<lparr>tm_active := True\<rparr>)"
| dispose: "owner_runs env t \<Longrightarrow> timer_step env t (dispose_step (tm_owner t) t)"

inductive timer_reach :: "timer_env \<Rightarrow> timer \<Rightarrow> bool" for env where
  created: "timer_reach env (timer_new created)"
| step: "timer_reach env t \<Longrightarrow> timer_step env t t' \<Longrightarrow> timer_reach env t'"

inductive_cases timer_stepE: "timer_step env t t'"







lemma timer_reach_intros:
  "timer_reach env t \<Longrightarrow> tm_service t = S_idle \<Longrightarrow> tm_active t \<Longrightarrow> tm_os t \<Longrightarrow> timer_reach env (t\<lparr>tm_service := S_lookup, tm_active := again\<rparr>)"
  "timer_reach env t \<Longrightarrow> tm_service t \<noteq> S_idle \<Longrightarrow> \<not> inside env \<Longrightarrow> timer_reach env (service_step (tm_service t) t)"
  "timer_reach env t \<Longrightarrow> tm_owner t = O_use \<Longrightarrow> tm_handle t \<Longrightarrow> timer_reach env (t\<lparr>tm_active := active\<rparr>)"
  "timer_reach env t \<Longrightarrow> owner_runs env t \<Longrightarrow> timer_reach env (dispose_step (tm_owner t) t)"
  "timer_reach env t \<Longrightarrow> restarts env \<Longrightarrow> tm_service t = S_callback \<Longrightarrow> tm_handle t \<Longrightarrow> tm_os t \<Longrightarrow> timer_reach env (t\<lparr>tm_active := True\<rparr>)"
  by (blast intro: timer_step.intros timer_reach.step)+

definition timer_state :: "bool \<Rightarrow> bool \<Rightarrow> service_pc \<Rightarrow> owner_pc \<Rightarrow> timer" where
  "timer_state active running sv ow = \<lparr>tm_running = running, tm_handle = True, tm_os = True, tm_active = active, tm_object = True,
     tm_service = sv, tm_owner = ow, tm_fault = False\<rparr>"

text \<open>A timer that has been started and has expired: its callback is about to be entered.\<close>

lemma reach_entry:
  assumes "\<not> inside env"
  shows "timer_reach env (timer_state True False S_entry O_use)"
proof -
  have "timer_reach env (timer_state True False S_idle O_use)"
    using timer_reach_intros(3) [OF timer_reach.created [of env True], of True] by (simp add: timer_new_def timer_state_def)
  then have "timer_reach env (timer_state True False S_lookup O_use)"
    using timer_reach_intros(1) [of env "timer_state True False S_idle O_use" True] by (simp add: timer_state_def)
  then show ?thesis
    using timer_reach_intros(2) [of env "timer_state True False S_lookup O_use"] assms by (simp add: timer_state_def)
qed

lemma reach_callback:
  assumes "\<not> inside env"
  shows "timer_reach env (timer_state True True S_callback O_use)"
  using timer_reach_intros(2) [OF reach_entry [OF assms]] assms by (simp add: timer_state_def)

text \<open>The owner gets from using the object to waiting for the callback.\<close>

lemma reach_poll:
  assumes "timer_reach env (timer_state True r sv O_use)" "owner_runs env (timer_state True r sv O_use)"
  shows "timer_reach env (timer_state False r sv O_poll)"
proof -
  have o: "owner_runs env (timer_state b r sv p)" for b p using assms(2) by (cases "inside env") (auto simp: owner_runs_def timer_state_def)
  have "timer_reach env (timer_state True r sv O_check)"
    using timer_reach_intros(4) [OF assms] by (simp add: timer_state_def)
  then have "timer_reach env (timer_state True r sv O_stop)"
    using timer_reach_intros(4) [OF _ o, of True O_check] by (simp add: timer_state_def)
  then show ?thesis using timer_reach_intros(4) [OF _ o, of True O_stop] by (simp add: timer_state_def)
qed


text \<open>
  When the owner interrupts the timer thread before the callback has been entered, \<open>running\<close> is still false: the object is
  destroyed and then used.
\<close>

lemma disposal_race: "\<exists>t. timer_reach \<lparr>preempts = True, restarts = False, inside = False\<rparr> t \<and> tm_fault t"
proof -
  let ?env = "\<lparr>preempts = True, restarts = False, inside = False\<rparr>"
  have o: "owner_runs ?env t" for t by (simp add: owner_runs_def)
  have 1: "timer_reach ?env (timer_state False False S_entry O_poll)" by (rule reach_poll [OF reach_entry o]) simp
  have 2: "timer_reach ?env (timer_state False False S_entry O_destroy)"
    using timer_reach_intros(4) [OF 1 o] by (simp add: timer_state_def)
  note 3 = timer_reach_intros(4) [OF 2 o]
  note 4 = timer_reach_intros(4) [OF 3 o]
  have "timer_reach ?env (service_step S_entry (dispose_step O_null (dispose_step O_destroy (timer_state False False S_entry O_destroy))))"
    using timer_reach_intros(2) [OF 4] by (simp add: timer_state_def)
  then show ?thesis by (intro exI conjI) (assumption, simp add: timer_state_def)
qed

text \<open>A callback that starts its own timer can be entered again after \<open>dispose\<close> has seen \<open>running\<close> false for the last time.\<close>

lemma restart_race: "\<exists>t. timer_reach \<lparr>preempts = False, restarts = True, inside = False\<rparr> t \<and> tm_fault t"
proof -
  let ?env = "\<lparr>preempts = False, restarts = True, inside = False\<rparr>"
  have o: "owner_runs ?env (timer_state b r S_callback p)" "owner_runs ?env (timer_state b r S_idle p)" for b r p
    by (simp_all add: owner_runs_def timer_state_def)
  have 1: "timer_reach ?env (timer_state False True S_callback O_poll)" by (rule reach_poll [OF reach_callback o(1)]) simp
  have 2: "timer_reach ?env (timer_state True True S_callback O_poll)"
    using timer_reach_intros(5) [OF 1] by (simp add: timer_state_def)
  have 3: "timer_reach ?env (timer_state True True S_exit O_poll)"
    using timer_reach_intros(2) [OF 2] by (simp add: timer_state_def)
  have 4: "timer_reach ?env (timer_state True False S_idle O_poll)"
    using timer_reach_intros(2) [OF 3] by (simp add: timer_state_def)
  have 5: "timer_reach ?env (timer_state True False S_idle O_destroy)"
    using timer_reach_intros(4) [OF 4 o(2)] by (simp add: timer_state_def)
  have 6: "timer_reach ?env (timer_state False False S_lookup O_destroy)"
    using timer_reach_intros(1) [OF 5, of False] by (simp add: timer_state_def)
  have 7: "timer_reach ?env (timer_state False False S_entry O_destroy)"
    using timer_reach_intros(2) [OF 6] by (simp add: timer_state_def)
  have 8: "timer_reach ?env (timer_state False True S_callback O_destroy)"
    using timer_reach_intros(2) [OF 7] by (simp add: timer_state_def)
  note 9 = timer_reach_intros(4) [OF 8 o(1)]
  have 10: "timer_reach ?env (dispose_step O_null (dispose_step O_destroy (timer_state False True S_callback O_destroy)))"
    using timer_reach_intros(4) [OF 9] by (simp add: timer_state_def owner_runs_def)
  note 11 = timer_reach_intros(2) [OF 10]
  have "timer_reach ?env (service_step S_exit (service_step S_callback (dispose_step O_null (dispose_step O_destroy (timer_state False True S_callback O_destroy)))))"
    using timer_reach_intros(2) [OF 11] by (simp add: timer_state_def)
  then show ?thesis by (intro exI conjI) (assumption, simp add: timer_state_def)
qed

text \<open>A callback that destroys its own timer waits for itself: \<open>dispose\<close> never gets behind its loop.\<close>

lemma inside_inv:
  assumes "timer_reach env t" "inside env"
  shows "(tm_owner t \<in> {O_check, O_stop, O_poll} \<longrightarrow> tm_service t = S_callback) \<and> (tm_service t = S_callback \<longrightarrow> tm_running t) \<and>
    (tm_owner t = O_use \<or> tm_handle t \<and> tm_owner t \<in> {O_check, O_stop, O_poll} \<or> \<not> tm_handle t)"
  using assms(1)
proof induction
  case (created c) then show ?case by (simp add: timer_new_def)
next
  case (step t t')
  from step.hyps(2) show ?case
  proof cases
    case service then show ?thesis using step.IH assms(2) by (cases "tm_service t") auto
  next
    case dispose then show ?thesis using step.IH assms(2) by (cases "tm_owner t") (auto simp: owner_runs_def)
  qed (use step.IH in auto)
qed

lemma dispose_in_callback_waits:
  assumes "timer_reach env t" "inside env" "tm_handle t"
  shows "tm_owner t \<in> {O_use, O_check, O_stop, O_poll}"
  using inside_inv [OF assms(1,2)] assms(3) by auto

end
