(* ===== verification/Threads.thy ===== *)
theory Threads
  imports Prelude
begin

text \<open>
  The class \<open>Thread\<close> (\<open>wiring/inc/spark_wiring_thread.h\<close>): an object that owns a thread of the operating system and,
  for a callable object, the copy of it that the thread executes.  The new thread gets a pointer to the \<open>Thread\<close> object, so
  that what is modelled is who uses which object when: objects and copies are in memory, the threads and the
  operations on the objects interleave in any order.
\<close>

section \<open>Objects and threads\<close>

text \<open>The function of a thread: a pointer with its argument, possibly null, or a callable object, possibly empty.\<close>

datatype 'f thread_fn = Plain "'f option" | Callable "'f option"

fun fn_of :: "'f thread_fn \<Rightarrow> 'f option" where
  "fn_of (Plain f) = f"
| "fn_of (Callable f) = f"

record 'f thread_obj =
  th_handle :: "nat option"
  th_wrapper :: "nat option"
  th_func :: "'f option"
  th_exited :: bool

text \<open>
  Where a thread is in \<open>run\<close>.  \<open>os_fn\<close>, the function the thread was created for, and \<open>os_cancelled\<close> are not in the code.
\<close>

datatype 'f run_pc = Run_start | Run_in 'f "nat option" | Run_mark | Run_exit | Run_ended

record 'f os_thread =
  os_param :: nat
  os_pc :: "'f run_pc"
  os_cleaned :: bool
  os_fn :: "'f option"
  os_cancelled :: bool

record 'f threads =
  t_objs :: "nat \<Rightarrow> 'f thread_obj option"
  t_wrappers :: "nat \<Rightarrow> 'f option"
  t_threads :: "nat \<Rightarrow> 'f os_thread option"
  t_log :: "(nat \<times> 'f) list"
  t_fault :: bool

definition no_threads :: "'f threads" where
  "no_threads = \<lparr>t_objs = \<lambda>a. None, t_wrappers = \<lambda>w. None, t_threads = \<lambda>h. None, t_log = [], t_fault = False\<rparr>"

definition empty_thread_obj :: "'f thread_obj" where
  "empty_thread_obj = \<lparr>th_handle = None, th_wrapper = None, th_func = None, th_exited = False\<rparr>"

section \<open>Operations\<close>

text \<open>
  The constructors: \<open>w\<close> and \<open>h\<close> are the memory and the handle that \<open>new\<close> and \<open>os_thread_create\<close> return, \<open>None\<close> for a thread that
  could not be created.
\<close>

definition set_obj :: "nat \<Rightarrow> 'f thread_obj \<Rightarrow> 'f threads \<Rightarrow> 'f threads" where
  "set_obj a ob s = s\<lparr>t_objs := (t_objs s)(a \<mapsto> ob)\<rparr>"

definition os_thread_create :: "nat option \<Rightarrow> nat \<Rightarrow> 'f option \<Rightarrow> 'f threads \<Rightarrow> 'f threads" where
  "os_thread_create h a f s = (case h of None \<Rightarrow> s | Some n \<Rightarrow>
     s\<lparr>t_threads := (t_threads s)(n \<mapsto> \<lparr>os_param = a, os_pc = Run_start, os_cleaned = False, os_fn = f, os_cancelled = False\<rparr>)\<rparr>)"

definition thread_new :: "nat \<Rightarrow> 'f thread_fn \<Rightarrow> nat \<Rightarrow> nat option \<Rightarrow> 'f threads \<Rightarrow> 'f threads" where
  "thread_new a fn w h s = (case fn of
       Plain f \<Rightarrow> os_thread_create h a f (set_obj a (empty_thread_obj\<lparr>th_func := f, th_handle := h\<rparr>) s)
     | Callable None \<Rightarrow> set_obj a empty_thread_obj s
     | Callable (Some f) \<Rightarrow> os_thread_create h a (Some f)
         (set_obj a (empty_thread_obj\<lparr>th_wrapper := Some w, th_handle := h\<rparr>) (s\<lparr>t_wrappers := (t_wrappers s)(w \<mapsto> f)\<rparr>)))"

text \<open>\<open>dispose\<close> waits for the thread unless it has marked itself as exited; \<open>None\<close> is a call that still waits.\<close>

definition thread_dispose :: "bool \<Rightarrow> nat \<Rightarrow> 'f threads \<Rightarrow> 'f threads option" where
  "thread_dispose current a s = (case t_objs s a of None \<Rightarrow> Some (s\<lparr>t_fault := True\<rparr>)
     | Some ob \<Rightarrow> (case th_handle ob of None \<Rightarrow> Some s
       | Some h \<Rightarrow> if current then Some s
           else case t_threads s h of None \<Rightarrow> Some (s\<lparr>t_fault := True\<rparr>)
           | Some t \<Rightarrow> if \<not> th_exited ob \<and> os_pc t \<noteq> Run_ended then None
               else Some (s\<lparr>t_wrappers := (case th_wrapper ob of None \<Rightarrow> t_wrappers s | Some w \<Rightarrow> (t_wrappers s)(w := None)),
                 t_threads := (t_threads s)(h \<mapsto> t\<lparr>os_cleaned := True\<rparr>),
                 t_objs := (t_objs s)(a \<mapsto> ob\<lparr>th_handle := None, th_wrapper := None\<rparr>)\<rparr>)))"

definition thread_delete :: "bool \<Rightarrow> nat \<Rightarrow> 'f threads \<Rightarrow> 'f threads" where
  "thread_delete current a s = (case thread_dispose current a s of None \<Rightarrow> s
     | Some s' \<Rightarrow> s'\<lparr>t_objs := (t_objs s')(a := None)\<rparr>)"

definition thread_cancel :: "nat \<Rightarrow> 'f threads \<Rightarrow> 'f threads" where
  "thread_cancel a s = (case t_objs s a of None \<Rightarrow> s\<lparr>t_fault := True\<rparr>
     | Some ob \<Rightarrow> (case th_handle ob of None \<Rightarrow> s
       | Some h \<Rightarrow> (case t_threads s h of None \<Rightarrow> s\<lparr>t_fault := True\<rparr>
         | Some t \<Rightarrow> s\<lparr>t_threads := (t_threads s)(h \<mapsto> t\<lparr>os_pc := Run_ended, os_cancelled := True\<rparr>)\<rparr>)))"

text \<open>The assignment takes handle and copy from the other object, but the thread keeps its pointer to that object.\<close>

definition thread_assign :: "nat \<Rightarrow> nat \<Rightarrow> 'f threads \<Rightarrow> 'f threads" where
  "thread_assign a b s = (if a = b then s else case (t_objs s a, t_objs s b) of
       (Some _, Some rhs) \<Rightarrow> set_obj b (rhs\<lparr>th_handle := None, th_wrapper := None\<rparr>) (set_obj a rhs s)
     | _ \<Rightarrow> s\<lparr>t_fault := True\<rparr>)"

text \<open>One action of the thread \<open>h\<close> in \<open>run\<close>.\<close>

definition set_pc :: "nat \<Rightarrow> 'f os_thread \<Rightarrow> 'f run_pc \<Rightarrow> 'f threads \<Rightarrow> 'f threads" where
  "set_pc h t p s = s\<lparr>t_threads := (t_threads s)(h \<mapsto> t\<lparr>os_pc := p\<rparr>)\<rparr>"

definition enter :: "nat \<Rightarrow> 'f os_thread \<Rightarrow> 'f \<Rightarrow> nat option \<Rightarrow> 'f threads \<Rightarrow> 'f threads" where
  "enter h t f w s = (set_pc h t (Run_in f w) s)\<lparr>t_log := t_log s @ [(h, f)]\<rparr>"

definition run_start :: "nat \<Rightarrow> 'f os_thread \<Rightarrow> 'f threads \<Rightarrow> 'f threads" where
  "run_start h t s = (case t_objs s (os_param t) of None \<Rightarrow> s\<lparr>t_fault := True\<rparr>
     | Some ob \<Rightarrow> (case th_func ob of Some f \<Rightarrow> enter h t f None s
       | None \<Rightarrow> (case th_wrapper ob of None \<Rightarrow> set_pc h t Run_mark s
         | Some w \<Rightarrow> (case t_wrappers s w of None \<Rightarrow> s\<lparr>t_fault := True\<rparr> | Some f \<Rightarrow> enter h t f (Some w) s))))"

definition run_mark :: "nat \<Rightarrow> 'f os_thread \<Rightarrow> 'f threads \<Rightarrow> 'f threads" where
  "run_mark h t s = (case t_objs s (os_param t) of None \<Rightarrow> s\<lparr>t_fault := True\<rparr>
     | Some ob \<Rightarrow> set_pc h t Run_exit (set_obj (os_param t) (ob\<lparr>th_exited := True\<rparr>) s))"

definition thread_run :: "nat \<Rightarrow> 'f threads \<Rightarrow> 'f threads" where
  "thread_run h s = (case t_threads s h of None \<Rightarrow> s | Some t \<Rightarrow> (case os_pc t of
       Run_start \<Rightarrow> run_start h t s
     | Run_in f w \<Rightarrow> (case w of Some v \<Rightarrow> if t_wrappers s v = None then s\<lparr>t_fault := True\<rparr> else set_pc h t Run_mark s
         | None \<Rightarrow> set_pc h t Run_mark s)
     | Run_mark \<Rightarrow> run_mark h t s
     | Run_exit \<Rightarrow> set_pc h t Run_ended s
     | Run_ended \<Rightarrow> s))"

section \<open>Runs\<close>

datatype 'f thread_event = New nat "'f thread_fn" nat "nat option" | Delete bool nat | Cancel nat | Assign nat nat | Run nat

fun thread_step :: "'f thread_event \<Rightarrow> 'f threads \<Rightarrow> 'f threads" where
  "thread_step (New a fn w h) s = (if t_objs s a \<noteq> None \<or> t_wrappers s w \<noteq> None \<or> (\<exists>n. h = Some n \<and> t_threads s n \<noteq> None)
     then s else thread_new a fn w h s)"
| "thread_step (Delete current a) s = (if t_objs s a = None then s else thread_delete current a s)"
| "thread_step (Cancel a) s = (if t_objs s a = None then s else thread_cancel a s)"
| "thread_step (Assign a b) s = (if t_objs s a = None \<or> t_objs s b = None then s else thread_assign a b s)"
| "thread_step (Run h) s = thread_run h s"

definition threads_run :: "'f thread_event list \<Rightarrow> 'f threads \<Rightarrow> 'f threads" where
  "threads_run es s = fold thread_step es s"

text \<open>Objects are not assigned and no thread destroys its own object.\<close>

fun keeps_objects :: "'f thread_event \<Rightarrow> bool" where
  "keeps_objects (Assign a b) = False"
| "keeps_objects (Delete current a) = (\<not> current)"
| "keeps_objects _ = True"


section \<open>The invariant\<close>

definition runs_of :: "'f threads \<Rightarrow> nat \<Rightarrow> 'f list" where
  "runs_of s h = map snd (filter (\<lambda>e. fst e = h) (t_log s))"

definition once :: "'f option \<Rightarrow> 'f list" where
  "once f = (case f of None \<Rightarrow> [] | Some g \<Rightarrow> [g])"

text \<open>A thread that still needs its object finds it, with its own handle and the copy of its function.\<close>

definition owned :: "'f threads \<Rightarrow> nat \<Rightarrow> 'f os_thread \<Rightarrow> ('f thread_obj \<Rightarrow> bool) \<Rightarrow> bool" where
  "owned s h t P \<longleftrightarrow> \<not> os_cleaned t \<and>
     (\<exists>ob. t_objs s (os_param t) = Some ob \<and> th_handle ob = Some h \<and> \<not> th_exited ob \<and> P ob)"

definition has_function :: "'f threads \<Rightarrow> 'f option \<Rightarrow> 'f thread_obj \<Rightarrow> bool" where
  "has_function s f ob \<longleftrightarrow> (if th_wrapper ob = None then th_func ob = f
     else th_func ob = None \<and> f \<noteq> None \<and> t_wrappers s (the (th_wrapper ob)) = f)"

definition thread_ok :: "'f threads \<Rightarrow> nat \<Rightarrow> 'f os_thread \<Rightarrow> bool" where
  "thread_ok s h t \<longleftrightarrow> (case os_pc t of
       Run_start \<Rightarrow> runs_of s h = [] \<and> owned s h t (has_function s (os_fn t))
     | Run_in f w \<Rightarrow> runs_of s h = [f] \<and> os_fn t = Some f \<and> owned s h t (\<lambda>ob. \<forall>v. w = Some v \<longrightarrow> th_wrapper ob = Some v)
     | Run_mark \<Rightarrow> runs_of s h = once (os_fn t) \<and> owned s h t (\<lambda>ob. True)
     | Run_exit \<Rightarrow> runs_of s h = once (os_fn t)
     | Run_ended \<Rightarrow> runs_of s h = once (os_fn t) \<or> os_cancelled t \<and> runs_of s h = [])"

definition object_ok :: "'f threads \<Rightarrow> nat \<Rightarrow> 'f thread_obj \<Rightarrow> bool" where
  "object_ok s a ob \<longleftrightarrow> (\<forall>h. th_handle ob = Some h \<longrightarrow> (\<exists>t. t_threads s h = Some t \<and> os_param t = a)) \<and>
     (\<forall>w. th_wrapper ob = Some w \<longrightarrow> t_wrappers s w \<noteq> None)"

definition threads_inv :: "'f threads \<Rightarrow> bool" where
  "threads_inv s \<longleftrightarrow> \<not> t_fault s \<and> (\<forall>h t. t_threads s h = Some t \<longrightarrow> thread_ok s h t) \<and>
     (\<forall>a ob. t_objs s a = Some ob \<longrightarrow> object_ok s a ob) \<and>
     (\<forall>a b oa ob w. t_objs s a = Some oa \<longrightarrow> t_objs s b = Some ob \<longrightarrow> th_wrapper oa = Some w \<longrightarrow> th_wrapper ob = Some w \<longrightarrow> a = b) \<and>
     (\<forall>h. t_threads s h = None \<longrightarrow> runs_of s h = [])"

lemma threads_invD:
  assumes "threads_inv s"
  shows "\<not> t_fault s" "t_threads s h = Some t \<Longrightarrow> thread_ok s h t" "t_objs s a = Some ob \<Longrightarrow> object_ok s a ob"
    "t_objs s a = Some oa \<Longrightarrow> t_objs s b = Some ob \<Longrightarrow> th_wrapper oa = Some w \<Longrightarrow> th_wrapper ob = Some w \<Longrightarrow> a = b"
    "t_threads s h = None \<Longrightarrow> runs_of s h = []"
  using assms unfolding threads_inv_def by blast+

lemma threads_inv_init: "threads_inv no_threads"
  by (simp add: threads_inv_def no_threads_def runs_of_def)

text \<open>A thread other than the one that moves keeps its object.\<close>

lemma thread_ok_frame:
  assumes ok: "thread_ok s h t" and log: "runs_of s' h = runs_of s h"
    and obj: "\<And>ob. t_objs s (os_param t) = Some ob \<Longrightarrow> th_handle ob = Some h \<Longrightarrow> \<not> th_exited ob \<Longrightarrow>
      os_pc t \<notin> {Run_exit, Run_ended} \<Longrightarrow> t_objs s' (os_param t) = Some ob \<and>
      (\<forall>w. th_wrapper ob = Some w \<longrightarrow> t_wrappers s' w = t_wrappers s w)"
  shows "thread_ok s' h t"
proof -
  have own: "owned s' h t P" if "owned s h t P" "os_pc t \<notin> {Run_exit, Run_ended}" for P
    using that obj unfolding owned_def by fastforce
  show ?thesis
  proof (cases "os_pc t")
    case Run_start
    from ok obtain ob where ob: "t_objs s (os_param t) = Some ob" "th_handle ob = Some h" "\<not> th_exited ob" "has_function s (os_fn t) ob"
      "\<not> os_cleaned t" by (auto simp: thread_ok_def Run_start owned_def)
    then have "has_function s' (os_fn t) ob" using obj [OF ob(1-3)] Run_start by (auto simp: has_function_def)
    then show ?thesis using ok ob obj [OF ob(1-3)] Run_start by (simp add: thread_ok_def owned_def log)
  qed (use ok own in \<open>simp_all add: thread_ok_def log\<close>)
qed

lemma runs_of_cong: "t_log s' = t_log s \<Longrightarrow> runs_of s' h = runs_of s h"
  by (simp add: runs_of_def)

lemma thread_okE:
  assumes "threads_inv s" "t_threads s h = Some t"
  obtains "os_pc t \<in> {Run_exit, Run_ended}"
  | ob where "t_objs s (os_param t) = Some ob" "th_handle ob = Some h" "\<not> th_exited ob" "\<not> os_cleaned t"
  using threads_invD(2) [OF assms] unfolding thread_ok_def owned_def by (cases "os_pc t") auto


lemma threads_inv_move:
  assumes inv: "threads_inv s" and t: "t_threads s h = Some t" "os_param t' = os_param t"
    and s': "t_threads s' = (t_threads s)(h \<mapsto> t')" "t_wrappers s' = t_wrappers s" "\<not> t_fault s'"
    and objs: "t_objs s' = t_objs s \<or> (\<exists>ob. t_objs s (os_param t) = Some ob \<and> th_handle ob = Some h \<and>
      t_objs s' = (t_objs s)(os_param t \<mapsto> ob\<lparr>th_exited := True\<rparr>))"
    and log: "\<And>h'. h' \<noteq> h \<Longrightarrow> runs_of s' h' = runs_of s h'" and ok: "thread_ok s' h t'"
  shows "threads_inv s'"
proof -
  have "thread_ok s' j u" if u: "t_threads s j = Some u" "j \<noteq> h" for j u
    by (rule thread_ok_frame [OF threads_invD(2) [OF inv u(1)] log [OF u(2)]]) (use objs u s' in \<open>auto split: if_splits\<close>)
  moreover have "\<exists>ob. t_objs s a = Some ob \<and> th_handle ob' = th_handle ob \<and> th_wrapper ob' = th_wrapper ob"
    if "t_objs s' a = Some ob'" for a ob' using that objs by (auto split: if_splits)
  note old = this
  have "object_ok s' a ob'" if a: "t_objs s' a = Some ob'" for a ob'
  proof -
    obtain ob where ob: "t_objs s a = Some ob" "th_handle ob' = th_handle ob" "th_wrapper ob' = th_wrapper ob" using old [OF a] by blast
    then show ?thesis using threads_invD(3) [OF inv ob(1)] s' t by (auto simp: object_ok_def)
  qed
  moreover have "a = b" if "t_objs s' a = Some oa" "t_objs s' b = Some ob" "th_wrapper oa = Some w" "th_wrapper ob = Some w" for a b oa ob w
    using old [OF that(1)] old [OF that(2)] that threads_invD(4) [OF inv] by metis
  ultimately show ?thesis using ok s' log t threads_invD(5) [OF inv] unfolding threads_inv_def by auto
qed

lemma owned_elim:
  assumes "owned s h t P"
  obtains ob where "t_objs s (os_param t) = Some ob" "th_handle ob = Some h" "\<not> th_exited ob" "P ob" "\<not> os_cleaned t"
  using assms by (auto simp: owned_def)

lemma inv_enter:
  assumes inv: "threads_inv s" and t: "t_threads s h = Some t" "os_pc t = Run_start"
    and own: "t_objs s (os_param t) = Some ob" "th_handle ob = Some h" "\<not> th_exited ob" "\<not> os_cleaned t"
    and f: "os_fn t = Some f" "\<And>v. w = Some v \<Longrightarrow> th_wrapper ob = Some v"
  shows "threads_inv (enter h t f w s)"
proof (rule threads_inv_move [OF inv t(1)])
  have r: "runs_of s h = []" using threads_invD(2) [OF inv t(1)] t(2) by (simp add: thread_ok_def)
  show "thread_ok (enter h t f w s) h (t\<lparr>os_pc := Run_in f w\<rparr>)"
    using own f r by (simp add: thread_ok_def owned_def enter_def set_pc_def runs_of_def)
qed (use threads_invD(1) [OF inv] in \<open>simp_all add: enter_def set_pc_def runs_of_def\<close>)

lemma inv_set_pc:
  assumes inv: "threads_inv s" and t: "t_threads s h = Some t" and ok: "thread_ok s h (t\<lparr>os_pc := p\<rparr>)"
  shows "threads_inv (set_pc h t p s)"
proof (rule threads_inv_move [OF inv t])
  show "thread_ok (set_pc h t p s) h (t\<lparr>os_pc := p\<rparr>)"
    by (rule thread_ok_frame [OF ok]) (auto simp: set_pc_def runs_of_def)
qed (use threads_invD(1) [OF inv] in \<open>simp_all add: set_pc_def runs_of_def\<close>)

lemma inv_run_start:
  assumes inv: "threads_inv s" and t: "t_threads s h = Some t" "os_pc t = Run_start"
  shows "threads_inv (run_start h t s)"
proof -
  have ok: "runs_of s h = []" "owned s h t (has_function s (os_fn t))"
    using threads_invD(2) [OF inv t(1)] t(2) by (simp_all add: thread_ok_def)
  from ok(2) obtain ob where ob: "t_objs s (os_param t) = Some ob" "th_handle ob = Some h" "\<not> th_exited ob"
    "has_function s (os_fn t) ob" "\<not> os_cleaned t" by (rule owned_elim)
  note enter = inv_enter [OF inv t ob(1-3,5)]
  show ?thesis
  proof (cases "th_func ob")
    case (Some f)
    then have "os_fn t = Some f" using ob(4) by (auto simp: has_function_def split: if_splits)
    then show ?thesis using enter [of f None] Some ob(1) by (simp add: run_start_def)
  next
    case None
    show ?thesis
    proof (cases "th_wrapper ob")
      case wn: None
      then have "os_fn t = None" using ob(4) None by (simp add: has_function_def)
      then have "threads_inv (set_pc h t Run_mark s)"
        by (intro inv_set_pc [OF inv t(1)]) (use ok ob in \<open>simp add: thread_ok_def once_def owned_def\<close>)
      then show ?thesis using None wn ob(1) by (simp add: run_start_def)
    next
      case (Some w)
      then obtain f where "t_wrappers s w = Some f" "os_fn t = Some f" using ob(4) by (auto simp: has_function_def)
      then show ?thesis using enter [of f "Some w"] Some None ob(1) by (simp add: run_start_def)
    qed
  qed
qed

lemma inv_run_mark:
  assumes inv: "threads_inv s" and t: "t_threads s h = Some t" "os_pc t = Run_mark"
  shows "threads_inv (run_mark h t s)"
proof -
  have ok: "runs_of s h = once (os_fn t)" "owned s h t (\<lambda>ob. True)"
    using threads_invD(2) [OF inv t(1)] t(2) by (simp_all add: thread_ok_def)
  from ok(2) obtain ob where ob: "t_objs s (os_param t) = Some ob" "th_handle ob = Some h" by (rule owned_elim)
  have "threads_inv (set_pc h t Run_exit (set_obj (os_param t) (ob\<lparr>th_exited := True\<rparr>) s))"
    by (rule threads_inv_move [OF inv t(1), where t' = "t\<lparr>os_pc := Run_exit\<rparr>"])
      (use ob ok(1) threads_invD(1) [OF inv] in \<open>simp_all add: set_pc_def set_obj_def runs_of_def thread_ok_def\<close>)
  then show ?thesis using ob by (simp add: run_mark_def)
qed

lemma inv_thread_run:
  assumes inv: "threads_inv s"
  shows "threads_inv (thread_run h s)"
proof (cases "t_threads s h")
  case None then show ?thesis using inv by (simp add: thread_run_def)
next
  case (Some t)
  note ok = threads_invD(2) [OF inv Some]
  show ?thesis
  proof (cases "os_pc t")
    case Run_start then show ?thesis using inv_run_start [OF inv Some] Some by (simp add: thread_run_def)
  next
    case (Run_in f w)
    from ok Run_in have own: "owned s h t (\<lambda>ob. \<forall>v. w = Some v \<longrightarrow> th_wrapper ob = Some v)" "runs_of s h = once (os_fn t)"
      by (auto simp: thread_ok_def once_def)
    from own(1) obtain ob where ob: "t_objs s (os_param t) = Some ob" "\<forall>v. w = Some v \<longrightarrow> th_wrapper ob = Some v" "th_handle ob = Some h"
      "\<not> th_exited ob" "\<not> os_cleaned t" by (auto elim: owned_elim)
    have "threads_inv (set_pc h t Run_mark s)"
      by (rule inv_set_pc [OF inv Some]) (use ob own in \<open>simp add: thread_ok_def owned_def\<close>)
    moreover have "t_wrappers s v \<noteq> None" if "w = Some v" for v
      using threads_invD(3) [OF inv ob(1)] ob(2) that by (simp add: object_ok_def)
    ultimately show ?thesis using Some Run_in by (auto simp: thread_run_def split: option.split)
  next
    case Run_mark then show ?thesis using inv_run_mark [OF inv Some] Some by (simp add: thread_run_def)
  next
    case Run_exit
    have "threads_inv (set_pc h t Run_ended s)"
      by (rule inv_set_pc [OF inv Some]) (use ok Run_exit in \<open>simp add: thread_ok_def\<close>)
    then show ?thesis using Some Run_exit by (simp add: thread_run_def)
  next
    case Run_ended then show ?thesis using inv Some by (simp add: thread_run_def)
  qed
qed


definition new_obj :: "'f thread_fn \<Rightarrow> nat \<Rightarrow> nat option \<Rightarrow> 'f thread_obj" where
  "new_obj fn w h = (case fn of Plain f \<Rightarrow> empty_thread_obj\<lparr>th_func := f, th_handle := h\<rparr> | Callable None \<Rightarrow> empty_thread_obj
     | Callable (Some f) \<Rightarrow> empty_thread_obj\<lparr>th_wrapper := Some w, th_handle := h\<rparr>)"

definition new_wrappers :: "'f thread_fn \<Rightarrow> nat \<Rightarrow> (nat \<Rightarrow> 'f option) \<Rightarrow> nat \<Rightarrow> 'f option" where
  "new_wrappers fn w ws = (case fn of Callable (Some f) \<Rightarrow> ws(w \<mapsto> f) | _ \<Rightarrow> ws)"

definition new_handle :: "'f thread_fn \<Rightarrow> nat option \<Rightarrow> nat option" where
  "new_handle fn h = (case fn of Callable None \<Rightarrow> None | _ \<Rightarrow> h)"

lemma thread_new_result:
  "t_objs (thread_new a fn w h s) = (t_objs s)(a \<mapsto> new_obj fn w h)"
  "t_wrappers (thread_new a fn w h s) = new_wrappers fn w (t_wrappers s)"
  "t_log (thread_new a fn w h s) = t_log s" "t_fault (thread_new a fn w h s) = t_fault s"
  "th_exited (new_obj fn w h) = False" "th_handle (new_obj fn w h) = new_handle fn h"
  "t_threads (thread_new a fn w h s) = (case new_handle fn h of None \<Rightarrow> t_threads s
     | Some n \<Rightarrow> (t_threads s)(n \<mapsto> \<lparr>os_param = a, os_pc = Run_start, os_cleaned = False, os_fn = fn_of fn, os_cancelled = False\<rparr>))"
  by (auto simp: thread_new_def new_obj_def new_wrappers_def new_handle_def os_thread_create_def set_obj_def empty_thread_obj_def
      split: thread_fn.split option.split)

lemma new_obj_function:
  "has_function (thread_new a fn w h s) (fn_of fn) (new_obj fn w h)"
  "v \<noteq> w \<Longrightarrow> new_wrappers fn w ws v = ws v" "th_wrapper (new_obj fn w h) = Some v \<Longrightarrow> v = w \<and> new_wrappers fn w ws w \<noteq> None"
  by (auto simp: has_function_def thread_new_result(2) new_obj_def new_wrappers_def empty_thread_obj_def
      split: thread_fn.split option.split thread_fn.splits option.splits)

lemma inv_thread_new:
  assumes inv: "threads_inv s" and free: "t_objs s a = None" "t_wrappers s w = None" "\<And>n. h = Some n \<Longrightarrow> t_threads s n = None"
  shows "threads_inv (thread_new a fn w h s)" (is "threads_inv ?s")
proof -
  let ?ob = "new_obj fn w h" and ?ws = "new_wrappers fn w (t_wrappers s)"
  have ob: "t_objs ?s = (t_objs s)(a \<mapsto> ?ob)" "t_wrappers ?s = ?ws" "t_log ?s = t_log s" "\<not> t_fault ?s" "th_exited ?ob = False"
    using threads_invD(1) [OF inv] by (simp_all add: thread_new_result)
  have ws: "v \<noteq> w \<Longrightarrow> ?ws v = t_wrappers s v" "th_wrapper ?ob = Some v \<Longrightarrow> v = w \<and> ?ws w \<noteq> None" for v
    by (simp_all add: new_obj_function)
  have th: "t_threads ?s = t_threads s \<and> th_handle ?ob = None \<or> (\<exists>n. h = Some n \<and> th_handle ?ob = Some n \<and>
       t_threads ?s = (t_threads s)(n \<mapsto> \<lparr>os_param = a, os_pc = Run_start, os_cleaned = False, os_fn = fn_of fn, os_cancelled = False\<rparr>) \<and>
       has_function ?s (fn_of fn) ?ob)"
    unfolding thread_new_result(6,7) using new_obj_function(1) [of a fn w h s]
    by (auto simp: new_handle_def split: thread_fn.split option.split)
  have used: "v \<noteq> w" if "t_objs s b = Some o2" "th_wrapper o2 = Some v" for b o2 v
    using threads_invD(3) [OF inv that(1)] that(2) free(2) by (auto simp: object_ok_def)
  note log = runs_of_cong [OF ob(3)]
  have old: "thread_ok ?s j u" if u: "t_threads s j = Some u" for j u
    by (rule thread_ok_frame [OF threads_invD(2) [OF inv u] log]) (use free ob ws used in auto)
  have "thread_ok ?s j u" if u: "t_threads ?s j = Some u" for j u
  proof (cases "t_threads s j")
    case (Some u') then show ?thesis using old th u free(3) by (auto split: if_splits)
  next
    case None
    have "runs_of ?s j = []" using threads_invD(5) [OF inv None] by (simp add: log)
    then show ?thesis using th u ob None
      by (auto simp: thread_ok_def owned_def split: if_splits)
  qed
  moreover have "object_ok ?s b o2" if b: "t_objs ?s b = Some o2" for b o2
  proof (cases "b = a")
    case True then show ?thesis using b ob th ws by (auto simp: object_ok_def)
  next
    case False
    then have "t_objs s b = Some o2" using b ob by simp
    then show ?thesis using threads_invD(3) [OF inv] used th ob ws(1) free(3)
      by (force simp: object_ok_def)
  qed
  moreover have "b = c" if "t_objs ?s b = Some ob1" "t_objs ?s c = Some oc" "th_wrapper ob1 = Some v" "th_wrapper oc = Some v" for b c ob1 oc v
    using that ob(1) ws(2) used threads_invD(4) [OF inv] by (auto split: if_splits)
  ultimately show ?thesis using ob(4) th threads_invD(5) [OF inv] unfolding threads_inv_def log by (auto split: if_splits)
qed

lemma inv_thread_cancel:
  assumes inv: "threads_inv s"
  shows "threads_inv (if t_objs s a = None then s else thread_cancel a s)"
proof (cases "t_objs s a")
  case None then show ?thesis using inv by simp
next
  case (Some ob)
  show ?thesis
  proof (cases "th_handle ob")
    case None then show ?thesis using inv Some by (simp add: thread_cancel_def)
  next
    case h: (Some h)
    then obtain t where t: "t_threads s h = Some t" using threads_invD(3) [OF inv Some] by (auto simp: object_ok_def)
    let ?t = "t\<lparr>os_pc := Run_ended, os_cancelled := True\<rparr>"
    let ?s = "s\<lparr>t_threads := (t_threads s)(h \<mapsto> ?t)\<rparr>"
    have "runs_of s h = [] \<or> runs_of s h = once (os_fn t)"
      using threads_invD(2) [OF inv t] by (auto simp: thread_ok_def once_def split: run_pc.splits)
    then have "threads_inv ?s"
      by (intro threads_inv_move [OF inv t, of ?t]) (use threads_invD(1) [OF inv] in \<open>auto simp: runs_of_def thread_ok_def\<close>)
    then show ?thesis using Some h t by (simp add: thread_cancel_def)
  qed
qed

lemma inv_thread_delete:
  assumes inv: "threads_inv s"
  shows "threads_inv (if t_objs s a = None then s else thread_delete False a s)"
proof (cases "t_objs s a")
  case None then show ?thesis using inv by simp
next
  case (Some ob)
  show ?thesis
  proof (cases "th_handle ob")
    case None
    let ?s = "s\<lparr>t_objs := (t_objs s)(a := None)\<rparr>"
    have log: "runs_of ?s h = runs_of s h" for h by (simp add: runs_of_def)
    have "thread_ok ?s j u" if "t_threads s j = Some u" for j u
      by (rule thread_ok_frame [OF threads_invD(2) [OF inv that] log]) (use Some None in auto)
    moreover have "object_ok ?s b o2 = object_ok s b o2" for b o2 by (simp add: object_ok_def)
    ultimately have "threads_inv ?s" using inv unfolding threads_inv_def log by (auto split: if_splits)
    then show ?thesis using Some None by (simp add: thread_delete_def thread_dispose_def)
  next
    case h: (Some h)
    then obtain t where t: "t_threads s h = Some t" "os_param t = a" using threads_invD(3) [OF inv Some] by (auto simp: object_ok_def)
    show ?thesis
    proof (cases "\<not> th_exited ob \<and> os_pc t \<noteq> Run_ended")
      case True then show ?thesis using inv Some h t by (simp add: thread_delete_def thread_dispose_def)
    next
      case False
      let ?s = "s\<lparr>t_wrappers := (case th_wrapper ob of None \<Rightarrow> t_wrappers s | Some w \<Rightarrow> (t_wrappers s)(w := None)),
        t_threads := (t_threads s)(h \<mapsto> t\<lparr>os_cleaned := True\<rparr>), t_objs := (t_objs s)(a := None)\<rparr>"
      have finished: "os_pc t \<in> {Run_exit, Run_ended}"
        using False threads_invD(2) [OF inv t(1)] t(2) Some by (auto simp: thread_ok_def owned_def split: run_pc.splits)
      have log: "runs_of ?s j = runs_of s j" for j by (simp add: runs_of_def)
      have other: "t_wrappers ?s w = t_wrappers s w" if "t_objs s b = Some o2" "th_wrapper o2 = Some w" "b \<noteq> a" for b o2 w
        using threads_invD(4) [OF inv Some that(1) _ that(2)] that(3) by (auto split: option.split)
      have ok: "thread_ok ?s j u" if u: "t_threads s j = Some u" "j \<noteq> h" for j u
        by (rule thread_ok_frame [OF threads_invD(2) [OF inv u(1)] log]) (use Some h u(2) other in fastforce)
      moreover have "thread_ok ?s h (t\<lparr>os_cleaned := True\<rparr>)"
        using finished threads_invD(2) [OF inv t(1)] by (auto simp: thread_ok_def log)
      moreover have "object_ok ?s b o2" if b: "t_objs ?s b = Some o2" for b o2
      proof -
        have b': "t_objs s b = Some o2" "b \<noteq> a" using b by (auto split: if_splits)
        then show ?thesis using threads_invD(3) [OF inv b'(1)] t other by (fastforce simp: object_ok_def)
      qed
      ultimately have "threads_inv ?s"
        using inv t(1) unfolding threads_inv_def log by (auto split: if_splits)
      then show ?thesis using Some h t False by (auto simp: thread_delete_def thread_dispose_def)
    qed
  qed
qed

lemma threads_inv_step: "threads_inv s \<Longrightarrow> keeps_objects e \<Longrightarrow> threads_inv (thread_step e s)"
  by (cases e) (auto simp: inv_thread_run inv_thread_new inv_thread_cancel inv_thread_delete split: if_splits
      intro: inv_thread_new inv_thread_run dest: inv_thread_cancel inv_thread_delete)

lemma threads_inv_run: "threads_inv s \<Longrightarrow> list_all keeps_objects es \<Longrightarrow> threads_inv (threads_run es s)"
  by (induction es arbitrary: s) (simp_all add: threads_run_def threads_inv_step)


section \<open>Properties\<close>

definition has_owner :: "'f threads \<Rightarrow> nat \<Rightarrow> 'f os_thread \<Rightarrow> bool" where
  "has_owner s h t \<longleftrightarrow> (\<exists>ob. t_objs s (os_param t) = Some ob \<and> th_handle ob = Some h)"

definition executed_once :: "'f threads \<Rightarrow> nat \<Rightarrow> 'f os_thread \<Rightarrow> bool" where
  "executed_once s h t \<longleftrightarrow> (if has_owner s h t then runs_of s h = [] \<or> runs_of s h = once (os_fn t)
     else os_pc t \<in> {Run_exit, Run_ended} \<and> (runs_of s h = once (os_fn t) \<or> os_cancelled t \<and> runs_of s h = []))"

text \<open>
  C32: As long as no object is assigned from and none is destroyed by its own thread, threads that are created, cancelled and destroyed in any
  interleaving never use an object or a copy of a function that does not exist, each thread executes at most once the function
  it was created for, and when its object is gone it has executed the function, or was cancelled before.
\<close>

theorem thread_destruction_safe:
  assumes "list_all keeps_objects es"
  shows "\<not> t_fault (threads_run es no_threads) \<and>
    (\<forall>h t. t_threads (threads_run es no_threads) h = Some t \<longrightarrow> executed_once (threads_run es no_threads) h t)"
proof -
  let ?s = "threads_run es no_threads"
  have inv: "threads_inv ?s" by (rule threads_inv_run [OF threads_inv_init assms])
  have "executed_once ?s h t" if t: "t_threads ?s h = Some t" for h t
    using threads_invD(2) [OF inv t]
    by (auto simp: executed_once_def has_owner_def thread_ok_def owned_def once_def split: run_pc.splits)
  then show ?thesis using threads_invD(1) [OF inv] by blast
qed

definition one_thread :: "nat thread_event list" where
  "one_thread = [New 0 (Callable (Some 5)) 9 (Some 1), Run 1, Delete False 0, Run 1, Run 1, Delete False 0, Run 1]"

lemmas threads_eval = threads_run_def no_threads_def thread_new_def os_thread_create_def set_obj_def empty_thread_obj_def
  thread_run_def run_start_def run_mark_def set_pc_def enter_def thread_delete_def thread_dispose_def thread_assign_def

lemma thread_destruction_safe_witness:
  "\<not> t_fault (threads_run one_thread no_threads) \<and> t_log (threads_run one_thread no_threads) = [(1, 5)] \<and>
   t_objs (threads_run one_thread no_threads) 0 = None"
proof -
  have "list_all keeps_objects one_thread" by (simp add: one_thread_def)
  then have "\<not> t_fault (threads_run one_thread no_threads)" by (rule thread_destruction_safe [THEN conjunct1])
  moreover have "t_log (threads_run one_thread no_threads) = [(1, 5)] \<and> t_objs (threads_run one_thread no_threads) 0 = None"
    by (simp add: one_thread_def threads_eval)
  ultimately show ?thesis by simp
qed

text \<open>
  An object that is assigned from before its thread has started takes the function away from it: the thread ends without executing
  anything.  When the object is also destroyed, as a temporary is, the thread uses an object that does not exist.
\<close>

lemma assigned_thread_skips_function:
  "t_log (threads_run [New 0 (Callable (Some 5)) 9 (Some 1), New 1 (Callable None) 8 None, Assign 1 0, Run 1, Run 1, Run 1] no_threads) = ([] :: (nat \<times> nat) list)"
  "t_fault (threads_run [New 0 (Plain (Some 5)) 9 (Some 1), New 1 (Callable None) 8 None, Assign 1 0, Delete False 0, Run 1] (no_threads :: nat threads))"
  by (simp_all add: threads_eval)

text \<open>A thread that has marked itself as exited but is still running may be cleaned up.\<close>

lemma cleaned_before_end:
  "map_option (\<lambda>t. (os_cleaned t, os_pc t)) (t_threads (threads_run [New 0 (Plain (Some 5)) 9 (Some 1), Run 1, Run 1, Run 1, Delete False 0]
     (no_threads :: nat threads)) 1) = Some (True, Run_exit)"
  by (simp add: threads_eval)

text \<open>A thread that destroys its own object marks it as exited afterwards.\<close>

lemma own_destruction_faults:
  "t_fault (threads_run [New 0 (Plain (Some 5)) 9 (Some 1), Run 1, Delete True 0, Run 1, Run 1] (no_threads :: nat threads))"
  by (simp add: threads_eval)

text \<open>When the thread cannot be created, the copy of the function is never released.\<close>

lemma failed_thread_leaks:
  "t_wrappers (threads_run [New 0 (Callable (Some 5)) 9 None, Delete False 0] no_threads) 9 = Some (5 :: nat)"
  by (simp add: threads_eval)

end
