(* ===== verification/Waiting.thy ===== *)
theory Waiting
  imports Prelude
begin

text \<open>
  Waiting for a condition (\<open>SystemClass::waitCondition\<close>, \<open>wiring/inc/spark_wiring_system.h\<close>).  The loop evaluates a condition and
  processes system events in between; both may change the state \<open>'e\<close> of the device.  The loop may not end, so that it is a partial
  function: \<open>None\<close> is a call that does not return.  \<open>millis()\<close> has 32 bits.
\<close>

partial_function (option) wait_loop ::
  "('e \<Rightarrow> bool \<times> 'e) \<Rightarrow> ('e \<Rightarrow> bool) \<Rightarrow> ('e \<Rightarrow> 'e) \<Rightarrow> 'e \<Rightarrow> 'e option" where
  "wait_loop cond while process s = (if \<not> while s then Some s
     else case cond s of (c, s1) \<Rightarrow> if c then Some s1 else wait_loop cond while process (process s1))"

definition waitConditionWhile :: "('e \<Rightarrow> bool \<times> 'e) \<Rightarrow> ('e \<Rightarrow> bool) \<Rightarrow> ('e \<Rightarrow> 'e) \<Rightarrow> 'e \<Rightarrow> (bool \<times> 'e) option" where
  "waitConditionWhile cond while process s = map_option cond (wait_loop cond while process s)"

definition waitCondition :: "('e \<Rightarrow> bool \<times> 'e) \<Rightarrow> ('e \<Rightarrow> 'e) \<Rightarrow> 'e \<Rightarrow> (bool \<times> 'e) option" where
  "waitCondition cond process s = waitConditionWhile cond (\<lambda>s. True) process s"


text \<open>\<open>ticksDelay\<close>: waiting for a number of processor ticks; \<open>step\<close> is what happens between two readings of the counter.\<close>

partial_function (option) ticks_loop :: "('e \<Rightarrow> u32) \<Rightarrow> ('e \<Rightarrow> 'e) \<Rightarrow> u32 \<Rightarrow> u32 \<Rightarrow> 'e \<Rightarrow> 'e option" where
  "ticks_loop ticks step start duration s = (if ticks s - start < duration then ticks_loop ticks step start duration (step s) else Some s)"

definition ticksDelay :: "('e \<Rightarrow> u32) \<Rightarrow> ('e \<Rightarrow> 'e) \<Rightarrow> u32 \<Rightarrow> 'e \<Rightarrow> 'e option" where
  "ticksDelay ticks step duration s = ticks_loop ticks step (ticks s) duration s"

section \<open>Waiting ends\<close>

text \<open>
  The real time \<open>now\<close>, of which \<open>millis()\<close> shows the low 32 bits: evaluating the condition and processing events takes at most \<open>d\<close>
  milliseconds, and processing events at least one.
\<close>

definition clock_runs :: "('e \<Rightarrow> nat) \<Rightarrow> ('e \<Rightarrow> u32) \<Rightarrow> ('e \<Rightarrow> bool \<times> 'e) \<Rightarrow> ('e \<Rightarrow> 'e) \<Rightarrow> nat \<Rightarrow> bool" where
  "clock_runs now millis cond process d \<longleftrightarrow> (\<forall>s. millis s = of_nat (now s) \<and> now s \<le> now (snd (cond s)) \<and>
     now (snd (cond s)) < now (process (snd (cond s))) \<and> now (process (snd (cond s))) \<le> now s + d)"

lemma elapsed:
  assumes "a \<le> b" "b - a < 2 ^ 32"
  shows "unat ((of_nat b :: u32) - of_nat a) = b - a"
proof -
  have "(of_nat b :: u32) - of_nat a = of_nat (b - a)" using assms(1) by (simp add: of_nat_diff)
  then show ?thesis using assms(2) by (simp add: unat_of_nat_u32)
qed

lemma wait_loop_ends:
  assumes clock: "clock_runs now millis cond process d" and d: "unat timeout + d < 2 ^ 32"
    and s: "now s0 \<le> now s" "now s < now s0 + unat timeout + d"
  shows "\<exists>s'. wait_loop cond (\<lambda>s. millis s - millis s0 < timeout) process s = Some s' \<and> now s' \<le> now s0 + unat timeout + d"
  using s
proof (induction "now s0 + unat timeout - now s" arbitrary: s rule: less_induct)
  case less
  let ?w = "\<lambda>s. millis s - millis s0 < timeout"
  have m: "millis s = of_nat (now s)" "millis s0 = of_nat (now s0)" using clock by (simp_all add: clock_runs_def)
  have "unat (millis s - millis s0) = now s - now s0"
    unfolding m using less.prems d by (intro elapsed) auto
  then have w: "?w s \<longleftrightarrow> now s - now s0 < unat timeout" by (simp add: word_less_nat_alt)
  show ?case
  proof (cases "?w s")
    case False
    then show ?thesis using less.prems by (subst wait_loop.simps) simp
  next
    case True
    obtain c s1 where c: "cond s = (c, s1)" by fastforce
    have t: "now s \<le> now s1" "now s1 < now (process s1)" "now (process s1) \<le> now s + d"
      using clock [unfolded clock_runs_def, rule_format, of s] c by auto
    have "now s < now s0 + unat timeout" using True w less.prems by arith
    then have near: "now (process s1) < now s0 + unat timeout + d" using t by arith
    show ?thesis
    proof (cases c)
      case c': True
      have "wait_loop cond ?w process s = Some s1" using True c c' by (subst wait_loop.simps) simp
      then show ?thesis using t near by auto
    next
      case c': False
      have "wait_loop cond ?w process s = wait_loop cond ?w process (process s1)"
        using True c c' by (subst wait_loop.simps) simp
      moreover have "\<exists>s'. wait_loop cond ?w process (process s1) = Some s' \<and> now s' \<le> now s0 + unat timeout + d"
        by (rule less.hyps) (use t near less.prems \<open>now s < now s0 + unat timeout\<close> in arith)+
      ultimately show ?thesis by simp
    qed
  qed
qed



text \<open>Without a timeout the call returns only when the condition holds.\<close>

lemma wait_without_timeout_hangs:
  assumes "\<And>s. \<not> fst (cond s)"
  shows "waitCondition cond process s = None"
proof -
  have "w = (\<lambda>s. True) \<longrightarrow> c = cond \<longrightarrow> False" if "wait_loop c w p s = Some r" for c w p s r
    by (rule wait_loop.raw_induct [OF _ that, where P = "\<lambda>c w p s r. w = (\<lambda>s. True) \<longrightarrow> c = cond \<longrightarrow> False"])
      (use assms in \<open>auto split: if_splits prod.splits, metis fst_conv\<close>)
  from this [of cond "\<lambda>s. True" process s]
  show ?thesis by (cases "wait_loop cond (\<lambda>s. True) process s") (simp_all add: waitCondition_def waitConditionWhile_def)
qed

text \<open>A delay by processor ticks is the same loop without a condition.\<close>

lemma ticks_wait:
  assumes "wait_loop c w p s = Some r"
  shows "c = (\<lambda>s. (False, s)) \<longrightarrow> w = (\<lambda>s. ticks s - start < duration) \<longrightarrow> ticks_loop ticks p start duration s = Some r"
  by (rule wait_loop.raw_induct [OF _ assms, where P = "\<lambda>c w p s r. c = (\<lambda>s. (False, s)) \<longrightarrow> w = (\<lambda>s. ticks s - start < duration) \<longrightarrow>
      ticks_loop ticks p start duration s = Some r"])
    (subst ticks_loop.simps, auto split: if_splits)

lemma ticks_delay_ends:
  assumes "\<And>s. ticks s = of_nat (now s) \<and> now s < now (step s) \<and> now (step s) \<le> now s + d" "0 < d" "unat duration + d < 2 ^ 32"
  shows "\<exists>s'. ticksDelay ticks step duration s = Some s' \<and> now s' \<le> now s + unat duration + d"
proof -
  have "clock_runs now ticks (\<lambda>s. (False, s)) step d" using assms(1) by (simp add: clock_runs_def)
  from wait_loop_ends [OF this assms(3), of s s] obtain s' where
    "wait_loop (\<lambda>s. (False, s)) (\<lambda>s'. ticks s' - ticks s < duration) step s = Some s'" "now s' \<le> now s + unat duration + d"
    using assms(2) by auto
  with ticks_wait [OF this(1), of ticks "ticks s" duration] show ?thesis by (simp add: ticksDelay_def)
qed

end
