(* ===== verification/Text_Buffers.thy ===== *)
theory Text_Buffers
  imports Prelude
begin

text \<open>
  Writing text into buffers: the appenders of \<open>services/inc/appender.h\<close> and the hexadecimal digits of
  \<open>services/inc/bytes2hexbuf.h\<close>.  A buffer is the list of its bytes; \<open>memcpy\<close> of \<open>bs\<close> to offset \<open>p\<close> is \<open>copy_to\<close>.
\<close>

definition copy_to :: "u8 list \<Rightarrow> nat \<Rightarrow> u8 list \<Rightarrow> u8 list" where
  "copy_to m p bs = take p m @ bs @ drop (p + length bs) m"

lemma copy_to_length [simp]: "p + length bs \<le> length m \<Longrightarrow> length (copy_to m p bs) = length m"
  by (simp add: copy_to_def)

lemma take_copy_to: "p + length bs \<le> length m \<Longrightarrow> take (p + length bs) (copy_to m p bs) = take p m @ bs"
  by (simp add: copy_to_def)

lemma drop_copy_to: "p + length bs \<le> length m \<Longrightarrow> drop (p + length bs) (copy_to m p bs) = drop (p + length bs) m"
  by (simp add: copy_to_def)

section \<open>Appenders\<close>

record buffer_appender =
  ba_mem :: "u8 list"
  ba_pos :: nat

definition new_buffer_appender :: "u8 list \<Rightarrow> buffer_appender" where
  "new_buffer_appender start = \<lparr>ba_mem = start, ba_pos = 0\<rparr>"

definition ba_append :: "buffer_appender \<Rightarrow> u8 list \<Rightarrow> bool \<times> buffer_appender" where
  "ba_append b data = (let has_space = length data \<le> length (ba_mem b) - ba_pos b in
     (has_space, if has_space then \<lparr>ba_mem = copy_to (ba_mem b) (ba_pos b) data, ba_pos = ba_pos b + length data\<rparr> else b))"

definition ba_size :: "buffer_appender \<Rightarrow> nat" where "ba_size b = ba_pos b"

text \<open>\<open>BufferAppender2\<close> accepts everything, keeps what fits and counts in 32 bits.\<close>

record buffer_appender2 =
  b2_mem :: "u8 list"
  b2_size :: u32
  b2_data_size :: u32

definition new_buffer_appender2 :: "u8 list \<Rightarrow> u32 \<Rightarrow> buffer_appender2" where
  "new_buffer_appender2 buf sz = \<lparr>b2_mem = buf, b2_size = sz, b2_data_size = 0\<rparr>"

definition b2_append :: "buffer_appender2 \<Rightarrow> u8 list \<Rightarrow> bool \<times> buffer_appender2" where
  "b2_append b data = (True,
     let b' = (if b2_data_size b < b2_size b
       then (let n = b2_size b - b2_data_size b; k = (if of_nat (length data) < n then of_nat (length data) else n)
         in b\<lparr>b2_mem := copy_to (b2_mem b) (unat (b2_data_size b)) (take (unat k) data)\<rparr>) else b)
     in b'\<lparr>b2_data_size := b2_data_size b + of_nat (length data)\<rparr>)"

text \<open>Several pieces appended one after the other, with the result of each.\<close>

fun append_pieces :: "('a \<Rightarrow> u8 list \<Rightarrow> bool \<times> 'a) \<Rightarrow> 'a \<Rightarrow> u8 list list \<Rightarrow> bool list \<times> 'a" where
  "append_pieces appendf s [] = ([], s)"
| "append_pieces appendf s (d # ds) = (case appendf s d of (ok, s1) \<Rightarrow> case append_pieces appendf s1 ds of (oks, s2) \<Rightarrow> (ok # oks, s2))"

text \<open>
  The contract of \<open>Appender::append\<close>: \<open>holds s xs\<close> says that the appender has accepted the bytes \<open>xs\<close>; an append is accepted
  completely or not at all.
\<close>

locale appender =
  fixes appendf :: "'a \<Rightarrow> u8 list \<Rightarrow> bool \<times> 'a" and holds :: "'a \<Rightarrow> u8 list \<Rightarrow> bool"
  assumes append_holds: "holds s xs \<Longrightarrow> length xs + length data < 2 ^ 32 \<Longrightarrow> appendf s data = (ok, s') \<Longrightarrow>
    holds s' (if ok then xs @ data else xs)"
begin

lemma append_pieces_holds:
  assumes "holds s xs" "length xs + sum_list (map length ds) < 2 ^ 32" "append_pieces appendf s ds = (oks, s')"
  shows "length oks = length ds \<and> holds s' (xs @ concat (map snd (filter fst (zip oks ds))))"
  using assms
proof (induction ds arbitrary: s xs oks)
  case (Cons d ds)
  from Cons.prems(3) obtain ok s1 os where s1: "appendf s d = (ok, s1)" "append_pieces appendf s1 ds = (os, s')" "oks = ok # os"
    by (auto split: prod.splits)
  have "holds s1 (if ok then xs @ d else xs)"
    by (rule append_holds [OF Cons.prems(1) _ s1(1)]) (use Cons.prems(2) in simp)
  from Cons.IH [OF this _ s1(2)] show ?case using Cons.prems(2) s1(3) by (auto split: if_splits)
qed simp

end

text \<open>Characters and strings, and the callback that gets the appender as its argument.\<close>

definition append_char :: "('a \<Rightarrow> u8 list \<Rightarrow> bool \<times> 'a) \<Rightarrow> 'a \<Rightarrow> u8 \<Rightarrow> bool \<times> 'a" where
  "append_char appendf s c = appendf s [c]"

definition append_string :: "('a \<Rightarrow> u8 list \<Rightarrow> bool \<times> 'a) \<Rightarrow> 'a \<Rightarrow> u8 list \<Rightarrow> bool \<times> 'a" where
  "append_string appendf s cs = appendf s (takeWhile (\<lambda>c. c \<noteq> 0) cs)"

definition append_instance :: "('a \<Rightarrow> u8 list \<Rightarrow> bool \<times> 'a) \<Rightarrow> 'a \<Rightarrow> u8 list \<Rightarrow> nat \<Rightarrow> bool \<times> 'a" where
  "append_instance appendf s data len = appendf s (take len data)"

definition ba_holds :: "nat \<Rightarrow> u8 list \<Rightarrow> buffer_appender \<Rightarrow> u8 list \<Rightarrow> bool" where
  "ba_holds n rest b xs \<longleftrightarrow> length (ba_mem b) = n \<and> ba_pos b = length xs \<and> length xs \<le> n \<and> take (length xs) (ba_mem b) = xs \<and>
     drop (length xs) (ba_mem b) = drop (length xs) rest"

lemma ba_append_holds:
  assumes "ba_holds n rest b xs" "ba_append b data = (ok, b')"
  shows "ba_holds n rest b' (if ok then xs @ data else xs) \<and> (ok \<longleftrightarrow> length xs + length data \<le> n)"
proof (cases "length data \<le> n - length xs")
  case True
  from assms(1) have b: "length (ba_mem b) = n" "ba_pos b = length xs" "length xs \<le> n" "take (length xs) (ba_mem b) = xs"
    "drop (length xs) (ba_mem b) = drop (length xs) rest" by (simp_all add: ba_holds_def)
  have b': "b' = \<lparr>ba_mem = copy_to (ba_mem b) (length xs) data, ba_pos = length xs + length data\<rparr>" "ok"
    using assms(2) True b by (simp_all add: ba_append_def)
  have fits: "length xs + length data \<le> length (ba_mem b)" using True b by simp
  have "drop (length xs + length data) (ba_mem b) = drop (length xs + length data) rest"
    using arg_cong [OF b(5), of "drop (length data)"] by (simp add: add.commute)
  then show ?thesis using fits b b' take_copy_to [OF fits] drop_copy_to [OF fits] by (simp add: ba_holds_def)
next
  case False
  then show ?thesis using assms by (auto simp: ba_append_def ba_holds_def)
qed

interpretation ba: appender ba_append "ba_holds n rest"
  by unfold_locales (use ba_append_holds in blast)

definition b2_holds :: "u8 list \<Rightarrow> buffer_appender2 \<Rightarrow> u8 list \<Rightarrow> bool" where
  "b2_holds rest b xs \<longleftrightarrow> length (b2_mem b) = length rest \<and> unat (b2_size b) = length rest \<and> length xs < 2 ^ 32 \<and>
     b2_data_size b = of_nat (length xs) \<and> b2_mem b = take (length rest) xs @ drop (length xs) rest"

lemma b2_append_holds:
  assumes "b2_holds rest b xs" "length xs + length data < 2 ^ 32" "b2_append b data = (ok, b')"
  shows "b2_holds rest b' (xs @ data) \<and> ok"
proof -
  from assms(1) have b: "unat (b2_size b) = length rest" "b2_data_size b = of_nat (length xs)" "length xs < 2 ^ 32"
    "b2_mem b = take (length rest) xs @ drop (length xs) rest" by (simp_all add: b2_holds_def)
  have u: "unat (b2_data_size b) = length xs" using b by (simp add: unat_of_nat_u32)
  show ?thesis
  proof (cases "b2_data_size b < b2_size b")
    case False
    then have "length rest \<le> length xs" using b(1) u by (simp add: word_less_nat_alt)
    then show ?thesis using False assms b by (auto simp: b2_append_def b2_holds_def Let_def)
  next
    case True
    then have lt: "length xs < length rest" using b(1) u by (simp add: word_less_nat_alt)
    let ?n = "b2_size b - b2_data_size b" and ?k = "min (length data) (length rest - length xs)"
    have n: "unat ?n = length rest - length xs" using True b(1) u by (simp add: unat_sub order_less_imp_le)
    have ld: "unat (of_nat (length data) :: u32) = length data" using assms(2) by (simp add: unat_of_nat_u32)
    have k: "unat (if of_nat (length data) < ?n then of_nat (length data) else ?n) = ?k"
      using n ld by (simp add: word_less_nat_alt min_def)
    have b': "b' = b\<lparr>b2_mem := copy_to (b2_mem b) (length xs) (take ?k data), b2_data_size := b2_data_size b + of_nat (length data)\<rparr>" "ok"
      using assms(3) True k u by (simp_all add: b2_append_def Let_def)
    have mem: "b2_mem b = xs @ drop (length xs) rest" using b(4) lt by simp
    have "copy_to (b2_mem b) (length xs) (take ?k data) = take (length rest) (xs @ data) @ drop (length (xs @ data)) rest"
      unfolding mem copy_to_def using lt by (auto simp: min_def add.commute)
    then show ?thesis using b' b assms(1,2) by (simp add: b2_holds_def)
  qed
qed

interpretation b2: appender b2_append "b2_holds rest"
proof
  fix s xs data ok s'
  assume "b2_holds rest s xs" "length xs + length data < 2 ^ 32" "b2_append s data = (ok, s')"
  from b2_append_holds [OF this] show "b2_holds rest s' (if ok then xs @ data else xs)" by (cases ok) simp_all
qed


text \<open>Which pieces fit into \<open>n\<close> bytes of which \<open>used\<close> are in use.\<close>

fun accepted :: "nat \<Rightarrow> nat \<Rightarrow> u8 list list \<Rightarrow> bool list" where
  "accepted n used [] = []"
| "accepted n used (d # ds) = (if used + length d \<le> n then True # accepted n (used + length d) ds else False # accepted n used ds)"

lemma ba_accepted:
  assumes "ba_holds n rest b xs"
  shows "fst (append_pieces ba_append b ds) = accepted n (length xs) ds"
  using assms
proof (induction ds arbitrary: b xs)
  case (Cons d ds)
  obtain ok b1 where b1: "ba_append b d = (ok, b1)" by fastforce
  from ba_append_holds [OF Cons.prems b1] have h: "ba_holds n rest b1 (if ok then xs @ d else xs)" "ok \<longleftrightarrow> length xs + length d \<le> n"
    by blast+
  show ?case using Cons.IH [OF h(1)] h(2) by (cases "append_pieces ba_append b1 ds"; cases ok) (simp_all add: b1)
qed simp

text \<open>
  A \<open>BufferAppender\<close> holds the pieces it has accepted one behind the other and leaves the rest of its buffer as it was; it
  accepts a piece exactly when it fits behind the accepted ones.
\<close>

theorem buffer_appender_content:
  assumes "sum_list (map length ds) < 2 ^ 32" "append_pieces ba_append (new_buffer_appender start) ds = (oks, b)"
  shows "oks = accepted (length start) 0 ds \<and>
    ba_mem b = (let xs = concat (map snd (filter fst (zip oks ds))) in xs @ drop (length xs) start)"
proof -
  have h: "ba_holds (length start) start (new_buffer_appender start) []" by (simp add: ba_holds_def new_buffer_appender_def)
  let ?xs = "concat (map snd (filter fst (zip oks ds)))"
  have "ba_holds (length start) start b ?xs"
    using ba.append_pieces_holds [OF h _ assms(2)] assms(1) by simp
  then have "ba_mem b = ?xs @ drop (length ?xs) start"
    unfolding ba_holds_def by (metis append_take_drop_id)
  moreover have "oks = accepted (length start) 0 ds"
    using ba_accepted [OF h, of ds] assms(2) by simp
  ultimately show ?thesis by (simp add: Let_def)
qed

text \<open>\<open>BufferAppender2\<close> keeps the beginning of what it is given and counts all of it, while the count fits 32 bits.\<close>

lemma buffer_appender2_content:
  assumes "sum_list (map length ds) < 2 ^ 32" "unat n = length buf"
  shows "b2_mem (snd (append_pieces b2_append (new_buffer_appender2 buf n) ds)) = take (length buf) (concat ds) @ drop (length (concat ds)) buf"
    and "unat (b2_data_size (snd (append_pieces b2_append (new_buffer_appender2 buf n) ds))) = sum_list (map length ds)"
proof -
  obtain oks b where r: "append_pieces b2_append (new_buffer_appender2 buf n) ds = (oks, b)" by fastforce
  have h: "b2_holds buf (new_buffer_appender2 buf n) []" using assms(2) by (simp add: b2_holds_def new_buffer_appender2_def)
  have all: "append_pieces b2_append c es = (os, c') \<Longrightarrow> list_all id os" for c es os c'
    by (induction es arbitrary: c os) (auto simp: b2_append_def split: prod.splits)
  have l: "length oks = length ds" "b2_holds buf b (concat (map snd (filter fst (zip oks ds))))"
    using b2.append_pieces_holds [OF h _ r] assms(1) by simp_all
  have "map snd (filter fst (zip os es)) = es" if "length os = length es" "list_all id os" for os and es :: "u8 list list"
    using that by (induction os es rule: list_induct2) auto
  from this [OF l(1) all [OF r]] l(2) have "b2_holds buf b (concat ds)" by simp
  then show "b2_mem (snd (append_pieces b2_append (new_buffer_appender2 buf n) ds)) = take (length buf) (concat ds) @ drop (length (concat ds)) buf"
    "unat (b2_data_size (snd (append_pieces b2_append (new_buffer_appender2 buf n) ds))) = sum_list (map length ds)"
    by (simp_all add: r b2_holds_def length_concat unat_of_nat_u32)
qed

section \<open>Hexadecimal digits\<close>

definition ascii_nibble :: "u8 \<Rightarrow> u8" where
  "ascii_nibble nibble = (let hex_digit = nibble + 48 in if 57 < hex_digit then hex_digit + 7 else hex_digit)"

definition ascii_nibble_lower_case :: "u8 \<Rightarrow> u8" where
  "ascii_nibble_lower_case nibble = (let hex_digit = nibble + 48 in if 57 < hex_digit then hex_digit + 39 else hex_digit)"

text \<open>One position of \<open>out\<close> after the other is written; \<open>p\<close> is the offset the pointer has reached.\<close>

definition concat_nibble :: "(u8 \<Rightarrow> u8) \<Rightarrow> u8 list \<times> nat \<Rightarrow> u8 \<Rightarrow> u8 list \<times> nat" where
  "concat_nibble ascii out nibble = ((fst out)[snd out := ascii nibble], snd out + 1)"

fun bytes2hex_loop :: "(u8 \<Rightarrow> u8) \<Rightarrow> u8 list \<Rightarrow> u8 list \<times> nat \<Rightarrow> u8 list \<times> nat" where
  "bytes2hex_loop ascii [] out = out"
| "bytes2hex_loop ascii (b # bs) out =
     bytes2hex_loop ascii bs (concat_nibble ascii (concat_nibble ascii out (drop_bit 4 b)) (b AND 0xF))"

definition bytes2hexbuf :: "u8 list \<Rightarrow> u8 list \<Rightarrow> u8 list" where
  "bytes2hexbuf buf out = fst (bytes2hex_loop ascii_nibble buf (out, 0))"

definition bytes2hexbuf_lower_case :: "u8 list \<Rightarrow> u8 list \<Rightarrow> u8 list" where
  "bytes2hexbuf_lower_case buf out = fst (bytes2hex_loop ascii_nibble_lower_case buf (out, 0))"

lemma bytes2hex_loop_result:
  "p + 2 * length bs \<le> length out \<Longrightarrow>
   bytes2hex_loop ascii bs (out, p) = (take p out @ concat (map (\<lambda>b. [ascii (drop_bit 4 b), ascii (b AND 0xF)]) bs) @ drop (p + 2 * length bs) out, p + 2 * length bs)"
proof (induction bs arbitrary: out p)
  case (Cons b bs)
  have "bytes2hex_loop ascii (b # bs) (out, p) = bytes2hex_loop ascii bs (out[p := ascii (drop_bit 4 b), p + 1 := ascii (b AND 0xF)], p + 2)"
    by (simp add: concat_nibble_def)
  also have "\<dots> = (take (p + 2) (out[p := ascii (drop_bit 4 b), p + 1 := ascii (b AND 0xF)]) @ concat (map (\<lambda>b. [ascii (drop_bit 4 b), ascii (b AND 0xF)]) bs)
      @ drop (p + 2 + 2 * length bs) out, p + 2 + 2 * length bs)"
    using Cons.prems by (subst Cons.IH) simp_all
  also have "take (p + 2) (out[p := ascii (drop_bit 4 b), p + 1 := ascii (b AND 0xF)]) = take p out @ [ascii (drop_bit 4 b), ascii (b AND 0xF)]"
    using Cons.prems by (intro nth_equalityI) (auto simp: nth_append nth_list_update less_Suc_eq)
  finally show ?case by (simp add: algebra_simps)
qed simp

definition hex_value :: "u8 \<Rightarrow> u8" where
  "hex_value c = (if 97 \<le> c then c - 87 else if 65 \<le> c then c - 55 else c - 48)"

lemma hex_value_nibble:
  assumes "n < 16"
  shows "hex_value (ascii_nibble n) = n" "hex_value (ascii_nibble_lower_case n) = n"
proof -
  have "unat n < 16" using assms by (simp add: word_less_nat_alt)
  moreover have "n = of_nat (unat n)" by simp
  ultimately obtain k where k: "n = of_nat k" "k < 16" by blast
  from k(2) have "k = 0 \<or> k = 1 \<or> k = 2 \<or> k = 3 \<or> k = 4 \<or> k = 5 \<or> k = 6 \<or> k = 7 \<or> k = 8 \<or> k = 9 \<or> k = 10 \<or> k = 11 \<or> k = 12 \<or> k = 13 \<or> k = 14 \<or> k = 15"
    by presburger
  with k(1) have "n \<in> {0, 1, 2, 3, 4, 5, 6, 7, 8, 9, 10, 11, 12, 13, 14, 15}" by auto
  then show "hex_value (ascii_nibble n) = n" "hex_value (ascii_nibble_lower_case n) = n"
    by (auto simp: hex_value_def ascii_nibble_def ascii_nibble_lower_case_def)
qed

fun hex_decode :: "u8 list \<Rightarrow> u8 list" where
  "hex_decode (a # b # cs) = (push_bit 4 (hex_value a) OR hex_value b) # hex_decode cs"
| "hex_decode _ = []"

lemma nibbles: "push_bit 4 (drop_bit 4 b) OR (b AND 0xF) = (b :: u8)"
proof (rule bit_word_eqI)
  fix n assume "n < LENGTH(8)"
  then show "bit (push_bit 4 (drop_bit 4 b) OR (b AND 0xF)) n = bit b n"
    using bit_mask_iff [where 'a = "8 word", of 4 n] by (auto simp: bit_simps mask_eq_exp_minus_1)
qed

lemma nibble_bounds: "drop_bit 4 (b :: u8) < 16" "b AND 0xF < (16 :: u8)"
proof -
  have "unat b < 256" by (rule unat_u8_less)
  then show "drop_bit 4 b < 16" by (simp add: word_less_nat_alt unat_drop_bit_eq) (simp add: drop_bit_eq_div)
  have "b AND 0xF \<le> 0xF" by (rule word_and_le1)
  then show "b AND 0xF < (16 :: u8)" by (rule order_le_less_trans) simp
qed

text \<open>The digits written for some bytes denote these bytes, and what is behind them is not touched.\<close>

lemma hex_roundtrip:
  assumes "2 * length buf \<le> length out"
  shows "hex_decode (take (2 * length buf) (bytes2hexbuf buf out)) = buf" "drop (2 * length buf) (bytes2hexbuf buf out) = drop (2 * length buf) out"
    "hex_decode (take (2 * length buf) (bytes2hexbuf_lower_case buf out)) = buf"
proof -
  have d: "hex_decode (concat (map (\<lambda>b. [a (drop_bit 4 b), a (b AND 0xF)]) bs)) = bs" if "\<And>n. n < 16 \<Longrightarrow> hex_value (a n) = n" for a bs
    by (induction bs) (simp_all add: that nibble_bounds nibbles)
  have l: "length (concat (map (\<lambda>b. [a (drop_bit 4 b), a (b AND 0xF)]) bs)) = 2 * length bs" for a :: "u8 \<Rightarrow> u8" and bs
    by (induction bs) simp_all
  show "hex_decode (take (2 * length buf) (bytes2hexbuf buf out)) = buf" "drop (2 * length buf) (bytes2hexbuf buf out) = drop (2 * length buf) out"
    "hex_decode (take (2 * length buf) (bytes2hexbuf_lower_case buf out)) = buf"
    using assms d [OF hex_value_nibble(1)] d [OF hex_value_nibble(2)]
    by (simp_all add: bytes2hexbuf_def bytes2hexbuf_lower_case_def bytes2hex_loop_result l)
qed

end
