(* ===== verification/Chunk_Bitmap.thy ===== *)
theory Chunk_Bitmap
  imports Prelude
begin

text \<open>
  Which chunks of a file have arrived (\<open>communication/src/chunked_transfer.h\<close>, \<open>file_transfer.h\<close>): the number of chunks, the
  size of the bitmap and its operations.  The handlers of the messages are not in the repository.
\<close>

text \<open>\<open>Descriptor::chunk_count\<close> computes in 32 bits.\<close>

definition chunk_count :: "u32 \<Rightarrow> u32 \<Rightarrow> u32" where
  "chunk_count file_length chunk_size = (if chunk_size \<noteq> 0 then (file_length + chunk_size - 1) div chunk_size else 0)"

definition chunk_bitmap_size :: "u32 \<Rightarrow> u16 \<Rightarrow> u32" where
  "chunk_bitmap_size file_length chunk_size = (chunk_count file_length (ucast chunk_size) + 7) div 8"

text \<open>\<open>uint8_t(1 << (idx & 7))\<close>\<close>

definition chunk_mask :: "u16 \<Rightarrow> u8" where
  "chunk_mask idx = push_bit (unat (idx AND 7)) 1"

definition flag_chunk_received :: "u16 \<Rightarrow> u8 list \<Rightarrow> u8 list" where
  "flag_chunk_received idx bitmap = (let i = unat (drop_bit 3 idx) in bitmap[i := bitmap ! i OR chunk_mask idx])"

definition is_chunk_received :: "u16 \<Rightarrow> u8 list \<Rightarrow> bool" where
  "is_chunk_received idx bitmap \<longleftrightarrow> bitmap ! unat (drop_bit 3 idx) AND chunk_mask idx \<noteq> 0"

lemma chunk_index_parts: "unat (drop_bit 3 idx) = unat idx div 8" "unat (idx AND 7) = unat (idx :: u16) mod 8"
proof -
  show "unat (drop_bit 3 idx) = unat idx div 8" by (simp only: unat_drop_bit_eq) (simp add: drop_bit_eq_div)
  have low: "idx AND 7 = take_bit 3 idx" by (simp add: take_bit_eq_mask mask_eq_exp_minus_1)
  show "unat (idx AND 7) = unat idx mod 8" unfolding low unsigned_take_bit_eq by (simp add: take_bit_eq_mod)
qed

lemma chunk_mask_bit: "bit (chunk_mask idx) n \<longleftrightarrow> n = unat idx mod 8"
  by (auto simp: chunk_mask_def chunk_index_parts bit_simps)

lemma received_bit: "is_chunk_received idx bitmap \<longleftrightarrow> bit (bitmap ! (unat idx div 8)) (unat idx mod 8)"
proof -
  have "w AND chunk_mask idx \<noteq> 0 \<longleftrightarrow> bit w (unat idx mod 8)" for w :: u8
  proof
    assume "w AND chunk_mask idx \<noteq> 0"
    then obtain n where "bit (w AND chunk_mask idx) n" by (auto simp: bit_eq_iff)
    then show "bit w (unat idx mod 8)" by (auto simp: bit_and_iff chunk_mask_bit)
  next
    assume "bit w (unat idx mod 8)"
    then have "bit (w AND chunk_mask idx) (unat idx mod 8)" by (simp add: bit_and_iff chunk_mask_bit)
    then show "w AND chunk_mask idx \<noteq> 0" by auto
  qed
  then show ?thesis by (simp add: is_chunk_received_def chunk_index_parts)
qed

lemma flag_length [simp]: "length (flag_chunk_received idx bitmap) = length bitmap"
  by (simp add: flag_chunk_received_def Let_def)

lemma flag_received:
  assumes "unat idx div 8 < length bitmap"
  shows "is_chunk_received j (flag_chunk_received idx bitmap) \<longleftrightarrow> j = idx \<or> is_chunk_received j bitmap"
proof (cases "unat j div 8 = unat idx div 8")
  case True
  have "unat j = 8 * (unat j div 8) + unat j mod 8" "unat idx = 8 * (unat idx div 8) + unat idx mod 8" by simp_all
  then have "unat j mod 8 = unat idx mod 8 \<longleftrightarrow> j = idx" using True by (metis word_unat_eq_iff)
  then show ?thesis using True assms
    by (auto simp: received_bit flag_chunk_received_def chunk_index_parts bit_or_iff chunk_mask_bit Let_def)
next
  case False
  then have "j \<noteq> idx" by auto
  then show ?thesis using False by (simp add: received_bit flag_chunk_received_def chunk_index_parts Let_def)
qed

text \<open>The bitmap has room for every chunk of a file, if the number of chunks does not wrap.\<close>

lemma chunk_count_exact:
  assumes "0 < chunk_size" "unat file_length + unat chunk_size \<le> 2 ^ 32"
  shows "unat (chunk_count file_length chunk_size) = (unat file_length + unat chunk_size - 1) div unat chunk_size"
proof -
  have p: "1 \<le> unat chunk_size" using assms(1) by (simp add: word_less_nat_alt)
  have "file_length + chunk_size - 1 = of_nat (unat file_length + unat chunk_size - 1)"
    using p by (simp add: of_nat_diff)
  moreover have "unat (of_nat (unat file_length + unat chunk_size - 1) :: u32) = unat file_length + unat chunk_size - 1"
    using assms(2) p by (intro unat_of_nat_u32) simp
  ultimately have "unat (file_length + chunk_size - 1) = unat file_length + unat chunk_size - 1"
    by (simp only:)
  then show ?thesis using assms(1) by (auto simp: chunk_count_def unat_div)
qed

lemma bitmap_has_room:
  assumes "0 < chunk_size" "unat file_length + unat chunk_size \<le> 2 ^ 32 - 8" "unat idx * unat (chunk_size :: u16) < unat file_length"
  shows "unat (idx :: u16) div 8 < unat (chunk_bitmap_size file_length chunk_size)"
proof -
  let ?c = "unat chunk_size" and ?l = "unat file_length"
  have wide: "unat (ucast chunk_size :: u32) = ?c"
    using unat_u16_less [of chunk_size] by (simp add: unsigned_ucast_eq take_bit_nat_eq_self)
  have c: "0 < ?c" "unat (ucast chunk_size :: u32) = ?c" "(0 :: u32) < ucast chunk_size"
    using assms(1) wide by (simp_all add: word_less_nat_alt)
  have n: "unat (chunk_count file_length (ucast chunk_size)) = (?l + ?c - 1) div ?c"
    using chunk_count_exact [OF c(3)] c assms(2) by simp
  have "(?l + ?c - 1) div ?c \<le> ?l + ?c - 1" by (rule div_le_dividend)
  moreover have "?l + ?c \<le> 2 ^ 32 - 8" by (rule assms(2))
  ultimately have "(?l + ?c - 1) div ?c + 7 < 2 ^ 32" using c(1) by linarith
  then have b: "unat (chunk_bitmap_size file_length chunk_size) = ((?l + ?c - 1) div ?c + 7) div 8"
    by (simp add: chunk_bitmap_size_def unat_div unat_add_u32 n)
  have "unat idx < (?l + ?c - 1) div ?c"
  proof -
    have "(unat idx + 1) * ?c \<le> ?l + ?c - 1" using assms(3) by simp
    then show ?thesis using c(1) by (simp add: less_eq_div_iff_mult_less_eq Suc_le_eq [symmetric])
  qed
  moreover have "x < n \<Longrightarrow> x div 8 < (n + 7) div 8" for x n :: nat using div_le_mono [of "x + 8" "n + 7" 8] by simp
  ultimately show ?thesis unfolding b by simp
qed

text \<open>
  C30: In a bitmap of the size that is computed for a file, after any chunks of the file have been flagged exactly these chunks are received,
  in addition to those that were before, for every file that is smaller than 4 GiB by the size of a chunk.
\<close>

theorem received_chunks:
  assumes "0 < chunk_size" "unat file_length + unat chunk_size \<le> 2 ^ 32 - 8" "length bitmap = unat (chunk_bitmap_size file_length chunk_size)"
    and "\<forall>i \<in> set idxs. unat i * unat chunk_size < unat file_length"
  shows "is_chunk_received j (fold flag_chunk_received idxs bitmap) \<longleftrightarrow> j \<in> set idxs \<or> is_chunk_received j bitmap"
  using assms(3,4)
proof (induction idxs arbitrary: bitmap)
  case (Cons i idxs)
  have "unat i div 8 < length bitmap" using bitmap_has_room [OF assms(1,2)] Cons.prems by simp
  from flag_received [OF this, of j] show ?case using Cons.IH [of "flag_chunk_received i bitmap"] Cons.prems by auto
qed simp

lemma received_chunks_witness:
  "is_chunk_received 9 (fold flag_chunk_received [3, 9] [0, 0]) \<and> \<not> is_chunk_received 8 (fold flag_chunk_received [3, 9] [0, 0])"
proof -
  have b: "length [0 :: u8, 0] = unat (chunk_bitmap_size 5000 512)" by (simp add: chunk_bitmap_size_def chunk_count_def)
  have "\<not> is_chunk_received 8 [0, 0]" by (simp add: received_bit)
  then show ?thesis
    using received_chunks [of 512 5000 "[0, 0]" "[3, 9]" 9, OF _ _ b] received_chunks [of 512 5000 "[0, 0]" "[3, 9]" 8, OF _ _ b] by simp
qed

text \<open>For a length just below 4 GiB the sum wraps: no chunks, and a bitmap of no bytes.\<close>

lemma chunk_count_wraps: "chunk_count 0xFFFFFFFF 512 = 0" "chunk_bitmap_size 0xFFFFFFFF 512 = 0"
  by (simp_all add: chunk_count_def chunk_bitmap_size_def)

end
