(* ===== verification/Led_Status.thy ===== *)
theory Led_Status
  imports Prelude
begin

text \<open>
  The status of the RGB LED (\<open>wiring/inc/spark_wiring_led.h\<close>, the structure \<open>LEDStatusData\<close> of \<open>services/inc/led_service.h\<close>) and the
  themes of its signals.  Priority and source share a byte; the parameters of a pattern are a union, in which a
  custom pattern has a callback and every other pattern a period.  The LED service itself is a parameter.
\<close>

definition LED_PATTERN_SOLID :: u8 where "LED_PATTERN_SOLID = 1"
definition LED_PATTERN_CUSTOM :: u8 where "LED_PATTERN_CUSTOM = 15"
definition LED_STATUS_FLAG_ACTIVE :: u8 where "LED_STATUS_FLAG_ACTIVE = 1"
definition LED_STATUS_FLAG_OFF :: u8 where "LED_STATUS_FLAG_OFF = 2"

text \<open>Which member of the union is there; \<open>'c\<close> is a callback with its data.\<close>

datatype 'c led_params = Period u16 | Callback 'c

record 'c led_data =
  ld_priority :: u8
  ld_pattern :: u8
  ld_flags :: u8
  ld_color :: u32
  ld_params :: "'c led_params"

definition led_setColor :: "u32 \<Rightarrow> 'c led_data \<Rightarrow> 'c led_data" where
  "led_setColor c d = d\<lparr>ld_color := c\<rparr>"

definition led_setPattern :: "u8 \<Rightarrow> 'c led_data \<Rightarrow> 'c led_data" where
  "led_setPattern p d = (if p \<noteq> LED_PATTERN_CUSTOM \<and> ld_pattern d \<noteq> LED_PATTERN_CUSTOM then d\<lparr>ld_pattern := p\<rparr> else d)"

definition led_setPeriod :: "u16 \<Rightarrow> 'c led_data \<Rightarrow> 'c led_data" where
  "led_setPeriod p d = (if ld_pattern d \<noteq> LED_PATTERN_CUSTOM then d\<lparr>ld_params := Period p\<rparr> else d)"

definition led_setSpeed :: "(u8 \<Rightarrow> int \<Rightarrow> u16) \<Rightarrow> int \<Rightarrow> 'c led_data \<Rightarrow> 'c led_data" where
  "led_setSpeed led_pattern_period sp d = led_setPeriod (led_pattern_period (ld_pattern d) sp) d"

text \<open>\<open>None\<close> is the value of a member of the union that is not there.\<close>

definition led_period :: "'c led_data \<Rightarrow> u16 option" where
  "led_period d = (if ld_pattern d \<noteq> LED_PATTERN_CUSTOM then (case ld_params d of Period p \<Rightarrow> Some p | Callback c \<Rightarrow> None) else Some 0)"

definition led_setPriority :: "u8 \<Rightarrow> 'c led_data \<Rightarrow> 'c led_data" where
  "led_setPriority p d = d\<lparr>ld_priority := (ld_priority d AND 3) OR push_bit 2 p\<rparr>"

definition led_priority :: "'c led_data \<Rightarrow> u8" where "led_priority d = drop_bit 2 (ld_priority d)"

text \<open>\<open>LED_PRIORITY_VALUE\<close>\<close>

definition led_priority_value :: "u8 \<Rightarrow> u8 \<Rightarrow> u8" where
  "led_priority_value p src = push_bit 2 (p AND 0x3F) OR (src AND 3)"

definition led_on :: "'c led_data \<Rightarrow> 'c led_data" where
  "led_on d = d\<lparr>ld_flags := ld_flags d AND NOT LED_STATUS_FLAG_OFF\<rparr>"

definition led_off :: "'c led_data \<Rightarrow> 'c led_data" where
  "led_off d = d\<lparr>ld_flags := ld_flags d OR LED_STATUS_FLAG_OFF\<rparr>"

definition led_toggle :: "'c led_data \<Rightarrow> 'c led_data" where
  "led_toggle d = d\<lparr>ld_flags := ld_flags d XOR LED_STATUS_FLAG_OFF\<rparr>"

definition led_isOff :: "'c led_data \<Rightarrow> bool" where "led_isOff d \<longleftrightarrow> ld_flags d AND LED_STATUS_FLAG_OFF \<noteq> 0"
definition led_isOn :: "'c led_data \<Rightarrow> bool" where "led_isOn d \<longleftrightarrow> \<not> led_isOff d"
definition led_isActive :: "'c led_data \<Rightarrow> bool" where "led_isActive d \<longleftrightarrow> ld_flags d AND LED_STATUS_FLAG_ACTIVE \<noteq> 0"

definition led_setActive :: "(bool \<Rightarrow> 'c led_data \<Rightarrow> 'c led_data) \<Rightarrow> bool \<Rightarrow> 'c led_data \<Rightarrow> 'c led_data" where
  "led_setActive led_set_status_active active d = led_set_status_active active d"

definition led_activate :: "(bool \<Rightarrow> 'c led_data \<Rightarrow> 'c led_data) \<Rightarrow> u8 \<Rightarrow> 'c led_data \<Rightarrow> 'c led_data" where
  "led_activate led_set_status_active p d = led_setActive led_set_status_active True (led_setPriority p d)"

section \<open>What a status is\<close>

datatype led_op = SetColor u32 | SetPattern u8 | SetPeriod u16 | SetSpeed int | SetPriority u8 | On | Off | Toggle | SetActive bool | Activate u8

fun led_apply :: "(bool \<Rightarrow> 'c led_data \<Rightarrow> 'c led_data) \<Rightarrow> (u8 \<Rightarrow> int \<Rightarrow> u16) \<Rightarrow> led_op \<Rightarrow> 'c led_data \<Rightarrow> 'c led_data" where
  "led_apply sa pp (SetColor c) d = led_setColor c d"
| "led_apply sa pp (SetPattern p) d = led_setPattern p d"
| "led_apply sa pp (SetPeriod p) d = led_setPeriod p d"
| "led_apply sa pp (SetSpeed sp) d = led_setSpeed pp sp d"
| "led_apply sa pp (SetPriority p) d = led_setPriority p d"
| "led_apply sa pp On d = led_on d"
| "led_apply sa pp Off d = led_off d"
| "led_apply sa pp Toggle d = led_toggle d"
| "led_apply sa pp (SetActive a) d = led_setActive sa a d"
| "led_apply sa pp (Activate p) d = led_activate sa p d"

text \<open>The abstract status: a pattern that is custom, with its callback, or has a period, and the fields as separate values.\<close>

datatype 'c led_kind = Custom 'c | Pattern u8 u16

record 'c led_view =
  lv_kind :: "'c led_kind"
  lv_priority :: u8
  lv_source :: u8
  lv_on :: bool
  lv_active :: bool
  lv_color :: u32

fun with_pattern :: "u8 \<Rightarrow> 'c led_kind \<Rightarrow> 'c led_kind" where
  "with_pattern p (Pattern q per) = (if p = LED_PATTERN_CUSTOM then Pattern q per else Pattern p per)"
| "with_pattern p (Custom c) = Custom c"

fun with_period :: "(u8 \<Rightarrow> u16) \<Rightarrow> 'c led_kind \<Rightarrow> 'c led_kind" where
  "with_period f (Pattern q per) = Pattern q (f q)"
| "with_period f (Custom c) = Custom c"

fun view_apply :: "(u8 \<Rightarrow> int \<Rightarrow> u16) \<Rightarrow> led_op \<Rightarrow> 'c led_view \<Rightarrow> 'c led_view" where
  "view_apply pp (SetColor c) v = v\<lparr>lv_color := c\<rparr>"
| "view_apply pp (SetPattern p) v = v\<lparr>lv_kind := with_pattern p (lv_kind v)\<rparr>"
| "view_apply pp (SetPeriod p) v = v\<lparr>lv_kind := with_period (\<lambda>q. p) (lv_kind v)\<rparr>"
| "view_apply pp (SetSpeed sp) v = v\<lparr>lv_kind := with_period (\<lambda>q. pp q sp) (lv_kind v)\<rparr>"
| "view_apply pp (SetPriority p) v = v\<lparr>lv_priority := p\<rparr>"
| "view_apply pp On v = v\<lparr>lv_on := True\<rparr>"
| "view_apply pp Off v = v\<lparr>lv_on := False\<rparr>"
| "view_apply pp Toggle v = v\<lparr>lv_on := \<not> lv_on v\<rparr>"
| "view_apply pp (SetActive a) v = v\<lparr>lv_active := a\<rparr>"
| "view_apply pp (Activate p) v = v\<lparr>lv_priority := p, lv_active := True\<rparr>"

text \<open>The data of a status: the member of the union that is there is the one for the pattern.\<close>

definition displays :: "'c led_data \<Rightarrow> 'c led_view \<Rightarrow> bool" where
  "displays d v \<longleftrightarrow> (case lv_kind v of Custom c \<Rightarrow> ld_pattern d = LED_PATTERN_CUSTOM \<and> ld_params d = Callback c
       | Pattern q per \<Rightarrow> q \<noteq> LED_PATTERN_CUSTOM \<and> ld_pattern d = q \<and> ld_params d = Period per) \<and>
     ld_priority d = led_priority_value (lv_priority v) (lv_source v) \<and> lv_priority v < 64 \<and> lv_source v < 4 \<and>
     led_isOn d = lv_on v \<and> led_isActive d = lv_active v \<and> ld_color d = lv_color v"

definition valid_op :: "led_op \<Rightarrow> bool" where
  "valid_op e \<longleftrightarrow> (\<forall>p. e = SetPriority p \<or> e = Activate p \<longrightarrow> p < 64)"

text \<open>What \<open>led_set_status_active\<close> does to the data: it changes the flag for active statuses.\<close>

definition active_law :: "(bool \<Rightarrow> 'c led_data \<Rightarrow> 'c led_data) \<Rightarrow> bool" where
  "active_law sa \<longleftrightarrow> (\<forall>a d. sa a d = d\<lparr>ld_flags := (if a then ld_flags d OR LED_STATUS_FLAG_ACTIVE else ld_flags d AND NOT LED_STATUS_FLAG_ACTIVE)\<rparr>)"

lemma flag_masks: "bit LED_STATUS_FLAG_OFF n \<longleftrightarrow> n = 1" "bit LED_STATUS_FLAG_ACTIVE n \<longleftrightarrow> n = 0"
proof -
  have "bit (2 ^ 1 :: u8) n \<longleftrightarrow> n = 1" by (simp only: bit_exp_iff) auto
  then show "bit LED_STATUS_FLAG_OFF n \<longleftrightarrow> n = 1" by (simp add: LED_STATUS_FLAG_OFF_def)
  show "bit LED_STATUS_FLAG_ACTIVE n \<longleftrightarrow> n = 0" by (simp add: LED_STATUS_FLAG_ACTIVE_def bit_1_iff)
qed

lemma flag_bits:
  "led_isOff d \<longleftrightarrow> bit (ld_flags d) 1" "led_isActive d \<longleftrightarrow> bit (ld_flags d) 0"
proof -
  have m: "w AND m \<noteq> 0 \<longleftrightarrow> bit w k" if "\<And>n. bit m n \<longleftrightarrow> n = k" for w m :: u8 and k
  proof -
    have "w AND m \<noteq> 0 \<longleftrightarrow> (\<exists>n. bit (w AND m) n)" using bit_eqI [of "w AND m" 0] by auto
    then show ?thesis by (auto simp: bit_and_iff that)
  qed
  show "led_isOff d \<longleftrightarrow> bit (ld_flags d) 1" unfolding led_isOff_def by (rule m [OF flag_masks(1)])
  show "led_isActive d \<longleftrightarrow> bit (ld_flags d) 0" unfolding led_isActive_def by (rule m [OF flag_masks(2)])
qed

lemma low_bits: "w < 64 \<Longrightarrow> (w :: u8) AND 0x3F = w" "w < 4 \<Longrightarrow> w AND 3 = w"
proof -
  have *: "w AND mask n = w" if "unat w < 2 ^ n" for w :: u8 and n
    using that by (metis take_bit_eq_mask take_bit_nat_eq_self unsigned_take_bit_eq word_unat_eq_iff)
  show "w < 64 \<Longrightarrow> w AND 0x3F = w" using * [of w 6] by (simp add: word_less_nat_alt mask_eq_exp_minus_1)
  show "w < 4 \<Longrightarrow> w AND 3 = w" using * [of w 2] by (simp add: word_less_nat_alt mask_eq_exp_minus_1)
qed

lemma mask_3_iff: "bit (3 :: u8) n \<longleftrightarrow> n < 2"
proof -
  have m: "(3 :: u8) = mask 2" by (simp add: mask_eq_exp_minus_1)
  show ?thesis unfolding m by (simp only: bit_mask_iff) auto
qed

lemma mask_3F_iff: "bit (0x3F :: u8) n \<longleftrightarrow> n < 6"
proof -
  have m: "(0x3F :: u8) = mask 6" by (simp add: mask_eq_exp_minus_1)
  show ?thesis unfolding m by (simp only: bit_mask_iff) auto
qed

lemma possible_bit_u8: "possible_bit TYPE(u8) n \<longleftrightarrow> n < 8" by simp

lemmas priority_bits = bit_or_iff bit_and_iff bit_push_bit_iff bit_drop_bit_eq o_def mask_3_iff mask_3F_iff

text \<open>Setting the priority keeps the source, and both are read back.\<close>

lemma set_priority_value:
  "p < 64 \<Longrightarrow> (led_priority_value q src AND 3) OR push_bit 2 p = led_priority_value p src"
proof -
  assume "p < 64"
  then have p: "p AND 0x3F = p" by (rule low_bits)
  have "(led_priority_value q src AND 3) OR push_bit 2 (p AND 0x3F) = led_priority_value p src"
    unfolding led_priority_value_def by (rule bit_word_eqI) (auto simp only: priority_bits possible_bit_u8)
  then show ?thesis by (simp add: p)
qed

lemma priority_read: "p < 64 \<Longrightarrow> drop_bit 2 (led_priority_value p src) = p"
proof -
  assume "p < 64"
  then have p: "p AND 0x3F = p" by (rule low_bits)
  have "drop_bit 2 (led_priority_value p src) = p AND 0x3F"
    unfolding led_priority_value_def by (rule bit_word_eqI) (auto simp only: priority_bits possible_bit_u8 diff_add_inverse)
  then show ?thesis by (simp add: p)
qed

lemma source_read: "src < 4 \<Longrightarrow> led_priority_value p src AND 3 = src"
proof -
  assume "src < 4"
  then have p: "src AND 3 = src" by (rule low_bits)
  have "led_priority_value p src AND 3 = src AND 3"
    unfolding led_priority_value_def by (rule bit_word_eqI) (auto simp only: priority_bits possible_bit_u8)
  then show ?thesis by (simp add: p)
qed

lemma displays_step:
  assumes "displays d v" "valid_op e" "active_law sa"
  shows "displays (led_apply sa pp e d) (view_apply pp e v)"
proof -
  note sp = set_priority_value [of _ "lv_priority v" "lv_source v"]
  show ?thesis
    using assms unfolding displays_def led_isOn_def flag_bits active_law_def
    by (cases e; cases "lv_kind v")
      (auto simp: led_setColor_def led_setPattern_def led_setPeriod_def led_setSpeed_def led_setPriority_def led_on_def led_off_def
        led_toggle_def led_setActive_def led_activate_def valid_op_def bit_simps flag_masks sp)
qed

text \<open>
  C31: Any operations on a status implement the operations on the abstract status: a custom pattern keeps its callback and never becomes
  another pattern, no other pattern becomes custom, the period is the one last set, and priority, source, colour and the
  two flags do not disturb each other.
\<close>

theorem led_status_refines:
  assumes "displays d v" "list_all valid_op es" "active_law sa"
  shows "displays (fold (led_apply sa pp) es d) (fold (view_apply pp) es v)"
  using assms(1,2)
proof (induction es arbitrary: d v)
  case (Cons e es) then show ?case using displays_step [OF _ _ assms(3)] by simp
qed simp

lemma led_status_refines_witness:
  "\<exists>sa d. displays (fold (led_apply sa (\<lambda>p s. 100)) [SetPattern 3, SetSpeed 20, Activate 30, Toggle] (d :: unit led_data))
     \<lparr>lv_kind = Pattern 3 100, lv_priority = 30, lv_source = 1, lv_on = False, lv_active = True, lv_color = 7\<rparr>"
proof -
  let ?sa = "\<lambda>a (d :: unit led_data). d\<lparr>ld_flags := (if a then ld_flags d OR LED_STATUS_FLAG_ACTIVE else ld_flags d AND NOT LED_STATUS_FLAG_ACTIVE)\<rparr>"
  let ?d = "\<lparr>ld_priority = led_priority_value 20 1, ld_pattern = 1, ld_flags = 0, ld_color = 7, ld_params = Period 5\<rparr> :: unit led_data"
  let ?v = "\<lparr>lv_kind = Pattern 1 5, lv_priority = 20, lv_source = 1, lv_on = True, lv_active = False, lv_color = 7\<rparr> :: unit led_view"
  have "displays ?d ?v" by (simp add: displays_def led_isOn_def flag_bits LED_PATTERN_CUSTOM_def)
  moreover have "active_law ?sa" by (simp add: active_law_def)
  moreover have "list_all valid_op [SetPattern 3, SetSpeed 20, Activate 30, Toggle]" by (simp add: valid_op_def)
  ultimately have "displays (fold (led_apply ?sa (\<lambda>p s. 100)) [SetPattern 3, SetSpeed 20, Activate 30, Toggle] ?d)
    (fold (view_apply (\<lambda>p s. 100)) [SetPattern 3, SetSpeed 20, Activate 30, Toggle] ?v)"
    by (intro led_status_refines)
  then have "displays (fold (led_apply ?sa (\<lambda>p s. 100)) [SetPattern 3, SetSpeed 20, Activate 30, Toggle] ?d)
     \<lparr>lv_kind = Pattern 3 100, lv_priority = 30, lv_source = 1, lv_on = False, lv_active = True, lv_color = 7\<rparr>"
    by (simp add: LED_PATTERN_CUSTOM_def)
  then show ?thesis by blast
qed

text \<open>What the readers return.\<close>

lemma displays_read:
  assumes "displays d v"
  shows "led_priority d = lv_priority v" "led_period d = Some (case lv_kind v of Custom c \<Rightarrow> 0 | Pattern q per \<Rightarrow> per)"
  using assms priority_read unfolding displays_def led_priority_def led_period_def by (auto split: led_kind.splits)

section \<open>Themes\<close>

text \<open>The settings of a signal: colour, period and pattern.\<close>

record led_signal =
  ls_color :: u32
  ls_period :: u16
  ls_pattern :: u8

definition theme_setColor :: "nat \<Rightarrow> u32 \<Rightarrow> led_signal list \<Rightarrow> led_signal list" where
  "theme_setColor i c t = t[i := (t ! i)\<lparr>ls_color := c\<rparr>]"

definition theme_setPattern :: "nat \<Rightarrow> u8 \<Rightarrow> led_signal list \<Rightarrow> led_signal list" where
  "theme_setPattern i p t = t[i := (t ! i)\<lparr>ls_pattern := (if p \<noteq> LED_PATTERN_CUSTOM then p else LED_PATTERN_SOLID)\<rparr>]"

definition theme_setPeriod :: "nat \<Rightarrow> u16 \<Rightarrow> led_signal list \<Rightarrow> led_signal list" where
  "theme_setPeriod i p t = t[i := (t ! i)\<lparr>ls_period := p\<rparr>]"

definition theme_setSpeed :: "(u8 \<Rightarrow> int \<Rightarrow> u16) \<Rightarrow> nat \<Rightarrow> int \<Rightarrow> led_signal list \<Rightarrow> led_signal list" where
  "theme_setSpeed led_pattern_period i sp t = theme_setPeriod i (led_pattern_period (ls_pattern (t ! i)) sp) t"

text \<open>The operations on a theme never bring in a custom pattern and touch one signal only.\<close>

lemma theme_operations:
  assumes "\<forall>s \<in> set t. ls_pattern s \<noteq> LED_PATTERN_CUSTOM" "i < length t"
  shows "\<forall>s \<in> set (theme_setPattern i p t). ls_pattern s \<noteq> LED_PATTERN_CUSTOM" "\<forall>s \<in> set (theme_setSpeed pp i sp t). ls_pattern s \<noteq> LED_PATTERN_CUSTOM"
    "j \<noteq> i \<Longrightarrow> theme_setPattern i p t ! j = t ! j" "j \<noteq> i \<Longrightarrow> theme_setSpeed pp i sp t ! j = t ! j" "j \<noteq> i \<Longrightarrow> theme_setColor i c t ! j = t ! j"
  using assms nth_mem [OF assms(2)]
  by (auto simp: theme_setPattern_def theme_setSpeed_def theme_setPeriod_def theme_setColor_def LED_PATTERN_CUSTOM_def LED_PATTERN_SOLID_def
      dest!: set_update_subset_insert [THEN subsetD])

end
