(* ===== verification/Spin_Lock.thy ===== *)
theory Spin_Lock
  imports Prelude
begin

text \<open>
  The lock \<open>AtomicFlagMutex\<close> (\<open>services/inc/atomic_flag_mutex.h\<close>).  Each step is one access to the flag, or one call of
  \<open>spin\<close>, of one of the threads; \<open>spin\<close> is a parameter of the template and changes the environment.
\<close>

section \<open>The operations\<close>

datatype spin_pc = Outside | Trying | Spinning | Holding

record 'e spin_state =
  sl_flag :: bool
  sl_pc :: "nat \<Rightarrow> spin_pc"
  sl_env :: 'e

definition spin_init :: "'e \<Rightarrow> 'e spin_state" where
  "spin_init e = \<lparr>sl_flag = False, sl_pc = \<lambda>t. Outside, sl_env = e\<rparr>"

definition test_and_set :: "bool \<Rightarrow> bool \<times> bool" where
  "test_and_set flag = (flag, True)"

text \<open>The condition of the loop of \<open>lock()\<close>, and its body.\<close>

definition lock_test :: "nat \<Rightarrow> 'e spin_state \<Rightarrow> 'e spin_state" where
  "lock_test t s = (let (old, new) = test_and_set (sl_flag s)
     in s\<lparr>sl_flag := new, sl_pc := (sl_pc s)(t := if old then Spinning else Holding)\<rparr>)"

definition lock_spin :: "('e \<Rightarrow> 'e) \<Rightarrow> nat \<Rightarrow> 'e spin_state \<Rightarrow> 'e spin_state" where
  "lock_spin spin t s = s\<lparr>sl_env := spin (sl_env s), sl_pc := (sl_pc s)(t := Trying)\<rparr>"

definition unlock :: "nat \<Rightarrow> 'e spin_state \<Rightarrow> 'e spin_state" where
  "unlock t s = s\<lparr>sl_flag := False, sl_pc := (sl_pc s)(t := Outside)\<rparr>"

text \<open>A thread unlocks only what it holds.\<close>

inductive spin_step :: "('e \<Rightarrow> 'e) \<Rightarrow> nat \<Rightarrow> 'e spin_state \<Rightarrow> 'e spin_state \<Rightarrow> bool" for spin where
  enter: "sl_pc s t = Outside \<Longrightarrow> spin_step spin t s (s\<lparr>sl_pc := (sl_pc s)(t := Trying)\<rparr>)"
| test: "sl_pc s t = Trying \<Longrightarrow> spin_step spin t s (lock_test t s)"
| spinning: "sl_pc s t = Spinning \<Longrightarrow> spin_step spin t s (lock_spin spin t s)"
| leave: "sl_pc s t = Holding \<Longrightarrow> spin_step spin t s (unlock t s)"

inductive spin_run :: "('e \<Rightarrow> 'e) \<Rightarrow> 'e spin_state \<Rightarrow> 'e spin_state \<Rightarrow> bool" for spin where
  start: "spin_run spin s s"
| step: "spin_run spin s s1 \<Longrightarrow> spin_step spin t s1 s2 \<Longrightarrow> spin_run spin s s2"

section \<open>Mutual exclusion and progress\<close>

text \<open>The flag is set exactly while one thread holds the lock.\<close>

definition lock_held :: "'e spin_state \<Rightarrow> bool" where
  "lock_held s \<longleftrightarrow> (if sl_flag s then (\<exists>!t. sl_pc s t = Holding) else (\<forall>t. sl_pc s t \<noteq> Holding))"

lemma lock_held_step:
  assumes "spin_step spin t s s'" "lock_held s"
  shows "lock_held s'"
  using assms
proof cases
  case enter
  then have "sl_pc s' u = Holding \<longleftrightarrow> sl_pc s u = Holding" for u by simp
  then show ?thesis using enter assms(2) by (simp add: lock_held_def)
next
  case test
  then have "sl_pc s' u = Holding \<longleftrightarrow> sl_pc s u = Holding \<or> u = t \<and> \<not> sl_flag s" "sl_flag s'" for u
    by (auto simp: lock_test_def test_and_set_def)
  then show ?thesis using assms(2) by (auto simp: lock_held_def split: if_splits)
next
  case spinning
  then have "sl_pc s' u = Holding \<longleftrightarrow> sl_pc s u = Holding" for u by (simp add: lock_spin_def)
  then show ?thesis using spinning assms(2) by (simp add: lock_held_def lock_spin_def)
next
  case leave
  then show ?thesis using assms(2) by (auto simp: lock_held_def unlock_def split: if_splits)
qed

lemma lock_held_run: "spin_run spin s s' \<Longrightarrow> lock_held s \<Longrightarrow> lock_held s'"
  by (induction rule: spin_run.induct) (blast intro: lock_held_step)+

lemma spin_lock_exclusion:
  assumes "spin_run spin (spin_init e) s" "sl_pc s t = Holding" "sl_pc s u = Holding"
  shows "t = u"
proof -
  have "lock_held s" by (rule lock_held_run [OF assms(1)]) (simp add: lock_held_def spin_init_def)
  then show ?thesis using assms(2,3) by (auto simp: lock_held_def split: if_splits)
qed

text \<open>
  Two steps of a thread that waits are enough when the lock is free: a thread that spins or tries gets it, if the
  others leave the flag alone in between.
\<close>

lemma free_lock_is_taken:
  assumes "spin_run spin (spin_init e) s" "\<forall>t. sl_pc s t \<noteq> Holding"
  shows "sl_pc s t = Trying \<Longrightarrow> sl_pc (lock_test t s) t = Holding"
    and "sl_pc s t = Spinning \<Longrightarrow> sl_pc (lock_test t (lock_spin spin t s)) t = Holding"
proof -
  have "lock_held s" by (rule lock_held_run [OF assms(1)]) (simp add: lock_held_def spin_init_def)
  then have "\<not> sl_flag s" using assms(2) by (auto simp: lock_held_def split: if_splits)
  then show "sl_pc s t = Trying \<Longrightarrow> sl_pc (lock_test t s) t = Holding"
    "sl_pc s t = Spinning \<Longrightarrow> sl_pc (lock_test t (lock_spin spin t s)) t = Holding"
    by (simp_all add: lock_test_def lock_spin_def test_and_set_def)
qed

text \<open>Some thread can always take a step: no thread is ever blocked.\<close>

lemma spin_never_blocked: "\<exists>s'. spin_step spin t s s'"
  by (cases "sl_pc s t") (blast intro: spin_step.intros)+

end
