(* ===== verification/Eeprom_Cells.thy ===== *)
theory Eeprom_Cells
  imports Prelude
begin

text \<open>
  The EEPROM as an application sees it (\<open>wiring/inc/spark_wiring_eeprom.h\<close>): references to cells with the operators of
  a byte in memory, pointers to cells, and the class \<open>EEPROMClass\<close>.  The functions \<open>HAL_EEPROM_*\<close> are parameters.
\<close>

section \<open>Cells\<close>

datatype ee_op = Plus | Minus | Times | Div | Xor | Mod | And | Or | Shl | Shr

text \<open>
  The operators compute with \<open>int\<close> and the result is converted to a byte.  \<open>None\<close> is what C++ leaves undefined: division by
  zero, and shifts by the width of \<open>int\<close> or more.
\<close>

definition to_byte :: "int \<Rightarrow> u8" where "to_byte i = word_of_int i"

fun ee_compute :: "ee_op \<Rightarrow> u8 \<Rightarrow> u8 \<Rightarrow> u8 option" where
  "ee_compute Plus a b = Some (to_byte (uint a + uint b))"
| "ee_compute Minus a b = Some (to_byte (uint a - uint b))"
| "ee_compute Times a b = Some (to_byte (uint a * uint b))"
| "ee_compute Div a b = (if b = 0 then None else Some (to_byte (uint a div uint b)))"
| "ee_compute Mod a b = (if b = 0 then None else Some (to_byte (uint a mod uint b)))"
| "ee_compute Xor a b = Some (to_byte (uint a XOR uint b))"
| "ee_compute And a b = Some (to_byte (uint a AND uint b))"
| "ee_compute Or a b = Some (to_byte (uint a OR uint b))"
| "ee_compute Shl a b = (if unat b < 32 then Some (to_byte (push_bit (unat b) (uint a))) else None)"
| "ee_compute Shr a b = (if unat b < 32 then Some (to_byte (drop_bit (unat b) (uint a))) else None)"

text \<open>
  \<open>rd\<close> is \<open>HAL_EEPROM_Read\<close>, \<open>wr\<close> is \<open>HAL_EEPROM_Write\<close>; an index, an \<open>int\<close>, is passed as \<open>uint32_t\<close>.
\<close>

definition eeref_read :: "('s \<Rightarrow> u32 \<Rightarrow> u8) \<Rightarrow> u32 \<Rightarrow> 's \<Rightarrow> u8" where
  "eeref_read rd i s = rd s i"

definition eeref_assign :: "(u32 \<Rightarrow> u8 \<Rightarrow> 's \<Rightarrow> 's) \<Rightarrow> u32 \<Rightarrow> u8 \<Rightarrow> 's \<Rightarrow> 's" where
  "eeref_assign wr i v s = wr i v s"

definition eeref_copy :: "('s \<Rightarrow> u32 \<Rightarrow> u8) \<Rightarrow> (u32 \<Rightarrow> u8 \<Rightarrow> 's \<Rightarrow> 's) \<Rightarrow> u32 \<Rightarrow> u32 \<Rightarrow> 's \<Rightarrow> 's" where
  "eeref_copy rd wr i j s = eeref_assign wr i (eeref_read rd j s) s"

definition eeref_op :: "('s \<Rightarrow> u32 \<Rightarrow> u8) \<Rightarrow> (u32 \<Rightarrow> u8 \<Rightarrow> 's \<Rightarrow> 's) \<Rightarrow> ee_op \<Rightarrow> u32 \<Rightarrow> u8 \<Rightarrow> 's \<Rightarrow> 's option" where
  "eeref_op rd wr f i v s = (case ee_compute f (eeref_read rd i s) v of None \<Rightarrow> None | Some w \<Rightarrow> Some (eeref_assign wr i w s))"

definition eeref_update :: "(u32 \<Rightarrow> u8 \<Rightarrow> 's \<Rightarrow> 's) \<Rightarrow> u32 \<Rightarrow> u8 \<Rightarrow> 's \<Rightarrow> 's" where
  "eeref_update wr i v s = eeref_assign wr i v s"

text \<open>Increments and decrements, before and after the value is taken.\<close>

definition eeref_pre :: "('s \<Rightarrow> u32 \<Rightarrow> u8) \<Rightarrow> (u32 \<Rightarrow> u8 \<Rightarrow> 's \<Rightarrow> 's) \<Rightarrow> ee_op \<Rightarrow> u32 \<Rightarrow> 's \<Rightarrow> 's option" where
  "eeref_pre rd wr f i s = eeref_op rd wr f i 1 s"

definition eeref_post :: "('s \<Rightarrow> u32 \<Rightarrow> u8) \<Rightarrow> (u32 \<Rightarrow> u8 \<Rightarrow> 's \<Rightarrow> 's) \<Rightarrow> ee_op \<Rightarrow> u32 \<Rightarrow> 's \<Rightarrow> (u8 \<times> 's) option" where
  "eeref_post rd wr f i s = (let ret = eeref_read rd i s in map_option (\<lambda>s'. (ret, s')) (eeref_pre rd wr f i s))"

section \<open>Pointers and the class\<close>

definition eeptr_next :: "u32 \<Rightarrow> u32" where "eeptr_next p = p + 1"
definition eeptr_prev :: "u32 \<Rightarrow> u32" where "eeptr_prev p = p - 1"

text \<open>The value of the postfix operators, and the pointer afterwards.\<close>

definition eeptr_post_next :: "u32 \<Rightarrow> u32 \<times> u32" where "eeptr_post_next p = (p, p + 1)"
definition eeptr_post_prev :: "u32 \<Rightarrow> u32 \<times> u32" where "eeptr_post_prev p = (p, p - 1)"

definition EEPROM_read :: "('s \<Rightarrow> u32 \<Rightarrow> u8) \<Rightarrow> u32 \<Rightarrow> 's \<Rightarrow> u8" where
  "EEPROM_read rd idx s = eeref_read rd idx s"

definition EEPROM_write :: "(u32 \<Rightarrow> u8 \<Rightarrow> 's \<Rightarrow> 's) \<Rightarrow> u32 \<Rightarrow> u8 \<Rightarrow> 's \<Rightarrow> 's" where
  "EEPROM_write wr idx v s = eeref_assign wr idx v s"

definition EEPROM_update :: "(u32 \<Rightarrow> u8 \<Rightarrow> 's \<Rightarrow> 's) \<Rightarrow> u32 \<Rightarrow> u8 \<Rightarrow> 's \<Rightarrow> 's" where
  "EEPROM_update wr idx v s = eeref_update wr idx v s"

text \<open>\<open>length()\<close> returns the \<open>size_t\<close> of \<open>HAL_EEPROM_Length\<close> in 16 bits.\<close>

definition EEPROM_length :: "u32 \<Rightarrow> u16" where "EEPROM_length hal_length = ucast hal_length"
definition EEPROM_begin :: u32 where "EEPROM_begin = 0"
definition EEPROM_end :: "u32 \<Rightarrow> u32" where "EEPROM_end hal_length = ucast (EEPROM_length hal_length)"

section \<open>Operations on cells are operations on bytes\<close>

datatype cell_op = Assign u32 u8 | Copy u32 u32 | Compute ee_op u32 u8 | Post ee_op u32

fun cell_indexes :: "cell_op \<Rightarrow> u32 list" where
  "cell_indexes (Assign i v) = [i]"
| "cell_indexes (Copy i j) = [i, j]"
| "cell_indexes (Compute f i v) = [i]"
| "cell_indexes (Post f i) = [i]"

text \<open>The value of an operation is the one its expression has, a reference to the cell standing for the byte in it.\<close>

fun cell_apply :: "('s \<Rightarrow> u32 \<Rightarrow> u8) \<Rightarrow> (u32 \<Rightarrow> u8 \<Rightarrow> 's \<Rightarrow> 's) \<Rightarrow> cell_op \<Rightarrow> 's \<Rightarrow> (u8 \<times> 's) option" where
  "cell_apply rd wr (Assign i v) s = (let s' = eeref_assign wr i v s in Some (eeref_read rd i s', s'))"
| "cell_apply rd wr (Copy i j) s = (let s' = eeref_copy rd wr i j s in Some (eeref_read rd i s', s'))"
| "cell_apply rd wr (Compute f i v) s = map_option (\<lambda>s'. (eeref_read rd i s', s')) (eeref_op rd wr f i v s)"
| "cell_apply rd wr (Post f i) s = eeref_post rd wr f i s"

text \<open>The same on an array of bytes, with arithmetic modulo 256.\<close>

fun byte_compute :: "ee_op \<Rightarrow> u8 \<Rightarrow> u8 \<Rightarrow> u8 option" where
  "byte_compute Plus a b = Some (a + b)"
| "byte_compute Minus a b = Some (a - b)"
| "byte_compute Times a b = Some (a * b)"
| "byte_compute Div a b = (if b = 0 then None else Some (a div b))"
| "byte_compute Mod a b = (if b = 0 then None else Some (a mod b))"
| "byte_compute Xor a b = Some (a XOR b)"
| "byte_compute And a b = Some (a AND b)"
| "byte_compute Or a b = Some (a OR b)"
| "byte_compute Shl a b = (if unat b < 32 then Some (push_bit (unat b) a) else None)"
| "byte_compute Shr a b = (if unat b < 32 then Some (drop_bit (unat b) a) else None)"

lemma bytes_of_bits:
  "to_byte (uint a XOR uint b) = a XOR b" "to_byte (uint a AND uint b) = a AND b" "to_byte (uint a OR uint b) = a OR b"
  "to_byte (push_bit n (uint a)) = push_bit n a" "to_byte (drop_bit n (uint a)) = drop_bit n a"
  unfolding to_byte_def by (rule bit_word_eqI; auto simp: bit_simps)+

lemma bytes_of_numbers:
  "to_byte (uint a + uint b) = a + b" "to_byte (uint a - uint b) = a - b" "to_byte (uint a * uint b) = a * b"
  "to_byte (uint a div uint b) = a div b" "to_byte (uint a mod uint b) = a mod b"
  by (simp_all only: to_byte_def word_add_def word_sub_wi word_mult_def word_div_def word_mod_def)

lemma ee_compute_bytes: "ee_compute f a b = byte_compute f a b"
  by (cases f) (simp_all only: ee_compute.simps byte_compute.simps bytes_of_bits bytes_of_numbers)

fun byte_apply :: "cell_op \<Rightarrow> u8 list \<Rightarrow> (u8 \<times> u8 list) option" where
  "byte_apply (Assign i v) m = Some (v, m[unat i := v])"
| "byte_apply (Copy i j) m = Some (m ! unat j, m[unat i := m ! unat j])"
| "byte_apply (Compute f i v) m = map_option (\<lambda>w. (w, m[unat i := w])) (byte_compute f (m ! unat i) v)"
| "byte_apply (Post f i) m = map_option (\<lambda>w. (m ! unat i, m[unat i := w])) (byte_compute f (m ! unat i) 1)"

text \<open>What the EEPROM of the HAL promises: the cells below its length are memory.\<close>

definition cells_are_memory :: "nat \<Rightarrow> ('s \<Rightarrow> u32 \<Rightarrow> u8) \<Rightarrow> (u32 \<Rightarrow> u8 \<Rightarrow> 's \<Rightarrow> 's) \<Rightarrow> bool" where
  "cells_are_memory n rd wr \<longleftrightarrow> (\<forall>s i j v. unat i < n \<longrightarrow> unat j < n \<longrightarrow> rd (wr i v s) j = (if i = j then v else rd s j))"

definition eeprom_bytes :: "nat \<Rightarrow> ('s \<Rightarrow> u32 \<Rightarrow> u8) \<Rightarrow> 's \<Rightarrow> u8 list" where
  "eeprom_bytes n rd s = map (\<lambda>i. rd s (of_nat i)) [0..<n]"

lemma bytes_nth: "unat i < n \<Longrightarrow> eeprom_bytes n rd s ! unat i = rd s i"
  by (simp add: eeprom_bytes_def)

lemma bytes_write:
  assumes "cells_are_memory n rd wr" "unat i < n" "n \<le> 2 ^ 32"
  shows "eeprom_bytes n rd (wr i v s) = (eeprom_bytes n rd s)[unat i := v]"
proof (rule nth_equalityI)
  fix k assume "k < length (eeprom_bytes n rd (wr i v s))"
  then have k: "k < n" by (simp add: eeprom_bytes_def)
  then have u: "unat (of_nat k :: u32) = k" using assms(3) by (simp add: unat_of_nat_u32)
  have "rd (wr i v s) (of_nat k) = (if i = of_nat k then v else rd s (of_nat k))"
    using assms(1,2) k u unfolding cells_are_memory_def by simp
  moreover have "i = of_nat k \<longleftrightarrow> unat i = k" using u by auto
  ultimately show "eeprom_bytes n rd (wr i v s) ! k = (eeprom_bytes n rd s)[unat i := v] ! k"
    using k by (simp add: eeprom_bytes_def nth_list_update)
qed (simp add: eeprom_bytes_def)

lemma cells_behave_like_bytes:
  assumes "cells_are_memory n rd wr" "n \<le> 2 ^ 32" "\<forall>i \<in> set (cell_indexes c). unat i < n"
  shows "map_option (apsnd (eeprom_bytes n rd)) (cell_apply rd wr c s) = byte_apply c (eeprom_bytes n rd s)"
proof -
  have same: "rd (wr i v s) i = v" if "unat i < n" for i v s
    using assms(1) that unfolding cells_are_memory_def by simp
  show ?thesis
    using assms(3) bytes_write [OF assms(1) _ assms(2)]
    by (cases c) (auto simp: eeref_read_def eeref_assign_def eeref_copy_def eeref_op_def eeref_pre_def eeref_post_def bytes_nth same
        ee_compute_bytes Let_def split: option.splits)
qed

section \<open>Iteration\<close>

text \<open>The cells a loop from \<open>begin()\<close> to \<open>end()\<close> visits: each below the length once, if the length fits 16 bits.\<close>

fun cells_between :: "nat \<Rightarrow> u32 \<Rightarrow> u32 \<Rightarrow> u32 list option" where
  "cells_between 0 p e = (if p = e then Some [] else None)"
| "cells_between (Suc fuel) p e = (if p = e then Some [] else map_option ((#) p) (cells_between fuel (eeptr_next p) e))"

lemma iteration_visits_cells:
  assumes "unat hal_length < 2 ^ 16"
  shows "cells_between (unat hal_length) EEPROM_begin (EEPROM_end hal_length) = Some (map of_nat [0..<unat hal_length])"
proof -
  have e: "EEPROM_end hal_length = of_nat (unat hal_length)"
    using assms by (simp add: EEPROM_end_def EEPROM_length_def word_unat_eq_iff unsigned_ucast_eq unsigned_take_bit_eq take_bit_nat_eq_self)
  have "cells_between k (of_nat p) (of_nat (p + k)) = Some (map of_nat [p..<p + k])" if "p + k < 2 ^ 16" for p k
    using that
  proof (induction k arbitrary: p)
    case (Suc k)
    have "unat (of_nat p :: u32) = p" "unat (of_nat (p + Suc k) :: u32) = p + Suc k"
      using Suc.prems by (intro unat_of_nat_u32; simp)+
    then have "unat (of_nat p :: u32) \<noteq> unat (of_nat (p + Suc k) :: u32)" by linarith
    then have "(of_nat p :: u32) \<noteq> of_nat (p + Suc k)" by metis
    moreover have "cells_between k (of_nat (Suc p)) (of_nat (Suc p + k)) = Some (map of_nat [Suc p..<Suc p + k])"
      by (rule Suc.IH) (use Suc.prems in simp)
    moreover have "[p..<p + Suc k] = p # [Suc p..<Suc p + k]" by (simp add: upt_rec)
    moreover have "eeptr_next (of_nat p) = of_nat (Suc p)" by (simp add: eeptr_next_def)
    ultimately show ?case by (simp del: upt_Suc of_nat_Suc of_nat_add)
  qed simp
  from this [of 0 "unat hal_length"] show ?thesis using assms e by (simp add: EEPROM_begin_def)
qed

text \<open>A length of 64 KiB is cut to zero, and the loop visits no cell.\<close>

lemma length_is_cut: "EEPROM_length 0x10000 = 0" "EEPROM_end 0x10000 = EEPROM_begin"
  by (simp_all add: EEPROM_length_def EEPROM_end_def EEPROM_begin_def)

end
