(* ===== verification/Cloud_Api.thy ===== *)
theory Cloud_Api
  imports Prelude
begin

text \<open>
  The interface of applications to the cloud (\<open>wiring/inc/spark_wiring_cloud.h\<close>) and the typed flags it uses
  (\<open>wiring/inc/spark_wiring_flags.h\<close>).  The system functions it calls are parameters, or the definitions give the arguments
  they are called with.
\<close>

section \<open>Flags\<close>

text \<open>The tag type only tells flags of different kinds apart; the value is a word.\<close>

datatype 'v flag = Flag 'v
datatype 'v flags = Flags 'v

primrec flag_value :: "'v flag \<Rightarrow> 'v" where "flag_value (Flag v) = v"
primrec flags_value :: "'v flags \<Rightarrow> 'v" where "flags_value (Flags v) = v"

definition no_flags :: "'a::len word flags" where "no_flags = Flags 0"
definition flags_of :: "'a::len word flag \<Rightarrow> 'a word flags" where "flags_of f = Flags (flag_value f)"

definition flags_or :: "'a::len word flags \<Rightarrow> 'a word flags \<Rightarrow> 'a word flags" where
  "flags_or f g = Flags (flags_value f OR flags_value g)"

definition flags_and :: "'a::len word flags \<Rightarrow> 'a word flags \<Rightarrow> 'a word flags" where
  "flags_and f g = Flags (flags_value f AND flags_value g)"

definition flags_xor :: "'a::len word flags \<Rightarrow> 'a word flags \<Rightarrow> 'a word flags" where
  "flags_xor f g = Flags (flags_value f XOR flags_value g)"

definition flags_not :: "'a::len word flags \<Rightarrow> 'a word flags" where "flags_not f = Flags (NOT (flags_value f))"
definition flags_bool :: "'a::len word flags \<Rightarrow> bool" where "flags_bool f \<longleftrightarrow> flags_value f \<noteq> 0"

definition flag_or :: "'a::len word flag \<Rightarrow> 'a word flag \<Rightarrow> 'a word flags" where "flag_or f g = flags_or (flags_of f) (flags_of g)"
definition flag_or_flags :: "'a::len word flag \<Rightarrow> 'a word flags \<Rightarrow> 'a word flags" where "flag_or_flags f g = flags_or g (flags_of f)"
definition flag_and_flags :: "'a::len word flag \<Rightarrow> 'a word flags \<Rightarrow> 'a word flags" where "flag_and_flags f g = flags_and g (flags_of f)"
definition flag_xor_flags :: "'a::len word flag \<Rightarrow> 'a word flags \<Rightarrow> 'a word flags" where "flag_xor_flags f g = flags_xor g (flags_of f)"

lemmas flags_defs = flags_or_def flags_and_def flags_xor_def flags_not_def flags_bool_def flags_of_def no_flags_def
  flag_or_def flag_or_flags_def flag_and_flags_def flag_xor_flags_def

text \<open>A flag of one bit is in the combination exactly of those sets that have it.\<close>

lemma flag_in_or:
  assumes "flag_value f = push_bit n 1" "n < LENGTH('a)"
  shows "flags_bool (flag_and_flags (f :: 'a::len word flag) (flags_or g h)) \<longleftrightarrow> flags_bool (flag_and_flags f g) \<or> flags_bool (flag_and_flags f h)"
proof -
  have b: "w AND push_bit n 1 \<noteq> 0 \<longleftrightarrow> bit w n" for w :: "'a word"
  proof -
    have "w AND push_bit n 1 \<noteq> 0 \<longleftrightarrow> (\<exists>k. bit (w AND push_bit n 1) k)" using bit_eqI [of "w AND push_bit n 1" 0] by auto
    then show ?thesis using assms(2) by (auto simp: bit_simps)
  qed
  show ?thesis by (simp only: flags_defs flags_value.simps assms(1) b bit_or_iff)
qed

section \<open>Publishing\<close>

type_synonym publish_flags = "u8 flags"

definition publish_PUBLIC :: "u8 flag" where "publish_PUBLIC = Flag 0"
definition publish_PRIVATE :: "u8 flag" where "publish_PRIVATE = Flag 1"
definition publish_NO_ACK :: "u8 flag" where "publish_NO_ACK = Flag 2"
definition publish_WITH_ACK :: "u8 flag" where "publish_WITH_ACK = Flag 8"

text \<open>The overloads of \<open>publish\<close>, down to the arguments of \<open>publish_event\<close>; a null pointer is \<open>None\<close>.\<close>

definition publish_ttl :: "(string \<Rightarrow> string option \<Rightarrow> int \<Rightarrow> publish_flags \<Rightarrow> 'r) \<Rightarrow> string \<Rightarrow> string option \<Rightarrow> int \<Rightarrow> publish_flags \<Rightarrow> publish_flags \<Rightarrow> 'r" where
  "publish_ttl publish_event nm data ttl f1 f2 = publish_event nm data ttl (flags_or f1 f2)"

definition publish_data :: "(string \<Rightarrow> string option \<Rightarrow> int \<Rightarrow> publish_flags \<Rightarrow> 'r) \<Rightarrow> string \<Rightarrow> string option \<Rightarrow> publish_flags \<Rightarrow> publish_flags \<Rightarrow> 'r" where
  "publish_data publish_event nm data f1 f2 = publish_ttl publish_event nm data 60 f1 f2"

definition publish_name :: "(string \<Rightarrow> string option \<Rightarrow> int \<Rightarrow> publish_flags \<Rightarrow> 'r) \<Rightarrow> string \<Rightarrow> publish_flags \<Rightarrow> publish_flags \<Rightarrow> 'r" where
  "publish_name publish_event nm f1 f2 = publish_data publish_event nm None f1 f2"

definition publish_public_name :: "(string \<Rightarrow> string option \<Rightarrow> int \<Rightarrow> publish_flags \<Rightarrow> 'r) \<Rightarrow> string \<Rightarrow> 'r" where
  "publish_public_name publish_event nm = publish_name publish_event nm (flags_of publish_PUBLIC) no_flags"

definition publish_public_data :: "(string \<Rightarrow> string option \<Rightarrow> int \<Rightarrow> publish_flags \<Rightarrow> 'r) \<Rightarrow> string \<Rightarrow> string option \<Rightarrow> 'r" where
  "publish_public_data publish_event nm data = publish_data publish_event nm data (flags_of publish_PUBLIC) no_flags"

definition publish_public_ttl :: "(string \<Rightarrow> string option \<Rightarrow> int \<Rightarrow> publish_flags \<Rightarrow> 'r) \<Rightarrow> string \<Rightarrow> string option \<Rightarrow> int \<Rightarrow> 'r" where
  "publish_public_ttl publish_event nm data ttl = publish_ttl publish_event nm data ttl (flags_of publish_PUBLIC) no_flags"

text \<open>Events without a time to live have one of a minute, and without a scope they are public.\<close>

lemma publish_defaults:
  "publish_public_name p nm = p nm None 60 no_flags" "publish_public_data p nm data = p nm data 60 no_flags"
  "publish_name p nm (flags_of publish_PRIVATE) (flags_of publish_WITH_ACK) = p nm None 60 (Flags 9)"
  by (simp_all add: publish_public_name_def publish_public_data_def publish_name_def publish_data_def publish_ttl_def flags_defs publish_PUBLIC_def publish_PRIVATE_def publish_WITH_ACK_def)

section \<open>Variables\<close>

text \<open>The type a variable is registered with, and whether its value is read through \<open>update_string_variable\<close>.\<close>

datatype variable_type = VAR_BOOLEAN | VAR_INT | VAR_STRING | VAR_DOUBLE
datatype 'p cloud_object = BoolVar 'p | IntVar 'p | Int32Var 'p | UInt32Var 'p | DoubleVar 'p | StringVar 'p | CharsVar 'p

definition string_registration :: "'p \<Rightarrow> 'p \<times> variable_type \<times> bool" where
  "string_registration p = (p, VAR_STRING, True)"

fun variable_registration :: "'p cloud_object \<Rightarrow> 'p \<times> variable_type \<times> bool" where
  "variable_registration (BoolVar p) = (p, VAR_BOOLEAN, False)"
| "variable_registration (IntVar p) = (p, VAR_INT, False)"
| "variable_registration (Int32Var p) = (p, VAR_INT, False)"
| "variable_registration (UInt32Var p) = (p, VAR_INT, False)"
| "variable_registration (DoubleVar p) = (p, VAR_DOUBLE, False)"
| "variable_registration (StringVar p) = string_registration p"
| "variable_registration (CharsVar p) = (p, VAR_STRING, False)"

section \<open>Callable objects of functions and subscriptions\<close>

datatype api_scope = My_devices | All_devices

text \<open>
  The copies of callable objects on the heap, and the registrations of the system, whose function \<open>reg\<close> is a parameter: it
  gets the address of the copy and says whether it accepts.  \<open>None\<close> as an address is an allocation that has failed.
\<close>

record ('f, 's) cloud_state =
  cl_wrappers :: "nat \<Rightarrow> 'f option"
  cl_system :: 's

definition wrap_and_register :: "(nat \<Rightarrow> 's \<Rightarrow> bool \<times> 's) \<Rightarrow> nat option \<Rightarrow> 'f option \<Rightarrow> ('f, 's) cloud_state \<Rightarrow> bool \<times> ('f, 's) cloud_state" where
  "wrap_and_register reg new f s = (case f of None \<Rightarrow> (False, s) | Some g \<Rightarrow> (case new of None \<Rightarrow> (False, s)
     | Some a \<Rightarrow> (let s1 = s\<lparr>cl_wrappers := (cl_wrappers s)(a \<mapsto> g)\<rparr>; (ok, sys) = reg a (cl_system s1) in (ok, s1\<lparr>cl_system := sys\<rparr>))))"

definition function_std :: "(nat \<Rightarrow> string \<Rightarrow> 's \<Rightarrow> bool \<times> 's) \<Rightarrow> nat option \<Rightarrow> string \<Rightarrow> 'f option \<Rightarrow> ('f, 's) cloud_state \<Rightarrow> bool \<times> ('f, 's) cloud_state" where
  "function_std register_function new key f s = wrap_and_register (\<lambda>a. register_function a key) new f s"

definition subscribe_wiring :: "(string \<Rightarrow> nat \<Rightarrow> api_scope \<Rightarrow> string option \<Rightarrow> 's \<Rightarrow> bool \<times> 's) \<Rightarrow> nat option \<Rightarrow>
    string \<Rightarrow> 'f option \<Rightarrow> api_scope \<Rightarrow> string option \<Rightarrow> ('f, 's) cloud_state \<Rightarrow> bool \<times> ('f, 's) cloud_state" where
  "subscribe_wiring spark_subscribe new nm h scope dev s = wrap_and_register (\<lambda>a. spark_subscribe nm a scope dev) new h s"

definition subscribe_scope :: "(string \<Rightarrow> nat \<Rightarrow> api_scope \<Rightarrow> string option \<Rightarrow> 's \<Rightarrow> bool \<times> 's) \<Rightarrow> nat option \<Rightarrow>
    string \<Rightarrow> 'f option \<Rightarrow> api_scope \<Rightarrow> ('f, 's) cloud_state \<Rightarrow> bool \<times> ('f, 's) cloud_state" where
  "subscribe_scope spark_subscribe new nm h scope s = subscribe_wiring spark_subscribe new nm h scope None s"

definition subscribe_device :: "(string \<Rightarrow> nat \<Rightarrow> api_scope \<Rightarrow> string option \<Rightarrow> 's \<Rightarrow> bool \<times> 's) \<Rightarrow> nat option \<Rightarrow>
    string \<Rightarrow> 'f option \<Rightarrow> string \<Rightarrow> ('f, 's) cloud_state \<Rightarrow> bool \<times> ('f, 's) cloud_state" where
  "subscribe_device spark_subscribe new nm h dev s = subscribe_wiring spark_subscribe new nm h My_devices (Some dev) s"

definition subscribe_default :: "(string \<Rightarrow> nat \<Rightarrow> api_scope \<Rightarrow> string option \<Rightarrow> 's \<Rightarrow> bool \<times> 's) \<Rightarrow> nat option \<Rightarrow>
    string \<Rightarrow> 'f option \<Rightarrow> ('f, 's) cloud_state \<Rightarrow> bool \<times> ('f, 's) cloud_state" where
  "subscribe_default spark_subscribe new nm h s = subscribe_scope spark_subscribe new nm h All_devices s"

text \<open>
  What a registration that was accepted refers to is a copy of the callable object, and the copies of earlier
  registrations stay as they are when \<open>new\<close> returns a fresh address.
\<close>

lemma registration_accepted:
  assumes "wrap_and_register reg (Some a) (Some f) s = (True, s')" "cl_wrappers s a = None"
  shows "cl_wrappers s' a = Some f" "\<And>b. cl_wrappers s b \<noteq> None \<Longrightarrow> cl_wrappers s' b = cl_wrappers s b"
    "cl_system s' = snd (reg a (cl_system s))"
  using assms by (auto simp: wrap_and_register_def split: prod.splits)

text \<open>The copy stays allocated when the registration is refused.\<close>

lemma refused_registration_leaks:
  assumes "reg a (cl_system s) = (False, cl_system s)"
  shows "wrap_and_register reg (Some a) (Some f) s = (False, s\<lparr>cl_wrappers := (cl_wrappers s)(a \<mapsto> f)\<rparr>)"
  using assms by (simp add: wrap_and_register_def)

section \<open>Time and connection\<close>

text \<open>\<open>conn\<close> is \<open>spark_cloud_flag_connected()\<close>, \<open>pending\<close> is \<open>spark_sync_time_pending\<close>.\<close>

definition cloud_disconnected :: "bool \<Rightarrow> bool" where "cloud_disconnected conn \<longleftrightarrow> \<not> conn"
definition syncTimePending :: "bool \<Rightarrow> bool \<Rightarrow> bool" where "syncTimePending conn pending \<longleftrightarrow> conn \<and> pending"
definition syncTimeDone :: "bool \<Rightarrow> bool \<Rightarrow> bool" where "syncTimeDone conn pending \<longleftrightarrow> \<not> pending \<or> cloud_disconnected conn"

definition timeSyncedLast :: "('t \<Rightarrow> 'k \<times> 't) \<Rightarrow> 't \<Rightarrow> 't \<Rightarrow> 'k \<times> 't" where
  "timeSyncedLast spark_sync_time_last zero tm = spark_sync_time_last zero"

lemma sync_done_iff: "syncTimeDone conn pending \<longleftrightarrow> \<not> syncTimePending conn pending"
  by (auto simp: syncTimeDone_def syncTimePending_def cloud_disconnected_def)

end
