(* ===== verification/Spec2Isabelle.thy ===== *)
theory Spec2Isabelle
  imports Eeprom_Properties Dcd_Properties Fixed_Containers Simple_Pool Vectors Completion_Handlers Coap_Reliable Protocol_Services Futures Wifi_Credentials Diagnostics Mdns_Properties Active_Object_Calls Server_Address Timers Threads Waiting Text_Buffers Chunk_Bitmap Led_Status Spin_Lock Eeprom_Cells Cloud_Api
begin

text \<open>
  \<^bold>\<open>Verification library for the RedBear Duo firmware\<close>

  The repository is the Arduino board package of the RedBear Duo.  It holds the firmware of the device as headers
  (\<open>src/arduino/cores/RedBear_Duo/firmware\<close>, below \<open>firmware/\<close>), with the libraries it is linked with as archives, and
  the Arduino library \<open>src/arduino/libraries/RedBear_Duo\<close> (below \<open>library/\<close>) as source.  What the firmware computes
  itself, as opposed to what it declares, is in the inline and template code of the headers.  The development
  models this code; a function that is only declared is a parameter of the definitions that call it.

  \<^bold>\<open>The parts of the program and how they interact\<close>

  Storage: the EEPROM emulation and the store of the device configuration data (DCD) keep their data in two flash
  sectors each, through a common storage interface with a mock and two hardware implementations.
  Memory and containers: \<open>Vector\<close>, \<open>FixedQueue\<close>, the pool allocator, the ring buffer arithmetic and \<open>append_list\<close>;
  \<open>Vector\<close> holds the handlers of the completion handler containers.
  Cloud protocol: messages are bytes in the buffer of a channel; the reliable channel keeps the messages that wait for an
  acknowledgement; subscriptions, publishing, pings, time requests, function calls and variables are services that read
  and write these messages, and \<open>Protocol\<close> connects them.  An event that is published carries a completion handler.
  Concurrency: active objects execute the calls that other threads put into their queue, which is how an application
  calls system functions; \<open>Timer\<close> and \<open>Thread\<close> are objects that threads of the operating system refer to.
  Application interface: futures and promises, to which the completion handlers deliver, the credentials of WiFi
  networks, the diagnostic data sources, waiting for conditions, and the status of the LED.
  Arduino library: the mDNS responder.

  \<^bold>\<open>Theories\<close>

  \<open>Prelude\<close>: machine integers, byte images of integers, lists and maps that the components share.

  \<open>Flash_Storage\<close>: \<open>RAMFlashStorage\<close> with its counter of bytes until the power fails, \<open>SerialFlashStore\<close> and
  \<open>InternalFlashStore\<close> (\<open>firmware/services/inc/flash_storage.h\<close>, \<open>flash_storage_impl.h\<close>, \<open>sflash_storage_impl.h\<close>).  The
  locale \<open>flash_store\<close> is the contract between a store and its clients: reads return the content, writes clear bits,
  erase sets a sector to 0xFF, and after a power failure a prefix of a write is on the flash.  \<open>Flash_Chips\<close> proves
  that contract for the two hardware stores from the laws of the chip drivers (locales \<open>internal_chip\<close>, \<open>serial_chip\<close>).

  \<open>Eeprom_Emulation\<close>: every member function of \<open>EEPROMEmulation\<close> (\<open>firmware/services/inc/eeprom_emulation.h\<close>) over any
  store; 16-bit indexes and lengths wrap.  \<open>Eeprom_Records\<close> is the abstract side, lists of records and the map they
  stand for; \<open>Eeprom_Pages\<close> views a page as a status and a list of slots; \<open>Eeprom_Reading\<close>, \<open>Eeprom_Writing\<close>,
  \<open>Eeprom_Swap\<close>, \<open>Eeprom_Correct\<close> and \<open>Eeprom_Service\<close> prove each operation against that view, with a power failure
  at any byte; \<open>Eeprom_Properties\<close> draws the conclusions for the internal flash: sequences of puts update a map and
  terminate, and a power failure at any moment is recovered from.

  \<open>Dcd\<close>: every member function of \<open>DCD\<close> and \<open>UpdateDCD\<close> (\<open>firmware/services/inc/dcd.h\<close>) over any store, with the CRC as
  a parameter.  \<open>Dcd_Views\<close>, \<open>Dcd_Correct\<close>, \<open>Dcd_Migration\<close> and \<open>Dcd_Properties\<close> prove that reads return what was
  written, that a write cut off at any byte leaves the old or the new content, and that the migration of the old format
  can be repeated until it succeeds.

  \<open>Fixed_Containers\<close>: \<open>FixedQueue\<close>, \<open>ringbuf_helper.h\<close> and \<open>append_list\<close>, the queue against a bounded list queue.
  \<open>Simple_Pool\<close>: \<open>SimpleBasePool\<close> (\<open>firmware/system/inc/simple_pool_allocator.h\<close>); the free list and the
  blocks in use partition the pool.
  \<open>Vectors\<close>: \<open>Vector\<close> (\<open>firmware/wiring/inc/spark_wiring_vector.h\<close>) with the lifetime of each object; the operations
  refine operations on lists.
  \<open>Completion_Handlers\<close>: \<open>firmware/services/inc/completion_handler.h\<close>; each callback is invoked exactly once, and the
  containers refine timers on an unbounded clock as long as the 32-bit tick counter does not wrap.

  \<open>Coap_Messages\<close>: \<open>coap.h\<close>, \<open>messages.h\<close>, \<open>message_channel.h\<close>, \<open>buffer_message_channel.h\<close> and \<open>CoAPChannel\<close> (all under
  \<open>firmware/communication/src\<close>).  \<open>Coap_Store\<close>: \<open>CoAPMessage\<close> and \<open>CoAPMessageStore\<close> of \<open>coap_channel.h\<close> as objects of a
  heap linked by pointers, refined by a table, and the schedule of the retransmissions.  \<open>Coap_Reliable\<close>: synchronous
  sending and \<open>CoAPReliableChannel\<close>.
  \<open>Subscriptions\<close>: \<open>subscriptions.h\<close>, \<open>events.h\<close>.  \<open>Publishing\<close>: \<open>publisher.h\<close> and \<open>Protocol::send_event\<close>.
  \<open>Protocol_Services\<close>: \<open>ping.h\<close>, \<open>timesyncmanager.h\<close>, \<open>functions.h\<close>, \<open>variables.h\<close> and the inline operations of
  \<open>protocol.h\<close>.

  \<open>Futures\<close>: \<open>firmware/wiring/inc/spark_wiring_async.h\<close>, \<open>spark_wiring_error.h\<close>.  Operations are activations that
  perform atomic actions in any interleaving (the relation \<open>act_step\<close>); invariants by induction on the steps.
  \<open>Wifi_Credentials\<close>: \<open>spark_wiring_wifi_credentials.h\<close> and \<open>WiFiClass::setCredentials\<close>, with the blocks that the
  pointers refer to.
  \<open>Diagnostics\<close>: \<open>spark_wiring_diagnostics.h\<close> over a concurrency policy, as steps that an interrupt or a reset may
  interrupt.

  \<open>Active_Objects\<close>: \<open>firmware/system/inc/active_object.h\<close> and \<open>system_threading.h\<close>: items, the queue, the tasks with their
  promises, the loop that serves them, and the threads that call, as a step relation over a heap with an invariant.
  \<open>Active_Object_Calls\<close>: a call is executed at most once and has been when it returns, a synchronous
  call returns the result of its function, no task is left behind, and a caller that waits is served, if semaphores can be created.

  \<open>Server_Address\<close>: \<open>firmware/hal/shared/parse_server_address.h\<close> on the bytes of the packed structure.
  \<open>Timers\<close>: \<open>firmware/wiring/inc/spark_wiring_timer.h\<close>; \<open>Threads\<close>: \<open>spark_wiring_thread.h\<close>, each with the threads that use, run and
  destroy an object, in any interleaving.
  \<open>Waiting\<close>: the waiting functions and \<open>ticksDelay\<close> of \<open>spark_wiring_system.h\<close>, with a clock that wraps.

  \<open>Text_Buffers\<close>: \<open>firmware/services/inc/appender.h\<close>, whose contract is the locale \<open>appender\<close>, and \<open>bytes2hexbuf.h\<close>.
  \<open>Chunk_Bitmap\<close>: the inline functions of \<open>chunked_transfer.h\<close> and \<open>file_transfer.h\<close> (\<open>firmware/communication/src\<close>).
  \<open>Led_Status\<close>: \<open>firmware/wiring/inc/spark_wiring_led.h\<close> with the structures of \<open>led_service.h\<close> and \<open>system_led_signal.h\<close>, refined
  by a status whose fields are separate values.
  \<open>Spin_Lock\<close>: \<open>firmware/services/inc/atomic_flag_mutex.h\<close>; at most one thread holds the lock, and a free lock is taken.
  \<open>Eeprom_Cells\<close>: \<open>spark_wiring_eeprom.h\<close> over the functions of the HAL; operations on cells are operations on bytes in memory.
  \<open>Cloud_Api\<close>: \<open>spark_wiring_cloud.h\<close> and \<open>spark_wiring_flags.h\<close>: the arguments with which applications publish, and the
  copies of callable objects for functions and subscriptions (all \<open>firmware/wiring/inc\<close>).

  \<open>Mdns_Buffer\<close>, \<open>Mdns_Labels\<close>, \<open>Mdns_Responder\<close>: \<open>Buffer\<close>, \<open>Label\<close> with its reader, iterator and matcher, \<open>QuerySet\<close>,
  \<open>TxtData\<close> and \<open>MDNS\<close> (\<open>library/src\<close>).  \<open>Mdns_Names\<close>: writing and reading names with compression.  \<open>Mdns_Matching\<close>:
  what the matcher decides, when it returns, what it reads.  \<open>Mdns_Setup\<close>, \<open>Mdns_Properties\<close>: host names, text records,
  which packets are answered and the form of the answers.

  \<^bold>\<open>Termination, fuel and bounds\<close>

  The loops of the source are recursive functions with a measure, except where they may run for ever.  Those are
  \<open>partial_function (option)\<close>: the copy of the page swap (\<open>for_each_unique_loop\<close>, which diverges from an index near the
  end of 16 bits), the loops of the mDNS matcher and of the query reader, and the waiting loops of the futures and of
  \<open>Waiting\<close> (\<open>wait_loop\<close>, \<open>ticks_loop\<close>); the theorems
  state \<open>Some\<close> for their result or prove that it is \<open>None\<close>.  Integers keep the width of the source where they are
  words; offsets into memory that the code computes as pointers are natural numbers.

  \<^bold>\<open>What is assumed\<close>

  Chip drivers: the laws of \<open>internal_chip\<close> and \<open>serial_chip\<close>, each with an instance.  Allocators decide freely whether a
  request succeeds.  CRC functions, the transport, the clock, callbacks and the functions declared without a body are
  arbitrary functions, with hypotheses only where a property names them.  The operating system is the environment of the
  steps: its queues are first in, first out and may refuse an item, its semaphores and timers behave as their
  documentation says (a request to stop a timer that was accepted has taken effect when it returns), and a property that
  something is reached says which threads it lets run.  That a wait with a timeout ends assumes that the clock advances, by
  less than its range, in each round.  \<open>led_set_status_active\<close> changes the flag for active statuses only.
  In the mDNS responder the operands of \<open>|\<close> in \<open>readUInt16\<close> are read from left to right, which C++ leaves open.

  \<^bold>\<open>Not modelled\<close>

  Headers that only declare functions or constants (the HAL interfaces, most of \<open>firmware/wiring\<close>, \<open>firmware/system\<close>, the
  dynamic library tables), the vendored stacks and drivers (WICED, btstack, CMSIS, the STM32 peripheral and USB
  libraries, miniz, jsmn, ArduinoJson, the Grove drivers), and the examples.  The handshake, the DTLS and LightSSL
  channels, the handlers of the chunked transfer of files, the LED service and the JSON classes have their
  logic in files that are not in the repository.  \<open>PROJECT.json\<close> lists each of these parts with its reason.
\<close>

end
